(* ===== verification/Prelude.thy ===== *)
theory Prelude
  imports Main "HOL-Library.Word"
begin

text \<open>
  Shared vocabulary of the development: the machine types of the target, the bit-operation
  syntax bundle, and the lemmas on lists and words that several components need.

  The target is the Silvermoon board (ARM, \<^verbatim>\<open>include/configs/aspenite.h\<close>): little-endian,
  \<open>int\<close>, \<open>long\<close> and pointers are 32 bits wide, plain \<open>char\<close> is unsigned.
\<close>

unbundle bit_operations_syntax

section \<open>Machine types\<close>

type_synonym u8 = "8 word"
type_synonym u16 = "16 word"
type_synonym u32 = "32 word"
type_synonym u64 = "64 word"

named_theorems u_bounds "upper bounds of unat on the machine types"
named_theorems loop_simps "one-step unfolding equations of the loops"

lemma unat_u8_less [u_bounds, simp]: "unat (b :: u8) < 256"
  using unsigned_less [of b, where ?'a = nat] by simp

lemma unat_u16_less [u_bounds]: "unat (w :: u16) < 65536"
  using unsigned_less [of w, where ?'a = nat] by simp

lemma unat_u32_less [u_bounds]: "unat (w :: u32) < 4294967296"
  using unsigned_less [of w, where ?'a = nat] by simp

section \<open>Lists as byte buffers\<close>

text \<open>
  \<open>memcpy dst off src\<close> overwrites \<open>dst\<close> from index \<open>off\<close> with all of \<open>src\<close>, as
  \<^verbatim>\<open>memcpy(dst + off, src, len)\<close> does when the copied range lies inside \<open>dst\<close>.
\<close>

definition buf_write :: "'a list \<Rightarrow> nat \<Rightarrow> 'a list \<Rightarrow> 'a list" where
  "buf_write dst off src = take off dst @ src @ drop (off + length src) dst"

lemma length_buf_write [simp]:
  "off + length src \<le> length dst \<Longrightarrow> length (buf_write dst off src) = length dst"
  by (simp add: buf_write_def)

lemma take_buf_write [simp]:
  "off + length src \<le> length dst \<Longrightarrow> take (off + length src) (buf_write dst off src) = take off dst @ src"
  by (simp add: buf_write_def)

lemma take_buf_write_upto:
  "n = off + length src \<Longrightarrow> n \<le> length dst \<Longrightarrow> take n (buf_write dst off src) = take off dst @ src"
  by simp

lemma buf_write_full:
  "off + length src = length dst \<Longrightarrow> buf_write dst off src = take off dst @ src"
  by (simp add: buf_write_def)

lemma nth_buf_write:
  assumes "off + length src \<le> length dst" and "i < length dst"
  shows "buf_write dst off src ! i =
    (if off \<le> i \<and> i < off + length src then src ! (i - off) else dst ! i)"
  using assms by (auto simp: buf_write_def nth_append min_def)

lemma take_map_nth: "n \<le> length xs \<Longrightarrow> take n xs = map ((!) xs) [0..<n]"
  by (rule nth_equalityI) simp_all

text \<open>A list that is extended by one computed element per step, as message schedules are.\<close>

lemma length_extend:
  "length W0 = k \<Longrightarrow> k \<le> n \<Longrightarrow> length (foldl (\<lambda>W t. W @ [g W t]) W0 [k..<n]) = n"
  by (induction n) (auto simp: le_Suc_eq)

lemma take_extend:
  "length W0 = k \<Longrightarrow> k \<le> m \<Longrightarrow> m \<le> n \<Longrightarrow>
    take m (foldl (\<lambda>W t. W @ [g W t]) W0 [k..<n]) = foldl (\<lambda>W t. W @ [g W t]) W0 [k..<m]"
proof (induction n)
  case (Suc n)
  then show ?case by (cases "m = Suc n") (auto simp: length_extend)
qed simp

lemma nth_extend:
  assumes "length W0 = k" "k \<le> t" "t < n"
  shows "foldl (\<lambda>W t. W @ [g W t]) W0 [k..<n] ! t = g (foldl (\<lambda>W t. W @ [g W t]) W0 [k..<t]) t"
proof -
  have "foldl (\<lambda>W t. W @ [g W t]) W0 [k..<n] ! t =
      take (Suc t) (foldl (\<lambda>W t. W @ [g W t]) W0 [k..<n]) ! t" by simp
  also have "\<dots> = foldl (\<lambda>W t. W @ [g W t]) W0 [k..<Suc t] ! t"
    using assms take_extend [of W0 k "Suc t" n g] by simp
  also have "\<dots> = g (foldl (\<lambda>W t. W @ [g W t]) W0 [k..<t]) t"
    using assms length_extend [of W0 k t g] by (simp add: nth_append)
  finally show ?thesis .
qed

section \<open>Words\<close>

lemma bit_u8_ucast_u32 [simp]: "bit (ucast (b :: u8) :: u32) n \<longleftrightarrow> bit b n"
  by (simp add: bit_simps) (use bit_imp_le_length in fastforce)

lemma word_xor_eq_0_iff: "(x :: 'a::len word) XOR y = 0 \<longleftrightarrow> x = y"
  by (metis xor.left_neutral xor.right_neutral xor_self_eq xor.assoc)

lemma word_xor_left_cancel: "(z :: 'a::len word) XOR x = z XOR y \<longleftrightarrow> x = y"
  by (metis xor.assoc xor.left_neutral xor_self_eq)

lemma word_xor_right_cancel: "(x :: 'a::len word) XOR z = y XOR z \<longleftrightarrow> x = y"
  by (metis xor.assoc xor.right_neutral xor_self_eq)

lemma and_all_ones [simp]: "(w :: u32) AND 0xFFFFFFFF = w"
proof -
  have "(0xFFFFFFFF :: u32) = - 1" by simp
  then show ?thesis by (simp only: bit.conj_one_right)
qed

lemma xor_all_ones: "(w :: u32) XOR 0xFFFFFFFF = NOT w"
proof -
  have "(0xFFFFFFFF :: u32) = - 1" by simp
  then show ?thesis by (simp only: bit.xor_one_right)
qed

lemma unat_less_256_ucast_u8: "unat (ucast (x :: u32) :: u8) = unat (x AND 0xff)"
proof -
  have "x AND 0xff = take_bit 8 x"
    by (simp add: take_bit_eq_mask mask_eq_exp_minus_1)
  then show ?thesis by (simp add: unsigned_ucast_eq unsigned_take_bit_eq)
qed

lemma bit_index_less: "n < 8 \<Longrightarrow> n \<in> {0, Suc 0, 2, 3, 4, 5, 6, 7}"
  by auto

lemma nibble_less: "n < 16 \<Longrightarrow> n \<in> {0, 1, 2, 3, 4, 5, 6, 7, 8, 9, 10, 11, 12, 13, 14, 15 :: nat}"
  by simp presburger

section \<open>Tables of linear functions\<close>

text \<open>
  The CRC tables hold the values of a function that is linear over exclusive-or. Such a table is
  determined by its entries at the powers of two: \<open>doubled\<close> builds it from them (the highest
  power first), with one exclusive-or per entry.
\<close>

lemma drop_bit_xor_word: "drop_bit n (x XOR y) = drop_bit n x XOR drop_bit n (y :: 'a::len word)"
  by (simp add: bit_eq_iff bit_simps)

lemma funpow_8: "(f ^^ 8) x = f (f (f (f (f (f (f (f x)))))))"
  by (simp add: eval_nat_numeral)

lemma of_nat_double:
  assumes "n < 2 ^ k"
  shows "(of_nat (2 ^ k + n) :: 'a::len word) = of_nat (2 ^ k) XOR of_nat n"
proof -
  have "\<not> bit n k" using assms by (simp add: bit_nat_def)
  then have "(2 ^ k :: nat) AND n = 0"
    by (intro bit_eqI) (auto simp: bit_and_iff bit_exp_iff)
  then have "2 ^ k + n = (2 ^ k :: nat) XOR n"
    by (rule disjunctive_add_eq_xor)
  then show ?thesis by (simp only: of_nat_xor_eq)
qed

lemma table_double:
  fixes f :: "'a::len word \<Rightarrow> 'a word"
  assumes lin: "\<And>x y. f (x XOR y) = f x XOR f y"
  shows "map (\<lambda>n. f (of_nat n)) [0..<2 ^ Suc k] =
    (let T = map (\<lambda>n. f (of_nat n)) [0..<2 ^ k] in T @ map ((XOR) (f (of_nat (2 ^ k)))) T)"
proof -
  have "[0..<2 ^ Suc k] = [0..<2 ^ k] @ map (\<lambda>n. n + 2 ^ k) [0..<2 ^ k]"
    unfolding power_Suc mult_2 map_add_upt by (rule upt_add_eq_append) simp
  moreover have "f (of_nat (n + 2 ^ k)) = f (of_nat (2 ^ k)) XOR f (of_nat n)" if "n < 2 ^ k" for n
    using of_nat_double [OF that, where 'a = 'a] by (simp only: lin add.commute)
  ultimately show ?thesis
    unfolding Let_def by (simp add: o_def del: of_nat_add of_nat_power power_Suc)
qed

fun doubled :: "'a::len word list \<Rightarrow> 'a word list" where
  "doubled [] = [0]"
| "doubled (t # ts) = (let T = doubled ts in T @ map ((XOR) t) T)"

lemma table_doubled:
  fixes f :: "'a::len word \<Rightarrow> 'a word"
  assumes lin: "\<And>x y. f (x XOR y) = f x XOR f y"
  shows "map (\<lambda>n. f (of_nat n)) [0..<2 ^ k] = doubled (map (\<lambda>i. f (of_nat (2 ^ i))) (rev [0..<k]))"
proof (induction k)
  case 0
  have "f 0 = 0" using lin [of 0 0] by simp
  then show ?case by simp
next
  case (Suc k)
  then show ?case by (simp add: table_double [OF lin] Let_def del: power_Suc)
qed

end
