(* ===== verification/HashStream.thy ===== *)
theory HashStream
  imports Prelude
begin

text \<open>
  What the checksum and digest routines of \<^verbatim>\<open>lib_generic\<close> have in common: a context that absorbs
  a byte stream piece by piece (\<open>*_update\<close>) and a loop that feeds it in bounded chunks and
  triggers the watchdog after each (\<open>*_wd\<close>). \<open>wd_loop\<close> is that loop, \<open>block_loop\<close> the
  \<^verbatim>\<open>while (length >= 64)\<close> loop of the digests. The locale \<open>stream_digest\<close> is the contract of such
  a context; the lemmas the watchdog variants need are proved once in it.
\<close>

section \<open>Feeding a context in chunks\<close>

text \<open>
  \<^verbatim>\<open>while (curr < end) { chunk = min(end - curr, chunk_sz); update(ctx, curr, chunk);
  curr += chunk; WATCHDOG_RESET(); }\<close>. The last argument counts the resets. With \<open>chunk_sz = 0\<close>
  the pointer never moves and the loop does not end, which is \<open>None\<close>.
\<close>

partial_function (option) wd_loop ::
  "('c \<Rightarrow> 'b list \<Rightarrow> 'c) \<Rightarrow> nat \<Rightarrow> 'c \<Rightarrow> 'b list \<Rightarrow> nat \<Rightarrow> ('c \<times> nat) option" where
  "wd_loop upd chunk_sz c buf n =
     (if buf = [] then Some (c, n)
      else let chunk = (if length buf > chunk_sz then chunk_sz else length buf) in
           wd_loop upd chunk_sz (upd c (take chunk buf)) (drop chunk buf) (Suc n))"

lemma wd_loop_Nil [simp]: "wd_loop upd sz c [] n = Some (c, n)"
  by (simp add: wd_loop.simps)

lemma wd_loop_step:
  "buf \<noteq> [] \<Longrightarrow> wd_loop upd sz c buf n = wd_loop upd sz (upd c (take sz buf)) (drop sz buf) (Suc n)"
  by (subst wd_loop.simps) (simp add: Let_def)

text \<open>With a chunk size of 0 the loop does not end on a non-empty buffer.\<close>

lemma wd_loop_zero_Some: "wd_loop upd sz c buf n = Some r \<Longrightarrow> sz = 0 \<longrightarrow> buf = []"
proof (rule wd_loop.raw_induct [where P = "\<lambda>upd sz c buf n r. sz = 0 \<longrightarrow> buf = []"])
  fix f and upd :: "'c \<Rightarrow> 'b list \<Rightarrow> 'c" and sz and c :: 'c and buf :: "'b list" and n :: nat and r :: "'c \<times> nat"
  assume IH: "\<And>upd sz c buf n r. f upd sz c buf n = Some r \<Longrightarrow> sz = 0 \<longrightarrow> buf = []"
    and eq: "(if buf = [] then Some (c, n)
      else let chunk = (if length buf > sz then sz else length buf) in
         f upd sz (upd c (take chunk buf)) (drop chunk buf) (Suc n)) = Some r"
  let ?chunk = "if length buf > sz then sz else length buf"
  have "f upd sz (upd c (take ?chunk buf)) (drop ?chunk buf) (Suc n) = Some r" if "buf \<noteq> []"
    using eq that by (simp only: Let_def if_False)
  from IH [OF this] show "sz = 0 \<longrightarrow> buf = []" by (cases "buf = []") (auto split: if_splits)
qed

lemma wd_loop_zero_diverges: "buf \<noteq> [] \<Longrightarrow> wd_loop upd 0 c buf n = None"
  using wd_loop_zero_Some [of upd 0 c buf n] by (cases "wd_loop upd 0 c buf n") auto

section \<open>The block loop of the digests\<close>

text \<open>\<^verbatim>\<open>while (length >= 64) { process(state, input); input += 64; length -= 64; }\<close>: the new state
  and the bytes that are left.\<close>

function block_loop :: "('s \<Rightarrow> 'b list \<Rightarrow> 's) \<Rightarrow> 's \<Rightarrow> 'b list \<Rightarrow> 's \<times> 'b list" where
  "block_loop f s xs =
     (if length xs \<ge> 64 then block_loop f (f s (take 64 xs)) (drop 64 xs) else (s, xs))"
  by pat_completeness auto
termination
  by (relation "measure (\<lambda>(f, s, xs). length xs)") auto

declare block_loop.simps [simp del]

lemma block_loop_short: "length xs < 64 \<Longrightarrow> block_loop f s xs = (s, xs)"
  by (simp add: block_loop.simps)

lemma block_loop_block:
  "length xs = 64 \<Longrightarrow> block_loop f s (xs @ ys) = block_loop f (f s xs) ys"
  by (subst block_loop.simps) simp

lemma snd_block_loop: "snd (block_loop f s xs) = drop (64 * (length xs div 64)) xs"
proof (induction f s xs rule: block_loop.induct)
  case (1 f s xs)
  show ?case
  proof (cases "length xs \<ge> 64")
    case True
    then have "length xs div 64 = Suc ((length xs - 64) div 64)"
      by (simp add: le_div_geq)
    with 1 True show ?thesis
      by (subst block_loop.simps) (simp add: add.commute)
  next
    case False
    then show ?thesis by (simp add: block_loop_short)
  qed
qed

lemma length_snd_block_loop [simp]: "length (snd (block_loop f s xs)) = length xs mod 64"
  by (simp add: snd_block_loop minus_mult_div_eq_mod)

text \<open>The loop on an appended input resumes with the bytes it had left.\<close>

lemma block_loop_append:
  "block_loop f s (xs @ ys) =
     block_loop f (fst (block_loop f s xs)) (snd (block_loop f s xs) @ ys)"
proof (induction f s xs rule: block_loop.induct)
  case (1 f s xs)
  show ?case
  proof (cases "length xs \<ge> 64")
    case True
    have "block_loop f s (xs @ ys) = block_loop f (f s (take 64 xs)) (drop 64 xs @ ys)"
      using True by (subst block_loop.simps) simp
    moreover have "block_loop f s xs = block_loop f (f s (take 64 xs)) (drop 64 xs)"
      using True by (subst block_loop.simps) simp
    ultimately show ?thesis using 1 True by simp
  next
    case False
    then show ?thesis by (simp add: block_loop_short)
  qed
qed

text \<open>
  The tail of \<open>sha1_update\<close> and \<open>sha256_update\<close>, from the test \<^verbatim>\<open>left && length >= fill\<close> on:
  complete a partly filled buffer, run the block loop on the input, keep the rest in the buffer.
  \<open>f\<close> is the compression function, \<open>left\<close> the number of bytes the buffer holds.
\<close>

definition absorb ::
  "('s \<Rightarrow> 'b list \<Rightarrow> 's) \<Rightarrow> 's \<Rightarrow> 'b list \<Rightarrow> nat \<Rightarrow> 'b list \<Rightarrow> 's \<times> 'b list" where
  "absorb f s buf left xs =
     (let fill = 64 - left;
          (s, buf, xs, left) =
            (if left \<noteq> 0 \<and> length xs \<ge> fill
             then (let buf = buf_write buf left (take fill xs) in (f s buf, buf, drop fill xs, 0))
             else (s, buf, xs, left));
          (s, rest) = block_loop f s xs
      in (s, if rest \<noteq> [] then buf_write buf left rest else buf))"

lemma block_loop_pending:
  "left = length p \<Longrightarrow> left \<le> 64 \<Longrightarrow> 64 - left \<le> length xs \<Longrightarrow>
    block_loop f s (p @ xs) = block_loop f (f s (p @ take (64 - left) xs)) (drop (64 - left) xs)"
  using block_loop_block [of "p @ take (64 - left) xs" f s "drop (64 - left) xs"] by simp

lemma absorb_fill:
  assumes "left \<noteq> 0" and "64 - left \<le> length xs"
    and "buf_write buf left (take (64 - left) xs) = b"
    and "block_loop f (f s b) (drop (64 - left) xs) = (s1, rest)"
  shows "absorb f s buf left xs = (s1, if rest \<noteq> [] then buf_write b 0 rest else b)"
  unfolding absorb_def Let_def using assms by simp

lemma absorb_no_fill:
  assumes "left = 0 \<or> length xs < 64 - left"
    and "block_loop f s xs = (s1, rest)"
  shows "absorb f s buf left xs = (s1, if rest \<noteq> [] then buf_write buf left rest else buf)"
  unfolding absorb_def Let_def using assms by auto

text \<open>After \<open>absorb\<close>, state and buffer are those of the block loop on everything fed so far.\<close>

lemma absorb_block_loop:
  assumes buf: "length buf = 64" "take left buf = p" "left < 64"
    and res: "absorb f s buf left xs = (s', buf')"
  shows "block_loop f s (p @ xs) = (s', take ((left + length xs) mod 64) buf') \<and> length buf' = 64"
proof (cases "left \<noteq> 0 \<and> 64 - left \<le> length xs")
  case True
  let ?fill = "64 - left"
  obtain b where b: "buf_write buf left (take ?fill xs) = b" by simp
  obtain s1 rest where bl: "block_loop f (f s b) (drop ?fill xs) = (s1, rest)"
    by (cases "block_loop f (f s b) (drop ?fill xs)")
  have full: "b = p @ take ?fill xs" and len: "length b = 64" and p: "length p = left"
    using True buf b by (auto simp: buf_write_full)
  have "length rest = (length xs - ?fill) mod 64"
    using length_snd_block_loop [of f "f s b" "drop ?fill xs"] bl by simp
  moreover have "left + length xs = (length xs - ?fill) + 64" using True buf(3) by linarith
  ultimately have rest: "length rest = (left + length xs) mod 64" by (metis mod_add_self2)
  have "block_loop f s (p @ xs) = (s1, rest)"
    using True p buf(3) bl by (simp add: block_loop_pending full)
  moreover have "s' = s1" "buf' = (if rest \<noteq> [] then buf_write b 0 rest else b)"
    using res absorb_fill [OF _ _ b bl] True by auto
  ultimately show ?thesis using rest len by (auto simp: buf_write_def)
next
  case False
  then have nf: "left = 0 \<or> length xs < 64 - left" by auto
  obtain s1 rest where bl: "block_loop f s xs = (s1, rest)"
    by (cases "block_loop f s xs")
  have rest: "length rest = length xs mod 64"
    using length_snd_block_loop [of f s xs] bl by simp
  have eq: "s' = s1" "buf' = (if rest \<noteq> [] then buf_write buf left rest else buf)"
    using res absorb_no_fill [OF nf bl] by auto
  show ?thesis
  proof (cases "left = 0")
    case True
    then have "p = []" using buf by simp
    with eq bl rest True buf show ?thesis by (auto simp: buf_write_def)
  next
    case left: False
    with nf have short: "left + length xs < 64" using buf(3) by simp
    then have "s1 = s" "rest = xs" using bl by (auto simp: block_loop_short)
    moreover have "length p = left" using buf by auto
    ultimately show ?thesis using eq buf short
      by (auto simp: block_loop_short buf_write_def)
  qed
qed

section \<open>Bytes and words\<close>

definition GET_UINT32_BE :: "u8 list \<Rightarrow> nat \<Rightarrow> u32" where
  "GET_UINT32_BE b i =
     push_bit 24 (ucast (b ! i)) OR push_bit 16 (ucast (b ! (i + 1)))
     OR push_bit 8 (ucast (b ! (i + 2))) OR ucast (b ! (i + 3))"

definition PUT_UINT32_BE :: "u32 \<Rightarrow> u8 list" where
  "PUT_UINT32_BE n = [ucast (drop_bit 24 n), ucast (drop_bit 16 n), ucast (drop_bit 8 n), ucast n]"

definition GET_UINT32_LE :: "u8 list \<Rightarrow> nat \<Rightarrow> u32" where
  "GET_UINT32_LE b i =
     push_bit 16 (push_bit 8 (ucast (b ! (i + 3))) OR ucast (b ! (i + 2)))
     OR (push_bit 8 (ucast (b ! (i + 1))) OR ucast (b ! i))"

definition PUT_UINT32_LE :: "u32 \<Rightarrow> u8 list" where
  "PUT_UINT32_LE n = [ucast n, ucast (drop_bit 8 n), ucast (drop_bit 16 n), ucast (drop_bit 24 n)]"

lemma length_PUT_UINT32 [simp]: "length (PUT_UINT32_BE n) = 4" "length (PUT_UINT32_LE n) = 4"
  by (simp_all add: PUT_UINT32_BE_def PUT_UINT32_LE_def)

text \<open>The 64-byte padding of the digests: \<open>0x80\<close> and zeros.\<close>

definition digest_padding :: "u8 list" where
  "digest_padding = 0x80 # replicate 63 0"

lemma take_digest_padding:
  "0 < n \<Longrightarrow> n \<le> 64 \<Longrightarrow> take n digest_padding = 0x80 # replicate (n - 1) 0"
  by (cases n) (simp_all add: digest_padding_def)

section \<open>The 64-bit length counter\<close>

text \<open>The counter as two 32-bit halves of a natural number, and its update with carry.\<close>

definition lo32 :: "nat \<Rightarrow> u32" where "lo32 n = of_nat n"
definition hi32 :: "nat \<Rightarrow> u32" where "hi32 n = of_nat (drop_bit 32 n)"

lemma unat_lo32: "unat (lo32 n) = n mod 2 ^ 32"
  by (simp add: lo32_def unat_of_nat)

lemma lo32_add: "lo32 (m + n) = lo32 m + lo32 n"
  by (simp add: lo32_def)

lemma lo32_and_3F: "unat (lo32 n AND 0x3F) = n mod 64"
proof -
  have "lo32 n AND 0x3F = take_bit 6 (lo32 n)"
    by (simp add: take_bit_eq_mask mask_eq_exp_minus_1)
  then have "unat (lo32 n AND 0x3F) = take_bit 6 (unat (lo32 n))"
    by (simp only: unsigned_take_bit_eq)
  then have "unat (lo32 n AND 0x3F) = unat (lo32 n) mod 2 ^ 6"
    by (simp only: take_bit_eq_mod)
  then show ?thesis by (simp add: unat_lo32 mod_mod_cancel)
qed

lemma hi32_carry:
  "hi32 (m + k) = hi32 m + hi32 k + (if lo32 m + lo32 k < lo32 k then 1 else 0)"
proof -
  let ?B = "2 ^ 32 :: nat"
  have "(m + k) div ?B = m div ?B + k div ?B + (m mod ?B + k mod ?B) div ?B"
    by (rule div_add1_eq)
  moreover have "(m mod ?B + k mod ?B) div ?B = (if lo32 m + lo32 k < lo32 k then 1 else 0)"
  proof -
    have m: "m mod ?B < ?B" and k: "k mod ?B < ?B" by simp_all
    have lt: "lo32 m + lo32 k < lo32 k \<longleftrightarrow> (m mod ?B + k mod ?B) mod ?B < k mod ?B"
      by (simp add: word_less_nat_alt lo32_add [symmetric] unat_lo32 mod_add_eq)
    show ?thesis
    proof (cases "m mod ?B + k mod ?B < ?B")
      case True
      then show ?thesis unfolding lt by simp
    next
      case False
      then have ge: "?B \<le> m mod ?B + k mod ?B" by simp
      have "(m mod ?B + k mod ?B) div ?B = 1"
        by (rule div_nat_eqI) (use ge m k in simp_all)
      moreover have wrap: "(m mod ?B + k mod ?B) mod ?B = m mod ?B + k mod ?B - ?B"
        by (subst le_mod_geq [OF ge], rule mod_less) (use m k in linarith)
      moreover from wrap have "(m mod ?B + k mod ?B) mod ?B < k mod ?B"
        using ge m by linarith
      ultimately show ?thesis unfolding lt by (simp only: if_True)
    qed
  qed
  ultimately show ?thesis by (simp add: hi32_def drop_bit_eq_div)
qed

lemma counter_update:
  assumes "k < 2 ^ 32"
  shows "lo32 n + of_nat k = lo32 (n + k)"
    and "(if lo32 (n + k) < of_nat k then hi32 n + 1 else hi32 n) = hi32 (n + k)"
proof -
  have k: "of_nat k = lo32 k" by (simp only: lo32_def)
  have "hi32 k = 0" using assms by (simp add: hi32_def drop_bit_eq_div)
  then show "lo32 n + of_nat k = lo32 (n + k)"
    and "(if lo32 (n + k) < of_nat k then hi32 n + 1 else hi32 n) = hi32 (n + k)"
    unfolding k lo32_add hi32_carry [of n k] by simp_all
qed

lemma bit_lo32: "bit (lo32 n) i \<longleftrightarrow> i < 32 \<and> bit n i"
  by (simp add: lo32_def bit_simps)

lemma bit_hi32: "bit (hi32 n) i \<longleftrightarrow> i < 32 \<and> bit n (i + 32)"
proof -
  have "hi32 n = lo32 (drop_bit 32 n)" by (simp only: hi32_def lo32_def)
  then show ?thesis by (simp add: bit_lo32 bit_drop_bit_eq add.commute)
qed

text \<open>The bit count \<open>8 * n\<close> from the halves of the byte count \<open>n\<close>.\<close>

lemma hi32_bits: "drop_bit 29 (lo32 n) OR push_bit 3 (hi32 n) = hi32 (8 * n)"
proof -
  have "8 * n = push_bit 3 n" by (simp add: push_bit_eq_mult)
  then show ?thesis
    by (intro bit_word_eqI) (auto simp: bit_simps bit_lo32 bit_hi32)
qed

lemma lo32_bits: "push_bit 3 (lo32 n) = lo32 (8 * n)"
  by (simp add: lo32_def push_bit_eq_mult)

section \<open>Padding\<close>

text \<open>The length of \<open>n\<close> bytes in bits, as 8 bytes in either order.\<close>

definition be64_bits :: "nat \<Rightarrow> u8 list" where
  "be64_bits n = PUT_UINT32_BE (hi32 (8 * n)) @ PUT_UINT32_BE (lo32 (8 * n))"

definition le64_bits :: "nat \<Rightarrow> u8 list" where
  "le64_bits n = PUT_UINT32_LE (lo32 (8 * n)) @ PUT_UINT32_LE (hi32 (8 * n))"

lemma length_bits64 [simp]: "length (be64_bits n) = 8" "length (le64_bits n) = 8"
  by (simp_all add: be64_bits_def le64_bits_def)

text \<open>
  Merkle-Damgaard padding as the standards state it: a \<open>0x80\<close> byte, the fewest zero bytes that
  make the length 56 modulo 64, and the 8 bytes of the bit length.
\<close>

definition md_pad :: "u8 list \<Rightarrow> u8 list \<Rightarrow> u8 list" where
  "md_pad lenbytes m = m @ 0x80 # replicate ((119 - length m mod 64) mod 64) 0 @ lenbytes"

lemma pad_zeros: "r < 64 \<Longrightarrow> (119 - r) mod 64 = (if r \<le> 55 then 55 - r else 119 - r)" for r :: nat
proof (cases "r \<le> 55")
  case True
  then have "119 - r = 55 - r + 64" by linarith
  then have "(119 - r) mod 64 = (55 - r) mod 64" by (simp only: mod_add_self2)
  also have "\<dots> = 55 - r" by (rule mod_less) linarith
  finally show ?thesis using True by (simp only: if_True)
next
  case False
  then have "119 - r < 64" by linarith
  with False show ?thesis by (simp only: mod_less if_False)
qed

lemma pad_zeros_dvd: "64 dvd n + (119 - n mod 64) mod 64 + 9" for n :: nat
proof -
  define q r where "q = n div 64" and "r = n mod 64"
  have n: "n = 64 * q + r" unfolding q_def r_def by (rule mult_div_mod_eq [symmetric])
  have r: "r < 64" unfolding r_def by (rule mod_less_divisor) (rule zero_less_numeral)
  have "n + (119 - r) mod 64 + 9 = 64 * (if r \<le> 55 then q + 1 else q + 2)"
    unfolding pad_zeros [OF r] n using r by (cases "r \<le> 55") auto
  then show ?thesis unfolding r_def by (rule dvdI)
qed

lemma take_padn:
  "take (if n mod 64 < 56 then 56 - n mod 64 else 120 - n mod 64) digest_padding =
     0x80 # replicate ((119 - n mod 64) mod 64) 0"
proof -
  let ?r = "n mod 64" and ?p = "if n mod 64 < 56 then 56 - n mod 64 else 120 - n mod 64"
  have r: "?r < 64" by (rule mod_less_divisor) (rule zero_less_numeral)
  then have "0 < ?p" "?p \<le> 64" "?p - 1 = (if ?r \<le> 55 then 55 - ?r else 119 - ?r)" by auto
  then show ?thesis by (simp only: take_digest_padding pad_zeros [OF r])
qed

lemma length_md_pad:
  "length (md_pad lb m) = length m + (119 - length m mod 64) mod 64 + 1 + length lb"
  by (simp add: md_pad_def)

lemma md_pad_dvd: "length lb = 8 \<Longrightarrow> 64 dvd length (md_pad lb m)"
  using pad_zeros_dvd [of "length m"] by (simp only: length_md_pad add.assoc one_add_one) simp

section \<open>The contract\<close>

text \<open>
  \<open>repr c m\<close>: the context \<open>c\<close> has absorbed exactly the bytes \<open>m\<close>. \<open>limit\<close> bounds one piece
  (the length parameter of the update routine is a machine integer).
\<close>

locale stream_digest =
  fixes repr :: "'c \<Rightarrow> 'b list \<Rightarrow> bool"
    and update :: "'c \<Rightarrow> 'b list \<Rightarrow> 'c"
    and finish :: "'c \<Rightarrow> 'd"
    and digest :: "'b list \<Rightarrow> 'd"
    and limit :: nat
  assumes limit_pos: "0 < limit"
    and repr_update: "repr c m \<Longrightarrow> length xs < limit \<Longrightarrow> repr (update c xs) (m @ xs)"
    and finish_repr: "repr c m \<Longrightarrow> finish c = digest m"
begin

text \<open>Any way of cutting the input into pieces gives the same digest.\<close>

lemma fold_update:
  "repr c m \<Longrightarrow> \<forall>p \<in> set ps. length p < limit \<Longrightarrow> repr (foldl update c ps) (m @ concat ps)"
proof (induction ps arbitrary: c m)
  case Nil
  then show ?case by simp
next
  case (Cons p ps)
  then have "repr (update c p) (m @ p)" by (simp add: repr_update)
  from Cons.IH [OF this] Cons.prems show ?case by simp
qed

lemma finish_fold_update:
  assumes "repr c m" and "\<forall>p \<in> set ps. length p < limit"
  shows "finish (foldl update c ps) = digest (m @ concat ps)"
  using finish_repr [OF fold_update [OF assms]] .

text \<open>The watchdog loop ends, has absorbed the whole buffer and has triggered the watchdog once
  per chunk.\<close>

lemma wd_loop_repr:
  assumes "repr c m" and sz: "0 < sz" "sz < limit"
  shows "\<exists>c'. wd_loop update sz c buf n = Some (c', n + (length buf + sz - 1) div sz)
              \<and> repr c' (m @ buf)"
  using assms(1)
proof (induction "length buf" arbitrary: buf c m n rule: less_induct)
  case less
  show ?case
  proof (cases "buf = []")
    case True
    with less.prems sz show ?thesis by simp
  next
    case False
    let ?c = "update c (take sz buf)"
    have step: "wd_loop update sz c buf n = wd_loop update sz ?c (drop sz buf) (Suc n)"
      using False by (rule wd_loop_step)
    have r: "repr ?c (m @ take sz buf)"
      using less.prems sz by (intro repr_update) auto
    have shorter: "length (drop sz buf) < length buf"
      using False sz by simp
    have count: "Suc n + (length (drop sz buf) + sz - 1) div sz = n + (length buf + sz - 1) div sz"
    proof (cases "length buf \<ge> sz")
      case True
      then have "length buf + sz - 1 = (length (drop sz buf) + sz - 1) + sz" using sz by simp
      then show ?thesis using sz by (metis add_Suc_shift add_Suc_right div_add_self2 less_not_refl Suc_eq_plus1)
    next
      case small: False
      have "(length buf + sz - 1) div sz = 1"
        using small False sz by (intro div_nat_eqI) (auto simp: Suc_le_eq simp flip: length_greater_0_conv)
      moreover have "(length (drop sz buf) + sz - 1) div sz = 0" using small sz by simp
      ultimately show ?thesis by simp
    qed
    obtain c' where "wd_loop update sz ?c (drop sz buf) (Suc n) =
        Some (c', Suc n + (length (drop sz buf) + sz - 1) div sz)"
      and "repr c' ((m @ take sz buf) @ drop sz buf)"
      using less.hyps [OF shorter r, of "Suc n"] by blast
    then show ?thesis unfolding step count by simp
  qed
qed

lemma wd_loop_digest:
  assumes "repr c m" and "0 < sz" and "sz < limit"
  shows "map_option (\<lambda>(c', k). (finish c', k)) (wd_loop update sz c buf 0) =
    Some (digest (m @ buf), (length buf + sz - 1) div sz)"
  using wd_loop_repr [OF assms, of buf 0] finish_repr by auto

end

end
