(* ===== verification/Crc32.thy ===== *)
theory Crc32
  imports Prelude HashStream
begin

text \<open>
  \<^verbatim>\<open>lib_generic/crc32.c\<close>: the CRC-32 that protects the environment block, image headers
  and image data. \<open>crc_table\<close> is the static table of the default build, \<open>make_crc_table\<close>
  the run-time construction of the \<^verbatim>\<open>DYNAMIC_CRC_TABLE\<close> build; \<open>DO1\<close>, \<open>DO8\<close>, \<open>crc32_loop\<close>
  follow the macros and the two loops of \<open>crc32\<close>. The theorems relate the two builds, tie the
  byte-wise routine to the bit-serial shift register, show that it can be fed in pieces (so the
  watchdog build \<open>crc32_wd\<close> computes the same value), and that it detects every error confined
  to one byte.
\<close>

section \<open>The two tables\<close>

definition crc_table :: "u32 list" where
  "crc_table = [
   0x00000000, 0x77073096, 0xee0e612c, 0x990951ba, 0x076dc419, 0x706af48f,
   0xe963a535, 0x9e6495a3, 0x0edb8832, 0x79dcb8a4, 0xe0d5e91e, 0x97d2d988,
   0x09b64c2b, 0x7eb17cbd, 0xe7b82d07, 0x90bf1d91, 0x1db71064, 0x6ab020f2,
   0xf3b97148, 0x84be41de, 0x1adad47d, 0x6ddde4eb, 0xf4d4b551, 0x83d385c7,
   0x136c9856, 0x646ba8c0, 0xfd62f97a, 0x8a65c9ec, 0x14015c4f, 0x63066cd9,
   0xfa0f3d63, 0x8d080df5, 0x3b6e20c8, 0x4c69105e, 0xd56041e4, 0xa2677172,
   0x3c03e4d1, 0x4b04d447, 0xd20d85fd, 0xa50ab56b, 0x35b5a8fa, 0x42b2986c,
   0xdbbbc9d6, 0xacbcf940, 0x32d86ce3, 0x45df5c75, 0xdcd60dcf, 0xabd13d59,
   0x26d930ac, 0x51de003a, 0xc8d75180, 0xbfd06116, 0x21b4f4b5, 0x56b3c423,
   0xcfba9599, 0xb8bda50f, 0x2802b89e, 0x5f058808, 0xc60cd9b2, 0xb10be924,
   0x2f6f7c87, 0x58684c11, 0xc1611dab, 0xb6662d3d, 0x76dc4190, 0x01db7106,
   0x98d220bc, 0xefd5102a, 0x71b18589, 0x06b6b51f, 0x9fbfe4a5, 0xe8b8d433,
   0x7807c9a2, 0x0f00f934, 0x9609a88e, 0xe10e9818, 0x7f6a0dbb, 0x086d3d2d,
   0x91646c97, 0xe6635c01, 0x6b6b51f4, 0x1c6c6162, 0x856530d8, 0xf262004e,
   0x6c0695ed, 0x1b01a57b, 0x8208f4c1, 0xf50fc457, 0x65b0d9c6, 0x12b7e950,
   0x8bbeb8ea, 0xfcb9887c, 0x62dd1ddf, 0x15da2d49, 0x8cd37cf3, 0xfbd44c65,
   0x4db26158, 0x3ab551ce, 0xa3bc0074, 0xd4bb30e2, 0x4adfa541, 0x3dd895d7,
   0xa4d1c46d, 0xd3d6f4fb, 0x4369e96a, 0x346ed9fc, 0xad678846, 0xda60b8d0,
   0x44042d73, 0x33031de5, 0xaa0a4c5f, 0xdd0d7cc9, 0x5005713c, 0x270241aa,
   0xbe0b1010, 0xc90c2086, 0x5768b525, 0x206f85b3, 0xb966d409, 0xce61e49f,
   0x5edef90e, 0x29d9c998, 0xb0d09822, 0xc7d7a8b4, 0x59b33d17, 0x2eb40d81,
   0xb7bd5c3b, 0xc0ba6cad, 0xedb88320, 0x9abfb3b6, 0x03b6e20c, 0x74b1d29a,
   0xead54739, 0x9dd277af, 0x04db2615, 0x73dc1683, 0xe3630b12, 0x94643b84,
   0x0d6d6a3e, 0x7a6a5aa8, 0xe40ecf0b, 0x9309ff9d, 0x0a00ae27, 0x7d079eb1,
   0xf00f9344, 0x8708a3d2, 0x1e01f268, 0x6906c2fe, 0xf762575d, 0x806567cb,
   0x196c3671, 0x6e6b06e7, 0xfed41b76, 0x89d32be0, 0x10da7a5a, 0x67dd4acc,
   0xf9b9df6f, 0x8ebeeff9, 0x17b7be43, 0x60b08ed5, 0xd6d6a3e8, 0xa1d1937e,
   0x38d8c2c4, 0x4fdff252, 0xd1bb67f1, 0xa6bc5767, 0x3fb506dd, 0x48b2364b,
   0xd80d2bda, 0xaf0a1b4c, 0x36034af6, 0x41047a60, 0xdf60efc3, 0xa867df55,
   0x316e8eef, 0x4669be79, 0xcb61b38c, 0xbc66831a, 0x256fd2a0, 0x5268e236,
   0xcc0c7795, 0xbb0b4703, 0x220216b9, 0x5505262f, 0xc5ba3bbe, 0xb2bd0b28,
   0x2bb45a92, 0x5cb36a04, 0xc2d7ffa7, 0xb5d0cf31, 0x2cd99e8b, 0x5bdeae1d,
   0x9b64c2b0, 0xec63f226, 0x756aa39c, 0x026d930a, 0x9c0906a9, 0xeb0e363f,
   0x72076785, 0x05005713, 0x95bf4a82, 0xe2b87a14, 0x7bb12bae, 0x0cb61b38,
   0x92d28e9b, 0xe5d5be0d, 0x7cdcefb7, 0x0bdbdf21, 0x86d3d2d4, 0xf1d4e242,
   0x68ddb3f8, 0x1fda836e, 0x81be16cd, 0xf6b9265b, 0x6fb077e1, 0x18b74777,
   0x88085ae6, 0xff0f6a70, 0x66063bca, 0x11010b5c, 0x8f659eff, 0xf862ae69,
   0x616bffd3, 0x166ccf45, 0xa00ae278, 0xd70dd2ee, 0x4e048354, 0x3903b3c2,
   0xa7672661, 0xd06016f7, 0x4969474d, 0x3e6e77db, 0xaed16a4a, 0xd9d65adc,
   0x40df0b66, 0x37d83bf0, 0xa9bcae53, 0xdebb9ec5, 0x47b2cf7f, 0x30b5ffe9,
   0xbdbdf21c, 0xcabac28a, 0x53b39330, 0x24b4a3a6, 0xbad03605, 0xcdd70693,
   0x54de5729, 0x23d967bf, 0xb3667a2e, 0xc4614ab8, 0x5d681b02, 0x2a6f2b94,
   0xb40bbe37, 0xc30c8ea1, 0x5a05df1b, 0x2d02ef8d]"

text \<open>The exponents of the polynomial, the exclusive-or pattern and one shift-register step.\<close>

definition crc_poly_terms :: "nat list" where
  "crc_poly_terms = [0,1,2,4,5,7,8,10,11,12,16,22,23,26]"

definition crc_poly :: u32 where
  "crc_poly = foldl (\<lambda>poly p. poly OR push_bit (31 - p) 1) 0 crc_poly_terms"

definition crc_step :: "u32 \<Rightarrow> u32" where
  "crc_step c = (if c AND 1 \<noteq> 0 then crc_poly XOR drop_bit 1 c else drop_bit 1 c)"

definition make_crc_table :: "u32 list" where
  "make_crc_table = map (\<lambda>n. (crc_step ^^ 8) (of_nat n)) [0..<256]"

section \<open>The update loops\<close>

definition DO1 :: "u32 \<Rightarrow> u8 \<Rightarrow> u32" where
  "DO1 crc b = crc_table ! unat ((crc XOR ucast b) AND 0xff) XOR drop_bit 8 crc"

definition DO8 :: "u32 \<Rightarrow> u8 list \<Rightarrow> u32" where
  "DO8 crc buf =
     (let crc = DO1 crc (buf ! 0); crc = DO1 crc (buf ! 1);
          crc = DO1 crc (buf ! 2); crc = DO1 crc (buf ! 3);
          crc = DO1 crc (buf ! 4); crc = DO1 crc (buf ! 5);
          crc = DO1 crc (buf ! 6); crc = DO1 crc (buf ! 7) in crc)"

fun crc32_tail :: "u32 \<Rightarrow> u8 list \<Rightarrow> u32" where
  "crc32_tail crc [] = crc"
| "crc32_tail crc (b # buf) = crc32_tail (DO1 crc b) buf"

text \<open>\<^verbatim>\<open>while (len >= 8) DO8(buf)\<close>, then \<^verbatim>\<open>DO1\<close> for what is left; \<open>buf\<close> is the input
  with \<open>len = length buf\<close>.\<close>

function crc32_loop :: "u32 \<Rightarrow> u8 list \<Rightarrow> u32" where
  "crc32_loop crc buf =
     (if length buf \<ge> 8 then crc32_loop (DO8 crc buf) (drop 8 buf)
      else crc32_tail crc buf)"
  by pat_completeness auto
termination
  by (relation "measure (\<lambda>(crc, buf). length buf)") auto

declare crc32_loop.simps [simp del]

definition crc32 :: "u32 \<Rightarrow> u8 list \<Rightarrow> u32" where
  "crc32 crc buf = crc32_loop (crc XOR 0xffffffff) buf XOR 0xffffffff"

definition crc32_no_comp :: "u32 \<Rightarrow> u8 list \<Rightarrow> u32" where
  "crc32_no_comp crc buf = crc32_loop crc buf"

text \<open>
  The watchdog build of \<open>crc32_wd\<close>: chunks of at most \<open>chunk_sz\<close> bytes, with a count of the
  \<^verbatim>\<open>WATCHDOG_RESET\<close> calls. \<open>None\<close> means that the loop does not end.
\<close>

definition crc32_wd :: "u32 \<Rightarrow> u8 list \<Rightarrow> nat \<Rightarrow> (u32 \<times> nat) option" where
  "crc32_wd crc buf chunk_sz = wd_loop crc32 chunk_sz crc buf 0"
section \<open>The static table is the computed one\<close>

lemma crc_poly_value: "crc_poly = 0xedb88320"
  by (simp add: crc_poly_def crc_poly_terms_def)

lemma crc_step_alt: "crc_step c = (if bit c 0 then crc_poly else 0) XOR drop_bit 1 c"
proof -
  have "c AND 1 \<noteq> 0 \<longleftrightarrow> bit c 0"
    by (simp add: and_one_eq bit_0 odd_iff_mod_2_eq_one)
  then show ?thesis by (auto simp: crc_step_def)
qed

lemma crc_step_xor: "crc_step (x XOR y) = crc_step x XOR crc_step y"
  by (simp add: crc_step_alt drop_bit_xor_word bit_xor_iff ac_simps)

lemma crc_steps_xor: "(crc_step ^^ n) (x XOR y) = (crc_step ^^ n) x XOR (crc_step ^^ n) y"
  by (induction n) (simp_all add: crc_step_xor)

lemma crc_step8_pow:
  "(crc_step ^^ 8) 1 = 0x77073096" "(crc_step ^^ 8) 2 = 0xee0e612c"
  "(crc_step ^^ 8) 4 = 0x076dc419" "(crc_step ^^ 8) 8 = 0x0edb8832"
  "(crc_step ^^ 8) 16 = 0x1db71064" "(crc_step ^^ 8) 32 = 0x3b6e20c8"
  "(crc_step ^^ 8) 64 = 0x76dc4190" "(crc_step ^^ 8) 128 = 0xedb88320"
  by (simp_all add: crc_step_def crc_poly_value funpow_8)

lemma crc_table_doubled:
  "crc_table = doubled (map (\<lambda>i. (crc_step ^^ 8) (of_nat (2 ^ i))) (rev [0..<8]))"
proof -
  have "map (\<lambda>i. (crc_step ^^ 8) (of_nat (2 ^ i))) (rev [0..<8]) =
    [0xedb88320, 0x76dc4190, 0x3b6e20c8, 0x1db71064, 0x0edb8832, 0x076dc419, 0xee0e612c, 0x77073096]"
    using crc_step8_pow by (simp add: upt_rec)
  also have "doubled \<dots> = crc_table"
    by (simp add: crc_table_def)
  finally show ?thesis by simp
qed

lemma crc_table_nth: "n < 256 \<Longrightarrow> crc_table ! n = (crc_step ^^ 8) (of_nat n)"
  using table_doubled [of "crc_step ^^ 8" 8, OF crc_steps_xor, symmetric]
  by (simp add: crc_table_doubled)

lemma length_crc_table: "length crc_table = 256"
  by (simp add: crc_table_def)

text \<open>
  the 256 constants of the static \<open>crc_table\<close> are exactly the values that
  \<open>make_crc_table\<close> computes for the polynomial given by its exponents, so both builds of the
  routine use the same table.
\<close>

lemma crc_table_correct: "make_crc_table = crc_table"
  by (rule nth_equalityI) (simp_all add: make_crc_table_def length_crc_table crc_table_nth)

section \<open>Bytes, blocks and pieces\<close>

lemma crc_steps_low_zero:
  "(\<And>i. i < k \<Longrightarrow> \<not> bit x i) \<Longrightarrow> (crc_step ^^ k) x = drop_bit k x"
proof (induction k)
  case (Suc k)
  then have "(crc_step ^^ k) x = drop_bit k x" by simp
  moreover have "crc_step (drop_bit k x) = drop_bit (Suc k) x"
    using Suc.prems [of k] by (simp add: crc_step_alt bit_drop_bit_eq)
  ultimately show ?case by simp
qed simp

lemma DO1_steps: "DO1 crc b = (crc_step ^^ 8) (crc XOR ucast b)"
proof -
  let ?x = "crc XOR ucast b"
  let ?hi = "?x XOR take_bit 8 ?x"
  have lo: "?x AND 0xff = take_bit 8 ?x"
    by (simp add: take_bit_eq_mask mask_eq_exp_minus_1)
  have "(crc_step ^^ 8) ?hi = drop_bit 8 ?hi"
    by (rule crc_steps_low_zero) (simp add: bit_simps)
  also have "\<dots> = drop_bit 8 crc"
    by (rule bit_word_eqI) (auto simp: bit_simps dest: bit_imp_le_length)
  finally have hi: "(crc_step ^^ 8) ?hi = drop_bit 8 crc" .
  have "unat (take_bit 8 ?x) < 256"
    unfolding lo [symmetric] unat_less_256_ucast_u8 [symmetric] by simp
  then have "DO1 crc b = (crc_step ^^ 8) (take_bit 8 ?x) XOR drop_bit 8 crc"
    by (simp only: DO1_def lo crc_table_nth of_nat_unat ucast_id)
  also have "\<dots> = (crc_step ^^ 8) (take_bit 8 ?x XOR ?hi)"
    unfolding crc_steps_xor [of 8 "take_bit 8 ?x" ?hi] hi ..
  also have "take_bit 8 ?x XOR ?hi = ?x"
    by (rule bit_word_eqI) (auto simp: bit_xor_iff)
  finally show ?thesis .
qed

lemma crc_step_inj: "crc_step x = crc_step y \<longleftrightarrow> x = y"
proof
  assume eq: "crc_step x = crc_step y"
  have top: "bit (crc_step z) 31 \<longleftrightarrow> bit z 0" for z
    by (simp add: crc_step_alt crc_poly_value bit_simps) (use bit_imp_le_length [of z 32] in auto)
  have b0: "bit x 0 \<longleftrightarrow> bit y 0" using top [of x] top [of y] eq by simp
  then have "drop_bit 1 x = drop_bit 1 y"
    using eq by (simp add: crc_step_alt word_xor_left_cancel split: if_splits)
  then have "bit x (Suc n) \<longleftrightarrow> bit y (Suc n)" for n
    by (metis bit_drop_bit_eq add.commute comp_apply plus_1_eq_Suc)
  with b0 show "x = y" by (intro bit_eqI) (metis not0_implies_Suc)
qed simp

lemma crc_steps_inj: "(crc_step ^^ n) x = (crc_step ^^ n) y \<longleftrightarrow> x = y"
  by (induction n) (simp_all add: crc_step_inj)

lemma DO1_inj_crc: "DO1 c b = DO1 d b \<longleftrightarrow> c = d"
  by (simp add: DO1_steps crc_steps_inj word_xor_right_cancel)

lemma DO1_inj_byte: "DO1 c a = DO1 c b \<longleftrightarrow> a = b"
proof -
  have "(ucast a :: u32) = ucast b \<longleftrightarrow> a = b"
    by (metis bit_eqI bit_u8_ucast_u32)
  then show ?thesis by (simp add: DO1_steps crc_steps_inj word_xor_left_cancel)
qed

lemma crc32_tail_append: "crc32_tail c (xs @ ys) = crc32_tail (crc32_tail c xs) ys"
  by (induction c xs rule: crc32_tail.induct) simp_all

lemma DO8_tail: "length buf \<ge> 8 \<Longrightarrow> DO8 c buf = crc32_tail c (take 8 buf)"
  by (simp add: DO8_def Let_def take_map_nth upt_rec eval_nat_numeral)

lemma crc32_loop_tail: "crc32_loop c buf = crc32_tail c buf"
proof (induction c buf rule: crc32_loop.induct)
  case (1 c buf)
  show ?case
  proof (cases "length buf \<ge> 8")
    case True
    then have "crc32_loop c buf = crc32_tail (DO8 c buf) (drop 8 buf)"
      using 1 by (subst crc32_loop.simps) (simp only: if_True)
    also have "\<dots> = crc32_tail c (take 8 buf @ drop 8 buf)"
      using True by (simp only: crc32_tail_append DO8_tail)
    finally show ?thesis by simp
  next
    case False
    then show ?thesis by (subst crc32_loop.simps) (simp only: if_False)
  qed
qed

lemma crc32_tail_inj: "crc32_tail c buf = crc32_tail d buf \<longleftrightarrow> c = d"
  by (induction buf arbitrary: c d) (simp_all add: DO1_inj_crc)

lemma crc32_append: "crc32 (crc32 c xs) ys = crc32 c (xs @ ys)"
  by (simp add: crc32_def crc32_loop_tail crc32_tail_append xor.assoc)

lemma crc32_Nil [simp]: "crc32 c [] = c"
  by (simp add: crc32_def crc32_loop_tail xor.assoc)

text \<open>
  the checksum can be computed in pieces: continuing \<open>crc32\<close> over any list of pieces of
  any lengths gives the checksum of their concatenation (so the unrolled loop on blocks of 8 and
  the byte loop agree at every cut).
\<close>

lemma crc32_pieces: "foldl crc32 crc ps = crc32 crc (concat ps)"
  by (induction ps arbitrary: crc) (simp_all add: crc32_append)

section \<open>The bit-serial shift register\<close>

text \<open>The specification the table-driven routine implements: one bit at a time, lowest bit first.\<close>

fun crc_serial :: "u32 \<Rightarrow> bool list \<Rightarrow> u32" where
  "crc_serial c [] = c"
| "crc_serial c (b # bs) = crc_serial (crc_step (c XOR of_bool b)) bs"

definition byte_bits :: "u8 \<Rightarrow> bool list" where
  "byte_bits b = map (bit b) [0..<8]"

lemma crc_serial_append: "crc_serial c (xs @ ys) = crc_serial (crc_serial c xs) ys"
  by (induction c xs rule: crc_serial.induct) simp_all

lemma crc_serial_bits:
  "k \<le> 32 \<Longrightarrow> crc_serial c (map (bit w) [0..<k]) = (crc_step ^^ k) (c XOR take_bit k w)" for w :: u32
proof (induction k)
  case (Suc k)
  let ?b = "push_bit k (of_bool (bit w k)) :: u32"
  have "(crc_step ^^ k) ?b = drop_bit k ?b"
    by (rule crc_steps_low_zero) (simp add: bit_simps)
  also have "\<dots> = of_bool (bit w k)"
    using Suc.prems by (intro bit_word_eqI) (auto simp: bit_simps)
  finally have top: "(crc_step ^^ k) ?b = of_bool (bit w k)" .
  have "take_bit (Suc k) w = take_bit k w XOR ?b"
    by (rule bit_word_eqI) (auto simp: bit_simps less_Suc_eq)
  then show ?case
    using Suc by (simp add: crc_serial_append crc_steps_xor [of k _ ?b] top flip: xor.assoc)
qed simp

lemma DO1_serial: "DO1 crc b = crc_serial crc (byte_bits b)"
proof -
  have "byte_bits b = map (bit (ucast b :: u32)) [0..<8]"
    by (simp add: byte_bits_def)
  moreover have "take_bit 8 (ucast b :: u32) = ucast b"
    by (rule bit_word_eqI) (auto simp: bit_simps dest: bit_imp_le_length)
  ultimately show ?thesis by (simp add: DO1_steps crc_serial_bits)
qed

text \<open>
  C14: the table-driven, 8-fold unrolled \<open>crc32\<close> computes the bit-serial CRC: the complemented
  register is stepped once per input bit, lowest bit of each byte first, and complemented again.
\<close>

theorem crc32_bit_serial:
  "crc32 crc buf = NOT (crc_serial (NOT crc) (concat (map byte_bits buf)))"
proof -
  have "crc32_tail c buf = crc_serial c (concat (map byte_bits buf))" for c
    by (induction buf arbitrary: c) (simp_all add: crc_serial_append DO1_serial)
  then show ?thesis by (simp only: crc32_def crc32_loop_tail xor_all_ones)
qed

text \<open>
  every corruption of a single byte, anywhere in a block of any length, changes the
  checksum: this is what the environment and image header checks rely on.
\<close>

lemma crc32_byte_error: "a \<noteq> b \<Longrightarrow> crc32 crc (pre @ a # post) \<noteq> crc32 crc (pre @ b # post)"
  by (simp add: crc32_def word_xor_right_cancel crc32_loop_tail crc32_tail_append crc32_tail_inj DO1_inj_byte)

lemma crc32_update: "i < length xs \<Longrightarrow> b \<noteq> xs ! i \<Longrightarrow> crc32 crc (xs[i := b]) \<noteq> crc32 crc xs"
  using crc32_byte_error [of b "xs ! i" crc "take i xs" "drop (Suc i) xs"]
  by (simp add: upd_conv_take_nth_drop flip: id_take_nth_drop)

lemma crc32_byte_error_check:
  "crc32 0 ([0x12] @ 0x34 # [0x56]) \<noteq> crc32 0 ([0x12] @ 0x35 # [0x56])"
  by (rule crc32_byte_error) simp

interpretation crc: stream_digest "\<lambda>c m. c = crc32 c0 m" crc32 "\<lambda>c. c" "crc32 c0" "2 ^ 31" for c0
  by unfold_locales (simp_all add: crc32_append)

text \<open>
  the watchdog build of \<open>crc32_wd\<close> ends for every positive chunk size, returns exactly
  \<open>crc32\<close> of the whole buffer, and triggers the watchdog once per started chunk.
\<close>

lemma crc32_wd_spec:
  assumes "0 < chunk_sz" and "chunk_sz < 2 ^ 31"
  shows "crc32_wd crc buf chunk_sz = Some (crc32 crc buf, (length buf + chunk_sz - 1) div chunk_sz)"
proof -
  have "crc = crc32 crc []" by simp
  from crc.wd_loop_repr [OF this assms, of buf 0] show ?thesis
    by (simp add: crc32_wd_def)
qed

lemma crc32_wd_check:
  "crc32_wd 0 [0x31, 0x32, 0x33, 0x34, 0x35, 0x36, 0x37, 0x38, 0x39] 4 = Some (0xcbf43926, 3)"
proof -
  have "crc32 0 [0x31, 0x32, 0x33, 0x34, 0x35, 0x36, 0x37, 0x38, 0x39] = 0xcbf43926"
    by (simp add: crc32_def crc32_loop_tail DO1_def crc_table_def)
  then show ?thesis
    using crc32_wd_spec [of 4 0 "[0x31, 0x32, 0x33, 0x34, 0x35, 0x36, 0x37, 0x38, 0x39]"] by simp
qed

end
