(* ===== verification/Sha256.thy ===== *)
theory Sha256
  imports HashStream
begin

text \<open>
  \<^verbatim>\<open>lib_generic/sha256.c\<close>. The compression function is a fold of the macro \<open>P\<close> over the 64
  rounds, the variables \<open>A..H\<close> kept as a tuple that rotates as the arguments of the calls do.
  The context record, \<open>sha256_starts\<close>, \<open>sha256_update\<close> and \<open>sha256_finish\<close> follow the code; the
  theorems show that any sequence of updates followed by \<open>sha256_finish\<close> computes the standard's
  digest: compression folded over the padded message.
\<close>

section \<open>The compression function\<close>

definition SHR :: "u32 \<Rightarrow> nat \<Rightarrow> u32" where
  "SHR x n = drop_bit n (x AND 0xFFFFFFFF)"

definition ROTR :: "u32 \<Rightarrow> nat \<Rightarrow> u32" where
  "ROTR x n = SHR x n OR push_bit (32 - n) x"

definition S0 :: "u32 \<Rightarrow> u32" where "S0 x = ROTR x 7 XOR ROTR x 18 XOR SHR x 3"
definition S1 :: "u32 \<Rightarrow> u32" where "S1 x = ROTR x 17 XOR ROTR x 19 XOR SHR x 10"
definition S2 :: "u32 \<Rightarrow> u32" where "S2 x = ROTR x 2 XOR ROTR x 13 XOR ROTR x 22"
definition S3 :: "u32 \<Rightarrow> u32" where "S3 x = ROTR x 6 XOR ROTR x 11 XOR ROTR x 25"

definition F0 :: "u32 \<Rightarrow> u32 \<Rightarrow> u32 \<Rightarrow> u32" where "F0 x y z = (x AND y) OR (z AND (x OR y))"
definition F1 :: "u32 \<Rightarrow> u32 \<Rightarrow> u32 \<Rightarrow> u32" where "F1 x y z = z XOR (x AND (y XOR z))"

definition sha256_K :: "u32 list" where
  "sha256_K = [
   0x428A2F98, 0x71374491, 0xB5C0FBCF, 0xE9B5DBA5, 0x3956C25B, 0x59F111F1,
   0x923F82A4, 0xAB1C5ED5, 0xD807AA98, 0x12835B01, 0x243185BE, 0x550C7DC3,
   0x72BE5D74, 0x80DEB1FE, 0x9BDC06A7, 0xC19BF174, 0xE49B69C1, 0xEFBE4786,
   0x0FC19DC6, 0x240CA1CC, 0x2DE92C6F, 0x4A7484AA, 0x5CB0A9DC, 0x76F988DA,
   0x983E5152, 0xA831C66D, 0xB00327C8, 0xBF597FC7, 0xC6E00BF3, 0xD5A79147,
   0x06CA6351, 0x14292967, 0x27B70A85, 0x2E1B2138, 0x4D2C6DFC, 0x53380D13,
   0x650A7354, 0x766A0ABB, 0x81C2C92E, 0x92722C85, 0xA2BFE8A1, 0xA81A664B,
   0xC24B8B70, 0xC76C51A3, 0xD192E819, 0xD6990624, 0xF40E3585, 0x106AA070,
   0x19A4C116, 0x1E376C08, 0x2748774C, 0x34B0BCB5, 0x391C0CB3, 0x4ED8AA4A,
   0x5B9CCA4F, 0x682E6FF3, 0x748F82EE, 0x78A5636F, 0x84C87814, 0x8CC70208,
   0x90BEFFFA, 0xA4506CEB, 0xBEF9A3F7, 0xC67178F2]"

text \<open>\<^verbatim>\<open>W[0..15]\<close> from the block, \<^verbatim>\<open>R(t)\<close> for the others.\<close>

definition sha256_R :: "u32 list \<Rightarrow> nat \<Rightarrow> u32" where
  "sha256_R W t = S1 (W ! (t - 2)) + W ! (t - 7) + S0 (W ! (t - 15)) + W ! (t - 16)"

definition sha256_W :: "u8 list \<Rightarrow> u32 list" where
  "sha256_W data =
     foldl (\<lambda>W t. W @ [sha256_R W t]) (map (\<lambda>i. GET_UINT32_BE data (4 * i)) [0..<16]) [16..<64]"

type_synonym sha256_vars = "u32 \<times> u32 \<times> u32 \<times> u32 \<times> u32 \<times> u32 \<times> u32 \<times> u32"

text \<open>One \<open>P(a,b,c,d,e,f,g,h,x,K)\<close>; the result is the argument tuple of the next call.\<close>

fun sha256_P :: "sha256_vars \<Rightarrow> u32 \<times> u32 \<Rightarrow> sha256_vars" where
  "sha256_P (a, b, c, d, e, f, g, h) (x, K) =
     (let temp1 = h + S3 e + F1 e f g + K + x;
          temp2 = S2 a + F0 a b c
      in (temp1 + temp2, a, b, c, d + temp1, e, f, g))"

fun vars_of_list :: "u32 list \<Rightarrow> sha256_vars" where
  "vars_of_list s = (s ! 0, s ! 1, s ! 2, s ! 3, s ! 4, s ! 5, s ! 6, s ! 7)"

fun list_of_vars :: "sha256_vars \<Rightarrow> u32 list" where
  "list_of_vars (a, b, c, d, e, f, g, h) = [a, b, c, d, e, f, g, h]"

text \<open>The new \<open>ctx->state\<close>.\<close>

definition sha256_process :: "u32 list \<Rightarrow> u8 list \<Rightarrow> u32 list" where
  "sha256_process state data =
     map2 (+) state
       (list_of_vars (foldl sha256_P (vars_of_list state) (zip (sha256_W data) sha256_K)))"

section \<open>The context\<close>

record sha256_context =
  sha256_total0 :: u32
  sha256_total1 :: u32
  sha256_state :: "u32 list"
  sha256_buffer :: "u8 list"

text \<open>\<open>sha256_starts\<close> leaves the sha256_buffer as it is.\<close>

definition sha256_starts :: "sha256_context \<Rightarrow> sha256_context" where
  "sha256_starts ctx = ctx\<lparr>sha256_total0 := 0, sha256_total1 := 0,
     sha256_state := [0x6A09E667, 0xBB67AE85, 0x3C6EF372, 0xA54FF53A,
               0x510E527F, 0x9B05688C, 0x1F83D9AB, 0x5BE0CD19]\<rparr>"

definition sha256_update :: "sha256_context \<Rightarrow> u8 list \<Rightarrow> sha256_context" where
  "sha256_update ctx input =
     (if input = [] then ctx
      else
        let len = of_nat (length input) :: u32;
            left = unat (sha256_total0 ctx AND 0x3F);
            t0 = (sha256_total0 ctx + len) AND 0xFFFFFFFF;
            t1 = (if t0 < len then sha256_total1 ctx + 1 else sha256_total1 ctx);
            (s, b) = absorb sha256_process (sha256_state ctx) (sha256_buffer ctx) left input
        in ctx\<lparr>sha256_total0 := t0, sha256_total1 := t1, sha256_state := s, sha256_buffer := b\<rparr>)"

definition sha256_finish :: "sha256_context \<Rightarrow> sha256_context \<times> u8 list" where
  "sha256_finish ctx =
     (let high = drop_bit 29 (sha256_total0 ctx) OR push_bit 3 (sha256_total1 ctx);
          low = push_bit 3 (sha256_total0 ctx);
          msglen = PUT_UINT32_BE high @ PUT_UINT32_BE low;
          last = unat (sha256_total0 ctx AND 0x3F);
          padn = (if last < 56 then 56 - last else 120 - last);
          ctx = sha256_update ctx (take padn digest_padding);
          ctx = sha256_update ctx msglen
      in (ctx, concat (map PUT_UINT32_BE (sha256_state ctx))))"

section \<open>The standard's digest\<close>

definition sha256_iv :: "u32 list" where
  "sha256_iv = [0x6A09E667, 0xBB67AE85, 0x3C6EF372, 0xA54FF53A,
                0x510E527F, 0x9B05688C, 0x1F83D9AB, 0x5BE0CD19]"

definition sha256_spec :: "u8 list \<Rightarrow> u8 list" where
  "sha256_spec m =
     concat (map PUT_UINT32_BE
       (fst (block_loop sha256_process sha256_iv (md_pad (be64_bits (length m)) m))))"

text \<open>The context has absorbed the message \<open>m\<close>.\<close>

definition sha256_repr :: "sha256_context \<Rightarrow> u8 list \<Rightarrow> bool" where
  "sha256_repr ctx m \<longleftrightarrow>
     sha256_total0 ctx = lo32 (length m) \<and> sha256_total1 ctx = hi32 (length m) \<and> length (sha256_buffer ctx) = 64 \<and>
     block_loop sha256_process sha256_iv m = (sha256_state ctx, take (length m mod 64) (sha256_buffer ctx))"

lemma sha256_repr_starts: "length (sha256_buffer ctx) = 64 \<Longrightarrow> sha256_repr (sha256_starts ctx) []"
  by (simp add: sha256_repr_def sha256_starts_def sha256_iv_def block_loop_short lo32_def hi32_def)

lemma sha256_repr_update:
  assumes repr: "sha256_repr ctx m" and len: "length xs < 2 ^ 32"
  shows "sha256_repr (sha256_update ctx xs) (m @ xs)"
proof (cases "xs = []")
  case True
  with repr show ?thesis by (simp add: sha256_update_def)
next
  case False
  let ?left = "length m mod 64"
  obtain s b where ab: "absorb sha256_process (sha256_state ctx) (sha256_buffer ctx) ?left xs = (s, b)"
    by (cases "absorb sha256_process (sha256_state ctx) (sha256_buffer ctx) ?left xs")
  have r: "sha256_total0 ctx = lo32 (length m)" "sha256_total1 ctx = hi32 (length m)" "length (sha256_buffer ctx) = 64"
    "block_loop sha256_process sha256_iv m = (sha256_state ctx, take ?left (sha256_buffer ctx))"
    using repr by (simp_all add: sha256_repr_def)
  have upd: "sha256_update ctx xs = ctx\<lparr>sha256_total0 := lo32 (length m + length xs),
      sha256_total1 := hi32 (length m + length xs), sha256_state := s, sha256_buffer := b\<rparr>"
    unfolding sha256_update_def Let_def r(1,2) lo32_and_3F and_all_ones counter_update [OF len] ab
    using False by simp
  have "block_loop sha256_process (sha256_state ctx) (take ?left (sha256_buffer ctx) @ xs) =
      (s, take ((?left + length xs) mod 64) b)" and "length b = 64"
    using absorb_block_loop [OF r(3) refl _ ab] by simp_all
  moreover have "(?left + length xs) mod 64 = (length m + length xs) mod 64"
    by (rule mod_add_left_eq)
  ultimately have "block_loop sha256_process sha256_iv (m @ xs) =
      (s, take ((length m + length xs) mod 64) b)" and "length b = 64"
    by (simp_all only: block_loop_append [of _ _ m xs] r(4) fst_conv snd_conv)
  then show ?thesis by (simp add: sha256_repr_def upd)
qed

lemma sha256_finish_pair:
  assumes repr: "sha256_repr ctx m"
  shows "\<exists>c2. sha256_finish ctx = (c2, sha256_spec m) \<and> sha256_repr c2 (md_pad (be64_bits (length m)) m)"
proof -
  let ?n = "length m"
  let ?padn = "if ?n mod 64 < 56 then 56 - ?n mod 64 else 120 - ?n mod 64"
  define c1 where "c1 = sha256_update ctx (take ?padn digest_padding)"
  define c2 where "c2 = sha256_update c1 (be64_bits ?n)"
  have "sha256_repr c1 (m @ take ?padn digest_padding)"
    unfolding c1_def by (rule sha256_repr_update [OF repr]) (simp add: digest_padding_def)
  then have "sha256_repr c2 ((m @ take ?padn digest_padding) @ be64_bits ?n)"
    unfolding c2_def by (rule sha256_repr_update) (simp add: be64_bits_def)
  then have c2: "sha256_repr c2 (md_pad (be64_bits ?n) m)"
    by (simp only: md_pad_def take_padn append.assoc append_Cons)
  then have "sha256_state c2 = fst (block_loop sha256_process sha256_iv (md_pad (be64_bits ?n) m))"
    by (simp add: sha256_repr_def)
  moreover have "sha256_finish ctx = (c2, concat (map PUT_UINT32_BE (sha256_state c2)))"
    using repr by (simp only: sha256_finish_def Let_def sha256_repr_def lo32_and_3F hi32_bits
        lo32_bits c2_def c1_def be64_bits_def)
  ultimately show ?thesis using c2 by (simp add: sha256_spec_def)
qed

lemma sha256_repr_finish: "sha256_repr ctx m \<Longrightarrow> snd (sha256_finish ctx) = sha256_spec m"
  using sha256_finish_pair by fastforce

interpretation sha256: stream_digest sha256_repr sha256_update "\<lambda>ctx. snd (sha256_finish ctx)" sha256_spec "2 ^ 32"
  by unfold_locales (simp_all add: sha256_repr_update sha256_repr_finish)

text \<open>
  C32: \<open>sha256_starts\<close>, any sequence of \<open>sha256_update\<close> calls on pieces whose lengths fit
  the 32-bit length parameter, and \<open>sha256_finish\<close> compute the standard's digest of the
  concatenated pieces: the padding, the bit count and the partly filled sha256_buffer are right at every
  cut.
\<close>

theorem sha256_stream:
  assumes "length (sha256_buffer ctx) = 64" and "\<forall>p \<in> set ps. length p < 2 ^ 32"
  shows "snd (sha256_finish (foldl sha256_update (sha256_starts ctx) ps)) = sha256_spec (concat ps)"
  using sha256.finish_fold_update [OF sha256_repr_starts [OF assms(1)] assms(2)] by simp

theorem sha256_stream_witness:
  "snd (sha256_finish (foldl sha256_update
     (sha256_starts \<lparr>sha256_total0 = 7, sha256_total1 = 7, sha256_state = [], sha256_buffer = replicate 64 0\<rparr>)
     [[0x61], [0x62, 0x63]])) = sha256_spec [0x61, 0x62, 0x63]"
  using sha256_stream [of "\<lparr>sha256_total0 = 7, sha256_total1 = 7, sha256_state = [], sha256_buffer = replicate 64 0\<rparr>"
      "[[0x61], [0x62, 0x63]]"] by simp

end
