(* ===== verification/Sha1.thy ===== *)
theory Sha1
  imports HashStream
begin

text \<open>
  \<^verbatim>\<open>lib_generic/sha1.c\<close>: the digest of FIT images and of \<^verbatim>\<open>sha1sum\<close>. The compression function
  keeps the 16-word circular schedule of the code; it is shown equal to the standard's 80-word
  schedule. The context, \<open>sha1_starts\<close>, \<open>sha1_update\<close>, \<open>sha1_finish\<close>, \<open>sha1_csum\<close>, its watchdog
  variant and \<open>sha1_hmac\<close> follow the code.
\<close>

section \<open>The compression function\<close>

text \<open>Macro \<open>S\<close>: rotation to the left.\<close>

definition sha1_S :: "u32 \<Rightarrow> nat \<Rightarrow> u32" where
  "sha1_S x n = push_bit n x OR drop_bit (32 - n) (x AND 0xFFFFFFFF)"

text \<open>The four definitions of the macros \<open>F\<close> and \<open>K\<close>, by round.\<close>

definition sha1_F :: "nat \<Rightarrow> u32 \<Rightarrow> u32 \<Rightarrow> u32 \<Rightarrow> u32" where
  "sha1_F t x y z =
     (if t < 20 then z XOR (x AND (y XOR z))
      else if t < 40 then x XOR y XOR z
      else if t < 60 then (x AND y) OR (z AND (x OR y))
      else x XOR y XOR z)"

definition sha1_K :: "nat \<Rightarrow> u32" where
  "sha1_K t = (if t < 20 then 0x5A827999 else if t < 40 then 0x6ED9EBA1
     else if t < 60 then 0x8F1BBCDC else 0xCA62C1D6)"

text \<open>Macro \<open>R\<close>: the new circular schedule; the round uses its entry \<open>t mod 16\<close>.\<close>

definition sha1_R :: "u32 list \<Rightarrow> nat \<Rightarrow> u32 list" where
  "sha1_R W t =
     (let temp = W ! ((t - 3) mod 16) XOR W ! ((t - 8) mod 16) XOR W ! ((t - 14) mod 16) XOR W ! (t mod 16)
      in W[t mod 16 := sha1_S temp 1])"

type_synonym sha1_vars = "u32 \<times> u32 \<times> u32 \<times> u32 \<times> u32"

text \<open>Macro \<open>P(a,b,c,d,e,x)\<close>; the result is the argument tuple of the next call.\<close>

fun sha1_P :: "nat \<Rightarrow> sha1_vars \<Rightarrow> u32 \<Rightarrow> sha1_vars" where
  "sha1_P t (a, b, c, d, e) x = (e + (sha1_S a 5 + sha1_F t b c d + sha1_K t + x), a, sha1_S b 30, c, d)"

definition sha1_round :: "u32 list \<times> sha1_vars \<Rightarrow> nat \<Rightarrow> u32 list \<times> sha1_vars" where
  "sha1_round Wv t =
     (let W = (if t < 16 then fst Wv else sha1_R (fst Wv) t)
      in (W, sha1_P t (snd Wv) (W ! (t mod 16))))"

fun sha1_vars_of :: "u32 list \<Rightarrow> sha1_vars" where
  "sha1_vars_of s = (s ! 0, s ! 1, s ! 2, s ! 3, s ! 4)"

fun sha1_list_of :: "sha1_vars \<Rightarrow> u32 list" where
  "sha1_list_of (a, b, c, d, e) = [a, b, c, d, e]"

definition sha1_process :: "u32 list \<Rightarrow> u8 list \<Rightarrow> u32 list" where
  "sha1_process state data =
     (let W = map (\<lambda>i. GET_UINT32_BE data (4 * i)) [0..<16]
      in map2 (+) state (sha1_list_of (snd (foldl sha1_round (W, sha1_vars_of state) [0..<80]))))"

section \<open>The context\<close>

record sha1_context =
  sha1_total0 :: u32
  sha1_total1 :: u32
  sha1_state :: "u32 list"
  sha1_buffer :: "u8 list"

definition sha1_iv :: "u32 list" where
  "sha1_iv = [0x67452301, 0xEFCDAB89, 0x98BADCFE, 0x10325476, 0xC3D2E1F0]"

definition sha1_starts :: "sha1_context \<Rightarrow> sha1_context" where
  "sha1_starts ctx = ctx\<lparr>sha1_total0 := 0, sha1_total1 := 0, sha1_state := sha1_iv\<rparr>"

text \<open>\<open>input\<close> holds the \<open>ilen\<close> bytes; the test \<^verbatim>\<open>ilen <= 0\<close> is \<open>input = []\<close>.\<close>

definition sha1_update :: "sha1_context \<Rightarrow> u8 list \<Rightarrow> sha1_context" where
  "sha1_update ctx input =
     (if input = [] then ctx
      else
        let ilen = of_nat (length input) :: u32;
            left = unat (sha1_total0 ctx AND 0x3F);
            t0 = (sha1_total0 ctx + ilen) AND 0xFFFFFFFF;
            t1 = (if t0 < ilen then sha1_total1 ctx + 1 else sha1_total1 ctx);
            (s, b) = absorb sha1_process (sha1_state ctx) (sha1_buffer ctx) left input
        in ctx\<lparr>sha1_total0 := t0, sha1_total1 := t1, sha1_state := s, sha1_buffer := b\<rparr>)"

definition sha1_finish :: "sha1_context \<Rightarrow> sha1_context \<times> u8 list" where
  "sha1_finish ctx =
     (let high = drop_bit 29 (sha1_total0 ctx) OR push_bit 3 (sha1_total1 ctx);
          low = push_bit 3 (sha1_total0 ctx);
          msglen = PUT_UINT32_BE high @ PUT_UINT32_BE low;
          last = unat (sha1_total0 ctx AND 0x3F);
          padn = (if last < 56 then 56 - last else 120 - last);
          ctx = sha1_update ctx (take padn digest_padding);
          ctx = sha1_update ctx msglen
      in (ctx, concat (map PUT_UINT32_BE (sha1_state ctx))))"

text \<open>An uninitialised context on the stack is the parameter \<open>ctx\<close>.\<close>

definition sha1_csum :: "sha1_context \<Rightarrow> u8 list \<Rightarrow> u8 list" where
  "sha1_csum ctx input = snd (sha1_finish (sha1_update (sha1_starts ctx) input))"

definition sha1_csum_wd :: "sha1_context \<Rightarrow> u8 list \<Rightarrow> nat \<Rightarrow> (u8 list \<times> nat) option" where
  "sha1_csum_wd ctx input chunk_sz =
     (case wd_loop sha1_update chunk_sz (sha1_starts ctx) input 0 of
        None \<Rightarrow> None
      | Some (ctx, resets) \<Rightarrow> Some (snd (sha1_finish ctx), resets))"

text \<open>\<^verbatim>\<open>memset(k_ipad, pad, 64)\<close> and the loop that mixes in the first 64 bytes of the key.\<close>

fun hmac_pad :: "u8 list \<Rightarrow> nat \<Rightarrow> u8 list \<Rightarrow> u8 list" where
  "hmac_pad [] i k = k"
| "hmac_pad (x # key) i k = (if i \<ge> 64 then k else hmac_pad key (Suc i) (k[i := k ! i XOR x]))"

definition sha1_hmac :: "sha1_context \<Rightarrow> u8 list \<Rightarrow> u8 list \<Rightarrow> u8 list" where
  "sha1_hmac ctx key input =
     (let k_ipad = hmac_pad key 0 (replicate 64 0x36);
          k_opad = hmac_pad key 0 (replicate 64 0x5C);
          ctx = sha1_starts ctx;
          ctx = sha1_update ctx k_ipad;
          ctx = sha1_update ctx input;
          (ctx, tmpbuf) = sha1_finish ctx;
          ctx = sha1_starts ctx;
          ctx = sha1_update ctx k_opad;
          ctx = sha1_update ctx tmpbuf
      in snd (sha1_finish ctx))"

section \<open>The standard's digest\<close>

definition sha1_spec :: "u8 list \<Rightarrow> u8 list" where
  "sha1_spec m =
     concat (map PUT_UINT32_BE
       (fst (block_loop sha1_process sha1_iv (md_pad (be64_bits (length m)) m))))"

text \<open>The context has absorbed the message \<open>m\<close>.\<close>

definition sha1_repr :: "sha1_context \<Rightarrow> u8 list \<Rightarrow> bool" where
  "sha1_repr ctx m \<longleftrightarrow>
     sha1_total0 ctx = lo32 (length m) \<and> sha1_total1 ctx = hi32 (length m) \<and> length (sha1_buffer ctx) = 64 \<and>
     block_loop sha1_process sha1_iv m = (sha1_state ctx, take (length m mod 64) (sha1_buffer ctx))"

lemma sha1_repr_starts: "length (sha1_buffer ctx) = 64 \<Longrightarrow> sha1_repr (sha1_starts ctx) []"
  by (simp add: sha1_repr_def sha1_starts_def sha1_iv_def block_loop_short lo32_def hi32_def)

lemma sha1_repr_update:
  assumes repr: "sha1_repr ctx m" and len: "length xs < 2 ^ 31"
  shows "sha1_repr (sha1_update ctx xs) (m @ xs)"
proof (cases "xs = []")
  case True
  with repr show ?thesis by (simp add: sha1_update_def)
next
  case False
  let ?left = "length m mod 64"
  have len: "length xs < 2 ^ 32" using len by simp
  obtain s b where ab: "absorb sha1_process (sha1_state ctx) (sha1_buffer ctx) ?left xs = (s, b)"
    by (cases "absorb sha1_process (sha1_state ctx) (sha1_buffer ctx) ?left xs")
  have r: "sha1_total0 ctx = lo32 (length m)" "sha1_total1 ctx = hi32 (length m)" "length (sha1_buffer ctx) = 64"
    "block_loop sha1_process sha1_iv m = (sha1_state ctx, take ?left (sha1_buffer ctx))"
    using repr by (simp_all add: sha1_repr_def)
  have upd: "sha1_update ctx xs = ctx\<lparr>sha1_total0 := lo32 (length m + length xs),
      sha1_total1 := hi32 (length m + length xs), sha1_state := s, sha1_buffer := b\<rparr>"
    unfolding sha1_update_def Let_def r(1,2) lo32_and_3F and_all_ones counter_update [OF len] ab
    using False by simp
  have "block_loop sha1_process (sha1_state ctx) (take ?left (sha1_buffer ctx) @ xs) =
      (s, take ((?left + length xs) mod 64) b)" and "length b = 64"
    using absorb_block_loop [OF r(3) refl _ ab] by simp_all
  moreover have "(?left + length xs) mod 64 = (length m + length xs) mod 64"
    by (rule mod_add_left_eq)
  ultimately have "block_loop sha1_process sha1_iv (m @ xs) =
      (s, take ((length m + length xs) mod 64) b)" and "length b = 64"
    by (simp_all only: block_loop_append [of _ _ m xs] r(4) fst_conv snd_conv)
  then show ?thesis by (simp add: sha1_repr_def upd)
qed

lemma sha1_finish_pair:
  assumes repr: "sha1_repr ctx m"
  shows "\<exists>c2. sha1_finish ctx = (c2, sha1_spec m) \<and> sha1_repr c2 (md_pad (be64_bits (length m)) m)"
proof -
  let ?n = "length m"
  let ?padn = "if ?n mod 64 < 56 then 56 - ?n mod 64 else 120 - ?n mod 64"
  define c1 where "c1 = sha1_update ctx (take ?padn digest_padding)"
  define c2 where "c2 = sha1_update c1 (be64_bits ?n)"
  have "sha1_repr c1 (m @ take ?padn digest_padding)"
    unfolding c1_def by (rule sha1_repr_update [OF repr]) (simp add: digest_padding_def)
  then have "sha1_repr c2 ((m @ take ?padn digest_padding) @ be64_bits ?n)"
    unfolding c2_def by (rule sha1_repr_update) (simp add: be64_bits_def)
  then have c2: "sha1_repr c2 (md_pad (be64_bits ?n) m)"
    by (simp only: md_pad_def take_padn append.assoc append_Cons)
  then have "sha1_state c2 = fst (block_loop sha1_process sha1_iv (md_pad (be64_bits ?n) m))"
    by (simp add: sha1_repr_def)
  moreover have "sha1_finish ctx = (c2, concat (map PUT_UINT32_BE (sha1_state c2)))"
    using repr by (simp only: sha1_finish_def Let_def sha1_repr_def lo32_and_3F hi32_bits
        lo32_bits c2_def c1_def be64_bits_def)
  ultimately show ?thesis using c2 by (simp add: sha1_spec_def)
qed

lemma sha1_repr_finish: "sha1_repr ctx m \<Longrightarrow> snd (sha1_finish ctx) = sha1_spec m"
  using sha1_finish_pair by fastforce

interpretation sha1: stream_digest sha1_repr sha1_update "\<lambda>ctx. snd (sha1_finish ctx)" sha1_spec "2 ^ 31"
  by unfold_locales (simp_all add: sha1_repr_update sha1_repr_finish)

text \<open>
  \<open>sha1_starts\<close>, any sequence of \<open>sha1_update\<close> calls on pieces whose lengths fit
  the \<open>int\<close> length parameter, and \<open>sha1_finish\<close> compute the standard's digest of the
  concatenated pieces: the padding, the bit count and the partly filled sha1_buffer are right at every
  cut.
\<close>

lemma sha1_stream:
  assumes "length (sha1_buffer ctx) = 64" and "\<forall>p \<in> set ps. length p < 2 ^ 31"
  shows "snd (sha1_finish (foldl sha1_update (sha1_starts ctx) ps)) = sha1_spec (concat ps)"
  using sha1.finish_fold_update [OF sha1_repr_starts [OF assms(1)] assms(2)] by simp

theorem sha1_stream_witness:
  "snd (sha1_finish (foldl sha1_update
     (sha1_starts \<lparr>sha1_total0 = 7, sha1_total1 = 7, sha1_state = [], sha1_buffer = replicate 64 0\<rparr>)
     [[0x61], [0x62, 0x63]])) = sha1_spec [0x61, 0x62, 0x63]"
  using sha1_stream [of "\<lparr>sha1_total0 = 7, sha1_total1 = 7, sha1_state = [], sha1_buffer = replicate 64 0\<rparr>"
      "[[0x61], [0x62, 0x63]]"] by simp

section \<open>The circular schedule is the standard one\<close>

text \<open>The 80-word message schedule and the compression function that reads it.\<close>

definition sha1_W :: "u8 list \<Rightarrow> u32 list" where
  "sha1_W data =
     foldl (\<lambda>W t. W @ [sha1_S (W ! (t - 3) XOR W ! (t - 8) XOR W ! (t - 14) XOR W ! (t - 16)) 1])
       (map (\<lambda>i. GET_UINT32_BE data (4 * i)) [0..<16]) [16..<80]"

definition sha1_process_spec :: "u32 list \<Rightarrow> u8 list \<Rightarrow> u32 list" where
  "sha1_process_spec state data =
     map2 (+) state (sha1_list_of
       (foldl (\<lambda>v t. sha1_P t v (sha1_W data ! t)) (sha1_vars_of state) [0..<80]))"

lemma sha1_W_low: "t < 16 \<Longrightarrow> sha1_W data ! t = GET_UINT32_BE data (4 * t)"
proof -
  assume t: "t < 16"
  have "sha1_W data ! t = take 16 (sha1_W data) ! t" using t by simp
  also have "\<dots> = map (\<lambda>i. GET_UINT32_BE data (4 * i)) [0..<16] ! t"
    unfolding sha1_W_def by (subst take_extend) simp_all
  finally show ?thesis using t by simp
qed

lemma sha1_W_rec:
  assumes "16 \<le> t" "t < 80"
  shows "sha1_W data ! t = sha1_S (sha1_W data ! (t - 3) XOR sha1_W data ! (t - 8)
    XOR sha1_W data ! (t - 14) XOR sha1_W data ! (t - 16)) 1"
proof -
  let ?g = "\<lambda>W t. sha1_S (W ! (t - 3) XOR W ! (t - 8) XOR W ! (t - 14) XOR W ! (t - 16)) 1"
  let ?W0 = "map (\<lambda>i. GET_UINT32_BE data (4 * i)) [0..<16]"
  have "sha1_W data ! t = ?g (foldl (\<lambda>W t. W @ [?g W t]) ?W0 [16..<t]) t"
    unfolding sha1_W_def using assms by (intro nth_extend) simp_all
  also have "foldl (\<lambda>W t. W @ [?g W t]) ?W0 [16..<t] = take t (sha1_W data)"
    unfolding sha1_W_def using assms by (intro take_extend [symmetric]) simp_all
  finally show ?thesis using assms by simp
qed

lemma mod16_neq: "j < t \<Longrightarrow> t < j + 16 \<Longrightarrow> j mod 16 \<noteq> t mod 16" for j t :: nat
proof
  assume "j < t" "t < j + 16" "j mod 16 = t mod 16"
  then have "16 dvd t - j" by (metis mod_eq_dvd_iff_nat less_imp_le)
  then show False using \<open>j < t\<close> \<open>t < j + 16\<close> by (auto dest: dvd_imp_le)
qed

text \<open>The circular buffer holds the last 16 words of the schedule.\<close>

definition sched_inv :: "u8 list \<Rightarrow> nat \<Rightarrow> u32 list \<Rightarrow> bool" where
  "sched_inv data n W \<longleftrightarrow> length W = 16 \<and>
     (\<forall>j. j < max n 16 \<longrightarrow> max n 16 \<le> j + 16 \<longrightarrow> W ! (j mod 16) = sha1_W data ! j)"

lemma sched_inv_read:
  "sched_inv data n W \<Longrightarrow> j < max n 16 \<Longrightarrow> max n 16 \<le> j + 16 \<Longrightarrow> W ! (j mod 16) = sha1_W data ! j"
  by (simp add: sched_inv_def)

lemma sched_inv_step:
  assumes inv: "sched_inv data t W" and t: "16 \<le> t" "t < 80"
  shows "sched_inv data (Suc t) (sha1_R W t) \<and> sha1_R W t ! (t mod 16) = sha1_W data ! t"
proof -
  have m: "max t 16 = t" "max (Suc t) 16 = Suc t" using t by simp_all
  have len: "length W = 16" using inv by (simp add: sched_inv_def)
  have old: "W ! (j mod 16) = sha1_W data ! j" if "j < t" "t \<le> j + 16" for j
    using sched_inv_read [OF inv, of j] that unfolding m by simp
  have "t mod 16 = (t - 16) mod 16" using t by (simp add: le_mod_geq)
  then have "W ! (t mod 16) = sha1_W data ! (t - 16)" using old [of "t - 16"] t by simp
  then have R: "sha1_R W t = W[t mod 16 := sha1_W data ! t]"
    unfolding sha1_W_rec [OF t] using old [of "t - 3"] old [of "t - 8"] old [of "t - 14"] t
    by (simp add: sha1_R_def Let_def)
  have "t mod 16 < 16" by (rule mod_less_divisor) simp
  moreover have "sha1_R W t ! (j mod 16) = sha1_W data ! j" if "j < t" "Suc t \<le> j + 16" for j
    using old [of j] mod16_neq [of j t] that unfolding R by simp
  ultimately show ?thesis
    unfolding sched_inv_def m using len by (auto simp: R less_Suc_eq)
qed

lemma sha1_round_pair:
  "sha1_round (W, v) t = (let W = (if t < 16 then W else sha1_R W t) in (W, sha1_P t v (W ! (t mod 16))))"
  by (simp add: sha1_round_def)

lemma sha1_rounds:
  assumes "n \<le> 80"
  shows "\<exists>W. sched_inv data n W \<and>
    foldl sha1_round (map (\<lambda>i. GET_UINT32_BE data (4 * i)) [0..<16], v) [0..<n] =
      (W, foldl (\<lambda>v t. sha1_P t v (sha1_W data ! t)) v [0..<n])"
  using assms
proof (induction n)
  case 0
  have "sched_inv data 0 (map (\<lambda>i. GET_UINT32_BE data (4 * i)) [0..<16])"
    by (auto simp: sched_inv_def sha1_W_low)
  then show ?case by auto
next
  case (Suc n)
  then obtain W where inv: "sched_inv data n W"
    and eq: "foldl sha1_round (map (\<lambda>i. GET_UINT32_BE data (4 * i)) [0..<16], v) [0..<n] =
      (W, foldl (\<lambda>v t. sha1_P t v (sha1_W data ! t)) v [0..<n])" by auto
  show ?case
  proof (cases "n < 16")
    case True
    then have "sched_inv data (Suc n) W" and "W ! n = sha1_W data ! n"
      using inv sched_inv_read [OF inv, of n] by (auto simp: sched_inv_def max_def)
    with True eq show ?thesis by (auto simp: sha1_round_pair Let_def)
  next
    case False
    with sched_inv_step [OF inv] Suc.prems eq show ?thesis
      by (auto simp: sha1_round_pair Let_def)
  qed
qed

text \<open>
  the compression function of the code, which keeps only 16 schedule words and overwrites
  them in place, equals the standard's compression over the 80-word message schedule.
\<close>

lemma sha1_schedule: "sha1_process state data = sha1_process_spec state data"
proof -
  obtain W where "foldl sha1_round (map (\<lambda>i. GET_UINT32_BE data (4 * i)) [0..<16], sha1_vars_of state) [0..<80] =
      (W, foldl (\<lambda>v t. sha1_P t v (sha1_W data ! t)) (sha1_vars_of state) [0..<80])"
    using sha1_rounds [of 80 data "sha1_vars_of state"] by auto
  then show ?thesis by (simp only: sha1_process_def sha1_process_spec_def Let_def snd_conv)
qed

section \<open>Watchdog variant and HMAC\<close>

text \<open>RFC 2104 for a hash \<open>H\<close> with 64-byte blocks and keys of at most 64 bytes.\<close>

lemma hmac_pad_nth:
  "i < length k \<Longrightarrow> length k = 64 \<Longrightarrow>
   hmac_pad key i0 k ! i = (if i0 \<le> i \<and> i < i0 + length key then k ! i XOR key ! (i - i0) else k ! i)"
  by (induction key i0 k rule: hmac_pad.induct) (auto simp: nth_list_update nth_Cons' not_less Suc_le_eq dest: le_antisym)

lemma length_hmac_pad [simp]: "length (hmac_pad key i k) = length k"
  by (induction key i k rule: hmac_pad.induct) simp_all

lemma length_sha1_process: "length (sha1_process s d) \<le> 5"
proof -
  have "length (sha1_list_of v) = 5" for v by (cases v) simp
  then show ?thesis by (simp add: sha1_process_def Let_def)
qed

lemma length_sha1_blocks: "length s \<le> 5 \<Longrightarrow> length (fst (block_loop sha1_process s xs)) \<le> 5"
  by (induction sha1_process s xs rule: block_loop.induct)
    (subst block_loop.simps, simp add: length_sha1_process)

lemma length_concat_PUT [simp]: "length (concat (map PUT_UINT32_BE ws)) = 4 * length ws"
  by (induction ws) simp_all

lemma length_sha1_spec: "length (sha1_spec m) \<le> 20"
  using length_sha1_blocks [of sha1_iv "md_pad (be64_bits (length m)) m"]
  by (simp add: sha1_spec_def sha1_iv_def)

definition hmac_spec :: "(u8 list \<Rightarrow> u8 list) \<Rightarrow> u8 list \<Rightarrow> u8 list \<Rightarrow> u8 list" where
  "hmac_spec H key m =
     (let K = key @ replicate (64 - length key) 0
      in H (map ((XOR) 0x5C) K @ H (map ((XOR) 0x36) K @ m)))"

lemma hmac_pad_key:
  assumes "length key \<le> 64"
  shows "hmac_pad key 0 (replicate 64 c) = map ((XOR) c) (key @ replicate (64 - length key) 0)"
  using assms by (intro nth_equalityI) (simp_all add: hmac_pad_nth nth_append)


text \<open>
  \<open>sha1_csum_wd\<close> ends for every positive chunk size, returns the digest \<open>sha1_csum\<close>
  returns, and triggers the watchdog once per started chunk.
\<close>

lemma sha1_csum_wd_correct:
  assumes "length (sha1_buffer ctx) = 64" and "length input < 2 ^ 31"
    and "0 < chunk_sz" and "chunk_sz < 2 ^ 31"
  shows "sha1_csum_wd ctx input chunk_sz =
    Some (sha1_csum ctx input, (length input + chunk_sz - 1) div chunk_sz)"
proof -
  note start = sha1_repr_starts [OF assms(1)]
  have "sha1_csum ctx input = sha1_spec input"
    using sha1.finish_fold_update [OF start, of "[input]"] assms(2) by (simp add: sha1_csum_def)
  moreover obtain c' where "wd_loop sha1_update chunk_sz (sha1_starts ctx) input 0 =
      Some (c', (length input + chunk_sz - 1) div chunk_sz)" and "sha1_repr c' input"
    using sha1.wd_loop_repr [OF start assms(3,4), of input 0] by auto
  ultimately show ?thesis using sha1_repr_finish [of c' input] by (simp add: sha1_csum_wd_def)
qed

theorem sha1_csum_wd_correct_witness:
  "sha1_csum_wd \<lparr>sha1_total0 = 7, sha1_total1 = 7, sha1_state = [], sha1_buffer = replicate 64 0\<rparr> [0x61, 0x62, 0x63] 2 =
     Some (sha1_csum \<lparr>sha1_total0 = 7, sha1_total1 = 7, sha1_state = [], sha1_buffer = replicate 64 0\<rparr> [0x61, 0x62, 0x63], 2)"
  using sha1_csum_wd_correct [of "\<lparr>sha1_total0 = 7, sha1_total1 = 7, sha1_state = [], sha1_buffer = replicate 64 0\<rparr>"
      "[0x61, 0x62, 0x63]" 2] by simp

text \<open>
  for keys of at most one block, \<open>sha1_hmac\<close> is HMAC of RFC 2104 over SHA-1. (Longer keys
  are cut to 64 bytes by the loop, where the RFC hashes them.)
\<close>

lemma sha1_hmac_correct:
  assumes buf: "length (sha1_buffer ctx) = 64" and "length key \<le> 64" and "length input < 2 ^ 31"
  shows "sha1_hmac ctx key input = hmac_spec sha1_spec key input"
proof -
  have run: "\<exists>c'. sha1_finish (sha1_update (sha1_update (sha1_starts c) xs) ys) = (c', sha1_spec (xs @ ys))
      \<and> length (sha1_buffer c') = 64"
    if "length (sha1_buffer c) = 64" "length xs < 2 ^ 31" "length ys < 2 ^ 31" for c xs ys
    using sha1_finish_pair [OF sha1.fold_update [OF sha1_repr_starts [OF that(1)], of "[xs, ys]"]] that
    by (auto simp: sha1_repr_def)
  let ?pad = "\<lambda>c. hmac_pad key 0 (replicate 64 c)"
  obtain c1 where c1: "sha1_finish (sha1_update (sha1_update (sha1_starts ctx) (?pad 0x36)) input) =
      (c1, sha1_spec (?pad 0x36 @ input))" and b1: "length (sha1_buffer c1) = 64"
    using run [OF buf, of "?pad 0x36" input] assms(3) by auto
  have "length (sha1_spec m) < 2 ^ 31" for m using length_sha1_spec [of m] by simp
  then obtain c2 where c2: "sha1_finish (sha1_update (sha1_update (sha1_starts c1) (?pad 0x5C))
      (sha1_spec (?pad 0x36 @ input))) = (c2, sha1_spec (?pad 0x5C @ sha1_spec (?pad 0x36 @ input)))"
    using run [OF b1, of "?pad 0x5C" "sha1_spec (?pad 0x36 @ input)"] by auto
  show ?thesis
    unfolding sha1_hmac_def hmac_spec_def Let_def hmac_pad_key [OF assms(2), symmetric] c1 split_conv c2 snd_conv ..
qed

theorem sha1_hmac_correct_witness:
  "sha1_hmac \<lparr>sha1_total0 = 7, sha1_total1 = 7, sha1_state = [], sha1_buffer = replicate 64 0\<rparr> [1, 2, 3] [0x61, 0x62] = hmac_spec sha1_spec [1, 2, 3] [0x61, 0x62]"
  by (rule sha1_hmac_correct) simp_all

end
