(* ===== verification/Md5.thy ===== *)
theory Md5
  imports HashStream
begin

text \<open>
  \<^verbatim>\<open>lib_generic/md5.c\<close>. Unlike the SHA routines it counts bits, copies every block into the
  context's buffer \<open>in\<close> before it is processed, and pads in place in \<open>MD5Final\<close>. The buffer is
  kept as the 64 bytes of memory; \<open>MD5Transform\<close> reads its 16 little-endian words. The theorems
  show that the routine computes the standard's digest for every way of cutting the input.
\<close>

section \<open>The compression function\<close>

definition md5_F1 :: "u32 \<Rightarrow> u32 \<Rightarrow> u32 \<Rightarrow> u32" where "md5_F1 x y z = z XOR (x AND (y XOR z))"
definition md5_F2 :: "u32 \<Rightarrow> u32 \<Rightarrow> u32 \<Rightarrow> u32" where "md5_F2 x y z = md5_F1 z x y"
definition md5_F3 :: "u32 \<Rightarrow> u32 \<Rightarrow> u32 \<Rightarrow> u32" where "md5_F3 x y z = x XOR y XOR z"
definition md5_F4 :: "u32 \<Rightarrow> u32 \<Rightarrow> u32 \<Rightarrow> u32" where "md5_F4 x y z = y XOR (x OR NOT z)"

type_synonym md5_vars = "u32 \<times> u32 \<times> u32 \<times> u32"

text \<open>\<open>MD5STEP(f, w, x, y, z, data, s)\<close>; the result is the argument tuple of the next call.\<close>

fun MD5STEP :: "(u32 \<Rightarrow> u32 \<Rightarrow> u32 \<Rightarrow> u32) \<Rightarrow> md5_vars \<Rightarrow> u32 \<Rightarrow> nat \<Rightarrow> md5_vars" where
  "MD5STEP f (w, x, y, z) data s =
     (let w = w + (f x y z + data);
          w = push_bit s w OR drop_bit (32 - s) w;
          w = w + x
      in (z, w, x, y))"

text \<open>Word index, additive constant and rotation of the 64 steps.\<close>

definition md5_steps :: "(nat \<times> u32 \<times> nat) list" where
  "md5_steps = [
   (0, 0xd76aa478, 7), (1, 0xe8c7b756, 12), (2, 0x242070db, 17), (3, 0xc1bdceee, 22),
   (4, 0xf57c0faf, 7), (5, 0x4787c62a, 12), (6, 0xa8304613, 17), (7, 0xfd469501, 22),
   (8, 0x698098d8, 7), (9, 0x8b44f7af, 12), (10, 0xffff5bb1, 17), (11, 0x895cd7be, 22),
   (12, 0x6b901122, 7), (13, 0xfd987193, 12), (14, 0xa679438e, 17), (15, 0x49b40821, 22),
   (1, 0xf61e2562, 5), (6, 0xc040b340, 9), (11, 0x265e5a51, 14), (0, 0xe9b6c7aa, 20),
   (5, 0xd62f105d, 5), (10, 0x02441453, 9), (15, 0xd8a1e681, 14), (4, 0xe7d3fbc8, 20),
   (9, 0x21e1cde6, 5), (14, 0xc33707d6, 9), (3, 0xf4d50d87, 14), (8, 0x455a14ed, 20),
   (13, 0xa9e3e905, 5), (2, 0xfcefa3f8, 9), (7, 0x676f02d9, 14), (12, 0x8d2a4c8a, 20),
   (5, 0xfffa3942, 4), (8, 0x8771f681, 11), (11, 0x6d9d6122, 16), (14, 0xfde5380c, 23),
   (1, 0xa4beea44, 4), (4, 0x4bdecfa9, 11), (7, 0xf6bb4b60, 16), (10, 0xbebfbc70, 23),
   (13, 0x289b7ec6, 4), (0, 0xeaa127fa, 11), (3, 0xd4ef3085, 16), (6, 0x04881d05, 23),
   (9, 0xd9d4d039, 4), (12, 0xe6db99e5, 11), (15, 0x1fa27cf8, 16), (2, 0xc4ac5665, 23),
   (0, 0xf4292244, 6), (7, 0x432aff97, 10), (14, 0xab9423a7, 15), (5, 0xfc93a039, 21),
   (12, 0x655b59c3, 6), (3, 0x8f0ccc92, 10), (10, 0xffeff47d, 15), (1, 0x85845dd1, 21),
   (8, 0x6fa87e4f, 6), (15, 0xfe2ce6e0, 10), (6, 0xa3014314, 15), (13, 0x4e0811a1, 21),
   (4, 0xf7537e82, 6), (11, 0xbd3af235, 10), (2, 0x2ad7d2bb, 15), (9, 0xeb86d391, 21)]"

definition md5_fun :: "nat \<Rightarrow> u32 \<Rightarrow> u32 \<Rightarrow> u32 \<Rightarrow> u32" where
  "md5_fun t = (if t < 16 then md5_F1 else if t < 32 then md5_F2 else if t < 48 then md5_F3 else md5_F4)"

fun md5_vars_of :: "u32 list \<Rightarrow> md5_vars" where
  "md5_vars_of s = (s ! 0, s ! 1, s ! 2, s ! 3)"

fun md5_list_of :: "md5_vars \<Rightarrow> u32 list" where
  "md5_list_of (a, b, c, d) = [a, b, c, d]"

text \<open>The new \<open>buf\<close>; \<open>inb\<close> is the memory of the 16 words.\<close>

definition MD5Transform :: "u32 list \<Rightarrow> u8 list \<Rightarrow> u32 list" where
  "MD5Transform buf inb =
     map2 (+) buf (md5_list_of
       (foldl (\<lambda>v (t, k, K, s). MD5STEP (md5_fun t) v (GET_UINT32_LE inb (4 * k) + K) s)
          (md5_vars_of buf) (enumerate 0 md5_steps)))"

section \<open>The context\<close>

record MD5Context =
  md5_buf :: "u32 list"
  md5_bits0 :: u32
  md5_bits1 :: u32
  md5_in :: "u8 list"

text \<open>
  \<open>byteReverse\<close> reads each group of 4 bytes as a little-endian word and stores that word; the
  store is little-endian on this target.
\<close>

definition byteReverse :: "u8 list \<Rightarrow> nat \<Rightarrow> u8 list" where
  "byteReverse buf longs =
     concat (map (\<lambda>i. PUT_UINT32_LE (GET_UINT32_LE buf (4 * i))) [0..<longs]) @ drop (4 * longs) buf"

definition md5_iv :: "u32 list" where
  "md5_iv = [0x67452301, 0xefcdab89, 0x98badcfe, 0x10325476]"

definition MD5Init :: "MD5Context \<Rightarrow> MD5Context" where
  "MD5Init ctx = ctx\<lparr>md5_buf := md5_iv, md5_bits0 := 0, md5_bits1 := 0\<rparr>"

text \<open>The loop on whole blocks: \<open>ctx->buf\<close>, \<open>ctx->in\<close> and the bytes that are left.\<close>

function md5_blocks :: "u32 list \<Rightarrow> u8 list \<Rightarrow> u8 list \<Rightarrow> u32 list \<times> u8 list \<times> u8 list" where
  "md5_blocks s inb buf =
     (if length buf \<ge> 64
      then let inb = byteReverse (buf_write inb 0 (take 64 buf)) 16
           in md5_blocks (MD5Transform s inb) inb (drop 64 buf)
      else (s, inb, buf))"
  by pat_completeness auto
termination
  by (relation "measure (\<lambda>(s, inb, buf). length buf)") auto

declare md5_blocks.simps [simp del]

definition MD5Update :: "MD5Context \<Rightarrow> u8 list \<Rightarrow> MD5Context" where
  "MD5Update ctx buf =
     (let len = of_nat (length buf) :: u32;
          t = md5_bits0 ctx;
          bits0 = t + push_bit 3 len;
          bits1 = (if bits0 < t then md5_bits1 ctx + 1 else md5_bits1 ctx) + drop_bit 29 len;
          ctx = ctx\<lparr>md5_bits0 := bits0, md5_bits1 := bits1\<rparr>;
          t = unat (drop_bit 3 t AND 0x3f);
          fill = 64 - t
      in if t \<noteq> 0 \<and> length buf < fill
         then ctx\<lparr>md5_in := buf_write (md5_in ctx) t buf\<rparr>
         else
           let (s, inb, buf) =
                 (if t \<noteq> 0
                  then (let inb = byteReverse (buf_write (md5_in ctx) t (take fill buf)) 16
                        in (MD5Transform (md5_buf ctx) inb, inb, drop fill buf))
                  else (md5_buf ctx, md5_in ctx, buf));
               (s, inb, buf) = md5_blocks s inb buf
           in ctx\<lparr>md5_buf := s, md5_in := buf_write inb 0 buf\<rparr>)"

text \<open>The digest; the context is zeroed.\<close>

definition MD5Final :: "MD5Context \<Rightarrow> MD5Context \<times> u8 list" where
  "MD5Final ctx =
     (let count = unat (drop_bit 3 (md5_bits0 ctx) AND 0x3F);
          inb = (md5_in ctx)[count := 0x80];
          p = count + 1;
          count = 64 - 1 - count;
          (s, inb) =
            (if count < 8
             then (let inb = byteReverse (buf_write inb p (replicate count 0)) 16
                   in (MD5Transform (md5_buf ctx) inb, buf_write inb 0 (replicate 56 0)))
             else (md5_buf ctx, buf_write inb p (replicate (count - 8) 0)));
          inb = byteReverse inb 14;
          inb = buf_write inb 56 (PUT_UINT32_LE (md5_bits0 ctx) @ PUT_UINT32_LE (md5_bits1 ctx));
          s = MD5Transform s inb
      in (\<lparr>md5_buf = replicate 4 0, md5_bits0 = 0, md5_bits1 = 0, md5_in = replicate 64 0\<rparr>,
          byteReverse (concat (map PUT_UINT32_LE s)) 4))"

definition md5 :: "MD5Context \<Rightarrow> u8 list \<Rightarrow> u8 list" where
  "md5 ctx input = snd (MD5Final (MD5Update (MD5Init ctx) input))"

definition md5_wd :: "MD5Context \<Rightarrow> u8 list \<Rightarrow> nat \<Rightarrow> (u8 list \<times> nat) option" where
  "md5_wd ctx input chunk_sz =
     (case wd_loop MD5Update chunk_sz (MD5Init ctx) input 0 of
        None \<Rightarrow> None
      | Some (ctx, resets) \<Rightarrow> Some (snd (MD5Final ctx), resets))"

section \<open>\<open>byteReverse\<close> is the identity on this target\<close>

lemma PUT_GET_LE:
  "PUT_UINT32_LE (GET_UINT32_LE b i) = [b ! i, b ! (i + 1), b ! (i + 2), b ! (i + 3)]"
proof -
  let ?w = "GET_UINT32_LE b i"
  have bits: "bit ?w n \<longleftrightarrow> (n < 8 \<and> bit (b ! i) n) \<or> (8 \<le> n \<and> n < 16 \<and> bit (b ! (i + 1)) (n - 8))
      \<or> (16 \<le> n \<and> n < 24 \<and> bit (b ! (i + 2)) (n - 16)) \<or> (24 \<le> n \<and> n < 32 \<and> bit (b ! (i + 3)) (n - 24))" for n
    by (auto simp: GET_UINT32_LE_def bit_simps dest: bit_imp_le_length)
  have "(ucast ?w :: u8) = b ! i" "(ucast (drop_bit 8 ?w) :: u8) = b ! (i + 1)"
    "(ucast (drop_bit 16 ?w) :: u8) = b ! (i + 2)" "(ucast (drop_bit 24 ?w) :: u8) = b ! (i + 3)"
    by (rule bit_word_eqI, simp add: bit_ucast_iff bit_drop_bit_eq bits)+
  then show ?thesis by (simp add: PUT_UINT32_LE_def)
qed

lemma byteReverse_id: "4 * longs \<le> length buf \<Longrightarrow> byteReverse buf longs = buf"
proof -
  assume len: "4 * longs \<le> length buf"
  have "concat (map (\<lambda>i. PUT_UINT32_LE (GET_UINT32_LE buf (4 * i))) [0..<n]) = take (4 * n) buf"
    if "4 * n \<le> length buf" for n
    using that
  proof (induction n)
    case (Suc n)
    have "take (4 * n + 4) buf = take (4 * n) buf @ map ((!) (drop (4 * n) buf)) [0..<4]"
      using Suc.prems by (subst take_add) (simp add: take_map_nth)
    then have "take (4 * Suc n) buf =
        take (4 * n) buf @ [buf ! (4 * n), buf ! (4 * n + 1), buf ! (4 * n + 2), buf ! (4 * n + 3)]"
      using Suc.prems by (simp add: upt_rec add.commute numeral_3_eq_3)
    with Suc show ?case by (simp add: PUT_GET_LE)
  qed simp
  from this [OF len] show ?thesis by (simp add: byteReverse_def)
qed

section \<open>The standard's digest\<close>

definition md5_spec :: "u8 list \<Rightarrow> u8 list" where
  "md5_spec m =
     concat (map PUT_UINT32_LE (fst (block_loop MD5Transform md5_iv (md_pad (le64_bits (length m)) m))))"

definition md5_repr :: "MD5Context \<Rightarrow> u8 list \<Rightarrow> bool" where
  "md5_repr ctx m \<longleftrightarrow>
     md5_bits0 ctx = lo32 (8 * length m) \<and> md5_bits1 ctx = hi32 (8 * length m) \<and>
     length (md5_in ctx) = 64 \<and>
     block_loop MD5Transform md5_iv m = (md5_buf ctx, take (length m mod 64) (md5_in ctx))"

lemma md5_repr_init: "length (md5_in ctx) = 64 \<Longrightarrow> md5_repr (MD5Init ctx) []"
  by (simp add: md5_repr_def MD5Init_def block_loop_short lo32_def hi32_def)

lemma md5_left: "unat (drop_bit 3 (lo32 (8 * n)) AND 0x3F) = n mod 64"
proof -
  have "drop_bit 3 (lo32 (8 * n)) AND mask 6 = lo32 n AND mask 6"
  proof -
    have "8 * n = push_bit 3 n" by (simp add: push_bit_eq_mult)
    then show ?thesis
      by (intro bit_word_eqI) (simp only:, auto simp: bit_simps bit_lo32)
  qed
  then show ?thesis using lo32_and_3F [of n] by (simp add: mask_eq_exp_minus_1)
qed

lemma md5_counter:
  assumes "k < 2 ^ 32"
  shows "lo32 (8 * n) + push_bit 3 (of_nat k) = lo32 (8 * (n + k))"
    and "(if lo32 (8 * (n + k)) < lo32 (8 * n) then hi32 (8 * n) + 1 else hi32 (8 * n)) + drop_bit 29 (of_nat k) =
      hi32 (8 * (n + k))"
proof -
  have k: "(of_nat k :: u32) = lo32 k" by (simp only: lo32_def)
  have d: "8 * (n + k) = 8 * k + 8 * n" by simp
  have hk: "drop_bit 29 (lo32 k) = hi32 (8 * k)"
  proof -
    have "hi32 k = 0" using assms by (simp add: hi32_def drop_bit_eq_div)
    then show ?thesis using hi32_bits [of k] by simp
  qed
  show "lo32 (8 * n) + push_bit 3 (of_nat k) = lo32 (8 * (n + k))"
    unfolding k lo32_bits d by (simp only: lo32_add add.commute)
  show "(if lo32 (8 * (n + k)) < lo32 (8 * n) then hi32 (8 * n) + 1 else hi32 (8 * n)) + drop_bit 29 (of_nat k) =
      hi32 (8 * (n + k))"
    unfolding k hk d hi32_carry [of "8 * k" "8 * n"] lo32_add by simp
qed

lemma md5_blocks_loop:
  "length inb = 64 \<Longrightarrow>
   \<exists>inb'. length inb' = 64 \<and>
     md5_blocks s inb buf = (fst (block_loop MD5Transform s buf), inb', snd (block_loop MD5Transform s buf))"
proof (induction s inb buf rule: md5_blocks.induct)
  case (1 s inb buf)
  show ?case
  proof (cases "length buf \<ge> 64")
    case True
    then have inb: "byteReverse (buf_write inb 0 (take 64 buf)) 16 = take 64 buf"
      using 1(2) by (simp add: byteReverse_id buf_write_def)
    have "md5_blocks s inb buf = md5_blocks (MD5Transform s (take 64 buf)) (take 64 buf) (drop 64 buf)"
      using True by (subst md5_blocks.simps) (simp add: inb Let_def)
    moreover have "block_loop MD5Transform s buf =
        block_loop MD5Transform (MD5Transform s (take 64 buf)) (drop 64 buf)"
      using True by (subst block_loop.simps) simp
    ultimately show ?thesis using 1(1) [OF True inb [symmetric]] True by simp
  next
    case False
    with 1(2) show ?thesis by (subst md5_blocks.simps) (simp add: block_loop_short)
  qed
qed

lemma md5_repr_update:
  assumes repr: "md5_repr ctx m" and len: "length xs < 2 ^ 32"
  shows "md5_repr (MD5Update ctx xs) (m @ xs)"
proof -
  let ?left = "length m mod 64"
  let ?p = "take ?left (md5_in ctx)"
  have r: "md5_bits0 ctx = lo32 (8 * length m)" "md5_bits1 ctx = hi32 (8 * length m)" "length (md5_in ctx) = 64"
    "block_loop MD5Transform md5_iv m = (md5_buf ctx, ?p)"
    using repr by (simp_all add: md5_repr_def)
  have left: "?left < 64" by (rule mod_less_divisor) (rule zero_less_numeral)
  have bl: "block_loop MD5Transform md5_iv (m @ xs) = block_loop MD5Transform (md5_buf ctx) (?p @ xs)"
    by (simp only: block_loop_append [of _ _ m xs] r(4) fst_conv snd_conv)
  have lp: "length ?p = ?left" using r(3) left by simp
  note upd = MD5Update_def Let_def r(1,2) md5_left md5_counter [OF len]
  show ?thesis
  proof (cases "?left \<noteq> 0 \<and> length xs < 64 - ?left")
    case True
    then have short: "?left + length xs < 64" by linarith
    have "(length m + length xs) mod 64 = ?left + length xs"
      using short by (metis mod_add_left_eq mod_less)
    moreover have "MD5Update ctx xs = ctx\<lparr>md5_bits0 := lo32 (8 * (length m + length xs)),
        md5_bits1 := hi32 (8 * (length m + length xs)), md5_in := buf_write (md5_in ctx) ?left xs\<rparr>"
      unfolding upd using True by simp
    moreover have "block_loop MD5Transform (md5_buf ctx) (?p @ xs) = (md5_buf ctx, ?p @ xs)"
      using short lp by (simp add: block_loop_short)
    ultimately show ?thesis using short r(3) by (simp add: md5_repr_def bl)
  next
    case False
    define s inb ys where "s = (if ?left \<noteq> 0 then MD5Transform (md5_buf ctx) (?p @ take (64 - ?left) xs) else md5_buf ctx)"
      and "inb = (if ?left \<noteq> 0 then ?p @ take (64 - ?left) xs else md5_in ctx)"
      and "ys = (if ?left \<noteq> 0 then drop (64 - ?left) xs else xs)"
    have inb64: "length inb = 64" using False left r(3) by (auto simp: inb_def)
    have step: "block_loop MD5Transform (md5_buf ctx) (?p @ xs) = block_loop MD5Transform s ys"
    proof (cases "?left = 0")
      case nz: False
      with False lp left show ?thesis
        using block_loop_pending [of ?left ?p xs MD5Transform "md5_buf ctx"] by (simp add: s_def ys_def)
    qed (simp add: s_def ys_def)
    obtain inb' where l': "length inb' = 64"
      and bs: "md5_blocks s inb ys = (fst (block_loop MD5Transform s ys), inb', snd (block_loop MD5Transform s ys))"
      using md5_blocks_loop [OF inb64] by blast
    have full: "byteReverse (buf_write (md5_in ctx) ?left (take (64 - ?left) xs)) 16 = ?p @ take (64 - ?left) xs"
      if "?left \<noteq> 0" using that False left r(3) by (simp add: buf_write_full byteReverse_id)
    have sel: "(if ?left \<noteq> 0
                  then (let inb = byteReverse (buf_write (md5_in ctx) ?left (take (64 - ?left) xs)) 16
                        in (MD5Transform (md5_buf ctx) inb, inb, drop (64 - ?left) xs))
                  else (md5_buf ctx, md5_in ctx, xs)) = (s, inb, ys)"
      using full by (simp add: s_def inb_def ys_def Let_def)
    have M: "MD5Update ctx xs = ctx\<lparr>md5_bits0 := lo32 (8 * (length m + length xs)),
        md5_bits1 := hi32 (8 * (length m + length xs)), md5_buf := fst (block_loop MD5Transform s ys),
        md5_in := buf_write inb' 0 (snd (block_loop MD5Transform s ys))\<rparr>"
      unfolding upd using False sel bs by (auto simp: Let_def)
    have rest: "length (snd (block_loop MD5Transform s ys)) = (length m + length xs) mod 64"
    proof -
      have "length (snd (block_loop MD5Transform (md5_buf ctx) (?p @ xs))) = (?left + length xs) mod 64"
        using lp by simp
      then show ?thesis unfolding step by (simp only: mod_add_left_eq)
    qed
    then have "length (snd (block_loop MD5Transform s ys)) < 64" by simp
    with rest show ?thesis using r(3) l' by (simp add: md5_repr_def M bl step buf_write_def)
  qed
qed

lemma length_MD5Transform: "length buf = 4 \<Longrightarrow> length (MD5Transform buf inb) = 4"
proof -
  assume "length buf = 4"
  moreover have "length (md5_list_of v) = 4" for v by (cases v) simp
  ultimately show ?thesis by (simp add: MD5Transform_def)
qed

lemma length_md5_blocks: "length s = 4 \<Longrightarrow> length (fst (block_loop MD5Transform s xs)) = 4"
  by (induction MD5Transform s xs rule: block_loop.induct)
    (subst block_loop.simps, simp add: length_MD5Transform)

lemma length_concat_PUT_LE [simp]: "length (concat (map PUT_UINT32_LE ws)) = 4 * length ws"
  by (induction ws) simp_all

lemma MD5Final_short:
  assumes "n mod 64 < 56" "md5_bits0 ctx = lo32 (8 * n)" "md5_bits1 ctx = hi32 (8 * n)"
    and "length (md5_in ctx) = 64" "take (n mod 64) (md5_in ctx) = p"
  shows "snd (MD5Final ctx) = byteReverse (concat (map PUT_UINT32_LE
    (MD5Transform (md5_buf ctx) (p @ 0x80 # replicate (55 - n mod 64) 0 @ le64_bits n)))) 4"
proof -
  let ?c = "n mod 64"
  let ?inb = "buf_write ((md5_in ctx)[?c := 0x80]) (?c + 1) (replicate (63 - ?c - 8) 0)"
  have c: "?c + 1 + (55 - ?c) = 56" "63 - ?c - 8 = 55 - ?c" using assms(1) by simp_all
  have pre: "take (?c + 1) ((md5_in ctx)[?c := 0x80]) = p @ [0x80]"
    using assms by (simp add: take_Suc_conv_app_nth)
  have "take 56 ?inb = take (?c + 1) ((md5_in ctx)[?c := 0x80]) @ replicate (55 - ?c) 0"
    unfolding c(2) by (rule take_buf_write_upto) (use c(1) assms(4) in simp_all)
  then have t: "take 56 ?inb = p @ 0x80 # replicate (55 - ?c) 0" by (simp only: pre) simp
  have l: "length ?inb = 64" unfolding c(2) using assms c by simp
  have "buf_write (byteReverse ?inb 14) 56 (le64_bits n) = take 56 ?inb @ le64_bits n"
    using l by (simp add: byteReverse_id buf_write_full)
  moreover have "\<not> 63 - ?c < 8" using assms(1) by simp
  ultimately show ?thesis
    unfolding MD5Final_def Let_def assms(2,3) md5_left using t by (simp add: le64_bits_def)
qed

lemma MD5Final_long:
  assumes "\<not> n mod 64 < 56" "md5_bits0 ctx = lo32 (8 * n)" "md5_bits1 ctx = hi32 (8 * n)"
    and "length (md5_in ctx) = 64" "take (n mod 64) (md5_in ctx) = p"
  shows "snd (MD5Final ctx) = byteReverse (concat (map PUT_UINT32_LE
    (MD5Transform (MD5Transform (md5_buf ctx) (p @ 0x80 # replicate (63 - n mod 64) 0))
       (replicate 56 0 @ le64_bits n)))) 4"
proof -
  let ?c = "n mod 64"
  have c: "?c < 64" by (rule mod_less_divisor) (rule zero_less_numeral)
  let ?inb = "buf_write ((md5_in ctx)[?c := 0x80]) (?c + 1) (replicate (63 - ?c) 0)"
  have e: "?c + 1 + (63 - ?c) = 64" using c by simp
  have pre: "take (?c + 1) ((md5_in ctx)[?c := 0x80]) = p @ [0x80]"
    using assms c by (simp add: take_Suc_conv_app_nth)
  have "?inb = take (?c + 1) ((md5_in ctx)[?c := 0x80]) @ replicate (63 - ?c) 0"
    by (rule buf_write_full) (use assms(4) e in simp)
  then have eq: "?inb = p @ 0x80 # replicate (63 - ?c) 0" unfolding pre by simp
  have l: "length ?inb = 4 * 16" using assms(4) e by simp
  have "byteReverse ?inb 16 = ?inb" by (rule byteReverse_id) (simp only: l)
  then have inb: "byteReverse ?inb 16 = p @ 0x80 # replicate (63 - ?c) 0" unfolding eq .
  have p: "length p = ?c" using assms(4,5) c by auto
  have z: "buf_write (byteReverse (buf_write (p @ 0x80 # replicate (63 - ?c) 0) 0 (replicate 56 0)) 14) 56 (le64_bits n) =
      replicate 56 0 @ le64_bits n"
    using e p c by (simp add: byteReverse_id buf_write_def)
  have "63 - ?c < 8" using assms(1) by simp
  then show ?thesis
    unfolding MD5Final_def Let_def assms(2,3) md5_left using inb z by (simp add: le64_bits_def)
qed

lemma md5_repr_final:
  assumes repr: "md5_repr ctx m"
  shows "snd (MD5Final ctx) = md5_spec m"
proof -
  let ?n = "length m"
  let ?c = "?n mod 64"
  let ?p = "take ?c (md5_in ctx)"
  have r: "md5_bits0 ctx = lo32 (8 * ?n)" "md5_bits1 ctx = hi32 (8 * ?n)" "length (md5_in ctx) = 64"
    "block_loop MD5Transform md5_iv m = (md5_buf ctx, ?p)"
    using repr by (simp_all add: md5_repr_def)
  have c: "?c < 64" by (rule mod_less_divisor) (rule zero_less_numeral)
  then have p: "length ?p = ?c" using r(3) by simp
  have id: "byteReverse (concat (map PUT_UINT32_LE (fst (block_loop MD5Transform md5_iv xs)))) 4 =
      concat (map PUT_UINT32_LE (fst (block_loop MD5Transform md5_iv xs)))" for xs
    by (rule byteReverse_id) (simp add: length_md5_blocks md5_iv_def)
  have pad: "block_loop MD5Transform md5_iv (md_pad (le64_bits ?n) m) = block_loop MD5Transform (md5_buf ctx)
      (?p @ 0x80 # replicate ((119 - ?c) mod 64) 0 @ le64_bits ?n)"
    unfolding md_pad_def block_loop_append [of _ _ m] r(4) fst_conv snd_conv ..
  show ?thesis
  proof (cases "?c < 56")
    case True
    have len: "length (?p @ 0x80 # replicate (55 - ?c) 0 @ le64_bits ?n) = 64"
      using p True by simp
    have "fst (block_loop MD5Transform md5_iv (md_pad (le64_bits ?n) m)) =
        MD5Transform (md5_buf ctx) (?p @ 0x80 # replicate (55 - ?c) 0 @ le64_bits ?n)"
      unfolding pad pad_zeros [OF c] using True block_loop_block [OF len, of MD5Transform "md5_buf ctx" "[]"]
      by (simp add: block_loop_short)
    then show ?thesis
      unfolding md5_spec_def MD5Final_short [OF True r(1,2,3) refl] using id by metis
  next
    case False
    have z: "replicate (119 - ?c) (0::u8) = replicate (63 - ?c) 0 @ replicate 56 0"
      using c by (simp flip: replicate_add)
    have len: "length (?p @ 0x80 # replicate (63 - ?c) 0) = 64" using p c by simp
    have "block_loop MD5Transform md5_iv (md_pad (le64_bits ?n) m) = block_loop MD5Transform (md5_buf ctx)
        ((?p @ 0x80 # replicate (63 - ?c) 0) @ (replicate 56 0 @ le64_bits ?n))"
      unfolding pad pad_zeros [OF c] using False z by simp
    also have "\<dots> = block_loop MD5Transform (MD5Transform (md5_buf ctx) (?p @ 0x80 # replicate (63 - ?c) 0))
        (replicate 56 0 @ le64_bits ?n)"
      by (rule block_loop_block [OF len])
    also have "fst \<dots> = MD5Transform (MD5Transform (md5_buf ctx) (?p @ 0x80 # replicate (63 - ?c) 0))
        (replicate 56 0 @ le64_bits ?n)"
      using block_loop_block [of "replicate 56 0 @ le64_bits ?n" MD5Transform _ "[]"] by (simp add: block_loop_short)
    finally show ?thesis
      unfolding md5_spec_def MD5Final_long [OF False r(1,2,3) refl] using id by metis
  qed
qed

interpretation md5: stream_digest md5_repr MD5Update "\<lambda>ctx. snd (MD5Final ctx)" md5_spec "2 ^ 32"
  by unfold_locales (simp_all add: md5_repr_update md5_repr_final)

text \<open>
  \<open>MD5Init\<close>, any sequence of \<open>MD5Update\<close> calls and \<open>MD5Final\<close> compute the standard's
  MD5 digest of the concatenated pieces, although the code counts bits, copies each block and pads
  in place, in one or in two final blocks.
\<close>

lemma md5_stream:
  assumes "length (md5_in ctx) = 64" and "\<forall>p \<in> set ps. length p < 2 ^ 32"
  shows "snd (MD5Final (foldl MD5Update (MD5Init ctx) ps)) = md5_spec (concat ps)"
  using md5.finish_fold_update [OF md5_repr_init [OF assms(1)] assms(2)] by simp

theorem md5_stream_witness:
  "snd (MD5Final (foldl MD5Update
     (MD5Init \<lparr>md5_buf = [], md5_bits0 = 5, md5_bits1 = 6, md5_in = replicate 64 1\<rparr>)
     [replicate 60 0x61, [0x62, 0x63]])) = md5_spec (replicate 60 0x61 @ [0x62, 0x63])"
  using md5_stream [of "\<lparr>md5_buf = [], md5_bits0 = 5, md5_bits1 = 6, md5_in = replicate 64 1\<rparr>"
      "[replicate 60 0x61, [0x62, 0x63]]"] by simp

text \<open>
  \<open>md5_wd\<close> ends for every positive chunk size, returns the digest \<open>md5\<close> returns, and
  triggers the watchdog once per started chunk.
\<close>

lemma md5_wd_correct:
  assumes "length (md5_in ctx) = 64" and "length input < 2 ^ 31" and "0 < chunk_sz" and "chunk_sz < 2 ^ 31"
  shows "md5_wd ctx input chunk_sz = Some (md5 ctx input, (length input + chunk_sz - 1) div chunk_sz)"
proof -
  note start = md5_repr_init [OF assms(1)]
  have "md5 ctx input = md5_spec input"
    using md5.finish_fold_update [OF start, of "[input]"] assms(2) by (simp add: md5_def)
  moreover have "chunk_sz < 2 ^ 32" using assms(4) by simp
  ultimately show ?thesis
    using md5.wd_loop_repr [OF start assms(3), of input 0] md5_repr_final by (auto simp: md5_wd_def)
qed

theorem md5_wd_correct_witness:
  "md5_wd \<lparr>md5_buf = [], md5_bits0 = 0, md5_bits1 = 0, md5_in = replicate 64 0\<rparr> [1, 2, 3] 2 =
    Some (md5 \<lparr>md5_buf = [], md5_bits0 = 0, md5_bits1 = 0, md5_in = replicate 64 0\<rparr> [1, 2, 3], 2)"
  using md5_wd_correct [of "\<lparr>md5_buf = [], md5_bits0 = 0, md5_bits1 = 0, md5_in = replicate 64 0\<rparr>"
      "[1, 2, 3]" 2] by simp

end
