(* ===== verification/Crc16.thy ===== *)
theory Crc16
  imports Prelude
begin

text \<open>
  The 16-bit CRC of \<^verbatim>\<open>lib_generic/crc16.c\<close> (polynomial \<open>x^16 + x^12 + x^5 + 1\<close>, initial value 0),
  which the XMODEM and YMODEM receivers use. Bits are shifted out at the top, so the register
  steps to the left; the table holds eight steps of each byte in the high half.
\<close>

section \<open>The code\<close>

definition crc16_tab :: "u16 list" where
  "crc16_tab = [
   0x0000, 0x1021, 0x2042, 0x3063, 0x4084, 0x50a5, 0x60c6, 0x70e7,
   0x8108, 0x9129, 0xa14a, 0xb16b, 0xc18c, 0xd1ad, 0xe1ce, 0xf1ef,
   0x1231, 0x0210, 0x3273, 0x2252, 0x52b5, 0x4294, 0x72f7, 0x62d6,
   0x9339, 0x8318, 0xb37b, 0xa35a, 0xd3bd, 0xc39c, 0xf3ff, 0xe3de,
   0x2462, 0x3443, 0x0420, 0x1401, 0x64e6, 0x74c7, 0x44a4, 0x5485,
   0xa56a, 0xb54b, 0x8528, 0x9509, 0xe5ee, 0xf5cf, 0xc5ac, 0xd58d,
   0x3653, 0x2672, 0x1611, 0x0630, 0x76d7, 0x66f6, 0x5695, 0x46b4,
   0xb75b, 0xa77a, 0x9719, 0x8738, 0xf7df, 0xe7fe, 0xd79d, 0xc7bc,
   0x48c4, 0x58e5, 0x6886, 0x78a7, 0x0840, 0x1861, 0x2802, 0x3823,
   0xc9cc, 0xd9ed, 0xe98e, 0xf9af, 0x8948, 0x9969, 0xa90a, 0xb92b,
   0x5af5, 0x4ad4, 0x7ab7, 0x6a96, 0x1a71, 0x0a50, 0x3a33, 0x2a12,
   0xdbfd, 0xcbdc, 0xfbbf, 0xeb9e, 0x9b79, 0x8b58, 0xbb3b, 0xab1a,
   0x6ca6, 0x7c87, 0x4ce4, 0x5cc5, 0x2c22, 0x3c03, 0x0c60, 0x1c41,
   0xedae, 0xfd8f, 0xcdec, 0xddcd, 0xad2a, 0xbd0b, 0x8d68, 0x9d49,
   0x7e97, 0x6eb6, 0x5ed5, 0x4ef4, 0x3e13, 0x2e32, 0x1e51, 0x0e70,
   0xff9f, 0xefbe, 0xdfdd, 0xcffc, 0xbf1b, 0xaf3a, 0x9f59, 0x8f78,
   0x9188, 0x81a9, 0xb1ca, 0xa1eb, 0xd10c, 0xc12d, 0xf14e, 0xe16f,
   0x1080, 0x00a1, 0x30c2, 0x20e3, 0x5004, 0x4025, 0x7046, 0x6067,
   0x83b9, 0x9398, 0xa3fb, 0xb3da, 0xc33d, 0xd31c, 0xe37f, 0xf35e,
   0x02b1, 0x1290, 0x22f3, 0x32d2, 0x4235, 0x5214, 0x6277, 0x7256,
   0xb5ea, 0xa5cb, 0x95a8, 0x8589, 0xf56e, 0xe54f, 0xd52c, 0xc50d,
   0x34e2, 0x24c3, 0x14a0, 0x0481, 0x7466, 0x6447, 0x5424, 0x4405,
   0xa7db, 0xb7fa, 0x8799, 0x97b8, 0xe75f, 0xf77e, 0xc71d, 0xd73c,
   0x26d3, 0x36f2, 0x0691, 0x16b0, 0x6657, 0x7676, 0x4615, 0x5634,
   0xd94c, 0xc96d, 0xf90e, 0xe92f, 0x99c8, 0x89e9, 0xb98a, 0xa9ab,
   0x5844, 0x4865, 0x7806, 0x6827, 0x18c0, 0x08e1, 0x3882, 0x28a3,
   0xcb7d, 0xdb5c, 0xeb3f, 0xfb1e, 0x8bf9, 0x9bd8, 0xabbb, 0xbb9a,
   0x4a75, 0x5a54, 0x6a37, 0x7a16, 0x0af1, 0x1ad0, 0x2ab3, 0x3a92,
   0xfd2e, 0xed0f, 0xdd6c, 0xcd4d, 0xbdaa, 0xad8b, 0x9de8, 0x8dc9,
   0x7c26, 0x6c07, 0x5c64, 0x4c45, 0x3ca2, 0x2c83, 0x1ce0, 0x0cc1,
   0xef1f, 0xff3e, 0xcf5d, 0xdf7c, 0xaf9b, 0xbfba, 0x8fd9, 0x9ff8,
   0x6e17, 0x7e36, 0x4e55, 0x5e74, 0x2e93, 0x3eb2, 0x0ed1, 0x1ef0]"

text \<open>One turn of the loop; the C \<open>int\<close> result is cut to 16 bits by the assignment.\<close>

definition crc16_byte :: "u16 \<Rightarrow> u8 \<Rightarrow> u16" where
  "crc16_byte cksum b =
     crc16_tab ! unat ((drop_bit 8 cksum XOR ucast b) AND 0xFF) XOR push_bit 8 cksum"

definition cyg_crc16 :: "u8 list \<Rightarrow> u16" where
  "cyg_crc16 buf = foldl crc16_byte 0 buf"

section \<open>The shift register\<close>

definition crc16_step :: "u16 \<Rightarrow> u16" where
  "crc16_step c = (if bit c 15 then 0x1021 else 0) XOR push_bit 1 c"

lemma push_bit_xor_u16: "push_bit n (x XOR y) = push_bit n x XOR push_bit n (y :: u16)"
  by (rule bit_word_eqI) (auto simp: bit_simps)

lemma crc16_step_xor: "crc16_step (x XOR y) = crc16_step x XOR crc16_step y"
  by (simp add: crc16_step_def push_bit_xor_u16 bit_xor_iff ac_simps)

lemma crc16_steps_xor: "(crc16_step ^^ n) (x XOR y) = (crc16_step ^^ n) x XOR (crc16_step ^^ n) y"
  by (induction n) (simp_all add: crc16_step_xor)

lemma crc16_steps_high_zero:
  "(\<And>i. 16 - k \<le> i \<Longrightarrow> i < 16 \<Longrightarrow> \<not> bit x i) \<Longrightarrow> k \<le> 16 \<Longrightarrow> (crc16_step ^^ k) x = push_bit k x"
proof (induction k)
  case (Suc k)
  then have "(crc16_step ^^ k) x = push_bit k x" by simp
  moreover have "crc16_step (push_bit k x) = push_bit (Suc k) x"
    using Suc.prems(1) [of "15 - k"] Suc.prems(2) by (simp add: crc16_step_def bit_push_bit_iff)
  ultimately show ?case by simp
qed simp

lemma crc16_step_inj: "crc16_step x = crc16_step y \<longleftrightarrow> x = y"
proof
  assume eq: "crc16_step x = crc16_step y"
  have "bit (crc16_step z) 0 \<longleftrightarrow> bit z 15" for z
    by (simp add: crc16_step_def bit_xor_iff bit_0 even_xor_iff)
  then have top: "bit x 15 \<longleftrightarrow> bit y 15" using eq by metis
  then have "push_bit 1 x = push_bit 1 y"
    using eq by (simp add: crc16_step_def word_xor_left_cancel split: if_splits)
  then have eq': "bit (push_bit 1 x) (n + 1) \<longleftrightarrow> bit (push_bit 1 y) (n + 1)" for n by simp
  have low: "bit x n \<longleftrightarrow> bit y n" if "n < 15" for n
    using eq' [of n] that by (simp only: bit_push_bit_iff) simp
  show "x = y"
  proof (rule bit_word_eqI)
    fix n :: nat
    assume "n < LENGTH(16)"
    then show "bit x n \<longleftrightarrow> bit y n" using low [of n] top by (cases "n = 15") auto
  qed
qed simp

lemma crc16_steps_inj: "(crc16_step ^^ n) x = (crc16_step ^^ n) y \<longleftrightarrow> x = y"
  by (induction n) (simp_all add: crc16_step_inj)

section \<open>The table\<close>

definition crc16_of_byte :: "u16 \<Rightarrow> u16" where
  "crc16_of_byte n = (crc16_step ^^ 8) (push_bit 8 n)"

lemma crc16_of_byte_xor: "crc16_of_byte (x XOR y) = crc16_of_byte x XOR crc16_of_byte y"
  by (simp add: crc16_of_byte_def push_bit_xor_u16 crc16_steps_xor)

lemma crc16_of_byte_pow:
  "crc16_of_byte 1 = 0x1021" "crc16_of_byte 2 = 0x2042" "crc16_of_byte 4 = 0x4084"
  "crc16_of_byte 8 = 0x8108" "crc16_of_byte 16 = 0x1231" "crc16_of_byte 32 = 0x2462"
  "crc16_of_byte 64 = 0x48c4" "crc16_of_byte 128 = 0x9188"
  by (simp_all add: crc16_of_byte_def crc16_step_def funpow_8)

lemma crc16_tab_doubled:
  "crc16_tab = doubled (map (\<lambda>i. crc16_of_byte (of_nat (2 ^ i))) (rev [0..<8]))"
proof -
  have "map (\<lambda>i. crc16_of_byte (of_nat (2 ^ i))) (rev [0..<8]) =
    [0x9188, 0x48c4, 0x2462, 0x1231, 0x8108, 0x4084, 0x2042, 0x1021]"
    using crc16_of_byte_pow by (simp add: upt_rec)
  also have "doubled \<dots> = crc16_tab"
    by (simp add: crc16_tab_def)
  finally show ?thesis by simp
qed

lemma crc16_tab_nth: "n < 256 \<Longrightarrow> crc16_tab ! n = crc16_of_byte (of_nat n)"
  using table_doubled [of crc16_of_byte 8, OF crc16_of_byte_xor, symmetric]
  by (simp add: crc16_tab_doubled)

lemma crc16_byte_steps: "crc16_byte c b = (crc16_step ^^ 8) (c XOR push_bit 8 (ucast b))"
proof -
  let ?i = "drop_bit 8 c XOR ucast b"
  have bb: "\<not> bit b n" if "8 \<le> n" for n using that bit_imp_le_length [of b n] by auto
  have i: "?i AND 0xFF = ?i"
  proof -
    have "?i AND 0xFF = take_bit 8 ?i" by (simp add: take_bit_eq_mask mask_eq_exp_minus_1)
    also have "\<dots> = ?i"
    proof (rule bit_word_eqI)
      fix n :: nat
      show "bit (take_bit 8 ?i) n \<longleftrightarrow> bit ?i n"
        using bb [of n] bit_imp_le_length [of c "8 + n"] by (auto simp: bit_simps not_less)
    qed
    finally show ?thesis .
  qed
  have "unat ?i < 256"
  proof -
    have "take_bit 8 ?i = ?i AND 0xFF" by (simp add: take_bit_eq_mask mask_eq_exp_minus_1)
    then have "unat ?i = take_bit 8 (unat ?i)"
      unfolding i using unsigned_take_bit_eq [of 8 ?i, where ?'a = nat] by (simp only:)
    moreover have "take_bit 8 (unat ?i) < 2 ^ 8" by (rule take_bit_nat_less_exp)
    ultimately show ?thesis by simp
  qed
  then have "crc16_byte c b = crc16_of_byte ?i XOR push_bit 8 c"
    by (simp only: crc16_byte_def i crc16_tab_nth of_nat_unat ucast_id)
  also have "push_bit 8 c = (crc16_step ^^ 8) (take_bit 8 c)"
  proof -
    have "push_bit 8 c = push_bit 8 (take_bit 8 c)"
      by (rule bit_word_eqI) (auto simp: bit_simps)
    then show ?thesis by (subst crc16_steps_high_zero) (simp_all add: bit_simps)
  qed
  also have "crc16_of_byte ?i XOR \<dots> = (crc16_step ^^ 8) (push_bit 8 ?i XOR take_bit 8 c)"
    by (simp only: crc16_of_byte_def crc16_steps_xor)
  also have "push_bit 8 ?i XOR take_bit 8 c = c XOR push_bit 8 (ucast b)"
    by (rule bit_word_eqI) (auto simp: bit_simps)
  finally show ?thesis .
qed

text \<open>The bit-serial register, highest bit of each byte first.\<close>

fun crc16_serial :: "u16 \<Rightarrow> bool list \<Rightarrow> u16" where
  "crc16_serial c [] = c"
| "crc16_serial c (b # bs) = crc16_serial (crc16_step (c XOR push_bit 15 (of_bool b))) bs"

lemma crc16_serial_append: "crc16_serial c (xs @ ys) = crc16_serial (crc16_serial c xs) ys"
  by (induction c xs rule: crc16_serial.induct) simp_all

lemma crc16_serial_bits:
  "k \<le> 8 \<Longrightarrow> crc16_serial c (map (\<lambda>i. bit b (7 - i)) [0..<k]) =
     (crc16_step ^^ k) (c XOR push_bit 8 (ucast b AND NOT (mask (8 - k))))" for b :: u8
proof (induction k)
  case 0
  have "(ucast b :: u16) AND NOT (mask 8) = 0"
    by (rule bit_word_eqI) (use bit_imp_le_length [of b] in \<open>auto simp: bit_simps\<close>)
  then show ?case by simp
next
  case (Suc k)
  let ?w = "\<lambda>k. push_bit 8 (ucast b AND NOT (mask (8 - k))) :: u16"
  let ?t = "push_bit (15 - k) (of_bool (bit b (7 - k))) :: u16"
  have "(crc16_step ^^ k) ?t = push_bit k ?t"
    using Suc.prems by (intro crc16_steps_high_zero) (auto simp: bit_simps)
  also have "\<dots> = push_bit 15 (of_bool (bit b (7 - k)))"
    using Suc.prems by (simp add: push_bit_push_bit)
  finally have t: "(crc16_step ^^ k) ?t = push_bit 15 (of_bool (bit b (7 - k)))" .
  have w: "?w (Suc k) = ?w k XOR ?t"
  proof (rule bit_word_eqI)
    fix n :: nat
    assume "n < LENGTH(16)"
    then show "bit (?w (Suc k)) n \<longleftrightarrow> bit (?w k XOR ?t) n"
      using Suc.prems by (cases "n = 15 - k") (auto simp: bit_simps)
  qed
  have "crc16_serial c (map (\<lambda>i. bit b (7 - i)) [0..<Suc k]) =
      crc16_step ((crc16_step ^^ k) (c XOR ?w k) XOR (crc16_step ^^ k) ?t)"
    using Suc by (simp only: t) (simp add: crc16_serial_append)
  also have "\<dots> = (crc16_step ^^ Suc k) (c XOR ?w (Suc k))"
    unfolding w by (simp only: crc16_steps_xor xor.assoc funpow.simps comp_apply)
  finally show ?case .
qed

text \<open>
  the table-driven \<open>cyg_crc16\<close> computes the bit-serial CRC of polynomial \<open>0x1021\<close>: the
  register starts at 0 and is stepped once per input bit, highest bit of each byte first.
\<close>

lemma cyg_crc16_bit_serial:
  "cyg_crc16 buf = crc16_serial 0 (concat (map (\<lambda>b. map (\<lambda>i. bit b (7 - i)) [0..<8]) buf))"
proof -
  have "crc16_byte c b = crc16_serial c (map (\<lambda>i. bit b (7 - i)) [0..<8])" for c b
    using crc16_serial_bits [of 8 c b] by (simp add: crc16_byte_steps)
  then have "foldl crc16_byte c buf =
      crc16_serial c (concat (map (\<lambda>b. map (\<lambda>i. bit b (7 - i)) [0..<8]) buf))" for c
    by (induction buf arbitrary: c) (simp_all add: crc16_serial_append del: upt.simps upt_rec_numeral)
  then show ?thesis by (simp only: cyg_crc16_def)
qed

text \<open>
  the receiver's check: a message followed by two bytes has checksum 0 exactly when the
  two bytes are the message's checksum, high byte first.
\<close>

lemma cyg_crc16_residue:
  "cyg_crc16 (buf @ [hi, lo]) = 0 \<longleftrightarrow> hi = ucast (drop_bit 8 (cyg_crc16 buf)) \<and> lo = ucast (cyg_crc16 buf)"
proof -
  define c where "c = cyg_crc16 buf"
  have hb: "\<not> bit b n" if "8 \<le> n" for n and b :: u8 using that bit_imp_le_length [of b n] by auto
  have lo: "(crc16_step ^^ 8) (ucast lo) = push_bit 8 (ucast lo)"
    by (rule crc16_steps_high_zero) (use hb in \<open>auto simp: bit_simps\<close>)
  have "cyg_crc16 (buf @ [hi, lo]) = crc16_byte (crc16_byte c hi) lo"
    by (simp add: cyg_crc16_def c_def)
  also have "\<dots> = (crc16_step ^^ 8) ((crc16_step ^^ 8) (c XOR push_bit 8 (ucast hi) XOR ucast lo))"
    by (simp only: crc16_byte_steps crc16_steps_xor lo xor.assoc)
  finally have "cyg_crc16 (buf @ [hi, lo]) = 0 \<longleftrightarrow> c XOR push_bit 8 (ucast hi) XOR ucast lo = 0"
    using crc16_steps_inj [of 8 "(crc16_step ^^ 8) (c XOR push_bit 8 (ucast hi) XOR ucast lo)" 0]
      crc16_steps_inj [of 8 _ 0] crc16_steps_xor [of 8 0 0] by simp
  also have "\<dots> \<longleftrightarrow> c = push_bit 8 (ucast hi) XOR ucast lo"
    by (simp add: word_xor_eq_0_iff xor.assoc)
  also have "\<dots> \<longleftrightarrow> hi = ucast (drop_bit 8 c) \<and> lo = ucast c"
  proof (intro iffI conjI)
    assume c: "c = push_bit 8 (ucast hi) XOR ucast lo"
    show "hi = ucast (drop_bit 8 c)" "lo = ucast c"
      unfolding c by (rule bit_word_eqI; use hb in \<open>auto simp: bit_simps\<close>)+
  next
    assume *: "hi = ucast (drop_bit 8 c) \<and> lo = ucast c"
    show "c = push_bit 8 (ucast hi) XOR ucast lo"
      unfolding * [THEN conjunct1] * [THEN conjunct2]
      by (rule bit_word_eqI) (auto simp: bit_simps)
  qed
  finally show ?thesis by (simp only: c_def)
qed

end
