(* ===== verification/Lmb.thy ===== *)
theory Lmb
  imports Prelude "HOL-Library.Monad_Syntax"
begin

text \<open>
  The logical memory blocks of \<^verbatim>\<open>lib_generic/lmb.c\<close>, with which \<^verbatim>\<open>bootm\<close> places images, ramdisk
  and device tree: a table of memory regions and one of reserved regions. Addresses and sizes are
  32-bit words that wrap; \<open>cnt\<close> is an unsigned long whose decrement wraps (\<open>ulong_pred\<close>). A table
  access outside the array of \<open>MAX_LMB_REGIONS + 1\<close> entries is \<open>None\<close>.
\<close>

section \<open>The code\<close>

definition MAX_LMB_REGIONS :: nat where "MAX_LMB_REGIONS = 8"

record lmb_property =
  lp_base :: u32
  lp_size :: u32

record lmb_region =
  lr_cnt :: nat
  lr_size :: u32
  lr_region :: "lmb_property list"

record lmb =
  memory :: lmb_region
  reserved :: lmb_region

definition ulong_pred :: "nat \<Rightarrow> nat" where
  "ulong_pred n = (if n = 0 then 2 ^ 32 - 1 else n - 1)"

definition lmb_addrs_overlap :: "u32 \<Rightarrow> u32 \<Rightarrow> u32 \<Rightarrow> u32 \<Rightarrow> bool" where
  "lmb_addrs_overlap base1 size1 base2 size2 = (base1 < base2 + size2 \<and> base2 < base1 + size1)"

definition lmb_addrs_adjacent :: "u32 \<Rightarrow> u32 \<Rightarrow> u32 \<Rightarrow> u32 \<Rightarrow> int" where
  "lmb_addrs_adjacent base1 size1 base2 size2 =
     (if base2 = base1 + size1 then 1 else if base1 = base2 + size2 then - 1 else 0)"

definition lmb_regions_adjacent :: "lmb_property list \<Rightarrow> nat \<Rightarrow> nat \<Rightarrow> int option" where
  "lmb_regions_adjacent region r1 r2 =
     (if r1 < length region \<and> r2 < length region
      then Some (lmb_addrs_adjacent (lp_base (region ! r1)) (lp_size (region ! r1))
                   (lp_base (region ! r2)) (lp_size (region ! r2)))
      else None)"

function remove_loop :: "lmb_property list \<Rightarrow> nat \<Rightarrow> nat \<Rightarrow> lmb_property list option" where
  "remove_loop region i last_i =
     (if i < last_i
      then if i + 1 < length region
           then remove_loop (region[i := region ! (i + 1)]) (i + 1) last_i
           else None
      else Some region)"
  by pat_completeness auto
termination
  by (relation "measure (\<lambda>(region, i, last_i). last_i - i)") auto

declare remove_loop.simps [simp del]

definition lmb_remove_region :: "lmb_region \<Rightarrow> nat \<Rightarrow> lmb_region option" where
  "lmb_remove_region rgn r =
     do { region \<leftarrow> remove_loop (lr_region rgn) r (ulong_pred (lr_cnt rgn));
          Some (rgn\<lparr>lr_region := region, lr_cnt := ulong_pred (lr_cnt rgn)\<rparr>) }"

definition lmb_coalesce_regions :: "lmb_region \<Rightarrow> nat \<Rightarrow> nat \<Rightarrow> lmb_region option" where
  "lmb_coalesce_regions rgn r1 r2 =
     (let region = lr_region rgn; p = region ! r1 in
      lmb_remove_region
        (rgn\<lparr>lr_region := region[r1 := p\<lparr>lp_size := lp_size p + lp_size (region ! r2)\<rparr>]\<rparr>) r2)"

definition lmb_init :: "lmb \<Rightarrow> lmb" where
  "lmb_init l =
     (let init = \<lambda>r. r\<lparr>lr_region := (lr_region r)[0 := \<lparr>lp_base = 0, lp_size = 0\<rparr>], lr_cnt := 1, lr_size := 0\<rparr>
      in l\<lparr>memory := init (memory l), reserved := init (reserved l)\<rparr>)"

text \<open>The first loop of \<open>lmb_add_region\<close>: at its end \<open>i\<close> is the region that grew, or \<open>cnt\<close>.\<close>

datatype add_scan = Have | Grown nat "lmb_property list" | Nowhere nat

fun add_scan_loop :: "lmb_property list \<Rightarrow> u32 \<Rightarrow> u32 \<Rightarrow> nat \<Rightarrow> nat \<Rightarrow> add_scan option" where
  "add_scan_loop region b s i 0 = Some (Nowhere i)"
| "add_scan_loop region b s i (Suc n) =
     (if i < length region
      then let r = region ! i; adjacent = lmb_addrs_adjacent b s (lp_base r) (lp_size r) in
           if lp_base r = b \<and> lp_size r = s then Some Have
           else if adjacent > 0
           then Some (Grown i (region[i := r\<lparr>lp_base := lp_base r - s, lp_size := lp_size r + s\<rparr>]))
           else if adjacent < 0
           then Some (Grown i (region[i := r\<lparr>lp_size := lp_size r + s\<rparr>]))
           else add_scan_loop region b s (i + 1) n
      else None)"

text \<open>The last loop, with \<open>i + 1\<close> counting down, and the test on the first entry.\<close>

fun insert_loop :: "lmb_property list \<Rightarrow> u32 \<Rightarrow> u32 \<Rightarrow> nat \<Rightarrow> lmb_property list option" where
  "insert_loop region b s 0 = Some region"
| "insert_loop region b s (Suc i) =
     (if i + 1 < length region
      then if b < lp_base (region ! i)
           then insert_loop (region[i + 1 := region ! i]) b s i
           else Some (region[i + 1 := \<lparr>lp_base = b, lp_size = s\<rparr>])
      else None)"

definition lmb_insert :: "lmb_region \<Rightarrow> u32 \<Rightarrow> u32 \<Rightarrow> lmb_region option" where
  "lmb_insert rgn b s =
     do { region \<leftarrow> insert_loop (lr_region rgn) b s (lr_cnt rgn);
          let region = (if b < lp_base (region ! 0) then region[0 := \<lparr>lp_base = b, lp_size = s\<rparr>] else region);
          Some (rgn\<lparr>lr_region := region, lr_cnt := lr_cnt rgn + 1\<rparr>) }"

text \<open>Coalescing with the next region, from the second \<open>if\<close> of \<open>lmb_add_region\<close> on.\<close>

definition add_finish :: "lmb_region \<Rightarrow> u32 \<Rightarrow> u32 \<Rightarrow> nat \<Rightarrow> int \<Rightarrow> (int \<times> lmb_region) option" where
  "add_finish rgn b s i coalesced =
     do { (coalesced, rgn) \<leftarrow>
            (if i < ulong_pred (lr_cnt rgn)
             then do { a \<leftarrow> lmb_regions_adjacent (lr_region rgn) i (i + 1);
                       if a \<noteq> 0
                       then do { rgn \<leftarrow> lmb_coalesce_regions rgn i (i + 1); Some (coalesced + 1, rgn) }
                       else Some (coalesced, rgn) }
             else Some (coalesced, rgn));
          if coalesced \<noteq> 0 then Some (coalesced, rgn)
          else if lr_cnt rgn \<ge> MAX_LMB_REGIONS then Some (- 1, rgn)
          else do { rgn \<leftarrow> lmb_insert rgn b s; Some (0, rgn) } }"

definition lmb_add_region :: "lmb_region \<Rightarrow> u32 \<Rightarrow> u32 \<Rightarrow> (int \<times> lmb_region) option" where
  "lmb_add_region rgn b s =
     (if lr_cnt rgn = 1 \<and> lp_size (lr_region rgn ! 0) = 0
      then Some (0, rgn\<lparr>lr_region := (lr_region rgn)[0 := (lr_region rgn ! 0)\<lparr>lp_base := b, lp_size := s\<rparr>]\<rparr>)
      else do { scan \<leftarrow> add_scan_loop (lr_region rgn) b s 0 (lr_cnt rgn);
                case scan of
                  Have \<Rightarrow> Some (0, rgn)
                | Nowhere i \<Rightarrow> add_finish rgn b s i 0
                | Grown i region \<Rightarrow> add_finish (rgn\<lparr>lr_region := region\<rparr>) b s i 1 })"

definition lmb_add :: "lmb \<Rightarrow> u32 \<Rightarrow> u32 \<Rightarrow> (int \<times> lmb) option" where
  "lmb_add l b s = map_option (\<lambda>(c, r). (c, l\<lparr>memory := r\<rparr>)) (lmb_add_region (memory l) b s)"

definition lmb_reserve :: "lmb \<Rightarrow> u32 \<Rightarrow> u32 \<Rightarrow> (int \<times> lmb) option" where
  "lmb_reserve l b s = map_option (\<lambda>(c, r). (c, l\<lparr>reserved := r\<rparr>)) (lmb_add_region (reserved l) b s)"

text \<open>The search of \<open>lmb_free\<close>: the first region that contains the range, or \<open>cnt\<close>.\<close>

fun free_find :: "lmb_property list \<Rightarrow> u32 \<Rightarrow> u32 \<Rightarrow> nat \<Rightarrow> nat \<Rightarrow> nat option" where
  "free_find region b e i 0 = Some i"
| "free_find region b e i (Suc n) =
     (if i < length region
      then let rgnbegin = lp_base (region ! i); rgnend = rgnbegin + lp_size (region ! i) in
           if rgnbegin \<le> b \<and> e \<le> rgnend then Some i else free_find region b e (i + 1) n
      else None)"

definition lmb_free_region :: "lmb_region \<Rightarrow> u32 \<Rightarrow> u32 \<Rightarrow> (int \<times> lmb_region) option" where
  "lmb_free_region rgn b s =
     do { let e = b + s;
          i \<leftarrow> free_find (lr_region rgn) b e 0 (lr_cnt rgn);
          if i = lr_cnt rgn then Some (- 1, rgn)
          else
            let p = lr_region rgn ! i; rgnbegin = lp_base p; rgnend = rgnbegin + lp_size p;
                upd = (\<lambda>p'. rgn\<lparr>lr_region := (lr_region rgn)[i := p']\<rparr>)
            in if rgnbegin = b \<and> rgnend = e then map_option (\<lambda>r. (0, r)) (lmb_remove_region rgn i)
               else if rgnbegin = b then Some (0, upd (p\<lparr>lp_base := e, lp_size := lp_size p - s\<rparr>))
               else if rgnend = e then Some (0, upd (p\<lparr>lp_size := lp_size p - s\<rparr>))
               else lmb_add_region (upd (p\<lparr>lp_size := b - lp_base p\<rparr>)) e (rgnend - e) }"

definition lmb_free :: "lmb \<Rightarrow> u32 \<Rightarrow> u32 \<Rightarrow> (int \<times> lmb) option" where
  "lmb_free l b s = map_option (\<lambda>(c, r). (c, l\<lparr>reserved := r\<rparr>)) (lmb_free_region (reserved l) b s)"

text \<open>The index of the first overlapping region; the code's \<open>-1\<close> is \<open>None\<close> inside.\<close>

fun overlaps_loop :: "lmb_property list \<Rightarrow> u32 \<Rightarrow> u32 \<Rightarrow> nat \<Rightarrow> nat \<Rightarrow> nat option option" where
  "overlaps_loop region b s i 0 = Some None"
| "overlaps_loop region b s i (Suc n) =
     (if i < length region
      then if lmb_addrs_overlap b s (lp_base (region ! i)) (lp_size (region ! i)) then Some (Some i)
           else overlaps_loop region b s (i + 1) n
      else None)"

definition lmb_overlaps_region :: "lmb_region \<Rightarrow> u32 \<Rightarrow> u32 \<Rightarrow> nat option option" where
  "lmb_overlaps_region rgn b s = overlaps_loop (lr_region rgn) b s 0 (lr_cnt rgn)"

definition lmb_align_down :: "u32 \<Rightarrow> u32 \<Rightarrow> u32" where
  "lmb_align_down addr sz = addr AND NOT (sz - 1)"

definition lmb_align_up :: "u32 \<Rightarrow> u32 \<Rightarrow> u32" where
  "lmb_align_up addr sz = (addr + (sz - 1)) AND NOT (sz - 1)"

lemma lmb_align_down_le: "unat (lmb_align_down a sz) \<le> unat a"
proof -
  have "lmb_align_down a sz \<le> a" unfolding lmb_align_down_def by (rule word_and_le2)
  then show ?thesis by (simp add: word_le_nat_alt)
qed

text \<open>
  The inner loop of \<open>__lmb_alloc_base\<close>: \<open>Inl base\<close> when it returns from the function (0 for a full
  reservation table), \<open>Inr base\<close> when it falls out of the loop. Each turn lowers \<open>base\<close>.
\<close>

function alloc_down :: "lmb_region \<Rightarrow> u32 \<Rightarrow> u32 \<Rightarrow> u32 \<Rightarrow> u32 \<Rightarrow> (u32 \<times> lmb_region + u32) option" where
  "alloc_down res lmbbase sz align base =
     (if base \<noteq> 0 \<and> lmbbase \<le> base
      then case lmb_overlaps_region res base sz of
             None \<Rightarrow> None
           | Some None \<Rightarrow>
               (case lmb_add_region res base (lmb_align_up sz align) of
                  None \<Rightarrow> None
                | Some (c, res') \<Rightarrow> Some (Inl (if c < 0 then 0 else base, res')))
           | Some (Some j) \<Rightarrow>
               (let res_base = lp_base (lr_region res ! j) in
                if res_base < sz then Some (Inr base)
                else alloc_down res lmbbase sz align (lmb_align_down (res_base - sz) align))
      else Some (Inr base))"
  by pat_completeness auto

lemma overlaps_loop_hit:
  "overlaps_loop region b s i n = Some (Some j) \<Longrightarrow>
    j < length region \<and> lmb_addrs_overlap b s (lp_base (region ! j)) (lp_size (region ! j))"
  by (induction region b s i n rule: overlaps_loop.induct) (auto split: if_splits)

lemma alloc_down_decreases:
  assumes "lmb_addrs_overlap b s rb rs" and "\<not> rb < s"
  shows "unat (rb - s) < unat b"
proof -
  have "unat rb < unat (b + s)" "unat s \<le> unat rb"
    using assms by (simp_all add: lmb_addrs_overlap_def word_less_nat_alt)
  moreover have "unat (b + s) \<le> unat b + unat s" by (simp add: unat_word_ariths)
  moreover have "unat (rb - s) = unat rb - unat s"
    using \<open>unat s \<le> unat rb\<close> by (simp add: unat_sub word_le_nat_alt)
  ultimately show ?thesis by linarith
qed

termination alloc_down
proof (relation "measure (\<lambda>(res, lmbbase, sz, align, base). unat base)")
  fix res lmbbase sz align base x j res_base
  assume a: "lmb_overlaps_region res base sz = Some x" "x = Some j"
    "res_base = lp_base (lr_region res ! j)" "\<not> res_base < sz"
  have "unat (lmb_align_down (res_base - sz) align) \<le> unat (res_base - sz)" by (rule lmb_align_down_le)
  also have "\<dots> < unat base"
    using alloc_down_decreases overlaps_loop_hit a by (metis lmb_overlaps_region_def)
  finally show "((res, lmbbase, sz, align, lmb_align_down (res_base - sz) align), (res, lmbbase, sz, align, base))
      \<in> measure (\<lambda>(res, lmbbase, sz, align, base). unat base)" by simp
qed simp

declare alloc_down.simps [simp del]

text \<open>The outer loop, over the memory regions from the last to the first; \<open>i + 1\<close> counts down.\<close>

fun alloc_regions :: "lmb_property list \<Rightarrow> lmb_region \<Rightarrow> u32 \<Rightarrow> u32 \<Rightarrow> u32 \<Rightarrow> nat \<Rightarrow> (u32 \<times> lmb_region) option" where
  "alloc_regions mem res sz align max_addr 0 = Some (0, res)"
| "alloc_regions mem res sz align max_addr (Suc i) =
     (if i < length mem
      then let lmbbase = lp_base (mem ! i); lmbsize = lp_size (mem ! i) in
           if lmbsize < sz then alloc_regions mem res sz align max_addr i
           else if max_addr \<noteq> 0 \<and> \<not> lmbbase < max_addr
           then alloc_regions mem res sz align max_addr i
           else let base = (if max_addr = 0 then lmb_align_down (lmbbase + lmbsize - sz) align
                            else lmb_align_down (min (lmbbase + lmbsize) max_addr - sz) align)
                in case alloc_down res lmbbase sz align base of
                     None \<Rightarrow> None
                   | Some (Inl (b, res')) \<Rightarrow> Some (b, res')
                   | Some (Inr _) \<Rightarrow> alloc_regions mem res sz align max_addr i
      else None)"

definition alloc_base_search :: "lmb \<Rightarrow> u32 \<Rightarrow> u32 \<Rightarrow> u32 \<Rightarrow> (u32 \<times> lmb) option" where
  "alloc_base_search l sz align max_addr =
     map_option (\<lambda>(b, r). (b, l\<lparr>reserved := r\<rparr>))
       (alloc_regions (lr_region (memory l)) (reserved l) sz align max_addr (lr_cnt (memory l)))"

text \<open>With the message on the console.\<close>

datatype lmb_msg = Failed_to_allocate u32 u32

definition lmb_alloc_base :: "lmb \<Rightarrow> u32 \<Rightarrow> u32 \<Rightarrow> u32 \<Rightarrow> (u32 \<times> lmb_msg list \<times> lmb) option" where
  "lmb_alloc_base l sz align max_addr =
     (case alloc_base_search l sz align max_addr of None \<Rightarrow> None
      | Some (alloc, l) \<Rightarrow> Some (alloc, if alloc = 0 then [Failed_to_allocate sz max_addr] else [], l))"

definition lmb_alloc :: "lmb \<Rightarrow> u32 \<Rightarrow> u32 \<Rightarrow> (u32 \<times> lmb_msg list \<times> lmb) option" where
  "lmb_alloc l sz align = lmb_alloc_base l sz align 0"

fun is_reserved_loop :: "lmb_property list \<Rightarrow> u32 \<Rightarrow> nat \<Rightarrow> nat \<Rightarrow> bool option" where
  "is_reserved_loop region addr i 0 = Some False"
| "is_reserved_loop region addr i (Suc n) =
     (if i < length region
      then let upper = lp_base (region ! i) + lp_size (region ! i) - 1 in
           if addr \<ge> lp_base (region ! i) \<and> addr \<le> upper then Some True
           else is_reserved_loop region addr (i + 1) n
      else None)"

definition lmb_is_reserved :: "lmb \<Rightarrow> u32 \<Rightarrow> bool option" where
  "lmb_is_reserved l addr = is_reserved_loop (lr_region (reserved l)) addr 0 (lr_cnt (reserved l))"

section \<open>Tables as sets of addresses\<close>

definition rend :: "lmb_property \<Rightarrow> nat" where
  "rend r = unat (lp_base r) + unat (lp_size r)"

definition ivl :: "lmb_property \<Rightarrow> nat set" where
  "ivl r = {unat (lp_base r) ..< rend r}"

definition live :: "lmb_region \<Rightarrow> lmb_property list" where
  "live rgn = take (lr_cnt rgn) (lr_region rgn)"

definition covers :: "lmb_region \<Rightarrow> nat set" where
  "covers rgn = (\<Union>r \<in> set (live rgn). ivl r)"

text \<open>The live entries are non-empty, do not wrap, are sorted and do not overlap.\<close>

definition list_ok :: "lmb_property list \<Rightarrow> bool" where
  "list_ok L \<longleftrightarrow> (\<forall>r \<in> set L. 0 < unat (lp_size r) \<and> rend r < 2 ^ 32) \<and>
     sorted_wrt (\<lambda>r r'. rend r \<le> unat (lp_base r')) L"

text \<open>A table between two operations; \<open>lmb_init\<close> leaves one entry of size zero.\<close>

definition rgn_ok :: "lmb_region \<Rightarrow> bool" where
  "rgn_ok rgn \<longleftrightarrow> length (lr_region rgn) = MAX_LMB_REGIONS + 1 \<and> 1 \<le> lr_cnt rgn \<and>
     lr_cnt rgn \<le> MAX_LMB_REGIONS \<and>
     (list_ok (live rgn) \<or> lr_cnt rgn = 1 \<and> lp_size (lr_region rgn ! 0) = 0)"

lemma ivl_nonempty: "0 < unat (lp_size r) \<Longrightarrow> unat (lp_base r) \<in> ivl r"
  by (simp add: ivl_def rend_def)

lemma ivl_disjoint_cases:
  assumes "ivl r \<inter> ivl r' = {}" "0 < unat (lp_size r)" "0 < unat (lp_size r')"
  shows "rend r \<le> unat (lp_base r') \<or> rend r' \<le> unat (lp_base r)"
proof (rule ccontr)
  assume "\<not> ?thesis"
  then have "max (unat (lp_base r)) (unat (lp_base r')) \<in> ivl r \<inter> ivl r'"
    using assms(2,3) by (auto simp: ivl_def rend_def)
  with assms(1) show False by blast
qed

lemma unat_end: "rend r < 2 ^ 32 \<Longrightarrow> unat (lp_base r + lp_size r) = rend r"
  by (simp add: rend_def unat_word_ariths)

lemma adjacent_above:
  "rend n < 2 ^ 32 \<Longrightarrow> lp_base r = lp_base n + lp_size n \<longleftrightarrow> unat (lp_base r) = rend n"
  by (metis unat_end word_unat_eq_iff)

lemma lmb_addrs_adjacent_iff:
  assumes "rend n < 2 ^ 32" "rend r < 2 ^ 32"
  shows "lmb_addrs_adjacent (lp_base n) (lp_size n) (lp_base r) (lp_size r) =
    (if unat (lp_base r) = rend n then 1 else if unat (lp_base n) = rend r then - 1 else 0)"
  using adjacent_above [OF assms(1), of r] adjacent_above [OF assms(2), of n]
  by (simp add: lmb_addrs_adjacent_def)

lemma list_ok_nth:
  "list_ok L \<Longrightarrow> i < length L \<Longrightarrow> 0 < unat (lp_size (L ! i)) \<and> rend (L ! i) < 2 ^ 32"
  by (simp add: list_ok_def)

lemma list_ok_sorted:
  "list_ok L \<Longrightarrow> i < j \<Longrightarrow> j < length L \<Longrightarrow> rend (L ! i) \<le> unat (lp_base (L ! j))"
  by (simp add: list_ok_def sorted_wrt_iff_nth_less)

lemma list_okI:
  assumes "\<And>i. i < length L \<Longrightarrow> 0 < unat (lp_size (L ! i)) \<and> rend (L ! i) < 2 ^ 32"
    and "\<And>i j. i < j \<Longrightarrow> j < length L \<Longrightarrow> rend (L ! i) \<le> unat (lp_base (L ! j))"
  shows "list_ok L"
  using assms by (simp add: list_ok_def sorted_wrt_iff_nth_less all_set_conv_all_nth)

lemma base_lt_rend: "list_ok L \<Longrightarrow> i < length L \<Longrightarrow> unat (lp_base (L ! i)) < rend (L ! i)"
  using list_ok_nth [of L i] by (simp add: rend_def)

section \<open>The loops of the table\<close>

lemma remove_loop_live:
  "r \<le> n \<Longrightarrow> n < length region \<Longrightarrow>
   \<exists>region'. remove_loop region r n = Some region' \<and> length region' = length region \<and>
     take n region' = take r region @ drop (Suc r) (take (Suc n) region)"
proof (induction region r n rule: remove_loop.induct)
  case (1 region r n)
  show ?case
  proof (cases "r < n")
    case True
    then obtain region' where r: "remove_loop (region[r := region ! (r + 1)]) (r + 1) n = Some region'"
      "length region' = length region"
      "take n region' = take (r + 1) (region[r := region ! (r + 1)]) @
         drop (Suc (r + 1)) (take (Suc n) (region[r := region ! (r + 1)]))"
      using 1 by auto
    have "take (r + 1) (region[r := region ! (r + 1)]) = take r region @ [region ! (r + 1)]"
      using True 1(3) by (simp add: take_Suc_conv_app_nth)
    moreover have "drop (Suc (r + 1)) (take (Suc n) (region[r := region ! (r + 1)])) =
        drop (Suc (r + 1)) (take (Suc n) region)"
      by (simp add: take_update_swap drop_update_cancel)
    moreover have "drop (Suc r) (take (Suc n) region) = region ! (r + 1) # drop (Suc (r + 1)) (take (Suc n) region)"
      using True 1(3) by (subst Cons_nth_drop_Suc [symmetric]) simp_all
    ultimately have "take n region' = take r region @ drop (Suc r) (take (Suc n) region)"
      using r(3) by simp
    then show ?thesis
      using r True 1(3) by (subst remove_loop.simps) simp
  next
    case False
    then show ?thesis using 1(2) by (subst remove_loop.simps) simp
  qed
qed

lemma insert_loop_spec:
  "i < length region \<Longrightarrow>
   \<exists>region' p. insert_loop region b s i = Some region' \<and> length region' = length region \<and> p \<le> i \<and>
     (\<forall>j. j < p \<longrightarrow> region' ! j = region ! j) \<and> (\<forall>j. i < j \<longrightarrow> j < length region \<longrightarrow> region' ! j = region ! j) \<and>
     (\<forall>j. p \<le> j \<longrightarrow> j < i \<longrightarrow> region' ! Suc j = region ! j \<and> b < lp_base (region ! j)) \<and>
     (if p = 0 then region' ! 0 = region ! 0
      else region' ! p = \<lparr>lp_base = b, lp_size = s\<rparr> \<and> \<not> b < lp_base (region ! (p - 1)))"
proof (induction i arbitrary: region)
  case 0
  then show ?case by (intro exI [of _ region] exI [of _ 0]) simp
next
  case (Suc i)
  show ?case
  proof (cases "b < lp_base (region ! i)")
    case False
    with Suc.prems show ?thesis
      by (intro exI [of _ "region[Suc i := \<lparr>lp_base = b, lp_size = s\<rparr>]"] exI [of _ "Suc i"]) simp
  next
    case True
    let ?r = "region[Suc i := region ! i]"
    from Suc.IH [of ?r] Suc.prems obtain region' p where
      r: "insert_loop ?r b s i = Some region'" "length region' = length region" "p \<le> i"
      and lo: "\<forall>j. j < p \<longrightarrow> region' ! j = ?r ! j"
      and hi: "\<forall>j. i < j \<longrightarrow> j < length region \<longrightarrow> region' ! j = ?r ! j"
      and mid: "\<forall>j. p \<le> j \<longrightarrow> j < i \<longrightarrow> region' ! Suc j = ?r ! j \<and> b < lp_base (?r ! j)"
      and new: "if p = 0 then region' ! 0 = ?r ! 0
        else region' ! p = \<lparr>lp_base = b, lp_size = s\<rparr> \<and> \<not> b < lp_base (?r ! (p - 1))"
      by auto
    have "region' ! Suc j = region ! j \<and> b < lp_base (region ! j)" if "p \<le> j" "j < Suc i" for j
      using that mid hi True Suc.prems by (cases "j = i") simp_all
    moreover have "region' ! j = region ! j" if "Suc i < j" "j < length region" for j
      using that hi by simp
    moreover have "region' ! j = region ! j" if "j < p" for j
      using that lo r(3) by simp
    ultimately show ?thesis
      using r new True Suc.prems by (intro exI [of _ region'] exI [of _ p]) (auto split: if_splits)
  qed
qed

section \<open>Adding a region\<close>

lemma lmb_insert_live:
  assumes "list_ok (live rgn)" and "lr_cnt rgn < length (lr_region rgn)" and "0 < lr_cnt rgn"
  shows "\<exists>rgn' p. lmb_insert rgn b s = Some rgn' \<and> lr_cnt rgn' = lr_cnt rgn + 1 \<and>
    length (lr_region rgn') = length (lr_region rgn) \<and> p \<le> lr_cnt rgn \<and>
    live rgn' = take p (live rgn) @ \<lparr>lp_base = b, lp_size = s\<rparr> # drop p (live rgn) \<and>
    (\<forall>j < p. \<not> b < lp_base (live rgn ! j)) \<and> (\<forall>j. p \<le> j \<longrightarrow> j < lr_cnt rgn \<longrightarrow> b < lp_base (live rgn ! j))"
proof -
  let ?R = "lr_region rgn" and ?n = "lr_cnt rgn" and ?new = "\<lparr>lp_base = b, lp_size = s\<rparr>"
  obtain R p where R: "insert_loop ?R b s ?n = Some R" "length R = length ?R" "p \<le> ?n"
    and lo: "\<forall>j. j < p \<longrightarrow> R ! j = ?R ! j"
    and mid: "\<forall>j. p \<le> j \<longrightarrow> j < ?n \<longrightarrow> R ! Suc j = ?R ! j \<and> b < lp_base (?R ! j)"
    and new: "if p = 0 then R ! 0 = ?R ! 0 else R ! p = ?new \<and> \<not> b < lp_base (?R ! (p - 1))"
    using insert_loop_spec [OF assms(2), of b s] by blast
  have nth: "live rgn ! j = ?R ! j" if "j < ?n" for j using that by (simp add: live_def)
  have len: "length (live rgn) = ?n" using assms(2) by (simp add: live_def)
  have mono: "unat (lp_base (?R ! i)) \<le> unat (lp_base (?R ! j))" if "i \<le> j" "j < ?n" for i j
    using that list_ok_sorted [OF assms(1), of i j] base_lt_rend [OF assms(1), of i] len nth
    by (cases "i = j") simp_all
  have before: "\<not> b < lp_base (?R ! j)" if "j < p" for j
  proof -
    have "j \<le> p - 1" "p - 1 < ?n" "p \<noteq> 0" using that R(3) by linarith+
    then show ?thesis using new mono [of j "p - 1"] by (simp add: word_less_nat_alt)
  qed
  define R' where "R' = (if b < lp_base (R ! 0) then R[0 := ?new] else R)"
  have R'p: "R' ! p = ?new \<and> (\<forall>j. j \<noteq> p \<longrightarrow> R' ! j = R ! j)"
  proof (cases "p = 0")
    case True
    then have "b < lp_base (R ! 0)" using new mid assms(3) by simp
    moreover have "0 < length R" using R(2) assms(2) by linarith
    ultimately show ?thesis using True by (simp add: R'_def)
  next
    case False
    then have "\<not> b < lp_base (R ! 0)" using lo before [of 0] by simp
    then show ?thesis using False new by (simp add: R'_def)
  qed
  have len': "length R' = length ?R" using R(2) by (simp add: R'_def)
  have "take (?n + 1) R' = take p (live rgn) @ ?new # drop p (live rgn)"
  proof (rule nth_equalityI)
    show "length (take (?n + 1) R') = length (take p (live rgn) @ ?new # drop p (live rgn))"
      using R(3) assms(2) len len' by simp
    fix j
    assume "j < length (take (?n + 1) R')"
    then have j: "j \<le> ?n" using len' assms(2) by simp
    consider "j < p" | "j = p" | k where "j = Suc k" "p \<le> k" "k < ?n"
      using j by (cases j) (auto, metis Suc_le_eq not_less_less_Suc_eq less_antisym not_le)
    then show "take (?n + 1) R' ! j = (take p (live rgn) @ ?new # drop p (live rgn)) ! j"
    proof cases
      case 1
      then show ?thesis using R'p lo R(3) j len nth [of j] by (simp add: nth_append)
    next
      case 2
      then show ?thesis using R'p R(3) len by (simp add: nth_append)
    next
      case 3
      then show ?thesis using R'p mid nth [of k] R(3) len by (simp add: nth_append)
    qed
  qed
  moreover have "lmb_insert rgn b s = Some (rgn\<lparr>lr_region := R', lr_cnt := ?n + 1\<rparr>)"
    by (simp add: lmb_insert_def R(1) R'_def)
  ultimately show ?thesis
    using R(3) before mid nth len' by (intro exI [of _ "rgn\<lparr>lr_region := R', lr_cnt := ?n + 1\<rparr>"] exI [of _ p])
      (auto simp: live_def)
qed

text \<open>Sortedness of a list with one more region, put behind all that start at or below it.\<close>

lemma list_ok_insert:
  assumes L: "list_ok L" and n: "0 < unat (lp_size n)" "rend n < 2 ^ 32" and p: "p \<le> length L"
    and disj: "\<forall>r \<in> set L. ivl r \<inter> ivl n = {}"
    and lo: "\<forall>j < p. \<not> lp_base n < lp_base (L ! j)"
    and hi: "\<forall>j. p \<le> j \<longrightarrow> j < length L \<longrightarrow> lp_base n < lp_base (L ! j)"
  shows "list_ok (take p L @ n # drop p L)"
proof -
  have bn: "unat (lp_base n) < rend n" using n by (simp add: rend_def)
  have d: "rend (L ! j) \<le> unat (lp_base n) \<or> rend n \<le> unat (lp_base (L ! j))" if "j < length L" for j
    using that disj n list_ok_nth [OF L that] by (intro ivl_disjoint_cases) auto
  have below: "rend (L ! j) \<le> unat (lp_base n)" if "j < p" for j
    using d [of j] that p lo bn by (auto simp: word_less_nat_alt)
  have above: "rend n \<le> unat (lp_base (L ! j))" if "p \<le> j" "j < length L" for j
    using d [OF that(2)] that hi base_lt_rend [OF L that(2)] by (auto simp: word_less_nat_alt)
  have "sorted_wrt (\<lambda>r r'. rend r \<le> unat (lp_base r')) (take p L @ drop p L)"
    using L by (simp add: list_ok_def)
  note that = this
  have "sorted_wrt (\<lambda>r r'. rend r \<le> unat (lp_base r')) (take p L @ n # drop p L)"
  proof -
    have A: "\<forall>x \<in> set (take p L). rend x \<le> unat (lp_base n)"
      using below p by (auto simp: in_set_conv_nth)
    have B: "\<forall>y \<in> set (drop p L). rend n \<le> unat (lp_base y)"
      using above by (auto simp: in_set_conv_nth)
    show ?thesis using that A B bn by (fastforce simp: sorted_wrt_append)
  qed
  then show ?thesis
    using L n by (auto simp: list_ok_def dest: in_set_takeD in_set_dropD)
qed

lemma set_insert_at: "set (take p L @ n # drop p L) = insert n (set L)"
  by (metis append_take_drop_id list.simps(15) set_append Un_insert_right)

text \<open>A region that grows at one end by an adjacent free range.\<close>

lemma list_ok_grow:
  assumes L: "list_ok L" and i: "i < length L" and n: "0 < unat (lp_size n)" "rend n < 2 ^ 32"
    and disj: "\<forall>r \<in> set L. ivl r \<inter> ivl n = {}"
    and g: "unat (lp_base g) = min (unat (lp_base n)) (unat (lp_base (L ! i)))"
      "rend g = max (rend n) (rend (L ! i))"
    and adj: "unat (lp_base (L ! i)) = rend n \<or> unat (lp_base n) = rend (L ! i)"
  shows "list_ok (L[i := g])" and "ivl g = ivl n \<union> ivl (L ! i)"
proof -
  have bn: "unat (lp_base n) < rend n" using n by (simp add: rend_def)
  note bi = base_lt_rend [OF L i]
  show "ivl g = ivl n \<union> ivl (L ! i)" unfolding ivl_def g using adj bn bi by auto
  have d: "rend (L ! j) \<le> unat (lp_base n) \<or> rend n \<le> unat (lp_base (L ! j))" if "j < length L" for j
    using that disj n list_ok_nth [OF L that] by (intro ivl_disjoint_cases) auto
  show "list_ok (L[i := g])"
  proof (rule list_okI)
    fix j
    assume "j < length (L[i := g])"
    then show "0 < unat (lp_size (L[i := g] ! j)) \<and> rend (L[i := g] ! j) < 2 ^ 32"
      using list_ok_nth [OF L, of j] list_ok_nth [OF L i] g n bn bi i
      by (cases "j = i") (auto simp: rend_def min_def max_def split: if_splits)
  next
    fix j k
    assume jk: "j < k" "k < length (L[i := g])"
    have s: "rend (L ! j) \<le> unat (lp_base (L ! k))" using list_ok_sorted [OF L, of j k] jk by simp
    have b: "unat (lp_base (L ! j)) < rend (L ! j)" "unat (lp_base (L ! k)) < rend (L ! k)"
      using base_lt_rend [OF L] jk by simp_all
    show "rend (L[i := g] ! j) \<le> unat (lp_base (L[i := g] ! k))"
    proof (cases "j = i")
      case True
      then have "rend g \<le> unat (lp_base (L ! k))"
        unfolding g(2) using s d [of k] jk adj bn bi b by auto
      with True jk i show ?thesis by simp
    next
      case False
      then show ?thesis
      proof (cases "k = i")
        case True
        then have "rend (L ! j) \<le> unat (lp_base g)"
          unfolding g(1) using s d [of j] jk adj bn bi b by auto
        with True False i show ?thesis by simp
      next
        case False
        with \<open>j \<noteq> i\<close> s show ?thesis by simp
      qed
    qed
  qed
qed

lemma list_ok_merge:
  assumes L: "list_ok L" and i: "i + 1 < length L" and adj: "unat (lp_base (L ! (i + 1))) = rend (L ! i)"
    and g: "lp_base g = lp_base (L ! i)" "rend g = rend (L ! (i + 1))"
  shows "list_ok (take i L @ g # drop (i + 2) L)"
    and "(\<Union>r \<in> set (take i L @ g # drop (i + 2) L). ivl r) = (\<Union>r \<in> set L. ivl r)"
proof -
  have split: "L = take i L @ L ! i # L ! (i + 1) # drop (i + 2) L"
    using i by (simp add: Cons_nth_drop_Suc)
  have b: "unat (lp_base (L ! i)) < rend (L ! i)" "unat (lp_base (L ! (i + 1))) < rend (L ! (i + 1))"
    using base_lt_rend [OF L] i by simp_all
  have ivl: "ivl g = ivl (L ! i) \<union> ivl (L ! (i + 1))"
    unfolding ivl_def g using adj b by auto
  have "(\<Union>r \<in> set L. ivl r) = (\<Union>r \<in> set (take i L @ L ! i # L ! (i + 1) # drop (i + 2) L). ivl r)"
    using split by simp
  then show "(\<Union>r \<in> set (take i L @ g # drop (i + 2) L). ivl r) = (\<Union>r \<in> set L. ivl r)"
    using ivl by auto
  have pos: "0 < unat (lp_size g)" using g b adj by (simp add: rend_def)
  have "sorted_wrt (\<lambda>r r'. rend r \<le> unat (lp_base r')) (take i L @ L ! i # L ! (i + 1) # drop (i + 2) L)"
    using L split by (simp add: list_ok_def)
  then have "sorted_wrt (\<lambda>r r'. rend r \<le> unat (lp_base r')) (take i L @ g # drop (i + 2) L)"
    using g by (auto simp: sorted_wrt_append)
  moreover have "rend g < 2 ^ 32" using g(2) list_ok_nth [OF L, of "i + 1"] i by simp
  ultimately show "list_ok (take i L @ g # drop (i + 2) L)"
    using L pos by (auto simp: list_ok_def dest: in_set_takeD in_set_dropD)
qed

lemma grow_values:
  assumes n: "n = \<lparr>lp_base = b, lp_size = s\<rparr>" "rend n < 2 ^ 32" and r: "rend r < 2 ^ 32" "0 < unat (lp_size r)"
    and s: "0 < unat s"
  shows "unat (lp_base r) = rend n \<Longrightarrow> g = r\<lparr>lp_base := lp_base r - s, lp_size := lp_size r + s\<rparr> \<Longrightarrow>
      unat (lp_base g) = min (unat (lp_base n)) (unat (lp_base r)) \<and> rend g = max (rend n) (rend r)"
    and "unat (lp_base n) = rend r \<Longrightarrow> g = r\<lparr>lp_size := lp_size r + s\<rparr> \<Longrightarrow>
      unat (lp_base g) = min (unat (lp_base n)) (unat (lp_base r)) \<and> rend g = max (rend n) (rend r)"
proof -
  have sum: "unat (lp_size r + s) = unat (lp_size r) + unat s" if "unat (lp_size r) + unat s < 2 ^ 32"
    using that by (simp add: unat_word_ariths)
  {
    assume a: "unat (lp_base r) = rend n" and g: "g = r\<lparr>lp_base := lp_base r - s, lp_size := lp_size r + s\<rparr>"
    have "unat (lp_base r - s) = unat b"
      using a n(1) by (simp add: rend_def unat_sub word_le_nat_alt)
    then show "unat (lp_base g) = min (unat (lp_base n)) (unat (lp_base r)) \<and> rend g = max (rend n) (rend r)"
      using a g n r sum by (simp add: rend_def)
  next
    assume a: "unat (lp_base n) = rend r" and g: "g = r\<lparr>lp_size := lp_size r + s\<rparr>"
    then show "unat (lp_base g) = min (unat (lp_base n)) (unat (lp_base r)) \<and> rend g = max (rend n) (rend r)"
      using n r sum by (simp add: rend_def)
  }
qed

definition grown :: "lmb_property \<Rightarrow> lmb_property \<Rightarrow> lmb_property \<Rightarrow> bool" where
  "grown n r g \<longleftrightarrow> (unat (lp_base r) = rend n \<or> unat (lp_base n) = rend r) \<and>
     unat (lp_base g) = min (unat (lp_base n)) (unat (lp_base r)) \<and> rend g = max (rend n) (rend r)"

lemma add_scan_spec:
  assumes n: "n = \<lparr>lp_base = b, lp_size = s\<rparr>" "rend n < 2 ^ 32" "0 < unat s"
    and ok: "\<forall>j < i + k. rend (region ! j) < 2 ^ 32 \<and> 0 < unat (lp_size (region ! j))"
    and len: "i + k \<le> length region"
  shows "\<exists>res. add_scan_loop region b s i k = Some res \<and>
    (res = Nowhere (i + k) \<or> (\<exists>j < i + k. \<exists>g. res = Grown j (region[j := g]) \<and> grown n (region ! j) g) \<or>
     res = Have \<and> (\<exists>j < i + k. region ! j = n))"
  using ok len
proof (induction k arbitrary: i)
  case (Suc k)
  let ?r = "region ! i"
  have r: "rend ?r < 2 ^ 32" "0 < unat (lp_size ?r)" "i < length region" using Suc.prems by simp_all
  have adj: "lmb_addrs_adjacent b s (lp_base ?r) (lp_size ?r) =
      (if unat (lp_base ?r) = rend n then 1 else if unat (lp_base n) = rend ?r then - 1 else 0)"
    using lmb_addrs_adjacent_iff [OF n(2) r(1)] n(1) by simp
  show ?case
  proof (cases "lp_base ?r = b \<and> lp_size ?r = s")
    case True
    then have "i < i + Suc k \<and> ?r = n" using n(1) by simp
    moreover have "add_scan_loop region b s i (Suc k) = Some Have" using True r(3) by (simp add: Let_def)
    ultimately show ?thesis by blast
  next
    case new: False
    show ?thesis
    proof (cases "unat (lp_base ?r) = rend n \<or> unat (lp_base n) = rend ?r")
      case True
      define g where "g = (if unat (lp_base ?r) = rend n
        then ?r\<lparr>lp_base := lp_base ?r - s, lp_size := lp_size ?r + s\<rparr> else ?r\<lparr>lp_size := lp_size ?r + s\<rparr>)"
      have "add_scan_loop region b s i (Suc k) = Some (Grown i (region[i := g]))"
        using new r(3) True by (cases "unat (lp_base ?r) = rend n") (simp_all add: adj Let_def g_def)
      moreover have "grown n ?r g"
        unfolding grown_def using True grow_values [OF n(1,2) r(1,2) n(3), of g]
        by (cases "unat (lp_base ?r) = rend n") (simp_all add: g_def)
      ultimately show ?thesis by (metis less_add_same_cancel1 zero_less_Suc)
    next
      case False
      then have "add_scan_loop region b s i (Suc k) = add_scan_loop region b s (i + 1) k"
        using new r(3) by (auto simp: adj Let_def)
      moreover have "i + 1 + k = i + Suc k" by simp
      ultimately show ?thesis using Suc.IH [of "i + 1"] Suc.prems by (simp only:)
    qed
  qed
qed simp

lemma nth_live: "j < lr_cnt rgn \<Longrightarrow> live rgn ! j = lr_region rgn ! j"
  by (simp add: live_def)

lemma length_live: "lr_cnt rgn \<le> length (lr_region rgn) \<Longrightarrow> length (live rgn) = lr_cnt rgn"
  by (simp add: live_def)

text \<open>What is left of \<open>lmb_add_region\<close> after a region has grown: an optional merge with the next.\<close>

lemma add_finish_grown:
  assumes ok: "list_ok (live rgn)" and len: "length (lr_region rgn) = MAX_LMB_REGIONS + 1"
    "1 \<le> lr_cnt rgn" "lr_cnt rgn \<le> MAX_LMB_REGIONS" and i: "i < lr_cnt rgn"
  shows "\<exists>c rgn'. add_finish rgn b s i 1 = Some (c, rgn') \<and> 0 \<le> c \<and> rgn_ok rgn' \<and> list_ok (live rgn') \<and>
    covers rgn' = covers rgn"
proof -
  have pred: "ulong_pred (lr_cnt rgn) = lr_cnt rgn - 1" using len(2) by (simp add: ulong_pred_def)
  have ll: "length (live rgn) = lr_cnt rgn" using len by (simp add: live_def)
  have rok: "rgn_ok rgn" using assms by (simp add: rgn_ok_def)
  show ?thesis
  proof (cases "i + 1 < lr_cnt rgn")
    case False
    then have "\<not> i < ulong_pred (lr_cnt rgn)" using pred by linarith
    then have "add_finish rgn b s i 1 = Some (1, rgn)" by (simp add: add_finish_def)
    then show ?thesis using rok ok by auto
  next
    case True
    let ?L = "live rgn" and ?R = "lr_region rgn"
    have nth: "?R ! i = ?L ! i" "?R ! (i + 1) = ?L ! (i + 1)" using True by (simp_all add: nth_live)
    have lenR: "i + 1 < length ?R" using True len by simp
    have b: "rend (?L ! i) < 2 ^ 32" "rend (?L ! (i + 1)) < 2 ^ 32" "0 < unat (lp_size (?L ! i))" "0 < unat (lp_size (?L ! (i + 1)))"
      using list_ok_nth [OF ok, of i] list_ok_nth [OF ok, of "i + 1"] True ll by simp_all
    have le: "rend (?L ! i) \<le> unat (lp_base (?L ! (i + 1)))"
      using list_ok_sorted [OF ok, of i "i + 1"] True ll by simp
    have a: "lmb_regions_adjacent ?R i (i + 1) = Some (if unat (lp_base (?L ! (i + 1))) = rend (?L ! i) then 1 else 0)"
      using lenR lmb_addrs_adjacent_iff [OF b(1,2)] le b(3,4) unfolding lmb_regions_adjacent_def nth
      by (auto simp: rend_def)
    show ?thesis
    proof (cases "unat (lp_base (?L ! (i + 1))) = rend (?L ! i)")
      case False
      then have "add_finish rgn b s i 1 = Some (1, rgn)" using a pred True by (simp add: add_finish_def)
      then show ?thesis using rok ok by auto
    next
      case adj: True
      let ?g = "(?R ! i)\<lparr>lp_size := lp_size (?R ! i) + lp_size (?R ! (i + 1))\<rparr>"
      have "unat (lp_size (?L ! i) + lp_size (?L ! (i + 1))) = unat (lp_size (?L ! i)) + unat (lp_size (?L ! (i + 1)))"
        using adj b(2) by (simp add: rend_def unat_word_ariths)
      then have g: "lp_base ?g = lp_base (?L ! i)" "rend ?g = rend (?L ! (i + 1))"
        using adj unfolding nth by (simp_all add: rend_def)
      have r1: "i + 1 \<le> lr_cnt rgn - 1" "lr_cnt rgn - 1 < length (?R[i := ?g])" using True len by simp_all
      from remove_loop_live [OF this] obtain R where R: "remove_loop (?R[i := ?g]) (i + 1) (lr_cnt rgn - 1) = Some R"
        "length R = length ?R"
        "take (lr_cnt rgn - 1) R = take (i + 1) (?R[i := ?g]) @ drop (i + 2) (take (lr_cnt rgn) (?R[i := ?g]))"
        using len(2) by auto
      let ?rgn' = "rgn\<lparr>lr_region := R, lr_cnt := lr_cnt rgn - 1\<rparr>"
      have "lmb_coalesce_regions rgn i (i + 1) = Some ?rgn'"
        using R(1) pred by (simp add: lmb_coalesce_regions_def lmb_remove_region_def Let_def)
      then have fin: "add_finish rgn b s i 1 = Some (2, ?rgn')"
        using a adj pred True by (simp add: add_finish_def)
      have "take (i + 1) (?R[i := ?g]) = take i ?L @ [?g]"
        using lenR True by (simp add: take_Suc_conv_app_nth live_def min_def)
      moreover have "drop (i + 2) (take (lr_cnt rgn) (?R[i := ?g])) = drop (i + 2) ?L"
        by (simp add: live_def take_update_swap drop_update_cancel)
      ultimately have live': "live ?rgn' = take i ?L @ ?g # drop (i + 2) ?L"
        using R(3) by (simp add: live_def)
      have i1: "i + 1 < length ?L" using True ll by simp
      from list_ok_merge [OF ok i1 adj g] have "list_ok (live ?rgn')" "covers ?rgn' = covers rgn"
        unfolding covers_def live' by simp_all
      then show ?thesis using fin R(2) len True by (auto simp: rgn_ok_def)
    qed
  qed
qed

lemma lmb_add_region_spec:
  assumes ok: "rgn_ok rgn" and s: "0 < unat s" "unat b + unat s < 2 ^ 32"
    and disj: "covers rgn \<inter> {unat b ..< unat b + unat s} = {}"
  shows "\<exists>c rgn'. lmb_add_region rgn b s = Some (c, rgn') \<and>
    (c = - 1 \<and> lr_cnt rgn = MAX_LMB_REGIONS \<and> rgn' = rgn \<or>
     0 \<le> c \<and> rgn_ok rgn' \<and> list_ok (live rgn') \<and> covers rgn' = covers rgn \<union> {unat b ..< unat b + unat s})"
proof -
  define n where "n = \<lparr>lp_base = b, lp_size = s\<rparr>"
  have n: "0 < unat (lp_size n)" "rend n < 2 ^ 32" "ivl n = {unat b ..< unat b + unat s}"
    using s by (simp_all add: n_def rend_def ivl_def)
  have len: "length (lr_region rgn) = MAX_LMB_REGIONS + 1" "1 \<le> lr_cnt rgn" "lr_cnt rgn \<le> MAX_LMB_REGIONS"
    using ok by (simp_all add: rgn_ok_def)
  show ?thesis
  proof (cases "lr_cnt rgn = 1 \<and> lp_size (lr_region rgn ! 0) = 0")
    case True
    let ?rgn' = "rgn\<lparr>lr_region := (lr_region rgn)[0 := (lr_region rgn ! 0)\<lparr>lp_base := b, lp_size := s\<rparr>]\<rparr>"
    have "0 < length (lr_region rgn)" using len by simp
    then obtain r rs where R: "lr_region rgn = r # rs" by (cases "lr_region rgn") auto
    have l: "live ?rgn' = [n]" using True R by (simp add: live_def n_def)
    have "live rgn = [r]" "lp_size r = 0" using True R by (simp_all add: live_def)
    then have "covers rgn = {}" by (simp add: covers_def ivl_def rend_def)
    moreover have "list_ok (live ?rgn')" unfolding l using n by (simp add: list_ok_def)
    moreover have "covers ?rgn' = ivl n" unfolding covers_def l by simp
    ultimately show ?thesis
      using True len n(3) by (auto simp: lmb_add_region_def rgn_ok_def)
  next
    case False
    then have L: "list_ok (live rgn)" using ok by (auto simp: rgn_ok_def)
    have ll: "length (live rgn) = lr_cnt rgn" using len by (simp add: live_def)
    have d: "\<forall>r \<in> set (live rgn). ivl r \<inter> ivl n = {}"
      using disj unfolding covers_def n(3) by blast
    have "\<forall>j < 0 + lr_cnt rgn. rend (lr_region rgn ! j) < 2 ^ 32 \<and> 0 < unat (lp_size (lr_region rgn ! j))"
      using list_ok_nth [OF L] ll nth_live by simp
    from add_scan_spec [OF n_def n(2) s(1) this] obtain res where
      res: "add_scan_loop (lr_region rgn) b s 0 (lr_cnt rgn) = Some res" and
      cases: "res = Nowhere (lr_cnt rgn) \<or> (\<exists>j < lr_cnt rgn. \<exists>g. res = Grown j ((lr_region rgn)[j := g]) \<and> grown n (lr_region rgn ! j) g) \<or>
        res = Have \<and> (\<exists>j < lr_cnt rgn. lr_region rgn ! j = n)"
      using len by auto
    have not_have: "\<not> (\<exists>j < lr_cnt rgn. lr_region rgn ! j = n)"
    proof
      assume "\<exists>j < lr_cnt rgn. lr_region rgn ! j = n"
      then have "n \<in> set (live rgn)" using nth_live ll by (metis in_set_conv_nth)
      with d ivl_nonempty [OF n(1)] show False by blast
    qed
    note start = lmb_add_region_def [of rgn b s, unfolded if_not_P [OF False]]
    from cases not_have consider (nowhere) "res = Nowhere (lr_cnt rgn)"
      | (grown) j g where "j < lr_cnt rgn" "res = Grown j ((lr_region rgn)[j := g])" "grown n (live rgn ! j) g"
      using nth_live by metis
    then show ?thesis
    proof cases
      case nowhere
      have "\<not> lr_cnt rgn < ulong_pred (lr_cnt rgn)" using len(2) by (simp add: ulong_pred_def)
      then have add: "lmb_add_region rgn b s = (if MAX_LMB_REGIONS \<le> lr_cnt rgn then Some (- 1, rgn)
          else do { rgn \<leftarrow> lmb_insert rgn b s; Some (0, rgn) })"
        using res nowhere by (simp add: start add_finish_def)
      show ?thesis
      proof (cases "MAX_LMB_REGIONS \<le> lr_cnt rgn")
        case True
        then show ?thesis using add len(3) by auto
      next
        case room: False
        have cl: "lr_cnt rgn < length (lr_region rgn)" "0 < lr_cnt rgn" using len by simp_all
        from lmb_insert_live [OF L this, of b s, folded n_def] obtain rgn' p where
          ins: "lmb_insert rgn b s = Some rgn'" "lr_cnt rgn' = lr_cnt rgn + 1"
            "length (lr_region rgn') = length (lr_region rgn)" "p \<le> lr_cnt rgn"
            "live rgn' = take p (live rgn) @ n # drop p (live rgn)"
          and lo: "\<forall>j < p. \<not> b < lp_base (live rgn ! j)"
          and hi: "\<forall>j. p \<le> j \<longrightarrow> j < lr_cnt rgn \<longrightarrow> b < lp_base (live rgn ! j)" by blast
        have "list_ok (live rgn')"
          unfolding ins(5) using ins(4) lo hi ll by (intro list_ok_insert [OF L n(1,2) _ d]) (simp_all add: n_def)
        moreover have "covers rgn' = covers rgn \<union> ivl n"
          unfolding covers_def ins(5) set_insert_at by auto
        ultimately show ?thesis
          using add ins len room n(3) by (auto simp: rgn_ok_def)
      qed
    next
      case (grown j g)
      let ?rgn1 = "rgn\<lparr>lr_region := (lr_region rgn)[j := g]\<rparr>"
      have live1: "live ?rgn1 = (live rgn)[j := g]" by (simp add: live_def take_update_swap)
      have j: "j < length (live rgn)" using grown(1) ll by simp
      have g: "unat (lp_base g) = min (unat (lp_base n)) (unat (lp_base (live rgn ! j)))"
        "rend g = max (rend n) (rend (live rgn ! j))"
        "unat (lp_base (live rgn ! j)) = rend n \<or> unat (lp_base n) = rend (live rgn ! j)"
        using grown(3) by (auto simp: grown_def)
      note gr = list_ok_grow [OF L j n(1,2) d g]
      have "covers ?rgn1 = covers rgn \<union> ivl n"
      proof -
        have "(\<Union>r \<in> set ((live rgn)[j := g]). ivl r) = (\<Union>r \<in> set (live rgn). ivl r) \<union> ivl n"
        proof -
          have sp: "live rgn = take j (live rgn) @ live rgn ! j # drop (Suc j) (live rgn)"
            using j by (simp add: id_take_nth_drop [symmetric])
          have "set (live rgn) = insert (live rgn ! j) (set (take j (live rgn)) \<union> set (drop (Suc j) (live rgn)))"
            by (subst sp) auto
          moreover have "set ((live rgn)[j := g]) = insert g (set (take j (live rgn)) \<union> set (drop (Suc j) (live rgn)))"
            using j by (simp add: upd_conv_take_nth_drop)
          ultimately show ?thesis using gr(2) by auto
        qed
        then show ?thesis unfolding covers_def live1 .
      qed
      moreover from add_finish_grown [of ?rgn1 j b s] obtain c rgn' where
        "add_finish ?rgn1 b s j 1 = Some (c, rgn')" "0 \<le> c" "rgn_ok rgn'" "list_ok (live rgn')" "covers rgn' = covers ?rgn1"
        using gr(1) len grown(1) unfolding live1 by auto
      ultimately show ?thesis using res grown(2) n(3) by (auto simp: start)
    qed
  qed
qed

text \<open>
  C10: adding a range that does not wrap and is free: \<open>lmb_add_region\<close> never leaves the array; it
  either refuses with \<open>-1\<close>, which happens only with a full table and leaves it as it was, or the
  table afterwards is sorted and disjoint and covers exactly the old addresses and the new range,
  whether the range was merged with a neighbour, with two, or inserted.
\<close>

theorem lmb_add_region_covers:
  assumes "rgn_ok rgn" and "0 < unat s" and "unat b + unat s < 2 ^ 32"
    and "covers rgn \<inter> {unat b ..< unat b + unat s} = {}"
  shows "\<exists>c rgn'. lmb_add_region rgn b s = Some (c, rgn') \<and>
    (c = - 1 \<and> lr_cnt rgn = MAX_LMB_REGIONS \<and> rgn' = rgn \<or>
     0 \<le> c \<and> rgn_ok rgn' \<and> covers rgn' = covers rgn \<union> {unat b ..< unat b + unat s})"
  using lmb_add_region_spec [OF assms] by blast

definition lmb_sample :: lmb_region where
  "lmb_sample = \<lparr>lr_cnt = 2, lr_size = 0, lr_region = [\<lparr>lp_base = 0x1000, lp_size = 0x100\<rparr>,
     \<lparr>lp_base = 0x3000, lp_size = 0x100\<rparr>] @ replicate 7 \<lparr>lp_base = 0, lp_size = 0\<rparr>\<rparr>"

lemma lmb_sample_live:
  "live lmb_sample = [\<lparr>lp_base = 0x1000, lp_size = 0x100\<rparr>, \<lparr>lp_base = 0x3000, lp_size = 0x100\<rparr>]"
  by (simp add: live_def lmb_sample_def eval_nat_numeral)

lemma lmb_sample_cnt: "lr_cnt lmb_sample = 2" and lmb_sample_len: "length (lr_region lmb_sample) = 9"
  by (simp_all add: lmb_sample_def)

lemma lmb_sample_ok: "rgn_ok lmb_sample"
proof -
  have "list_ok (live lmb_sample)" unfolding lmb_sample_live by (simp add: list_ok_def rend_def)
  then show ?thesis by (simp add: rgn_ok_def lmb_sample_def MAX_LMB_REGIONS_def)
qed

lemma lmb_sample_covers: "covers lmb_sample = {0x1000 ..< 0x1100} \<union> {0x3000 ..< 0x3100}"
  unfolding covers_def lmb_sample_live by (simp add: ivl_def rend_def)

theorem lmb_add_region_covers_witness:
  "\<exists>c rgn'. lmb_add_region lmb_sample 0x1100 0x1f00 = Some (c, rgn') \<and>
     covers rgn' = {0x1000 ..< 0x1100} \<union> {0x3000 ..< 0x3100} \<union> {0x1100 ..< 0x3000}"
proof -
  have "covers lmb_sample \<inter> {unat (0x1100 :: u32) ..< unat (0x1100 :: u32) + unat (0x1f00 :: u32)} = {}"
    unfolding lmb_sample_covers by auto
  from lmb_add_region_covers [OF lmb_sample_ok _ _ this]
  show ?thesis by (auto simp: lmb_sample_covers lmb_sample_cnt MAX_LMB_REGIONS_def)
qed

section \<open>Freeing a range\<close>

lemma free_find_spec:
  "i + k \<le> length region \<Longrightarrow>
   \<exists>j. free_find region b e i k = Some j \<and> i \<le> j \<and> j \<le> i + k \<and>
     (j < i + k \<longrightarrow> lp_base (region ! j) \<le> b \<and> e \<le> lp_base (region ! j) + lp_size (region ! j)) \<and>
     (\<forall>l. i \<le> l \<longrightarrow> l < j \<longrightarrow> \<not> (lp_base (region ! l) \<le> b \<and> e \<le> lp_base (region ! l) + lp_size (region ! l)))"
proof (induction k arbitrary: i)
  case 0
  then show ?case by auto
next
  case (Suc k)
  show ?case
  proof (cases "lp_base (region ! i) \<le> b \<and> e \<le> lp_base (region ! i) + lp_size (region ! i)")
    case True
    then show ?thesis using Suc.prems by (intro exI [of _ i]) (simp add: Let_def)
  next
    case False
    then have "free_find region b e i (Suc k) = free_find region b e (i + 1) k"
      using Suc.prems by (auto simp: Let_def)
    with Suc.IH [of "i + 1"] Suc.prems obtain j where j: "free_find region b e i (Suc k) = Some j"
      "i + 1 \<le> j" "j \<le> i + Suc k"
      "j < i + Suc k \<longrightarrow> lp_base (region ! j) \<le> b \<and> e \<le> lp_base (region ! j) + lp_size (region ! j)"
      "\<forall>l. i + 1 \<le> l \<longrightarrow> l < j \<longrightarrow> \<not> (lp_base (region ! l) \<le> b \<and> e \<le> lp_base (region ! l) + lp_size (region ! l))"
      by auto
    have "\<not> (lp_base (region ! l) \<le> b \<and> e \<le> lp_base (region ! l) + lp_size (region ! l))" if "i \<le> l" "l < j" for l
      using that j(5) False by (cases "l = i") auto
    with j show ?thesis by (intro exI [of _ j]) auto
  qed
qed

text \<open>Replacing one region by a part of it.\<close>

lemma list_ok_shrink:
  assumes L: "list_ok L" and i: "i < length L" and g: "0 < unat (lp_size g)"
    "unat (lp_base (L ! i)) \<le> unat (lp_base g)" "rend g \<le> rend (L ! i)"
  shows "list_ok (L[i := g])"
proof (rule list_okI)
  fix j assume "j < length (L[i := g])"
  then show "0 < unat (lp_size (L[i := g] ! j)) \<and> rend (L[i := g] ! j) < 2 ^ 32"
    using list_ok_nth [OF L, of j] list_ok_nth [OF L i] g by (cases "j = i") auto
next
  fix j k assume jk: "j < k" "k < length (L[i := g])"
  then have "rend (L ! j) \<le> unat (lp_base (L ! k))" using list_ok_sorted [OF L, of j k] by simp
  with jk i g show "rend (L[i := g] ! j) \<le> unat (lp_base (L[i := g] ! k))"
    by (cases "j = i"; cases "k = i") auto
qed

lemma others_disjoint:
  assumes L: "list_ok L" and i: "i < length L" and r: "r \<in> set (take i L @ drop (Suc i) L)"
  shows "ivl r \<inter> ivl (L ! i) = {}"
proof -
  have "sorted_wrt (\<lambda>r r'. rend r \<le> unat (lp_base r')) (take i L @ L ! i # drop (Suc i) L)"
    using L i by (simp add: list_ok_def id_take_nth_drop [symmetric])
  then have "rend r \<le> unat (lp_base (L ! i)) \<or> rend (L ! i) \<le> unat (lp_base r)"
    using r by (auto simp: sorted_wrt_append)
  then show ?thesis by (auto simp: ivl_def)
qed

lemma covers_split:
  "i < length L \<Longrightarrow> (\<Union>r \<in> set L. ivl r) = (\<Union>r \<in> set (take i L @ drop (Suc i) L). ivl r) \<union> ivl (L ! i)"
proof -
  assume i: "i < length L"
  have "(\<Union>r \<in> set L. ivl r) = (\<Union>r \<in> set (take i L @ L ! i # drop (Suc i) L). ivl r)"
    using i by (simp add: id_take_nth_drop [symmetric])
  then show ?thesis by auto
qed

lemma covers_update:
  "i < length L \<Longrightarrow> (\<Union>r \<in> set (L[i := g]). ivl r) = (\<Union>r \<in> set (take i L @ drop (Suc i) L). ivl r) \<union> ivl g"
  by (auto simp: upd_conv_take_nth_drop)

lemma lmb_free_region_spec:
  assumes L: "list_ok (live rgn)" and len: "length (lr_region rgn) = MAX_LMB_REGIONS + 1"
      "1 \<le> lr_cnt rgn" "lr_cnt rgn < MAX_LMB_REGIONS"
    and s: "0 < unat s" and inside: "\<exists>r \<in> set (live rgn). {unat b ..< unat b + unat s} \<subseteq> ivl r"
  shows "\<exists>c rgn'. lmb_free_region rgn b s = Some (c, rgn') \<and> 0 \<le> c \<and> list_ok (live rgn') \<and>
    covers rgn' = covers rgn - {unat b ..< unat b + unat s} \<and>
    (rgn_ok rgn' \<or> lr_cnt rgn = 1 \<and> lr_cnt rgn' = 0 \<and> lr_region rgn' = lr_region rgn)"
proof -
  let ?L = "live rgn" and ?R = "lr_region rgn" and ?I = "{unat b ..< unat b + unat s}"
  have ll: "length ?L = lr_cnt rgn" using len by (simp add: live_def)
  from inside obtain j0 where j0: "j0 < lr_cnt rgn" "?I \<subseteq> ivl (?L ! j0)"
    using ll by (auto simp: in_set_conv_nth)
  have in_ivl: "unat (lp_base r) \<le> unat b \<and> unat b + unat s \<le> rend r" if "?I \<subseteq> ivl r" for r
  proof -
    have "unat b \<in> ivl r" "unat b + unat s - 1 \<in> ivl r" using that s by auto
    then show ?thesis using s by (auto simp: ivl_def)
  qed
  have bs: "unat b + unat s < 2 ^ 32"
    using in_ivl [OF j0(2)] list_ok_nth [OF L, of j0] j0(1) ll by simp
  have e: "unat (b + s) = unat b + unat s" using bs by (simp add: unat_word_ariths)
  have hit: "lp_base (?R ! j) \<le> b \<and> b + s \<le> lp_base (?R ! j) + lp_size (?R ! j) \<longleftrightarrow>
      unat (lp_base (?L ! j)) \<le> unat b \<and> unat b + unat s \<le> rend (?L ! j)" if "j < lr_cnt rgn" for j
    using that list_ok_nth [OF L, of j] ll
    by (simp add: nth_live [symmetric] word_le_nat_alt e unat_end)
  obtain i where i: "free_find ?R b (b + s) 0 (lr_cnt rgn) = Some i" "i < lr_cnt rgn"
    "unat (lp_base (?L ! i)) \<le> unat b" "unat b + unat s \<le> rend (?L ! i)"
  proof -
    from free_find_spec [of 0 "lr_cnt rgn" ?R b "b + s"] len obtain j where
      j: "free_find ?R b (b + s) 0 (lr_cnt rgn) = Some j" "j \<le> lr_cnt rgn"
        "j < lr_cnt rgn \<longrightarrow> lp_base (?R ! j) \<le> b \<and> b + s \<le> lp_base (?R ! j) + lp_size (?R ! j)"
        "\<forall>l < j. \<not> (lp_base (?R ! l) \<le> b \<and> b + s \<le> lp_base (?R ! l) + lp_size (?R ! l))" by auto
    have "j \<noteq> lr_cnt rgn"
    proof
      assume "j = lr_cnt rgn"
      with j(4) hit [OF j0(1)] in_ivl [OF j0(2)] j0(1) show False by blast
    qed
    with j hit [of j] that show thesis by auto
  qed
  let ?p = "?R ! i" and ?rest = "take i ?L @ drop (Suc i) ?L"
  have p: "?L ! i = ?p" using i(2) by (simp add: nth_live)
  have iL: "i < length ?L" "i < length ?R" using i(2) ll len by simp_all
  have pe: "unat (lp_base ?p + lp_size ?p) = rend ?p"
    using list_ok_nth [OF L iL(1)] p by (intro unat_end) simp
  have cov: "covers rgn = (\<Union>r \<in> set ?rest. ivl r) \<union> ivl ?p"
    unfolding covers_def using covers_split [OF iL(1)] p by simp
  have rest: "(\<Union>r \<in> set ?rest. ivl r) \<inter> ivl ?p = {}"
    using others_disjoint [OF L iL(1)] p by auto
  have I: "?I \<subseteq> ivl ?p" using i(3,4) p by (auto simp: ivl_def)
  let ?upd = "\<lambda>p'. rgn\<lparr>lr_region := ?R[i := p']\<rparr>"
  have live_upd: "live (?upd p') = ?L[i := p']" for p' by (simp add: live_def take_update_swap)
  have cov_upd: "covers (?upd p') = (\<Union>r \<in> set ?rest. ivl r) \<union> ivl p'" for p'
    unfolding covers_def live_upd by (rule covers_update [OF iL(1)])
  have ok_upd: "list_ok (live (?upd p'))" if "0 < unat (lp_size p')" "unat (lp_base ?p) \<le> unat (lp_base p')"
      "rend p' \<le> rend ?p" for p'
    unfolding live_upd using that p by (intro list_ok_shrink [OF L iL(1)]) simp_all
  have rok_upd: "rgn_ok (?upd p')" if "list_ok (live (?upd p'))" for p'
    using that len by (simp add: rgn_ok_def)
  have start: "lmb_free_region rgn b s =
      (if lp_base ?p = b \<and> lp_base ?p + lp_size ?p = b + s then map_option (\<lambda>r. (0, r)) (lmb_remove_region rgn i)
       else if lp_base ?p = b then Some (0, ?upd (?p\<lparr>lp_base := b + s, lp_size := lp_size ?p - s\<rparr>))
       else if lp_base ?p + lp_size ?p = b + s then Some (0, ?upd (?p\<lparr>lp_size := lp_size ?p - s\<rparr>))
       else lmb_add_region (?upd (?p\<lparr>lp_size := b - lp_base ?p\<rparr>)) (b + s) (lp_base ?p + lp_size ?p - (b + s)))"
    unfolding lmb_free_region_def using i(1,2) by (simp add: Let_def)
  have eqs: "lp_base ?p = b \<longleftrightarrow> unat (lp_base ?p) = unat b"
    "lp_base ?p + lp_size ?p = b + s \<longleftrightarrow> rend ?p = unat b + unat s"
    by (simp_all add: word_unat_eq_iff e pe)
  have bp: "unat (lp_base ?p) \<le> unat b" "unat b + unat s \<le> rend ?p" using i(3,4) p by simp_all
  have sp: "unat s \<le> unat (lp_size ?p)" using bp by (simp add: rend_def)
  have diff: "unat (lp_size ?p - s) = unat (lp_size ?p) - unat s" using sp by (simp add: unat_sub word_le_nat_alt)
  show ?thesis
  proof (cases "unat (lp_base ?p) = unat b")
    case front: True
    show ?thesis
    proof (cases "rend ?p = unat b + unat s")
      case True
      have "i \<le> lr_cnt rgn - 1" "lr_cnt rgn - 1 < length ?R" using i(2) len by simp_all
      from remove_loop_live [OF this] obtain R where R: "remove_loop ?R i (lr_cnt rgn - 1) = Some R"
        "length R = length ?R" "take (lr_cnt rgn - 1) R = take i ?R @ drop (Suc i) (take (lr_cnt rgn) ?R)"
        using len(2) by auto
      let ?rgn' = "rgn\<lparr>lr_region := R, lr_cnt := lr_cnt rgn - 1\<rparr>"
      have f: "lmb_free_region rgn b s = Some (0, ?rgn')"
        unfolding start using front True eqs R(1) len(2) by (simp add: lmb_remove_region_def ulong_pred_def)
      have live': "live ?rgn' = ?rest"
        using R(3) i(2) by (simp add: live_def min_def)
      have ivlp: "ivl ?p = ?I" using front True by (simp add: ivl_def)
      have "sorted_wrt (\<lambda>r r'. rend r \<le> unat (lp_base r')) (take i ?L @ ?L ! i # drop (Suc i) ?L)"
        using L iL(1) by (simp add: list_ok_def id_take_nth_drop [symmetric])
      then have "sorted_wrt (\<lambda>r r'. rend r \<le> unat (lp_base r')) ?rest"
        by (simp add: sorted_wrt_append)
      then have ok': "list_ok (live ?rgn')"
        unfolding live' using L by (auto simp: list_ok_def dest: in_set_takeD in_set_dropD)
      have cov': "covers ?rgn' = covers rgn - ?I"
      proof -
        have "covers ?rgn' = (\<Union>r \<in> set ?rest. ivl r)" unfolding covers_def live' ..
        then show ?thesis unfolding cov using rest ivlp by blast
      qed
      have "rgn_ok ?rgn' \<or> lr_cnt rgn = 1 \<and> lr_cnt ?rgn' = 0 \<and> lr_region ?rgn' = lr_region rgn"
      proof (cases "lr_cnt rgn = 1")
        case True
        then have "remove_loop ?R i (lr_cnt rgn - 1) = Some ?R" using i(2) by (simp add: remove_loop.simps)
        then show ?thesis using True R(1) by simp
      next
        case False
        then have "1 \<le> lr_cnt rgn - 1" "lr_cnt rgn - 1 \<le> MAX_LMB_REGIONS" using len by linarith+
        then show ?thesis using ok' len R(2) by (simp add: rgn_ok_def)
      qed
      with f ok' cov' show ?thesis by auto
    next
      case False
      let ?p' = "?p\<lparr>lp_base := b + s, lp_size := lp_size ?p - s\<rparr>"
      have r': "rend ?p' = rend ?p" using front diff sp e by (simp add: rend_def)
      have "0 < unat (lp_size ?p')" using False bp diff front sp by (simp add: rend_def)
      then have ok': "list_ok (live (?upd ?p'))" using front r' e by (intro ok_upd) simp_all
      have "ivl ?p' = ivl ?p - ?I" unfolding ivl_def r' using front e by auto
      then have "covers (?upd ?p') = covers rgn - ?I" unfolding cov_upd cov using rest I by blast
      moreover have "lmb_free_region rgn b s = Some (0, ?upd ?p')" unfolding start using front False eqs by simp
      ultimately show ?thesis using ok' rok_upd [OF ok'] by auto
    qed
  next
    case nofront: False
    show ?thesis
    proof (cases "rend ?p = unat b + unat s")
      case True
      let ?p' = "?p\<lparr>lp_size := lp_size ?p - s\<rparr>"
      have r': "rend ?p' = unat b" using True diff sp by (simp add: rend_def)
      have "0 < unat (lp_size ?p')" using nofront bp r' by (simp add: rend_def)
      then have ok': "list_ok (live (?upd ?p'))" using r' bp by (intro ok_upd) simp_all
      have "ivl ?p' = ivl ?p - ?I" unfolding ivl_def r' True by auto
      then have "covers (?upd ?p') = covers rgn - ?I" unfolding cov_upd cov using rest I by blast
      moreover have "lmb_free_region rgn b s = Some (0, ?upd ?p')" unfolding start using nofront True eqs by simp
      ultimately show ?thesis using ok' rok_upd [OF ok'] by auto
    next
      case False
      let ?p' = "?p\<lparr>lp_size := b - lp_base ?p\<rparr>" and ?t = "lp_base ?p + lp_size ?p - (b + s)"
      have d': "unat (b - lp_base ?p) = unat b - unat (lp_base ?p)"
        using bp by (simp add: unat_sub word_le_nat_alt)
      have r': "rend ?p' = unat b" using d' bp by (simp add: rend_def)
      have "0 < unat (lp_size ?p')" using nofront bp d' by simp
      then have ok': "list_ok (live (?upd ?p'))" using r' bp by (intro ok_upd) simp_all
      have t: "unat ?t = rend ?p - (unat b + unat s)"
        using pe e bp by (simp add: unat_sub word_le_nat_alt)
      have tail: "unat (b + s) + unat ?t = rend ?p" using t e bp by simp
      have T: "{unat (b + s) ..< unat (b + s) + unat ?t} = {unat b + unat s ..< rend ?p}" unfolding tail unfolding e ..
      have part: "ivl ?p' \<union> {unat b + unat s ..< rend ?p} = ivl ?p - ?I" "ivl ?p' \<inter> {unat b + unat s ..< rend ?p} = {}"
        unfolding ivl_def r' using bp by auto
      have "covers (?upd ?p') \<inter> {unat (b + s) ..< unat (b + s) + unat ?t} = {}"
        unfolding cov_upd T using part rest by blast
      moreover have "0 < unat ?t" using t False bp by simp
      moreover have "unat (b + s) + unat ?t < 2 ^ 32" unfolding tail using list_ok_nth [OF L iL(1)] p by simp
      ultimately obtain c rgn' where a: "lmb_add_region (?upd ?p') (b + s) ?t = Some (c, rgn')"
        "0 \<le> c" "rgn_ok rgn'" "list_ok (live rgn')"
        "covers rgn' = covers (?upd ?p') \<union> {unat b + unat s ..< rend ?p}"
        using lmb_add_region_spec [OF rok_upd [OF ok'], of ?t "b + s"] len(3) unfolding T by auto
      have "covers rgn' = covers rgn - ?I" unfolding a(5) cov_upd cov using part rest I by blast
      moreover have "lmb_free_region rgn b s = Some (c, rgn')" unfolding start using nofront False eqs a(1) by simp
      ultimately show ?thesis using a by auto
    qed
  qed
qed

text \<open>
  C39: freeing a range inside one reserved region, with a free slot in the table: the call succeeds
  without leaving the array and the addresses covered afterwards are exactly the old ones without
  the range, in each of the four cases (whole region, front, end, hole that splits the region).
  Either the table is sound again, or it was the last region and its count is now 0.
\<close>

theorem lmb_free_covers:
  assumes "list_ok (live (reserved l))" and "length (lr_region (reserved l)) = MAX_LMB_REGIONS + 1"
    and "1 \<le> lr_cnt (reserved l)" "lr_cnt (reserved l) < MAX_LMB_REGIONS"
    and "0 < unat s" and "\<exists>r \<in> set (live (reserved l)). {unat b ..< unat b + unat s} \<subseteq> ivl r"
  shows "\<exists>c l'. lmb_free l b s = Some (c, l') \<and> 0 \<le> c \<and> memory l' = memory l \<and>
    covers (reserved l') = covers (reserved l) - {unat b ..< unat b + unat s} \<and>
    (rgn_ok (reserved l') \<or> lr_cnt (reserved l) = 1 \<and> lr_cnt (reserved l') = 0)"
  using lmb_free_region_spec [OF assms] unfolding lmb_free_def by fastforce

theorem lmb_free_covers_witness:
  "\<exists>c l'. lmb_free \<lparr>memory = lmb_sample, reserved = lmb_sample\<rparr> 0x3010 0x20 = Some (c, l') \<and>
    covers (reserved l') = ({0x1000 ..< 0x1100} \<union> {0x3000 ..< 0x3100}) - {0x3010 ..< 0x3030}"
proof -
  have "list_ok (live lmb_sample)" unfolding lmb_sample_live by (simp add: list_ok_def rend_def)
  moreover have "length (lr_region lmb_sample) = MAX_LMB_REGIONS + 1"
    by (simp add: lmb_sample_def MAX_LMB_REGIONS_def)
  ultimately show ?thesis
    using lmb_free_covers [of "\<lparr>memory = lmb_sample, reserved = lmb_sample\<rparr>" "0x20" "0x3010"]
    by (auto simp: lmb_sample_cnt lmb_sample_live lmb_sample_covers MAX_LMB_REGIONS_def ivl_def rend_def)
qed

section \<open>Allocation\<close>

lemma lmb_overlaps_iff:
  assumes "unat b + unat s < 2 ^ 32" "rend r < 2 ^ 32" "0 < unat s" "0 < unat (lp_size r)"
  shows "lmb_addrs_overlap b s (lp_base r) (lp_size r) \<longleftrightarrow> ivl r \<inter> {unat b ..< unat b + unat s} \<noteq> {}"
proof -
  have e: "unat (b + s) = unat b + unat s" using assms(1) by (simp add: unat_word_ariths)
  have "lmb_addrs_overlap b s (lp_base r) (lp_size r) \<longleftrightarrow> unat b < rend r \<and> unat (lp_base r) < unat b + unat s"
    by (simp add: lmb_addrs_overlap_def word_less_nat_alt unat_end [OF assms(2)] e)
  also have "\<dots> \<longleftrightarrow> ivl r \<inter> {unat b ..< unat b + unat s} \<noteq> {}"
  proof
    assume "unat b < rend r \<and> unat (lp_base r) < unat b + unat s"
    then have "max (unat b) (unat (lp_base r)) \<in> ivl r \<inter> {unat b ..< unat b + unat s}"
      using assms(3,4) by (auto simp: ivl_def rend_def)
    then show "ivl r \<inter> {unat b ..< unat b + unat s} \<noteq> {}" by blast
  qed (auto simp: ivl_def)
  finally show ?thesis .
qed

lemma overlaps_loop_total:
  "i + n \<le> length region \<Longrightarrow> \<exists>r. overlaps_loop region b s i n = Some r \<and>
    (r = None \<longrightarrow> (\<forall>j. i \<le> j \<longrightarrow> j < i + n \<longrightarrow> \<not> lmb_addrs_overlap b s (lp_base (region ! j)) (lp_size (region ! j))))"
proof (induction n arbitrary: i)
  case (Suc n)
  show ?case
  proof (cases "lmb_addrs_overlap b s (lp_base (region ! i)) (lp_size (region ! i))")
    case False
    with Suc.IH [of "i + 1"] Suc.prems show ?thesis
      by simp (metis Suc_leI le_neq_implies_less)
  qed (use Suc.prems in simp)
qed simp

lemma overlaps_none_disjoint:
  assumes ok: "rgn_ok rgn" and b: "unat b + unat s < 2 ^ 32" "0 < unat s"
    and none: "lmb_overlaps_region rgn b s = Some None"
  shows "covers rgn \<inter> {unat b ..< unat b + unat s} = {}"
proof -
  have len: "0 + lr_cnt rgn \<le> length (lr_region rgn)" using ok by (simp add: rgn_ok_def)
  have no: "\<not> lmb_addrs_overlap b s (lp_base (lr_region rgn ! j)) (lp_size (lr_region rgn ! j))" if "j < lr_cnt rgn" for j
    using overlaps_loop_total [OF len, of b s] none that by (auto simp: lmb_overlaps_region_def)
  show ?thesis
  proof (cases "list_ok (live rgn)")
    case True
    have "ivl r \<inter> {unat b ..< unat b + unat s} = {}" if r: "r \<in> set (live rgn)" for r
    proof -
      obtain j where j: "j < lr_cnt rgn" "r = lr_region rgn ! j"
        using r len by (auto simp: live_def in_set_conv_nth)
      have "rend r < 2 ^ 32" "0 < unat (lp_size r)" using True r by (auto simp: list_ok_def)
      with lmb_overlaps_iff [OF b(1) _ b(2), of r] no [OF j(1)] j(2) show ?thesis by auto
    qed
    then show ?thesis by (auto simp: covers_def)
  next
    case False
    then have c: "lr_cnt rgn = 1" "lp_size (lr_region rgn ! 0) = 0" using ok by (auto simp: rgn_ok_def)
    then have "covers rgn = {}"
      using len by (auto simp: covers_def live_def ivl_def rend_def in_set_conv_nth)
    then show ?thesis by simp
  qed
qed

lemma lmb_align_down_idem: "lmb_align_down (lmb_align_down a al) al = lmb_align_down a al"
  by (simp add: lmb_align_down_def and.assoc)

lemma alloc_down_spec:
  assumes "rgn_ok res" and sz: "0 < unat sz" and up: "lmb_align_up sz align = sz"
    and "unat base + unat sz \<le> lim" "lim < 2 ^ 32" and "lmb_align_down base align = base"
  shows "\<exists>r. alloc_down res lmbbase sz align base = Some r \<and>
    (case r of Inr _ \<Rightarrow> True
     | Inl (b, res') \<Rightarrow> b = 0 \<and> res' = res \<or>
        b \<noteq> 0 \<and> lmbbase \<le> b \<and> unat b + unat sz \<le> lim \<and> lmb_align_down b align = b \<and>
        covers res \<inter> {unat b ..< unat b + unat sz} = {} \<and> rgn_ok res' \<and>
        covers res' = covers res \<union> {unat b ..< unat b + unat sz})"
  using assms(4,6)
proof (induction base rule: measure_induct_rule [where f = unat])
  case (less base)
  have wrap: "unat base + unat sz < 2 ^ 32" using less.prems(1) assms(5) by simp
  show ?case
  proof (cases "base \<noteq> 0 \<and> lmbbase \<le> base")
    case False
    then show ?thesis by (subst alloc_down.simps) auto
  next
    case True
    have "0 + lr_cnt res \<le> length (lr_region res)" using assms(1) by (simp add: rgn_ok_def)
    from overlaps_loop_total [OF this, of base sz] obtain h where
      h: "lmb_overlaps_region res base sz = Some h" by (auto simp: lmb_overlaps_region_def)
    show ?thesis
    proof (cases h)
      case None
      note d = overlaps_none_disjoint [OF assms(1) wrap sz h [unfolded None]]
      from lmb_add_region_spec [OF assms(1) sz wrap d] obtain c res' where
        a: "lmb_add_region res base sz = Some (c, res')" "c = - 1 \<and> res' = res \<or>
          0 \<le> c \<and> rgn_ok res' \<and> covers res' = covers res \<union> {unat base ..< unat base + unat sz}" by blast
      have "alloc_down res lmbbase sz align base = Some (Inl (if c < 0 then 0 else base, res'))"
        using True h None a(1) up by (subst alloc_down.simps) simp
      then show ?thesis using a(2) True less.prems d by auto
    next
      case (Some j)
      have ov: "lmb_addrs_overlap base sz (lp_base (lr_region res ! j)) (lp_size (lr_region res ! j))"
        using overlaps_loop_hit h Some by (metis lmb_overlaps_region_def)
      show ?thesis
      proof (cases "lp_base (lr_region res ! j) < sz")
        case stop: True
        then show ?thesis using True h Some by (subst alloc_down.simps) (simp add: Let_def)
      next
        case False
        let ?b = "lmb_align_down (lp_base (lr_region res ! j) - sz) align"
        have lt: "unat ?b < unat base"
          using alloc_down_decreases [OF ov False] lmb_align_down_le by (rule le_less_trans [rotated])
        have "alloc_down res lmbbase sz align base = alloc_down res lmbbase sz align ?b"
          using True h Some False by (subst alloc_down.simps) (simp add: Let_def)
        then show ?thesis
          using less.IH [OF lt] lt less.prems lmb_align_down_idem by auto
      qed
    qed
  qed
qed

definition alloc_result :: "lmb_property list \<Rightarrow> lmb_region \<Rightarrow> u32 \<Rightarrow> u32 \<Rightarrow> u32 \<Rightarrow> u32 \<Rightarrow> lmb_region \<Rightarrow> bool" where
  "alloc_result mem res sz align max_addr b res' \<longleftrightarrow>
     b = 0 \<and> res' = res \<or>
     b \<noteq> 0 \<and> (\<exists>r \<in> set mem. lp_base r \<le> b \<and> unat b + unat sz \<le> rend r) \<and>
     (max_addr \<noteq> 0 \<longrightarrow> unat b + unat sz \<le> unat max_addr) \<and> lmb_align_down b align = b \<and>
     covers res \<inter> {unat b ..< unat b + unat sz} = {} \<and> rgn_ok res' \<and>
     covers res' = covers res \<union> {unat b ..< unat b + unat sz}"

lemma alloc_regions_spec:
  assumes ok: "rgn_ok res" and sz: "0 < unat sz" and up: "lmb_align_up sz align = sz"
    and mx: "max_addr = 0 \<or> sz \<le> max_addr"
    and mem: "\<forall>r \<in> set (take n mem). rend r < 2 ^ 32" "n \<le> length mem"
  shows "\<exists>b res'. alloc_regions mem res sz align max_addr n = Some (b, res') \<and>
    alloc_result (take n mem) res sz align max_addr b res'"
  using mem
proof (induction n)
  case (Suc i)
  let ?r = "mem ! i"
  have i: "i < length mem" using Suc.prems by simp
  have tk: "take (Suc i) mem = take i mem @ [?r]" using i by (simp add: take_Suc_conv_app_nth)
  have r: "rend ?r < 2 ^ 32" using Suc.prems(1) tk by simp
  have "\<exists>b res'. alloc_regions mem res sz align max_addr i = Some (b, res') \<and>
    alloc_result (take i mem) res sz align max_addr b res'"
    using Suc.IH Suc.prems tk by simp
  then have ih: "\<exists>b res'. alloc_regions mem res sz align max_addr i = Some (b, res') \<and>
    alloc_result (take (Suc i) mem) res sz align max_addr b res'"
    unfolding alloc_result_def tk by auto
  show ?case
  proof (cases "lp_size ?r < sz \<or> (max_addr \<noteq> 0 \<and> \<not> lp_base ?r < max_addr)")
    case True
    then show ?thesis using ih i by (auto simp: Let_def)
  next
    case False
    define top where "top = (if max_addr = 0 then lp_base ?r + lp_size ?r else min (lp_base ?r + lp_size ?r) max_addr)"
    define lim where "lim = (if max_addr = 0 then rend ?r else min (rend ?r) (unat max_addr))"
    let ?base = "lmb_align_down (top - sz) align"
    have e: "unat (lp_base ?r + lp_size ?r) = rend ?r" using r by (rule unat_end)
    have lim: "unat top = lim" "lim < 2 ^ 32" "lim \<le> rend ?r" "max_addr \<noteq> 0 \<longrightarrow> lim \<le> unat max_addr"
      using e r by (auto simp: top_def lim_def min_def word_le_nat_alt)
    have "unat sz \<le> rend ?r" using False by (simp add: rend_def word_less_nat_alt)
    then have "unat sz \<le> lim" using mx by (auto simp: lim_def word_le_nat_alt)
    then have "unat (top - sz) + unat sz = lim" using lim(1) by (simp add: unat_sub word_le_nat_alt)
    then have "unat ?base + unat sz \<le> lim" using lmb_align_down_le [of "top - sz" align] by linarith
    from alloc_down_spec [OF ok sz up this lim(2) lmb_align_down_idem, of "lp_base ?r"] obtain x where
      x: "alloc_down res (lp_base ?r) sz align ?base = Some x" and
      xr: "case x of Inr _ \<Rightarrow> True
     | Inl (b, res') \<Rightarrow> b = 0 \<and> res' = res \<or>
        b \<noteq> 0 \<and> lp_base ?r \<le> b \<and> unat b + unat sz \<le> lim \<and> lmb_align_down b align = b \<and>
        covers res \<inter> {unat b ..< unat b + unat sz} = {} \<and> rgn_ok res' \<and>
        covers res' = covers res \<union> {unat b ..< unat b + unat sz}" by blast
    have step: "alloc_regions mem res sz align max_addr (Suc i) =
        (case x of Inl (b, res') \<Rightarrow> Some (b, res') | Inr _ \<Rightarrow> alloc_regions mem res sz align max_addr i)"
      using False i x by (auto simp: Let_def top_def split: sum.splits if_splits)
    show ?thesis
    proof (cases x)
      case (Inr y)
      then show ?thesis using ih step by simp
    next
      case (Inl p)
      obtain b res' where p: "p = (b, res')" by (cases p)
      have "alloc_result (take (Suc i) mem) res sz align max_addr b res'"
        using xr Inl p lim(3,4) unfolding alloc_result_def tk by auto
      then show ?thesis using step Inl p by simp
    qed
  qed
qed (simp add: alloc_result_def)

text \<open>
  C9: \<open>lmb_alloc_base\<close> always returns when the size is a multiple of the alignment and not
  above the limit: either it returns 0, says so on the console and has reserved nothing, or the block it
  returns lies inside one memory region and below \<open>max_addr\<close>, starts at a multiple of the alignment, was
  free, and the reserved set has grown by exactly that block.
\<close>

theorem lmb_alloc_base_safe:
  assumes "rgn_ok (reserved l)" and "0 < unat sz" and "lmb_align_up sz align = sz"
    and "max_addr = 0 \<or> sz \<le> max_addr"
    and "\<forall>r \<in> set (live (memory l)). rend r < 2 ^ 32" and "lr_cnt (memory l) \<le> length (lr_region (memory l))"
  shows "\<exists>b ms l'. lmb_alloc_base l sz align max_addr = Some (b, ms, l') \<and> memory l' = memory l \<and>
    alloc_result (live (memory l)) (reserved l) sz align max_addr b (reserved l') \<and>
    ms = (if b = 0 then [Failed_to_allocate sz max_addr] else [])"
  using alloc_regions_spec [OF assms(1-4), of "lr_cnt (memory l)" "lr_region (memory l)"] assms(5,6)
  by (auto simp: lmb_alloc_base_def alloc_base_search_def live_def)

definition lmb_one :: "u32 \<Rightarrow> u32 \<Rightarrow> lmb_region" where
  "lmb_one b s = \<lparr>lr_cnt = 1, lr_size = 0, lr_region = \<lparr>lp_base = b, lp_size = s\<rparr> # replicate 8 \<lparr>lp_base = 0, lp_size = 0\<rparr>\<rparr>"

text \<open>256 MiB of memory with two ranges reserved: the block is the one below the limit.\<close>

theorem lmb_alloc_base_safe_witness:
  "\<exists>l'. lmb_alloc_base \<lparr>memory = lmb_one 0 0x10000000, reserved = lmb_sample\<rparr> 0x1000 0x1000 0x5000 = Some (0x4000, [], l') \<and>
    memory l' = lmb_one 0 0x10000000 \<and> covers (reserved l') = {0x1000 ..< 0x1100} \<union> {0x3000 ..< 0x3100} \<union> {0x4000 ..< 0x5000}"
proof -
  let ?l = "\<lparr>memory = lmb_one 0 0x10000000, reserved = lmb_sample\<rparr>"
  have "map_option fst (lmb_alloc_base ?l 0x1000 0x1000 0x5000) = Some 0x4000" by code_simp
  moreover have "live (memory ?l) = [\<lparr>lp_base = 0, lp_size = 0x10000000\<rparr>]" "lr_cnt (memory ?l) \<le> length (lr_region (memory ?l))"
    by (simp_all add: live_def lmb_one_def)
  moreover have "rgn_ok (reserved ?l)" "lmb_align_up (0x1000 :: u32) 0x1000 = 0x1000"
    by (simp_all add: lmb_sample_ok lmb_align_up_def)
  ultimately show ?thesis using lmb_alloc_base_safe [of ?l "0x1000" "0x1000" "0x5000"]
    by (auto simp: rend_def alloc_result_def lmb_sample_covers)
qed

section \<open>Where the code breaks its contract\<close>

text \<open>Freeing the last reserved region leaves a count of 0 and the old entry in the array. The next
  reservation at a higher address is then lost: the call returns 0 but the table lists the region
  that was freed.\<close>

lemma lmb_reserve_after_last_free:
  "(do { (c, l) \<leftarrow> lmb_free \<lparr>memory = m, reserved = lmb_one 0x1000 0x100\<rparr> 0x1000 0x100;
         (c', l) \<leftarrow> lmb_reserve l 0x2000 0x100; Some (c, c', live (reserved l)) }) =
   Some (0, 0, [\<lparr>lp_base = 0x1000, lp_size = 0x100\<rparr>])"
  by (simp add: lmb_free_def lmb_free_region_def lmb_one_def Let_def lmb_remove_region_def remove_loop.simps
    ulong_pred_def lmb_reserve_def lmb_add_region_def add_finish_def lmb_regions_adjacent_def
    lmb_addrs_adjacent_def MAX_LMB_REGIONS_def lmb_insert_def live_def)

text \<open>With \<open>max_addr\<close> below the size, \<^verbatim>\<open>base - size\<close> wraps: the block returned is at the top of
  the address space, above the limit and outside memory.\<close>

lemma lmb_alloc_base_wraps:
  "map_option fst (lmb_alloc_base \<lparr>memory = lmb_one 0 0x10000000, reserved = lmb_one 0x1000 0x100\<rparr> 0x2000 0x1000 0x1000) =
   Some 0xFFFFF000"
proof -
  have "\<exists>r. alloc_down (lmb_one 0x1000 0x100) 0 0x2000 0x1000 0xFFFFF000 = Some (Inl (0xFFFFF000, r))"
    by (subst alloc_down.simps) (simp add: lmb_one_def lmb_overlaps_region_def lmb_addrs_overlap_def lmb_add_region_def
      lmb_align_up_def lmb_addrs_adjacent_def add_finish_def ulong_pred_def MAX_LMB_REGIONS_def lmb_insert_def Let_def)
  moreover have "alloc_down res m sz al (- 4096) = alloc_down res m sz al 0xFFFFF000" for res m sz al
    by (rule arg_cong [of "- 4096"]) simp
  ultimately show ?thesis
    by (auto simp: lmb_alloc_base_def alloc_base_search_def lmb_one_def [of 0] lmb_align_down_def min_def)
qed

end
