(* ===== verification/SRecord.thy ===== *)
theory SRecord
  imports Prelude "HOL-Library.Monad_Syntax"
begin

text \<open>
  The Motorola S-record decoder of \<^verbatim>\<open>common/s_record.c\<close>, through which \<^verbatim>\<open>loads\<close> receives
  images. The input is a C string: the model has the characters before the terminating NUL, and
  the code never reads behind it. Negative return codes are \<open>Inl\<close>; the callers do not look at the
  output parameters then. A successful call is \<open>Inr (type, count, addr, data)\<close>.
\<close>

section \<open>The code\<close>

definition SREC_START :: int where "SREC_START = 0"
definition SREC_DATA2 :: int where "SREC_DATA2 = 1"
definition SREC_DATA3 :: int where "SREC_DATA3 = 2"
definition SREC_DATA4 :: int where "SREC_DATA4 = 3"
definition SREC_COUNT :: int where "SREC_COUNT = 5"
definition SREC_END4 :: int where "SREC_END4 = 7"
definition SREC_END3 :: int where "SREC_END3 = 8"
definition SREC_END2 :: int where "SREC_END2 = 9"

datatype srec_error = SREC_EMPTY | SREC_E_BADTYPE | SREC_E_NOSREC | SREC_E_BADCHKS

text \<open>\<open>None\<close> is the result \<open>-1\<close>.\<close>

definition hex1_bin :: "u8 \<Rightarrow> u8 option" where
  "hex1_bin c =
     (if 0x30 \<le> c \<and> c \<le> 0x39 then Some (c - 0x30)
      else if 0x61 \<le> c \<and> c \<le> 0x66 then Some (c + 10 - 0x61)
      else if 0x41 \<le> c \<and> c \<le> 0x46 then Some (c + 10 - 0x41)
      else None)"

text \<open>\<open>hex2_bin(input)\<close> with the step \<^verbatim>\<open>input += 2\<close> that follows each successful call.\<close>

fun hex2_bin :: "u8 list \<Rightarrow> (u8 \<times> u8 list) option" where
  "hex2_bin (a # b # s) =
     (case hex1_bin a of None \<Rightarrow> None
      | Some i \<Rightarrow> (case hex1_bin b of None \<Rightarrow> None | Some j \<Rightarrow> Some (push_bit 4 i + j, s)))"
| "hex2_bin s = None"

fun skip_to_S :: "u8 list \<Rightarrow> u8 list" where
  "skip_to_S [] = []"
| "skip_to_S (c # input) = (if c = 0x53 then input else skip_to_S input)"

text \<open>The first \<^verbatim>\<open>switch\<close>: the type and the number of data bytes, which may be negative.\<close>

definition srec_kind :: "u8 \<Rightarrow> int \<Rightarrow> (int \<times> int) option" where
  "srec_kind v count =
     (if v = 0x30 then Some (SREC_START, count - 3)
      else if v = 0x31 then Some (SREC_DATA2, count - 3)
      else if v = 0x32 then Some (SREC_DATA3, count - 4)
      else if v = 0x33 then Some (SREC_DATA4, count - 5)
      else if v = 0x35 then Some (SREC_COUNT, 0)
      else if v = 0x37 then Some (SREC_END4, count - 5)
      else if v = 0x38 then Some (SREC_END3, count - 4)
      else if v = 0x39 then Some (SREC_END2, count - 3)
      else None)"

text \<open>One address byte: \<open>(addr, chksum, input)\<close>; the leading byte of a 4-byte address is added
  without a shift.\<close>

definition addr_byte :: "bool \<Rightarrow> u32 \<times> u8 \<times> u8 list \<Rightarrow> (u32 \<times> u8 \<times> u8 list) option" where
  "addr_byte shift st =
     (case st of (addr, chksum, input) \<Rightarrow>
        case hex2_bin input of None \<Rightarrow> None
        | Some (v, input) \<Rightarrow> Some ((if shift then push_bit 8 addr else addr) + ucast v, chksum + v, input))"

text \<open>The second \<^verbatim>\<open>switch\<close>, whose cases fall through.\<close>

definition read_addr :: "u8 \<Rightarrow> u8 \<Rightarrow> u8 list \<Rightarrow> (u32 \<times> u8 \<times> u8 list) option" where
  "read_addr v chksum input =
     do { st \<leftarrow> (if v = 0x33 \<or> v = 0x37 then addr_byte False (0, chksum, input) else Some (0, chksum, input));
          st \<leftarrow> (if v = 0x33 \<or> v = 0x37 \<or> v = 0x32 \<or> v = 0x38 then addr_byte True st else Some st);
          st \<leftarrow> addr_byte True st;
          addr_byte True st }"

text \<open>The data loop, \<open>n\<close> turns: the bytes stored, the checksum and the rest of the input.\<close>

fun read_data :: "nat \<Rightarrow> u8 \<Rightarrow> u8 list \<Rightarrow> (u8 list \<times> u8 \<times> u8 list) option" where
  "read_data 0 chksum input = Some ([], chksum, input)"
| "read_data (Suc n) chksum input =
     (case hex2_bin input of None \<Rightarrow> None
      | Some (v, input) \<Rightarrow>
          (case read_data n (chksum + v) input of None \<Rightarrow> None
           | Some (data, chksum, input) \<Rightarrow> Some (v # data, chksum, input)))"

definition srec_decode :: "u8 list \<Rightarrow> srec_error + (int \<times> int \<times> u32 \<times> u8 list)" where
  "srec_decode input =
     (case skip_to_S input of
        [] \<Rightarrow> Inl SREC_EMPTY
      | v # input \<Rightarrow>
          (case hex2_bin input of
             None \<Rightarrow> Inl SREC_E_NOSREC
           | Some (cnt, input) \<Rightarrow>
               (case srec_kind v (uint cnt) of
                  None \<Rightarrow> Inl SREC_E_BADTYPE
                | Some (srec_type, count) \<Rightarrow>
                    (case read_addr v cnt input of
                       None \<Rightarrow> Inl SREC_E_NOSREC
                     | Some (addr, chksum, input) \<Rightarrow>
                         (case read_data (nat count) chksum input of
                            None \<Rightarrow> Inl SREC_E_NOSREC
                          | Some (data, chksum, input) \<Rightarrow>
                              (case hex2_bin input of
                                 None \<Rightarrow> Inl SREC_E_NOSREC
                               | Some (v, _) \<Rightarrow>
                                   if v \<noteq> NOT chksum then Inl SREC_E_BADCHKS
                                   else Inr (srec_type, count, addr, data)))))))"

section \<open>Hexadecimal bytes\<close>

definition hex_digit :: "u8 \<Rightarrow> u8" where
  "hex_digit n = (if n < 10 then n + 0x30 else n + 0x37)"

definition hex_byte :: "u8 \<Rightarrow> u8 list" where
  "hex_byte b = [hex_digit (drop_bit 4 b), hex_digit (b AND 0x0F)]"

definition hex_bytes :: "u8 list \<Rightarrow> u8 list" where
  "hex_bytes bs = concat (map hex_byte bs)"

lemma hex1_bin_digit: "n < 16 \<Longrightarrow> hex1_bin (hex_digit n) = Some n"
proof -
  assume "n < 16"
  then have "unat n < 16" by (simp add: word_less_nat_alt)
  then obtain k where k: "n = of_nat k" "k < 16" by (metis of_nat_unat ucast_id)
  show ?thesis
    using nibble_less [OF k(2)] unfolding k(1) by (elim insertE) (simp_all add: hex1_bin_def hex_digit_def)
qed

lemma nibble_high: "drop_bit 4 (b :: u8) < 16"
proof -
  have "unat (drop_bit 4 b) = unat b div 16" by (simp add: unat_drop_bit_eq drop_bit_eq_div unat_div)
  moreover have "unat b div 16 < 16" by (rule less_mult_imp_div_less) simp
  ultimately show ?thesis by (simp add: word_less_nat_alt)
qed

lemma nibble_low: "(b :: u8) AND 0x0F < 16"
proof -
  have "b AND 0x0F \<le> 0x0F" by (rule word_and_le1)
  also have "(0x0F :: u8) < 16" by simp
  finally show ?thesis .
qed

lemma nibbles: "push_bit 4 (drop_bit 4 b) + (b AND 0x0F) = (b :: u8)"
proof -
  have m: "(0x0F :: u8) = mask 4" by (simp add: mask_eq_exp_minus_1)
  have "push_bit 4 (drop_bit 4 b) AND (b AND 0x0F) = 0"
    unfolding m by (rule bit_word_eqI) (auto simp: bit_simps)
  then have "push_bit 4 (drop_bit 4 b) + (b AND 0x0F) = push_bit 4 (drop_bit 4 b) OR (b AND 0x0F)"
    by (rule disjunctive_add_eq_or)
  also have "\<dots> = b" unfolding m by (rule bit_word_eqI) (auto simp: bit_simps)
  finally show ?thesis .
qed

lemma hex2_bin_byte [simp]: "hex2_bin (hex_byte b @ s) = Some (b, s)"
  by (simp add: hex_byte_def hex1_bin_digit nibble_high nibble_low nibbles)

lemma hex_bytes_Cons: "hex_bytes (b # bs) @ s = hex_byte b @ (hex_bytes bs @ s)"
  by (simp add: hex_bytes_def)

lemma hex_bytes_Nil: "hex_bytes [] @ s = s"
  by (simp add: hex_bytes_def)

lemma read_data_bytes:
  "read_data (length bs) c (hex_bytes bs @ s) = Some (bs, c + sum_list bs, s)"
  by (induction bs arbitrary: c) (simp_all add: hex_bytes_Cons hex_bytes_Nil add.assoc)

section \<open>Decoding what an encoder writes\<close>

text \<open>The number of address bytes of a record type, and the address they hold.\<close>

definition addr_len :: "u8 \<Rightarrow> nat" where
  "addr_len v = (if v = 0x33 \<or> v = 0x37 then 4 else if v = 0x32 \<or> v = 0x38 then 3 else 2)"

definition be_value :: "u8 list \<Rightarrow> u32" where
  "be_value bs = foldl (\<lambda>a b. push_bit 8 a + ucast b) 0 bs"

lemma read_addr_bytes:
  assumes "length ab = addr_len v"
  shows "read_addr v c (hex_bytes ab @ s) = Some (be_value ab, c + sum_list ab, s)"
proof -
  have "length ab = 2 \<or> length ab = 3 \<or> length ab = 4" using assms by (simp add: addr_len_def split: if_splits)
  then consider a b where "ab = [a, b]" | a b d where "ab = [a, b, d]" | a b d e where "ab = [a, b, d, e]"
    by (auto simp: numeral_eq_Suc length_Suc_conv)
  then show ?thesis
    using assms by cases (auto simp: read_addr_def addr_byte_def addr_len_def be_value_def hex_bytes_Cons hex_bytes_Nil
      add.assoc split: if_splits)
qed

text \<open>A record as the format defines it: type digit, then the count, address, data and checksum
  bytes in hexadecimal.\<close>

definition srec_encode :: "u8 \<Rightarrow> u8 list \<Rightarrow> u8 list \<Rightarrow> u8 list" where
  "srec_encode v ab data =
     (let cnt = of_nat (length ab + length data + 1) in
      0x53 # v # hex_bytes (cnt # ab @ data @ [NOT (cnt + sum_list ab + sum_list data)]))"

definition data_kinds :: "(u8 \<times> int) list" where
  "data_kinds = [(0x30, SREC_START), (0x31, SREC_DATA2), (0x32, SREC_DATA3), (0x33, SREC_DATA4),
     (0x37, SREC_END4), (0x38, SREC_END3), (0x39, SREC_END2)]"

lemma skip_to_S_prefix: "0x53 \<notin> set pre \<Longrightarrow> skip_to_S (pre @ 0x53 # s) = s"
  by (induction pre) auto

lemma hex_bytes_append: "hex_bytes (xs @ ys) = hex_bytes xs @ hex_bytes ys"
  by (simp add: hex_bytes_def)

text \<open>The decoder on any record whose bytes are spelled out: it compares the checksum only.\<close>

lemma srec_decode_bytes:
  assumes "(v, t) \<in> set data_kinds" and "length ab = addr_len v" and "length ab + length data < 255"
    and "0x53 \<notin> set pre" and cnt: "cnt = of_nat (length ab + length data + 1)"
  shows "srec_decode (pre @ 0x53 # v # (hex_byte cnt @ (hex_bytes ab @ (hex_bytes data @ (hex_byte chk @ post))))) =
    (if chk = NOT (cnt + sum_list ab + sum_list data) then Inr (t, int (length data), be_value ab, data)
     else Inl SREC_E_BADCHKS)"
proof -
  let ?n = "length ab + length data + 1"
  have "unat cnt = ?n" using assms(3) unfolding cnt by (simp only: unat_of_nat) simp
  then have uc: "uint cnt = int ?n" by (metis uint_nat)
  have kind: "srec_kind v (int ?n) = Some (t, int (length data))"
    using assms(1,2) unfolding data_kinds_def addr_len_def srec_kind_def by (auto simp: SREC_START_def)
  show ?thesis
    unfolding srec_decode_def skip_to_S_prefix [OF assms(4)]
    by (simp only: list.case option.case prod.case hex2_bin_byte uc kind read_addr_bytes [OF assms(2)]
      nat_int read_data_bytes) auto
qed

lemma srec_encode_bytes:
  "pre @ srec_encode v ab data @ post =
     pre @ 0x53 # v # (hex_byte (of_nat (length ab + length data + 1)) @ (hex_bytes ab @ (hex_bytes data @
       (hex_byte (NOT (of_nat (length ab + length data + 1) + sum_list ab + sum_list data)) @ post))))"
  unfolding srec_encode_def Let_def by (simp only: hex_bytes_append append_assoc append_Cons hex_bytes_Cons hex_bytes_Nil)

text \<open>
  C36: decoding inverts encoding: for every data, start or end record with the address length of
  its type and at most 255 counted bytes, whatever stands before the \<open>S\<close> and after the record,
  the decoder returns the record's type, the number of data bytes, its address and its data.
\<close>

theorem srec_roundtrip:
  assumes "(v, t) \<in> set data_kinds" and "length ab = addr_len v" and "length ab + length data < 255"
    and "0x53 \<notin> set pre"
  shows "srec_decode (pre @ srec_encode v ab data @ post) = Inr (t, int (length data), be_value ab, data)"
  unfolding srec_encode_bytes srec_decode_bytes [OF assms refl] by simp

theorem srec_roundtrip_witness:
  "srec_decode ([0x0A] @ srec_encode 0x31 [0x12, 0x34] [0xDE, 0xAD] @ [0x0D]) = Inr (1, 2, 0x1234, [0xDE, 0xAD])"
  using srec_roundtrip [of "0x31" 1 "[0x12, 0x34]" "[0xDE, 0xAD]" "[0x0A]" "[0x0D]"]
  by (simp add: data_kinds_def SREC_DATA2_def addr_len_def be_value_def)

text \<open>
  a record in which one data byte was replaced by another is rejected with a checksum error.
\<close>

lemma srec_detects_byte_error:
  assumes "(v, t) \<in> set data_kinds" and "length ab = addr_len v" and "length ab + length data < 255"
    and "0x53 \<notin> set pre" and "i < length data" and "x \<noteq> data ! i"
    and "rec = 0x53 # v # hex_bytes (of_nat (length ab + length data + 1) # ab @ data[i := x] @
      [NOT (of_nat (length ab + length data + 1) + sum_list ab + sum_list data)])"
  shows "srec_decode (pre @ rec @ post) = Inl SREC_E_BADCHKS"
proof -
  have len: "length ab + length (data[i := x]) < 255" using assms(3) by simp
  have split: "data = take i data @ data ! i # drop (Suc i) data"
    using assms(5) by (simp add: id_take_nth_drop [symmetric])
  have "sum_list (data[i := x]) = sum_list data - data ! i + x"
    by (subst (2) split) (use assms(5) in \<open>simp add: upd_conv_take_nth_drop\<close>)
  then have ne: "sum_list data \<noteq> sum_list (data[i := x])"
    using assms(6) by auto
  have inj: "NOT a = NOT b \<longleftrightarrow> a = b" for a b :: u8 by (metis bit.double_compl)
  have rec: "pre @ rec @ post = pre @ 0x53 # v # (hex_byte (of_nat (length ab + length (data[i := x]) + 1)) @
      (hex_bytes ab @ (hex_bytes (data[i := x]) @
       (hex_byte (NOT (of_nat (length ab + length data + 1) + sum_list ab + sum_list data)) @ post))))"
    unfolding assms(7) by (simp add: hex_bytes_def)
  show ?thesis
    unfolding rec srec_decode_bytes [OF assms(1,2) len assms(4) refl] using ne by (simp add: inj)
qed

theorem srec_detects_byte_error_witness:
  "srec_decode ([] @ (0x53 # 0x31 # hex_bytes (of_nat (2 + 2 + 1) # [0x12, 0x34] @ [0xDE, 0xAD][0 := 0xDF] @
      [NOT (of_nat (2 + 2 + 1) + sum_list [0x12, 0x34] + sum_list [0xDE, 0xAD])])) @ []) = Inl SREC_E_BADCHKS"
  by (rule srec_detects_byte_error [of _ SREC_DATA2 "[0x12, 0x34]" "[0xDE, 0xAD]" _ 0 "0xDF"])
    (simp_all add: data_kinds_def addr_len_def)

end
