(* ===== verification/NandEcc.thy ===== *)
theory NandEcc
  imports Prelude
begin

text \<open>
  The software ECC of the NAND driver, \<^verbatim>\<open>drivers/mtd/nand/nand_ecc.c\<close>: three check bytes per
  256 data bytes. The flag \<open>smc\<close> is the build option \<^verbatim>\<open>CONFIG_MTD_NAND_ECC_SMC\<close> (SmartMedia byte
  order), which exchanges the first two check bytes in both routines.
\<close>

section \<open>The code\<close>

definition nand_ecc_precalc_table :: "u8 list" where
  "nand_ecc_precalc_table = [
   0x00, 0x55, 0x56, 0x03, 0x59, 0x0c, 0x0f, 0x5a, 0x5a, 0x0f, 0x0c, 0x59, 0x03, 0x56, 0x55, 0x00,
   0x65, 0x30, 0x33, 0x66, 0x3c, 0x69, 0x6a, 0x3f, 0x3f, 0x6a, 0x69, 0x3c, 0x66, 0x33, 0x30, 0x65,
   0x66, 0x33, 0x30, 0x65, 0x3f, 0x6a, 0x69, 0x3c, 0x3c, 0x69, 0x6a, 0x3f, 0x65, 0x30, 0x33, 0x66,
   0x03, 0x56, 0x55, 0x00, 0x5a, 0x0f, 0x0c, 0x59, 0x59, 0x0c, 0x0f, 0x5a, 0x00, 0x55, 0x56, 0x03,
   0x69, 0x3c, 0x3f, 0x6a, 0x30, 0x65, 0x66, 0x33, 0x33, 0x66, 0x65, 0x30, 0x6a, 0x3f, 0x3c, 0x69,
   0x0c, 0x59, 0x5a, 0x0f, 0x55, 0x00, 0x03, 0x56, 0x56, 0x03, 0x00, 0x55, 0x0f, 0x5a, 0x59, 0x0c,
   0x0f, 0x5a, 0x59, 0x0c, 0x56, 0x03, 0x00, 0x55, 0x55, 0x00, 0x03, 0x56, 0x0c, 0x59, 0x5a, 0x0f,
   0x6a, 0x3f, 0x3c, 0x69, 0x33, 0x66, 0x65, 0x30, 0x30, 0x65, 0x66, 0x33, 0x69, 0x3c, 0x3f, 0x6a,
   0x6a, 0x3f, 0x3c, 0x69, 0x33, 0x66, 0x65, 0x30, 0x30, 0x65, 0x66, 0x33, 0x69, 0x3c, 0x3f, 0x6a,
   0x0f, 0x5a, 0x59, 0x0c, 0x56, 0x03, 0x00, 0x55, 0x55, 0x00, 0x03, 0x56, 0x0c, 0x59, 0x5a, 0x0f,
   0x0c, 0x59, 0x5a, 0x0f, 0x55, 0x00, 0x03, 0x56, 0x56, 0x03, 0x00, 0x55, 0x0f, 0x5a, 0x59, 0x0c,
   0x69, 0x3c, 0x3f, 0x6a, 0x30, 0x65, 0x66, 0x33, 0x33, 0x66, 0x65, 0x30, 0x6a, 0x3f, 0x3c, 0x69,
   0x03, 0x56, 0x55, 0x00, 0x5a, 0x0f, 0x0c, 0x59, 0x59, 0x0c, 0x0f, 0x5a, 0x00, 0x55, 0x56, 0x03,
   0x66, 0x33, 0x30, 0x65, 0x3f, 0x6a, 0x69, 0x3c, 0x3c, 0x69, 0x6a, 0x3f, 0x65, 0x30, 0x33, 0x66,
   0x65, 0x30, 0x33, 0x66, 0x3c, 0x69, 0x6a, 0x3f, 0x3f, 0x6a, 0x69, 0x3c, 0x66, 0x33, 0x30, 0x65,
   0x00, 0x55, 0x56, 0x03, 0x59, 0x0c, 0x0f, 0x5a, 0x5a, 0x0f, 0x0c, 0x59, 0x03, 0x56, 0x55, 0x00]"

record ecc_regs =
  reg1 :: u8
  reg2 :: u8
  reg3 :: u8

text \<open>One turn of the loop: \<open>i\<close> is the index of the byte \<open>b\<close>.\<close>

definition ecc_byte :: "ecc_regs \<Rightarrow> nat \<times> u8 \<Rightarrow> ecc_regs" where
  "ecc_byte r ib =
     (case ib of (i, b) \<Rightarrow>
        let idx = nand_ecc_precalc_table ! unat b;
            r = r\<lparr>reg1 := reg1 r XOR (idx AND 0x3f)\<rparr>
        in if idx AND 0x40 \<noteq> 0
           then r\<lparr>reg3 := reg3 r XOR of_nat i, reg2 := reg2 r XOR NOT (of_nat i)\<rparr>
           else r)"

definition ecc_scan :: "u8 list \<Rightarrow> ecc_regs" where
  "ecc_scan dat = foldl ecc_byte \<lparr>reg1 = 0, reg2 = 0, reg3 = 0\<rparr> (enumerate 0 dat)"

definition ecc_tmp1 :: "u8 \<Rightarrow> u8 \<Rightarrow> u8" where
  "ecc_tmp1 r3 r2 =
     (r3 AND 0x80) OR drop_bit 1 (r2 AND 0x80) OR
     drop_bit 1 (r3 AND 0x40) OR drop_bit 2 (r2 AND 0x40) OR
     drop_bit 2 (r3 AND 0x20) OR drop_bit 3 (r2 AND 0x20) OR
     drop_bit 3 (r3 AND 0x10) OR drop_bit 4 (r2 AND 0x10)"

definition ecc_tmp2 :: "u8 \<Rightarrow> u8 \<Rightarrow> u8" where
  "ecc_tmp2 r3 r2 =
     push_bit 4 (r3 AND 0x08) OR push_bit 3 (r2 AND 0x08) OR
     push_bit 3 (r3 AND 0x04) OR push_bit 2 (r2 AND 0x04) OR
     push_bit 2 (r3 AND 0x02) OR push_bit 1 (r2 AND 0x02) OR
     push_bit 1 (r3 AND 0x01) OR (r2 AND 0x01)"

definition nand_calculate_ecc :: "bool \<Rightarrow> u8 list \<Rightarrow> u8 list" where
  "nand_calculate_ecc smc dat =
     (let r = ecc_scan dat;
          tmp1 = ecc_tmp1 (reg3 r) (reg2 r);
          tmp2 = ecc_tmp2 (reg3 r) (reg2 r)
      in (if smc then [NOT tmp2, NOT tmp1] else [NOT tmp1, NOT tmp2]) @
         [push_bit 2 (NOT (reg1 r)) OR 0x03])"

text \<open>The shift loop ends because the argument loses its lowest bit each time.\<close>

function countbits :: "u32 \<Rightarrow> nat" where
  "countbits byte = (if byte = 0 then 0 else unat (byte AND 1) + countbits (drop_bit 1 byte))"
  by pat_completeness auto
termination
proof (relation "measure unat")
  fix byte :: u32
  assume "byte \<noteq> 0"
  then have "0 < unat byte" by (simp add: unat_gt_0)
  then show "(drop_bit 1 byte, byte) \<in> measure unat"
    by (simp add: unat_drop_bit_eq drop_bit_eq_div unat_div)
qed simp

declare countbits.simps [simp del]

definition EBADMSG :: int where "EBADMSG = 74"

definition ecc_byteoffs :: "u8 \<Rightarrow> u8 \<Rightarrow> u32" where
  "ecc_byteoffs s0 s1 =
     (ucast s1 AND 0x80) OR (push_bit 1 (ucast s1) AND 0x40) OR
     (push_bit 2 (ucast s1) AND 0x20) OR (push_bit 3 (ucast s1) AND 0x10) OR
     (drop_bit 4 (ucast s0) AND 0x08) OR (drop_bit 3 (ucast s0) AND 0x04) OR
     (drop_bit 2 (ucast s0) AND 0x02) OR (drop_bit 1 (ucast s0) AND 0x01)"

definition ecc_bitnum :: "u8 \<Rightarrow> u32" where
  "ecc_bitnum s2 =
     (drop_bit 5 (ucast s2) AND 0x04) OR (drop_bit 4 (ucast s2) AND 0x02) OR
     (drop_bit 3 (ucast s2) AND 0x01)"

text \<open>The result and the corrected data.\<close>

definition nand_correct_data :: "bool \<Rightarrow> u8 list \<Rightarrow> u8 list \<Rightarrow> u8 list \<Rightarrow> int \<times> u8 list" where
  "nand_correct_data smc dat read_ecc calc_ecc =
     (let s0 = (if smc then calc_ecc ! 0 XOR read_ecc ! 0 else calc_ecc ! 1 XOR read_ecc ! 1);
          s1 = (if smc then calc_ecc ! 1 XOR read_ecc ! 1 else calc_ecc ! 0 XOR read_ecc ! 0);
          s2 = calc_ecc ! 2 XOR read_ecc ! 2
      in if (s0 OR s1 OR s2) = 0 then (0, dat)
         else if (s0 XOR drop_bit 1 s0) AND 0x55 = 0x55 \<and>
                 (s1 XOR drop_bit 1 s1) AND 0x55 = 0x55 \<and>
                 (s2 XOR drop_bit 1 s2) AND 0x54 = 0x54
         then let byteoffs = unat (ecc_byteoffs s0 s1);
                  bitnum = unat (ecc_bitnum s2)
              in (1, dat[byteoffs := dat ! byteoffs XOR push_bit bitnum 1])
         else if countbits (ucast s0 OR push_bit 8 (ucast s1) OR push_bit 16 (ucast s2)) = 1
         then (1, dat)
         else (- EBADMSG, dat))"

section \<open>The bits of the masks\<close>

lemma bit_exp_word: "bit (2 ^ k :: 'a::len word) n \<longleftrightarrow> n = k \<and> k < LENGTH('a)"
  by (auto simp: bit_exp_iff)

lemma u8_mask_bits:
  "bit (0x80 :: u8) n \<longleftrightarrow> n = 7" "bit (0x40 :: u8) n \<longleftrightarrow> n = 6" "bit (0x20 :: u8) n \<longleftrightarrow> n = 5"
  "bit (0x10 :: u8) n \<longleftrightarrow> n = 4" "bit (0x08 :: u8) n \<longleftrightarrow> n = 3" "bit (0x04 :: u8) n \<longleftrightarrow> n = 2"
  "bit (0x02 :: u8) n \<longleftrightarrow> n = Suc 0"
  using bit_exp_word [of 7 n, where ?'a = 8] bit_exp_word [of 6 n, where ?'a = 8]
    bit_exp_word [of 5 n, where ?'a = 8] bit_exp_word [of 4 n, where ?'a = 8]
    bit_exp_word [of 3 n, where ?'a = 8] bit_exp_word [of 2 n, where ?'a = 8]
    bit_exp_word [of 1 n, where ?'a = 8] by simp_all

lemma u32_mask_bits:
  "bit (0x80 :: u32) n \<longleftrightarrow> n = 7" "bit (0x40 :: u32) n \<longleftrightarrow> n = 6" "bit (0x20 :: u32) n \<longleftrightarrow> n = 5"
  "bit (0x10 :: u32) n \<longleftrightarrow> n = 4" "bit (0x08 :: u32) n \<longleftrightarrow> n = 3" "bit (0x04 :: u32) n \<longleftrightarrow> n = 2"
  "bit (0x02 :: u32) n \<longleftrightarrow> n = Suc 0"
  using bit_exp_word [of 7 n, where ?'a = 32] bit_exp_word [of 6 n, where ?'a = 32]
    bit_exp_word [of 5 n, where ?'a = 32] bit_exp_word [of 4 n, where ?'a = 32]
    bit_exp_word [of 3 n, where ?'a = 32] bit_exp_word [of 2 n, where ?'a = 32]
    bit_exp_word [of 1 n, where ?'a = 32] by simp_all

lemma bit_3_u8: "bit (3 :: u8) n \<longleftrightarrow> n < 2"
proof -
  have "(3 :: u8) = mask 2" by (simp add: mask_eq_exp_minus_1)
  then show ?thesis by (simp only: bit_mask_iff) auto
qed

lemmas bit_ops = bit_or_iff bit_and_iff bit_xor_iff bit_push_bit_iff bit_drop_bit_eq comp_apply
lemmas mask_bits = u8_mask_bits u32_mask_bits bit_1_iff bit_not_iff

section \<open>The parity table\<close>

text \<open>Bit 6 of an entry is the parity of the byte; bits 5/4, 3/2, 1/0 are the parities of its bits
  with index bit 2, 1, 0 set and clear. An entry is therefore linear over exclusive-or.\<close>

definition par_term :: "nat \<Rightarrow> u8 \<Rightarrow> u8 \<Rightarrow> u8" where
  "par_term k c b = (if bit b k then c else 0)"

definition ecc_par :: "u8 \<Rightarrow> u8" where
  "ecc_par b = par_term 0 0x55 b XOR par_term 1 0x56 b XOR par_term 2 0x59 b XOR par_term 3 0x5a b XOR
     par_term 4 0x65 b XOR par_term 5 0x66 b XOR par_term 6 0x69 b XOR par_term 7 0x6a b"

lemma par_term_xor: "par_term k c (x XOR y) = par_term k c x XOR par_term k c y"
  by (simp add: par_term_def bit_xor_iff)

lemma ecc_par_xor: "ecc_par (x XOR y) = ecc_par x XOR ecc_par y"
  by (simp only: ecc_par_def par_term_xor ac_simps)

lemma ecc_par_pow:
  "ecc_par 1 = 0x55" "ecc_par 2 = 0x56" "ecc_par 4 = 0x59" "ecc_par 8 = 0x5a"
  "ecc_par 16 = 0x65" "ecc_par 32 = 0x66" "ecc_par 64 = 0x69" "ecc_par 128 = 0x6a"
  by (simp_all add: ecc_par_def par_term_def bit_1_iff)

lemma nand_ecc_table_doubled:
  "nand_ecc_precalc_table = doubled (map (\<lambda>i. ecc_par (of_nat (2 ^ i))) (rev [0..<8]))"
proof -
  have "map (\<lambda>i. ecc_par (of_nat (2 ^ i))) (rev [0..<8]) =
    [0x6a, 0x69, 0x66, 0x65, 0x5a, 0x59, 0x56, 0x55]"
    using ecc_par_pow by (simp add: upt_rec)
  also have "doubled \<dots> = nand_ecc_precalc_table"
    by (simp add: nand_ecc_precalc_table_def)
  finally show ?thesis by simp
qed

lemma nand_ecc_table_nth: "nand_ecc_precalc_table ! unat b = ecc_par b"
  using table_doubled [of ecc_par 8, OF ecc_par_xor, symmetric]
  by (simp add: nand_ecc_table_doubled)

section \<open>The registers are linear in the data\<close>

definition line_term :: "u8 \<Rightarrow> u8 \<Rightarrow> u8" where
  "line_term v b = (if bit (ecc_par b) 6 then v else 0)"

lemma line_term_xor: "line_term v (x XOR y) = line_term v x XOR line_term v y"
  by (simp add: line_term_def ecc_par_xor bit_xor_iff)

lemma and_0x40: "x AND 0x40 \<noteq> 0 \<longleftrightarrow> bit x 6" for x :: u8
proof -
  have "x AND 0x40 = (if bit x 6 then 0x40 else 0)"
    by (rule bit_word_eqI) (auto simp: bit_and_iff u8_mask_bits simp del: bit_numeral_word_iff)
  then show ?thesis by simp
qed

lemma ecc_byte_regs:
  "reg1 (ecc_byte r (i, b)) = reg1 r XOR (ecc_par b AND 0x3f)"
  "reg2 (ecc_byte r (i, b)) = reg2 r XOR line_term (NOT (of_nat i)) b"
  "reg3 (ecc_byte r (i, b)) = reg3 r XOR line_term (of_nat i) b"
  by (simp_all add: ecc_byte_def nand_ecc_table_nth and_0x40 Let_def line_term_def)

lemma foldl_xor_update:
  fixes g :: "'a \<Rightarrow> u8"
  assumes "i < length xs"
  shows "foldl (\<lambda>a x. a XOR g x) a (xs[i := y]) = foldl (\<lambda>a x. a XOR g x) a xs XOR (g (xs ! i) XOR g y)"
proof -
  have shift: "foldl (\<lambda>a x. a XOR g x) (a XOR d) zs = foldl (\<lambda>a x. a XOR g x) a zs XOR d" for a d zs
  proof (induction zs arbitrary: a)
    case (Cons z zs)
    have "(a XOR d) XOR g z = (a XOR g z) XOR d" by (simp only: ac_simps)
    then have "foldl (\<lambda>a x. a XOR g x) (a XOR d) (z # zs) = foldl (\<lambda>a x. a XOR g x) ((a XOR g z) XOR d) zs"
      by (simp only: foldl_Cons)
    then show ?case by (simp only: Cons foldl_Cons)
  qed simp
  show ?thesis
    using assms
  proof (induction xs arbitrary: a i)
    case (Cons x xs)
    show ?case
    proof (cases i)
      case 0
      have "a XOR g y = (a XOR g x) XOR (g x XOR g y)" by (simp add: xor.assoc [symmetric]) (simp add: xor.assoc)
      then show ?thesis using 0 by (simp add: shift)
    next
      case (Suc j)
      then show ?thesis using Cons by simp
    qed
  qed simp
qed

lemma enumerate_update: "enumerate n (xs[i := y]) = (enumerate n xs)[i := (n + i, y)]"
proof (rule nth_equalityI)
  fix j
  assume "j < length (enumerate n (xs[i := y]))"
  then show "enumerate n (xs[i := y]) ! j = (enumerate n xs)[i := (n + i, y)] ! j"
    by (cases "j = i") (simp_all add: nth_enumerate_eq)
qed simp

lemma ecc_scan_regs:
  "reg1 (ecc_scan dat) = foldl (\<lambda>a (i, b). a XOR (ecc_par b AND 0x3f)) 0 (enumerate 0 dat)"
  "reg2 (ecc_scan dat) = foldl (\<lambda>a (i, b). a XOR line_term (NOT (of_nat i)) b) 0 (enumerate 0 dat)"
  "reg3 (ecc_scan dat) = foldl (\<lambda>a (i, b). a XOR line_term (of_nat i) b) 0 (enumerate 0 dat)"
proof -
  have "reg1 (foldl ecc_byte r xs) = foldl (\<lambda>a (i, b). a XOR (ecc_par b AND 0x3f)) (reg1 r) xs"
    "reg2 (foldl ecc_byte r xs) = foldl (\<lambda>a (i, b). a XOR line_term (NOT (of_nat i)) b) (reg2 r) xs"
    "reg3 (foldl ecc_byte r xs) = foldl (\<lambda>a (i, b). a XOR line_term (of_nat i) b) (reg3 r) xs" for r xs
    by (induction xs arbitrary: r) (auto simp: ecc_byte_regs)
  then show "reg1 (ecc_scan dat) = foldl (\<lambda>a (i, b). a XOR (ecc_par b AND 0x3f)) 0 (enumerate 0 dat)"
    "reg2 (ecc_scan dat) = foldl (\<lambda>a (i, b). a XOR line_term (NOT (of_nat i)) b) 0 (enumerate 0 dat)"
    "reg3 (ecc_scan dat) = foldl (\<lambda>a (i, b). a XOR line_term (of_nat i) b) 0 (enumerate 0 dat)"
    by (simp_all add: ecc_scan_def)
qed

lemma and_xor_distrib_u8: "(x XOR y) AND z = (x AND z) XOR (y AND z)" for z :: u8
  by (rule bit_word_eqI) (auto simp: bit_simps)

text \<open>Changing byte \<open>i\<close> by the pattern \<open>d\<close> changes the registers by the contribution of \<open>d\<close>.\<close>

lemma ecc_scan_change:
  assumes "i < length dat"
  shows "reg1 (ecc_scan (dat[i := dat ! i XOR d])) = reg1 (ecc_scan dat) XOR (ecc_par d AND 0x3f)"
    and "reg2 (ecc_scan (dat[i := dat ! i XOR d])) = reg2 (ecc_scan dat) XOR line_term (NOT (of_nat i)) d"
    and "reg3 (ecc_scan (dat[i := dat ! i XOR d])) = reg3 (ecc_scan dat) XOR line_term (of_nat i) d"
proof -
  have i: "i < length (enumerate 0 dat)" "enumerate 0 dat ! i = (i, dat ! i)"
    using assms by (simp_all add: nth_enumerate_eq)
  have c: "(x XOR (x XOR y)) = y" for x y :: u8 by (simp flip: xor.assoc)
  show "reg1 (ecc_scan (dat[i := dat ! i XOR d])) = reg1 (ecc_scan dat) XOR (ecc_par d AND 0x3f)"
    using foldl_xor_update [OF i(1), of "\<lambda>(i, b). ecc_par b AND 0x3f"] i(2)
    by (simp add: ecc_scan_regs enumerate_update split_def ecc_par_xor and_xor_distrib_u8 c)
  show "reg2 (ecc_scan (dat[i := dat ! i XOR d])) = reg2 (ecc_scan dat) XOR line_term (NOT (of_nat i)) d"
    using foldl_xor_update [OF i(1), of "\<lambda>(i, b). line_term (NOT (of_nat i)) b"] i(2)
    by (simp add: ecc_scan_regs enumerate_update split_def line_term_xor c)
  show "reg3 (ecc_scan (dat[i := dat ! i XOR d])) = reg3 (ecc_scan dat) XOR line_term (of_nat i) d"
    using foldl_xor_update [OF i(1), of "\<lambda>(i, b). line_term (of_nat i) b"] i(2)
    by (simp add: ecc_scan_regs enumerate_update split_def line_term_xor c)
qed

section \<open>The check bytes, bit by bit\<close>

lemma u8_eqI:
  assumes "bit x 0 = bit y 0" "bit x (Suc 0) = bit y (Suc 0)" "bit x 2 = bit y 2" "bit x 3 = bit y 3"
    and "bit x 4 = bit y 4" "bit x 5 = bit y 5" "bit x 6 = bit y 6" "bit x 7 = bit y 7"
  shows "x = (y :: u8)"
proof (rule bit_word_eqI)
  fix n :: nat
  assume "n < LENGTH(8)"
  then have "n \<in> {0, Suc 0, 2, 3, 4, 5, 6, 7}" by (intro bit_index_less) simp
  then show "bit x n \<longleftrightarrow> bit y n" using assms by blast
qed

lemma ecc_tmp1_bits:
  "bit (ecc_tmp1 a b) 7 = bit a 7" "bit (ecc_tmp1 a b) 6 = bit b 7"
  "bit (ecc_tmp1 a b) 5 = bit a 6" "bit (ecc_tmp1 a b) 4 = bit b 6"
  "bit (ecc_tmp1 a b) 3 = bit a 5" "bit (ecc_tmp1 a b) 2 = bit b 5"
  "bit (ecc_tmp1 a b) (Suc 0) = bit a 4" "bit (ecc_tmp1 a b) 0 = bit b 4"
  unfolding ecc_tmp1_def bit_ops by (simp_all add: mask_bits)

lemma ecc_tmp2_bits:
  "bit (ecc_tmp2 a b) 7 = bit a 3" "bit (ecc_tmp2 a b) 6 = bit b 3"
  "bit (ecc_tmp2 a b) 5 = bit a 2" "bit (ecc_tmp2 a b) 4 = bit b 2"
  "bit (ecc_tmp2 a b) 3 = bit a (Suc 0)" "bit (ecc_tmp2 a b) 2 = bit b (Suc 0)"
  "bit (ecc_tmp2 a b) (Suc 0) = bit a 0" "bit (ecc_tmp2 a b) 0 = bit b 0"
  unfolding ecc_tmp2_def bit_ops by (simp_all add: mask_bits)

lemmas ecc_bits = ecc_tmp1_bits ecc_tmp2_bits mask_bits

lemma ecc_tmp_xor:
  "ecc_tmp1 a b XOR ecc_tmp1 a' b' = ecc_tmp1 (a XOR a') (b XOR b')"
  "ecc_tmp2 a b XOR ecc_tmp2 a' b' = ecc_tmp2 (a XOR a') (b XOR b')"
  by (rule u8_eqI; simp only: ecc_tmp1_bits ecc_tmp2_bits bit_xor_iff)+

lemma xor_NOT_NOT: "NOT a XOR NOT b = a XOR b" for a b :: u8
  by (rule bit_word_eqI) (auto simp: bit_simps)

text \<open>The syndromes that \<open>nand_correct_data\<close> sees when the registers differ by \<open>d1\<close>, \<open>d2\<close>, \<open>d3\<close>.\<close>

definition syn :: "bool \<Rightarrow> u8 list \<Rightarrow> u8 list \<Rightarrow> u8 \<times> u8 \<times> u8" where
  "syn smc read_ecc calc_ecc =
     (if smc then calc_ecc ! 0 XOR read_ecc ! 0 else calc_ecc ! 1 XOR read_ecc ! 1,
      if smc then calc_ecc ! 1 XOR read_ecc ! 1 else calc_ecc ! 0 XOR read_ecc ! 0,
      calc_ecc ! 2 XOR read_ecc ! 2)"

lemma syn_regs:
  assumes "reg1 (ecc_scan dat') = reg1 (ecc_scan dat) XOR d1"
    and "reg2 (ecc_scan dat') = reg2 (ecc_scan dat) XOR d2"
    and "reg3 (ecc_scan dat') = reg3 (ecc_scan dat) XOR d3"
  shows "syn smc (nand_calculate_ecc smc dat) (nand_calculate_ecc smc dat') =
    (ecc_tmp2 d3 d2, ecc_tmp1 d3 d2, push_bit 2 d1)"
proof -
  have c: "(x XOR d) XOR x = d" for x d :: u8 by (metis xor.commute xor.left_neutral xor_self_eq xor.assoc)
  have r1: "(push_bit 2 (NOT (x XOR d1)) OR 3) XOR (push_bit 2 (NOT x) OR 3) = push_bit 2 d1" for x
  proof (rule bit_word_eqI)
    fix n :: nat
    assume "n < LENGTH(8)"
    then show "bit ((push_bit 2 (NOT (x XOR d1)) OR 3) XOR (push_bit 2 (NOT x) OR 3)) n \<longleftrightarrow> bit (push_bit 2 d1) n"
      by (cases "n < 2") (auto simp: bit_simps less_2_cases_iff bit_3_u8 simp del: bit_numeral_word_iff)
  qed
  show ?thesis
    unfolding syn_def nand_calculate_ecc_def Let_def assms
    by (cases smc) (simp_all only: if_True if_False append.simps nth_Cons_0 nth_Cons_Suc One_nat_def
      numeral_2_eq_2 xor_NOT_NOT ecc_tmp_xor c
      r1 [unfolded numeral_2_eq_2])
qed

lemma nand_correct_data_syn:
  assumes "syn smc read_ecc calc_ecc = (s0, s1, s2)"
  shows "nand_correct_data smc dat read_ecc calc_ecc =
     (if (s0 OR s1 OR s2) = 0 then (0, dat)
      else if (s0 XOR drop_bit 1 s0) AND 0x55 = 0x55 \<and> (s1 XOR drop_bit 1 s1) AND 0x55 = 0x55 \<and>
              (s2 XOR drop_bit 1 s2) AND 0x54 = 0x54
      then (1, dat[unat (ecc_byteoffs s0 s1) := dat ! unat (ecc_byteoffs s0 s1) XOR
                     push_bit (unat (ecc_bitnum s2)) 1])
      else if countbits (ucast s0 OR push_bit 8 (ucast s1) OR push_bit 16 (ucast s2)) = 1
      then (1, dat) else (- EBADMSG, dat))"
  using assms by (auto simp: syn_def nand_correct_data_def Let_def)

section \<open>Single errors\<close>

definition flip_bit :: "u8 list \<Rightarrow> nat \<Rightarrow> nat \<Rightarrow> u8 list" where
  "flip_bit dat i k = dat[i := dat ! i XOR push_bit k 1]"

lemma pair_pattern:
  "(ecc_tmp1 w (NOT w) XOR drop_bit 1 (ecc_tmp1 w (NOT w))) AND 0x55 = 0x55"
  "(ecc_tmp2 w (NOT w) XOR drop_bit 1 (ecc_tmp2 w (NOT w))) AND 0x55 = 0x55"
  by (rule u8_eqI; simp only: bit_ops; simp add: ecc_bits ecc_bits [unfolded numeral_3_eq_3])+

lemma pair_pattern_eq:
  "(ecc_tmp1 w w XOR drop_bit 1 (ecc_tmp1 w w)) AND 0x55 = 0"
  "(ecc_tmp2 w w XOR drop_bit 1 (ecc_tmp2 w w)) AND 0x55 = 0"
  by (rule u8_eqI; simp only: bit_ops; simp add: ecc_bits ecc_bits [unfolded numeral_3_eq_3])+

lemma ecc_byteoffs_pairs: "ecc_byteoffs (ecc_tmp2 w (NOT w)) (ecc_tmp1 w (NOT w)) = ucast w"
proof -
  have lt: "bit w n \<Longrightarrow> n < 8" for n using bit_imp_le_length [of w n] by simp
  show ?thesis
  proof (rule bit_word_eqI)
    fix n :: nat
    assume "n < LENGTH(32)"
    show "bit (ecc_byteoffs (ecc_tmp2 w (NOT w)) (ecc_tmp1 w (NOT w))) n \<longleftrightarrow> bit (ucast w :: u32) n"
    proof (cases "n < 8")
      case True
      then have "n \<in> {0, Suc 0, 2, 3, 4, 5, 6, 7}" by (rule bit_index_less)
      then show ?thesis
        unfolding ecc_byteoffs_def bit_ops bit_u8_ucast_u32 mask_bits
        by (elim insertE) (simp_all add: ecc_tmp1_bits ecc_tmp2_bits)
    next
      case False
      then have "n \<noteq> 7" "n \<noteq> 6" "n \<noteq> 5" "n \<noteq> 4" "n \<noteq> 3" "n \<noteq> 2" "n \<noteq> Suc 0" "n \<noteq> 0" by simp_all
      then show ?thesis
        using lt [of n] False unfolding ecc_byteoffs_def bit_ops bit_u8_ucast_u32 mask_bits by blast
    qed
  qed
qed

lemma bitnum_cases:
  assumes "k < 8"
  shows "bit (ecc_par (push_bit k 1)) 6"
    and "unat (ecc_bitnum (push_bit 2 (ecc_par (push_bit k 1) AND 0x3f))) = k"
    and "(push_bit 2 (ecc_par (push_bit k 1) AND 0x3f) XOR
      drop_bit 1 (push_bit 2 (ecc_par (push_bit k 1) AND 0x3f))) AND 0x54 = 0x54"
proof -
  have k: "k = 0 \<or> k = 1 \<or> k = 2 \<or> k = 3 \<or> k = 4 \<or> k = 5 \<or> k = 6 \<or> k = 7" using assms by auto
  show "bit (ecc_par (push_bit k 1)) 6" using k by (elim disjE) (simp_all add: ecc_par_pow)
  show "unat (ecc_bitnum (push_bit 2 (ecc_par (push_bit k 1) AND 0x3f))) = k"
    using k by (elim disjE) (simp_all add: ecc_par_pow ecc_bitnum_def)
  show "(push_bit 2 (ecc_par (push_bit k 1) AND 0x3f) XOR
      drop_bit 1 (push_bit 2 (ecc_par (push_bit k 1) AND 0x3f))) AND 0x54 = 0x54"
    using k by (elim disjE) (simp_all add: ecc_par_pow)
qed

text \<open>
  C18: a block of 256 bytes in which any single bit has flipped is repaired: with the check bytes
  of the original block and those of the damaged one, \<open>nand_correct_data\<close> returns 1 and the
  original data, whichever byte and bit it was, in both byte orders.
\<close>

theorem nand_ecc_corrects_single:
  assumes "length dat = 256" and "i < 256" and "k < 8"
  shows "nand_correct_data smc (flip_bit dat i k) (nand_calculate_ecc smc dat)
      (nand_calculate_ecc smc (flip_bit dat i k)) = (1, dat)"
proof -
  let ?d = "push_bit k 1 :: u8" and ?w = "of_nat i :: u8"
  have i: "i < length dat" using assms by simp
  note b = bitnum_cases [OF assms(3)]
  have "syn smc (nand_calculate_ecc smc dat) (nand_calculate_ecc smc (flip_bit dat i k)) =
      (ecc_tmp2 ?w (NOT ?w), ecc_tmp1 ?w (NOT ?w), push_bit 2 (ecc_par ?d AND 0x3f))"
    using b(1) unfolding flip_bit_def by (intro syn_regs) (simp_all add: ecc_scan_change [OF i] line_term_def)
  note r = nand_correct_data_syn [OF this]
  have nz: "(ecc_tmp2 ?w (NOT ?w) OR ecc_tmp1 ?w (NOT ?w) OR push_bit 2 (ecc_par ?d AND 0x3f)) \<noteq> 0"
  proof
    assume z: "(ecc_tmp2 ?w (NOT ?w) OR ecc_tmp1 ?w (NOT ?w) OR push_bit 2 (ecc_par ?d AND 0x3f)) = 0"
    have "bit (ecc_tmp2 ?w (NOT ?w)) (Suc 0) \<or> bit (ecc_tmp2 ?w (NOT ?w)) 0"
      unfolding ecc_tmp2_bits by (simp add: bit_not_iff)
    then have "bit (0 :: u8) (Suc 0) \<or> bit (0 :: u8) 0" unfolding z [symmetric] bit_or_iff by blast
    then show False by simp
  qed
  have off: "unat (ecc_byteoffs (ecc_tmp2 ?w (NOT ?w)) (ecc_tmp1 ?w (NOT ?w))) = i"
  proof -
    have "unat (ucast ?w :: u32) = unat ?w" by (simp add: unsigned_ucast_eq unsigned_take_bit_eq [symmetric] take_bit_word_eq_self)
    also have "\<dots> = i" using assms(2) by (simp add: unat_of_nat)
    finally show ?thesis unfolding ecc_byteoffs_pairs .
  qed
  have "(dat ! i XOR ?d) XOR ?d = dat ! i" by (simp add: xor.assoc)
  then show ?thesis
    unfolding r off b(2) unfolding flip_bit_def using nz pair_pattern [of ?w] b(3) i by simp
qed

theorem nand_ecc_corrects_single_witness:
  "nand_correct_data False (flip_bit (replicate 256 7) 5 3) (nand_calculate_ecc False (replicate 256 7))
      (nand_calculate_ecc False (flip_bit (replicate 256 7) 5 3)) = (1, replicate 256 7)"
  by (rule nand_ecc_corrects_single) simp_all

section \<open>Double errors\<close>

lemma countbits_unique: "countbits w = 1 \<Longrightarrow> bit w m \<Longrightarrow> bit w n \<Longrightarrow> m = n"
proof (induction w arbitrary: m n rule: countbits.induct)
  case (1 w)
  have w: "w \<noteq> 0" using 1(2) by (auto simp: countbits.simps)
  have z: "countbits x = 0 \<Longrightarrow> \<not> bit x k" for x k
  proof (induction x arbitrary: k rule: countbits.induct)
    case (1 x)
    show ?case
    proof (cases "x = 0")
      case False
      then have c: "x AND 1 = 0" "countbits (drop_bit 1 x) = 0"
        using 1(2) by (simp_all add: countbits.simps [of x] unat_eq_zero)
      from c(1) have "\<not> bit x 0" by (metis bit_0 and_one_eq odd_iff_mod_2_eq_one zero_neq_one)
      moreover have "\<not> bit x (Suc j)" for j
        using 1(1) [OF False c(2), of j] by (simp only: bit_drop_bit_eq comp_apply) simp
      ultimately show ?thesis by (cases k) simp_all
    qed simp
  qed
  have c: "unat (w AND 1) + countbits (drop_bit 1 w) = 1"
    using 1(2) w by (simp add: countbits.simps [of w])
  have one: "w AND 1 = (if bit w 0 then 1 else 0)"
    by (simp add: and_one_eq bit_0 odd_iff_mod_2_eq_one)
  have sh: "bit (drop_bit 1 w) j \<longleftrightarrow> bit w (Suc j)" for j
    by (simp only: bit_drop_bit_eq comp_apply) simp
  show ?case
  proof (cases "bit w 0")
    case True
    then have "countbits (drop_bit 1 w) = 0" using c one by simp
    from z [OF this] have "\<not> bit w (Suc j)" for j unfolding sh by blast
    then show ?thesis using 1(3,4) by (metis not0_implies_Suc)
  next
    case False
    then have "countbits (drop_bit 1 w) = 1" using c one by simp
    note ih = 1(1) [OF w this]
    from False 1(3,4) obtain m' n' where "m = Suc m'" "n = Suc n'" by (metis not0_implies_Suc)
    then show ?thesis using ih [of m' n'] 1(3,4) sh by simp
  qed
qed

lemma countbits_pair:
  assumes "bit w m" "bit w n" "m \<noteq> n"
  shows "countbits w \<noteq> 1"
  using countbits_unique [of w m n] assms by blast

lemma column_pair:
  assumes "k < 8" "l < 8" "k \<noteq> l"
  shows "\<exists>m. bit (ecc_par (push_bit k 1 XOR push_bit l 1) AND 0x3f) m \<and>
    bit (ecc_par (push_bit k 1 XOR push_bit l 1) AND 0x3f) (Suc m) \<and> m < 5"
proof -
  have d: "k = 0 \<or> k = 1 \<or> k = 2 \<or> k = 3 \<or> k = 4 \<or> k = 5 \<or> k = 6 \<or> k = 7"
    "l = 0 \<or> l = 1 \<or> l = 2 \<or> l = 3 \<or> l = 4 \<or> l = 5 \<or> l = 6 \<or> l = 7" using assms by auto
  have "\<exists>m \<in> {0, 2, 4}. bit (ecc_par (push_bit k 1 XOR push_bit l 1) AND 0x3f) m \<and>
    bit (ecc_par (push_bit k 1 XOR push_bit l 1) AND 0x3f) (Suc m)"
    using d assms(3) unfolding ecc_par_xor by (elim disjE) (simp_all add: ecc_par_pow)
  then show ?thesis by auto
qed

lemma pair_in_syndrome:
  assumes "bit w m" and "m < 8"
  shows "\<exists>n. bit (ucast (ecc_tmp2 w w) OR push_bit 8 (ucast (ecc_tmp1 w w)) OR x :: u32) n \<and>
    bit (ucast (ecc_tmp2 w w) OR push_bit 8 (ucast (ecc_tmp1 w w)) OR x :: u32) (Suc n)"
proof -
  have "m = 0 \<or> m = 1 \<or> m = 2 \<or> m = 3 \<or> m = 4 \<or> m = 5 \<or> m = 6 \<or> m = 7" using assms(2) by auto
  then have "bit (ucast (ecc_tmp2 w w) OR push_bit 8 (ucast (ecc_tmp1 w w)) OR x :: u32) (2 * m) \<and>
      bit (ucast (ecc_tmp2 w w) OR push_bit 8 (ucast (ecc_tmp1 w w)) OR x :: u32) (Suc (2 * m))"
    using assms(1) unfolding bit_or_iff bit_push_bit_iff bit_u8_ucast_u32
    by (elim disjE) (simp_all add: ecc_tmp1_bits ecc_tmp2_bits ecc_tmp1_bits [unfolded numeral_3_eq_3])
  then show ?thesis by blast
qed

text \<open>
  C19: any two bit errors in a block are reported as uncorrectable and the data is left alone.
\<close>

theorem nand_ecc_detects_double:
  assumes "length dat = 256" and "i < 256" and "k < 8" and "j < 256" and "l < 8" and "(i, k) \<noteq> (j, l)"
  shows "nand_correct_data smc (flip_bit (flip_bit dat i k) j l) (nand_calculate_ecc smc dat)
      (nand_calculate_ecc smc (flip_bit (flip_bit dat i k) j l)) =
    (- EBADMSG, flip_bit (flip_bit dat i k) j l)"
proof -
  let ?dk = "push_bit k 1 :: u8" and ?dl = "push_bit l 1 :: u8"
  define w where "w = (of_nat i :: u8) XOR of_nat j"
  let ?e = "ecc_par (?dk XOR ?dl) AND 0x3f"
  let ?dat' = "flip_bit (flip_bit dat i k) j l"
  have i: "i < length dat" "j < length (flip_bit dat i k)" using assms by (simp_all add: flip_bit_def)
  have regs: "reg1 (ecc_scan ?dat') = reg1 (ecc_scan dat) XOR ?e"
    "reg2 (ecc_scan ?dat') = reg2 (ecc_scan dat) XOR w" "reg3 (ecc_scan ?dat') = reg3 (ecc_scan dat) XOR w"
    unfolding flip_bit_def [of _ j l] ecc_scan_change [OF i(2)]
    unfolding flip_bit_def ecc_scan_change [OF i(1)]
    using bitnum_cases(1) [OF assms(3)] bitnum_cases(1) [OF assms(5)]
    by (simp_all add: line_term_def ecc_par_xor and_xor_distrib_u8 xor.assoc xor_NOT_NOT w_def)
  note r = nand_correct_data_syn [OF syn_regs [OF regs]]
  let ?s = "ucast (ecc_tmp2 w w) OR push_bit 8 (ucast (ecc_tmp1 w w)) OR push_bit 16 (ucast (push_bit 2 ?e)) :: u32"
  have "\<exists>n. bit ?s n \<and> bit ?s (Suc n)"
  proof (cases "w = 0")
    case False
    then obtain m where m: "bit w m" by (metis bit_eqI bit_0_eq bot_apply bot_bool_def)
    from pair_in_syndrome [OF m] bit_imp_le_length [OF m] show ?thesis by simp
  next
    case True
    then have "(of_nat i :: u8) = of_nat j" by (simp add: w_def word_xor_eq_0_iff)
    then have "unat (of_nat i :: u8) = unat (of_nat j :: u8)" by simp
    then have "i = j" using assms(2,4) by (simp add: unat_of_nat)
    then have "k \<noteq> l" using assms(6) by simp
    from column_pair [OF assms(3,5) this] obtain m where m: "bit ?e m" "bit ?e (Suc m)" "m < 5" by blast
    have "bit ?s (18 + m)" "bit ?s (Suc (18 + m))"
      using m unfolding bit_or_iff bit_push_bit_iff bit_u8_ucast_u32 by simp_all
    then show ?thesis by blast
  qed
  then obtain n where n: "bit ?s n" "bit ?s (Suc n)" by blast
  then have "countbits ?s \<noteq> 1" by (rule countbits_pair) simp
  moreover have "(ecc_tmp2 w w OR ecc_tmp1 w w OR push_bit 2 ?e) \<noteq> 0"
  proof
    assume "(ecc_tmp2 w w OR ecc_tmp1 w w OR push_bit 2 ?e) = 0"
    then have "ecc_tmp2 w w = 0" "ecc_tmp1 w w = 0" "push_bit 2 ?e = 0"
      by (simp_all add: or_eq_0_iff)
    then show False using n(1) by simp
  qed
  ultimately show ?thesis
    unfolding r using pair_pattern_eq [of w] by simp
qed

theorem nand_ecc_detects_double_witness:
  "fst (nand_correct_data True (flip_bit (flip_bit (replicate 256 7) 5 3) 9 1) (nand_calculate_ecc True (replicate 256 7))
      (nand_calculate_ecc True (flip_bit (flip_bit (replicate 256 7) 5 3) 9 1))) = - 74"
  using nand_ecc_detects_double [of "replicate 256 7" 5 3 9 1 True] by (simp add: EBADMSG_def)

end
