(* ===== verification/CircBuf.thy ===== *)
theory CircBuf
  imports Prelude
begin

text \<open>
  The circular buffer of \<^verbatim>\<open>common/circbuf.c\<close>, through which the USB console queues characters.
  A pointer into the buffer is its offset from \<open>data\<close>; \<open>end\<close> is the offset of the byte after the
  last one. The locale \<open>bounded_fifo\<close> is what the console drivers rely on; \<open>buf_push\<close> and
  \<open>buf_pop\<close> are an interpretation of it.
\<close>

section \<open>The interface\<close>

datatype 'b fifo_op = Push "'b list" | Pop nat

text \<open>A client's sequence of calls: the final state and everything it has popped. \<open>None\<close> is an
  access outside the buffer.\<close>

fun fifo_run :: "('s \<Rightarrow> 'b list \<Rightarrow> 's option) \<Rightarrow> ('s \<Rightarrow> nat \<Rightarrow> 'b list \<times> 's) \<Rightarrow> 's \<Rightarrow> 'b fifo_op list
    \<Rightarrow> ('s \<times> 'b list) option" where
  "fifo_run push pop s [] = Some (s, [])"
| "fifo_run push pop s (Push xs # ops) =
     (case push s xs of None \<Rightarrow> None | Some s' \<Rightarrow> fifo_run push pop s' ops)"
| "fifo_run push pop s (Pop n # ops) =
     (let (ys, s') = pop s n in
      case fifo_run push pop s' ops of None \<Rightarrow> None | Some (s'', zs) \<Rightarrow> Some (s'', ys @ zs))"

fun pushed :: "'b fifo_op list \<Rightarrow> 'b list" where
  "pushed [] = []"
| "pushed (Push xs # ops) = xs @ pushed ops"
| "pushed (Pop n # ops) = pushed ops"

text \<open>No push of the sequence meets a buffer without room: \<open>k\<close> bytes are queued at the start.\<close>

fun fifo_fits :: "nat \<Rightarrow> nat \<Rightarrow> 'b fifo_op list \<Rightarrow> bool" where
  "fifo_fits c k [] = True"
| "fifo_fits c k (Push xs # ops) = (k + length xs \<le> c \<and> fifo_fits c (k + length xs) ops)"
| "fifo_fits c k (Pop n # ops) = fifo_fits c (k - n) ops"

locale bounded_fifo =
  fixes inv :: "'s \<Rightarrow> bool"
    and contents :: "'s \<Rightarrow> 'b list"
    and cap :: "'s \<Rightarrow> nat"
    and push :: "'s \<Rightarrow> 'b list \<Rightarrow> 's option"
    and pop :: "'s \<Rightarrow> nat \<Rightarrow> 'b list \<times> 's"
  assumes push: "inv s \<Longrightarrow> \<exists>s'. push s xs = Some s' \<and> inv s' \<and> cap s' = cap s \<and>
      contents s' = drop (length (contents s @ xs) - cap s) (contents s @ xs)"
    and pop: "inv s \<Longrightarrow> pop s n = (ys, s') \<Longrightarrow>
      ys = take n (contents s) \<and> inv s' \<and> cap s' = cap s \<and> contents s' = drop n (contents s)"
begin

lemma run_lossless:
  "inv s \<Longrightarrow> fifo_fits (cap s) (length (contents s)) ops \<Longrightarrow>
   \<exists>s' out. fifo_run push pop s ops = Some (s', out) \<and> inv s' \<and>
     contents s @ pushed ops = out @ contents s'"
proof (induction ops arbitrary: s)
  case Nil
  then show ?case by simp
next
  case (Cons a ops)
  show ?case
  proof (cases a)
    case (Push xs)
    obtain s' where s': "push s xs = Some s'" "inv s'" "cap s' = cap s"
      "contents s' = drop (length (contents s @ xs) - cap s) (contents s @ xs)"
      using push [OF Cons.prems(1)] by blast
    then have "contents s' = contents s @ xs" using Cons.prems(2) Push by simp
    with Cons.IH [OF s'(2)] Cons.prems(2) s' Push show ?thesis by auto
  next
    case (Pop n)
    obtain ys s' where p: "pop s n = (ys, s')" by (cases "pop s n")
    note s' = pop [OF Cons.prems(1) p]
    then have "inv s'" and "fifo_fits (cap s') (length (contents s')) ops"
      using Cons.prems(2) Pop by simp_all
    from Cons.IH [OF this] obtain s'' out where
      r: "fifo_run push pop s' ops = Some (s'', out)" "inv s''" "contents s' @ pushed ops = out @ contents s''"
      by blast
    have "contents s @ pushed ops = ys @ contents s' @ pushed ops" using s' by simp
    with r p Pop show ?thesis by simp
  qed
qed

end

section \<open>The code\<close>

record circbuf =
  cb_size :: nat
  cb_totalsize :: nat
  cb_data :: "u8 list"
  cb_top :: nat
  cb_tail :: nat

text \<open>\<open>mem\<close> is the block of \<open>size\<close> bytes that \<open>malloc\<close> returned, \<open>None\<close> the failed call on
  which the assertion stops; \<open>end\<close> is constant and read as \<open>length (cb_data buf)\<close>.\<close>

definition buf_init :: "u8 list option \<Rightarrow> circbuf option" where
  "buf_init mem = (case mem of None \<Rightarrow> None
     | Some data \<Rightarrow> Some \<lparr>cb_size = 0, cb_totalsize = length data, cb_data = data, cb_top = 0, cb_tail = 0\<rparr>)"

text \<open>\<open>buf_free\<close> gives the block back and clears the structure.\<close>

definition buf_free :: "circbuf \<Rightarrow> circbuf" where
  "buf_free buf = \<lparr>cb_size = 0, cb_totalsize = 0, cb_data = [], cb_top = 0, cb_tail = 0\<rparr>"

definition buf_wrap :: "circbuf \<Rightarrow> nat \<Rightarrow> nat" where
  "buf_wrap buf p = (if p = length (cb_data buf) then 0 else p)"

text \<open>The loop of \<open>buf_pop\<close>: \<open>len\<close> bytes from offset \<open>p\<close> on, and where the pointer ends.\<close>

fun buf_pop_loop :: "circbuf \<Rightarrow> nat \<Rightarrow> nat \<Rightarrow> u8 list \<times> nat" where
  "buf_pop_loop buf p 0 = ([], p)"
| "buf_pop_loop buf p (Suc len) =
     (let (ys, q) = buf_pop_loop buf (buf_wrap buf (p + 1)) len in (cb_data buf ! p # ys, q))"

definition buf_pop :: "circbuf \<Rightarrow> nat \<Rightarrow> u8 list \<times> circbuf" where
  "buf_pop buf len =
     (let len = (if len > cb_size buf then cb_size buf else len);
          (dest, p) = buf_pop_loop buf (cb_top buf) len
      in (dest, buf\<lparr>cb_top := p, cb_size := cb_size buf - len\<rparr>))"

text \<open>The loop of \<open>buf_push\<close>; a store outside \<open>data\<close> is \<open>None\<close>.\<close>

fun buf_push_loop :: "circbuf \<Rightarrow> nat \<Rightarrow> u8 list \<Rightarrow> circbuf option" where
  "buf_push_loop buf p [] = Some (buf\<lparr>cb_tail := p\<rparr>)"
| "buf_push_loop buf p (x # src) =
     (if p < length (cb_data buf)
      then let buf1 = buf\<lparr>cb_data := (cb_data buf)[p := x]\<rparr>;
               buf2 = (if cb_size buf1 < cb_totalsize buf1
                       then buf1\<lparr>cb_size := cb_size buf1 + 1\<rparr>
                       else buf1\<lparr>cb_top := buf_wrap buf1 (cb_top buf1 + 1)\<rparr>)
           in buf_push_loop buf2 (buf_wrap buf1 (p + 1)) src
      else None)"

definition buf_push :: "circbuf \<Rightarrow> u8 list \<Rightarrow> circbuf option" where
  "buf_push buf src = buf_push_loop buf (cb_tail buf) src"

section \<open>Invariant and contents\<close>

definition buf_inv_at :: "circbuf \<Rightarrow> nat \<Rightarrow> bool" where
  "buf_inv_at buf p \<longleftrightarrow> length (cb_data buf) = cb_totalsize buf \<and> cb_top buf < cb_totalsize buf \<and>
     cb_size buf \<le> cb_totalsize buf \<and> p = (cb_top buf + cb_size buf) mod cb_totalsize buf"

definition buf_inv :: "circbuf \<Rightarrow> bool" where
  "buf_inv buf = buf_inv_at buf (cb_tail buf)"

text \<open>The queued bytes, oldest first.\<close>

definition buf_contents :: "circbuf \<Rightarrow> u8 list" where
  "buf_contents buf = map (\<lambda>i. cb_data buf ! ((cb_top buf + i) mod cb_totalsize buf)) [0..<cb_size buf]"

lemma length_buf_contents [simp]: "length (buf_contents buf) = cb_size buf"
  by (simp add: buf_contents_def)

lemma buf_wrap_mod:
  "length (cb_data buf) = n \<Longrightarrow> p < n \<Longrightarrow> buf_wrap buf (p + 1) = (p + 1) mod n"
  by (auto simp: buf_wrap_def)

lemma buf_pop_loop_eq:
  assumes "length (cb_data buf) = n" "p < n"
  shows "buf_pop_loop buf p k = (map (\<lambda>i. cb_data buf ! ((p + i) mod n)) [0..<k], (p + k) mod n)"
  using assms
proof (induction k arbitrary: p)
  case (Suc k)
  have "(p + 1) mod n < n" using Suc.prems(2) by simp
  from Suc.IH [OF Suc.prems(1) this]
  have "buf_pop_loop buf (buf_wrap buf (p + 1)) k =
      (map (\<lambda>i. cb_data buf ! ((p + Suc i) mod n)) [0..<k], (p + Suc k) mod n)"
    using Suc.prems by (simp only: buf_wrap_mod mod_add_left_eq) (simp add: add.commute)
  then show ?case
    using Suc.prems by (simp add: upt_conv_Cons comp_def flip: map_Suc_upt del: upt_Suc)
qed simp

text \<open>The store at the tail touches the queue at its end, and the oldest byte of a full queue.\<close>

lemma tail_index:
  assumes "t < n" "s \<le> n" "j \<le> s" "j < n \<or> s = n" "(0::nat) < n"
  shows "(t + j) mod n = (t + s) mod n \<longleftrightarrow> j = s \<or> (s = n \<and> j = 0)"
proof -
  have m: "(t + k) mod n = (if t + k < n then t + k else t + k - n)" if "k \<le> n" for k
  proof (cases "t + k < n")
    case False
    then have "(t + k) mod n = (t + k - n) mod n" by (simp add: le_mod_geq)
    also have "\<dots> = t + k - n" using assms(1) that by (intro mod_less) linarith
    finally show ?thesis using False by simp
  qed simp
  have "j \<le> n" using assms by simp
  then show ?thesis
    unfolding m [OF \<open>j \<le> n\<close>] m [OF assms(2)] using assms by (auto split: if_splits)
qed

text \<open>One turn of the push loop on the queue.\<close>

lemma buf_push_step:
  assumes inv: "buf_inv_at buf p" "0 < cb_totalsize buf"
    and buf1: "buf1 = buf\<lparr>cb_data := (cb_data buf)[p := x]\<rparr>"
    and buf2: "buf2 = (if cb_size buf1 < cb_totalsize buf1
                       then buf1\<lparr>cb_size := cb_size buf1 + 1\<rparr>
                       else buf1\<lparr>cb_top := buf_wrap buf1 (cb_top buf1 + 1)\<rparr>)"
  shows "buf_inv_at buf2 (buf_wrap buf1 (p + 1))" "cb_totalsize buf2 = cb_totalsize buf"
    "buf_contents buf2 = drop (length (buf_contents buf @ [x]) - cb_totalsize buf) (buf_contents buf @ [x])"
proof -
  define n t s where "n = cb_totalsize buf" and "t = cb_top buf" and "s = cb_size buf"
  have i: "length (cb_data buf) = n" "t < n" "s \<le> n" "p = (t + s) mod n" "0 < n"
    using inv by (simp_all add: buf_inv_at_def n_def t_def s_def)
  have p: "p < n" unfolding i(4) using i(5) by (rule mod_less_divisor)
  have w: "buf_wrap buf1 (q + 1) = (q + 1) mod n" if "q < n" for q
    using that i(1) by (intro buf_wrap_mod) (simp_all add: buf1)
  have nth: "(cb_data buf)[p := x] ! ((t + j) mod n) = (if j = s \<or> (s = n \<and> j = 0) then x else cb_data buf ! ((t + j) mod n))"
    if "j \<le> s" "j < n \<or> s = n" for j
  proof -
    note ti = tail_index [OF i(2,3) that i(5), folded i(4)]
    show ?thesis
    proof (cases "(t + j) mod n = p")
      case True
      with ti have "j = s \<or> (s = n \<and> j = 0)" by blast
      then show ?thesis using p by (simp only: True if_True nth_list_update_eq i(1))
    next
      case False
      with ti have "\<not> (j = s \<or> (s = n \<and> j = 0))" by blast
      then show ?thesis using False by (simp only: if_False nth_list_update_neq)
    qed
  qed
  show "cb_totalsize buf2 = cb_totalsize buf" by (simp add: buf2 buf1)
  have pm: "(p + 1) mod n = (t + (s + 1)) mod n" by (simp only: i(4) mod_add_left_eq add.assoc)
  have pm': "(t + (n + 1)) mod n = ((t + 1) mod n + n) mod n"
    by (simp only: mod_add_left_eq) (simp only: ac_simps)
  show "buf_inv_at buf2 (buf_wrap buf1 (p + 1))"
  proof (cases "s < n")
    case True
    then show ?thesis
      using i w [OF p] pm unfolding buf_inv_at_def buf2 buf1 n_def t_def s_def by simp
  next
    case False
    then have sn: "s = n" using i by simp
    have "(t + 1) mod n < n" using i(5) by simp
    then show ?thesis
      using sn i(1) w [OF p] w [OF i(2)] pm pm' False
      unfolding buf_inv_at_def buf2 buf1 n_def t_def s_def by simp
  qed
  show "buf_contents buf2 = drop (length (buf_contents buf @ [x]) - cb_totalsize buf) (buf_contents buf @ [x])"
  proof (cases "s < n")
    case True
    have "buf_contents buf2 = map (\<lambda>j. (cb_data buf)[p := x] ! ((t + j) mod n)) [0..<Suc s]"
      using True by (simp add: buf_contents_def buf2 buf1 n_def t_def s_def)
    also have "\<dots> = map (\<lambda>j. cb_data buf ! ((t + j) mod n)) [0..<s] @ [x]"
      using True nth by simp
    finally show ?thesis using True by (simp add: buf_contents_def n_def t_def s_def)
  next
    case False
    then have sn: "s = n" using i by simp
    have "buf_contents buf2 = map (\<lambda>j. (cb_data buf)[p := x] ! ((t + Suc j) mod n)) [0..<n]"
    proof -
      have "buf_wrap buf1 (cb_top buf1 + 1) = (t + 1) mod n"
        using w [OF i(2)] by (simp add: buf1 t_def)
      then have "buf_contents buf2 = map (\<lambda>j. (cb_data buf)[p := x] ! (((t + 1) mod n + j) mod n)) [0..<n]"
        using sn by (simp add: buf_contents_def buf2) (simp add: buf1 n_def s_def)
      also have "\<dots> = map (\<lambda>j. (cb_data buf)[p := x] ! ((t + Suc j) mod n)) [0..<n]"
        by (simp only: mod_add_left_eq) simp
      finally show ?thesis .
    qed
    also have "\<dots> = map (\<lambda>j. cb_data buf ! ((t + Suc j) mod n)) [0..<n - 1] @ [x]"
    proof -
      obtain m where m: "n = Suc m" using i(5) gr0_implies_Suc by blast
      have "(cb_data buf)[p := x] ! ((t + Suc j) mod n) = cb_data buf ! ((t + Suc j) mod n)" if "j < m" for j
        using nth [of "Suc j"] that sn m by simp
      moreover have "(cb_data buf)[p := x] ! ((t + Suc m) mod n) = x"
        using nth [of "Suc m"] sn m by simp
      ultimately show ?thesis by (simp add: m)
    qed
    also have "\<dots> = drop 1 (map (\<lambda>j. cb_data buf ! ((t + j) mod n)) [0..<n] @ [x])"
    proof -
      have "[0..<n] = 0 # map Suc [0..<n - 1]" using i(5) by (simp add: map_Suc_upt upt_conv_Cons)
      then show ?thesis by simp
    qed
    finally show ?thesis using sn by (simp add: buf_contents_def n_def t_def s_def)
  qed
qed

lemma buf_push_loop_fifo:
  "buf_inv_at buf p \<Longrightarrow> 0 < cb_totalsize buf \<Longrightarrow>
   \<exists>buf'. buf_push_loop buf p src = Some buf' \<and> buf_inv buf' \<and> cb_totalsize buf' = cb_totalsize buf \<and>
     buf_contents buf' =
       drop (length (buf_contents buf @ src) - cb_totalsize buf) (buf_contents buf @ src)"
proof (induction src arbitrary: buf p)
  case Nil
  then have "cb_size buf \<le> cb_totalsize buf" by (simp add: buf_inv_at_def)
  with Nil show ?case by (simp add: buf_inv_def buf_inv_at_def buf_contents_def)
next
  case (Cons x src)
  define buf1 where "buf1 = buf\<lparr>cb_data := (cb_data buf)[p := x]\<rparr>"
  define buf2 where "buf2 = (if cb_size buf1 < cb_totalsize buf1
                       then buf1\<lparr>cb_size := cb_size buf1 + 1\<rparr>
                       else buf1\<lparr>cb_top := buf_wrap buf1 (cb_top buf1 + 1)\<rparr>)"
  note st = buf_push_step [OF Cons.prems buf1_def buf2_def]
  have le: "cb_size buf \<le> cb_totalsize buf" using Cons.prems by (simp add: buf_inv_at_def)
  have "p < length (cb_data buf)"
    using Cons.prems by (simp add: buf_inv_at_def)
  then have "buf_push_loop buf p (x # src) = buf_push_loop buf2 (buf_wrap buf1 (p + 1)) src"
    by (simp add: Let_def buf2_def buf1_def)
  moreover from Cons.IH [OF st(1)] Cons.prems(2) obtain buf' where
    "buf_push_loop buf2 (buf_wrap buf1 (p + 1)) src = Some buf'" "buf_inv buf'"
    "cb_totalsize buf' = cb_totalsize buf"
    "buf_contents buf' = drop (length (buf_contents buf2 @ src) - cb_totalsize buf) (buf_contents buf2 @ src)"
    unfolding st(2) by blast
  moreover have "drop (length (buf_contents buf2 @ src) - cb_totalsize buf) (buf_contents buf2 @ src) =
      drop (length (buf_contents buf @ x # src) - cb_totalsize buf) (buf_contents buf @ x # src)"
  proof (cases "cb_size buf < cb_totalsize buf")
    case True
    then show ?thesis unfolding st(3) by simp
  next
    case False
    then have full: "cb_size buf = cb_totalsize buf" using le by simp
    then obtain y ys where "buf_contents buf = y # ys"
      using Cons.prems(2) length_buf_contents [of buf] by (cases "buf_contents buf") auto
    moreover from this have "Suc (length ys) = cb_totalsize buf" using full length_buf_contents [of buf] by simp
    ultimately show ?thesis unfolding st(3) by (simp flip: \<open>Suc (length ys) = _\<close>)
  qed
  ultimately show ?case by metis
qed

lemma buf_pop_fifo:
  assumes "buf_inv buf \<and> 0 < cb_totalsize buf" and "buf_pop buf len = (dest, buf')"
  shows "dest = take len (buf_contents buf) \<and> (buf_inv buf' \<and> 0 < cb_totalsize buf') \<and>
    cb_totalsize buf' = cb_totalsize buf \<and> buf_contents buf' = drop len (buf_contents buf)"
proof -
  define n t s k where "n = cb_totalsize buf" and "t = cb_top buf" and "s = cb_size buf"
    and "k = min len s"
  have i: "length (cb_data buf) = n" "t < n" "s \<le> n" "0 < n" "cb_tail buf = (t + s) mod n"
    using assms(1) by (simp_all add: buf_inv_def buf_inv_at_def n_def t_def s_def)
  have k: "(if len > cb_size buf then cb_size buf else len) = k" "k \<le> s"
    by (simp_all add: k_def s_def)
  have r: "dest = map (\<lambda>i. cb_data buf ! ((t + i) mod n)) [0..<k]"
    "buf' = buf\<lparr>cb_top := (t + k) mod n, cb_size := s - k\<rparr>"
    using assms(2) buf_pop_loop_eq [OF i(1,2), of k]
    unfolding buf_pop_def k(1) Let_def t_def s_def by simp_all
  have tail: "(t + s) mod n = ((t + k) mod n + (s - k)) mod n"
    using k(2) by (simp only: mod_add_left_eq) simp
  have lt: "(t + k) mod n < n" using i(4) by simp
  have inv: "buf_inv buf'"
    using i k(2) tail lt unfolding buf_inv_def buf_inv_at_def r(2) n_def by simp
  have "dest = take len (buf_contents buf)"
    by (rule nth_equalityI) (simp_all add: r(1) buf_contents_def k_def n_def t_def s_def)
  moreover have "buf_contents buf' = drop len (buf_contents buf)"
  proof (cases "len \<le> s")
    case True
    then have kk: "k = len" by (simp add: k_def)
    have "buf_contents buf' = map (\<lambda>i. cb_data buf ! (((t + k) mod n + i) mod n)) [0..<s - k]"
      by (simp add: r(2) buf_contents_def n_def)
    also have "\<dots> = map (\<lambda>i. cb_data buf ! ((t + (k + i)) mod n)) [0..<s - k]"
      by (simp only: mod_add_left_eq add.assoc)
    also have "\<dots> = drop k (map (\<lambda>i. cb_data buf ! ((t + i) mod n)) [0..<s])"
    proof (rule nth_equalityI)
      fix j
      assume "j < length (map (\<lambda>i. cb_data buf ! ((t + (k + i)) mod n)) [0..<s - k])"
      then have j: "0 + (k + j) < s" "j < s - k" by simp_all
      then show "map (\<lambda>i. cb_data buf ! ((t + (k + i)) mod n)) [0..<s - k] ! j =
          drop k (map (\<lambda>i. cb_data buf ! ((t + i) mod n)) [0..<s]) ! j"
        using nth_upt [OF j(1)] by simp
    qed simp
    finally show ?thesis by (simp add: kk buf_contents_def n_def t_def s_def)
  next
    case False
    then show ?thesis by (simp add: r(2) buf_contents_def k_def s_def)
  qed
  ultimately show ?thesis using inv i(4) by (simp add: r(2) n_def)
qed

interpretation cb: bounded_fifo "\<lambda>buf. buf_inv buf \<and> 0 < cb_totalsize buf" buf_contents cb_totalsize
    buf_push buf_pop
proof
  fix buf and src :: "u8 list"
  assume "buf_inv buf \<and> 0 < cb_totalsize buf"
  then show "\<exists>buf'. buf_push buf src = Some buf' \<and> (buf_inv buf' \<and> 0 < cb_totalsize buf') \<and>
      cb_totalsize buf' = cb_totalsize buf \<and>
      buf_contents buf' = drop (length (buf_contents buf @ src) - cb_totalsize buf) (buf_contents buf @ src)"
    using buf_push_loop_fifo [of buf "cb_tail buf" src] by (auto simp: buf_push_def buf_inv_def)
qed (rule buf_pop_fifo)

lemma buf_init_inv:
  "0 < length data \<Longrightarrow> \<exists>buf. buf_init (Some data) = Some buf \<and> (buf_inv buf \<and> 0 < cb_totalsize buf) \<and>
    buf_contents buf = [] \<and> cb_totalsize buf = length data"
  by (simp add: buf_init_def buf_inv_def buf_inv_at_def buf_contents_def)

text \<open>
  pushing onto a buffer that is not a zero-sized one never stores outside it and keeps its
  invariant; the queue afterwards holds the newest bytes of the old queue and the pushed ones, as
  many as fit: surplus bytes replace the oldest.
\<close>

lemma buf_push_keeps_newest:
  assumes "buf_inv buf" and "0 < cb_totalsize buf"
  shows "\<exists>buf'. buf_push buf src = Some buf' \<and> buf_inv buf' \<and> cb_totalsize buf' = cb_totalsize buf \<and>
    buf_contents buf' =
      drop (length (buf_contents buf @ src) - cb_totalsize buf) (buf_contents buf @ src)"
  using cb.push [of buf src] assms by blast

text \<open>
  C31: a fresh buffer of positive size is a lossless first-in first-out channel: for any sequence
  of pushes and pops in which no push exceeds the free room, no access is outside the buffer and
  what has been popped, followed by what is still queued, is exactly what was pushed, in order.
\<close>

theorem circbuf_lossless:
  assumes "0 < length data" and "fifo_fits (length data) 0 ops"
  shows "\<exists>buf buf' out. buf_init (Some data) = Some buf \<and>
    fifo_run buf_push buf_pop buf ops = Some (buf', out) \<and> pushed ops = out @ buf_contents buf'"
proof -
  obtain buf where b: "buf_init (Some data) = Some buf" "buf_inv buf \<and> 0 < cb_totalsize buf"
    "buf_contents buf = []" "cb_totalsize buf = length data"
    using buf_init_inv [OF assms(1)] by blast
  with cb.run_lossless [OF b(2), of ops] assms(2) show ?thesis by auto
qed

lemma buf_witness:
  "buf_init (Some [0, 0, 0]) = Some \<lparr>cb_size = 0, cb_totalsize = 3, cb_data = [0, 0, 0], cb_top = 0, cb_tail = 0\<rparr>"
  by (simp add: buf_init_def)

theorem buf_push_keeps_newest_witness:
  "\<exists>buf'. buf_push \<lparr>cb_size = 0, cb_totalsize = 3, cb_data = [0, 0, 0], cb_top = 0, cb_tail = 0\<rparr> [1, 2, 3, 4, 5] = Some buf'
     \<and> buf_contents buf' = [3, 4, 5]"
  using buf_push_keeps_newest [of "\<lparr>cb_size = 0, cb_totalsize = 3, cb_data = [0, 0, 0], cb_top = 0, cb_tail = 0\<rparr>" "[1, 2, 3, 4, 5]"]
  by (auto simp: buf_inv_def buf_inv_at_def buf_contents_def)

theorem circbuf_lossless_witness:
  "\<exists>buf buf' out. buf_init (Some [0, 0, 0]) = Some buf \<and>
    fifo_run buf_push buf_pop buf [Push [1, 2], Pop 1, Push [3, 4], Pop 2] = Some (buf', out) \<and>
    [1, 2, 3, 4] = out @ buf_contents buf'"
  using circbuf_lossless [of "[0, 0, 0]" "[Push [1, 2], Pop 1, Push [3, 4], Pop 2]"]
  by (simp add: eval_nat_numeral)

end
