(* ===== verification/RtcDate.thy ===== *)
theory RtcDate
  imports Prelude "HOL-Library.Signed_Division"
begin

text \<open>
  Calendar arithmetic of \<^verbatim>\<open>drivers/rtc/date.c\<close>: \<open>to_tm\<close> splits seconds since 1970 into a
  broken-down time, \<open>mktime\<close> is its inverse, \<open>GregorianDay\<close> computes the day of the week. C's
  truncating division on \<open>int\<close> is \<open>sdiv\<close> and \<open>smod\<close>; \<open>mktime\<close> computes on 32-bit unsigned words.
\<close>

section \<open>The code\<close>

record rtc_time =
  tm_sec :: int
  tm_min :: int
  tm_hour :: int
  tm_mday :: int
  tm_mon :: int
  tm_year :: int
  tm_wday :: int
  tm_yday :: int
  tm_isdst :: int

definition STARTOFTIME :: int where "STARTOFTIME = 1970"
definition SECDAY :: int where "SECDAY = 86400"

definition leapyear :: "int \<Rightarrow> bool" where
  "leapyear year = (year smod 4 = 0)"

definition days_in_year :: "int \<Rightarrow> int" where
  "days_in_year a = (if leapyear a then 366 else 365)"

definition month_days :: "int list" where
  "month_days = [31, 28, 31, 30, 31, 30, 31, 31, 30, 31, 30, 31]"

definition MonthOffset :: "int list" where
  "MonthOffset = [0, 31, 59, 90, 120, 151, 181, 212, 243, 273, 304, 334]"

definition GregorianDay :: "rtc_time \<Rightarrow> rtc_time" where
  "GregorianDay tm =
     (let lastYear = tm_year tm - 1;
          leapsToDate = lastYear sdiv 4 - lastYear sdiv 100 + lastYear sdiv 400;
          day = (if tm_year tm smod 4 = 0 \<and> (tm_year tm smod 100 \<noteq> 0 \<or> tm_year tm smod 400 = 0) \<and>
                    tm_mon tm > 2 then 1 else 0);
          day = day + (lastYear * 365 + leapsToDate + MonthOffset ! nat (tm_mon tm - 1) + tm_mday tm)
      in tm\<lparr>tm_wday := day smod 7\<rparr>)"

text \<open>\<^verbatim>\<open>for (i = STARTOFTIME; day >= days_in_year(i); i++) day -= days_in_year(i)\<close>: the year and
  the days left.\<close>

function year_loop :: "int \<Rightarrow> int \<Rightarrow> int \<times> int" where
  "year_loop i day =
     (if day \<ge> days_in_year i then year_loop (i + 1) (day - days_in_year i) else (i, day))"
  by pat_completeness auto
termination
  by (relation "measure (\<lambda>(i, day). nat day)") (auto simp: days_in_year_def split: if_splits)

declare year_loop.simps [simp del]

text \<open>The loop over the months walks along the table; \<open>None\<close> is a read behind its end.\<close>

fun month_loop :: "int \<Rightarrow> int \<Rightarrow> int list \<Rightarrow> (int \<times> int) option" where
  "month_loop i day [] = None"
| "month_loop i day (md # mds) =
     (if day \<ge> md then month_loop (i + 1) (day - md) mds else Some (i, day))"

definition to_tm :: "int \<Rightarrow> rtc_time \<Rightarrow> rtc_time option" where
  "to_tm tim tm =
     (let day = tim sdiv SECDAY;
          hms = tim smod SECDAY;
          tm = tm\<lparr>tm_hour := hms sdiv 3600, tm_min := (hms smod 3600) sdiv 60,
                  tm_sec := (hms smod 3600) smod 60\<rparr>;
          (i, day) = year_loop STARTOFTIME day;
          tm = tm\<lparr>tm_year := i\<rparr>;
          days = (if leapyear (tm_year tm) then month_days[1 := 29] else month_days)
      in case month_loop 1 day days of
           None \<Rightarrow> None
         | Some (i, day) \<Rightarrow> Some (GregorianDay (tm\<lparr>tm_mon := i, tm_mday := day + 1\<rparr>)))"

definition mktime :: "u32 \<Rightarrow> u32 \<Rightarrow> u32 \<Rightarrow> u32 \<Rightarrow> u32 \<Rightarrow> u32 \<Rightarrow> u32" where
  "mktime year mon day hour minute sec =
     (let mon = mon - 2;
          (mon, year) = (if 0 \<ge> sint mon then (mon + 12, year - 1) else (mon, year))
      in ((((year div 4 - year div 100 + year div 400 + 367 * mon div 12 + day) +
             year * 365 - 719499) * 24 + hour) * 60 + minute) * 60 + sec)"

section \<open>The years and the months\<close>

text \<open>The days from year 0 to the start of year \<open>y\<close>, with every fourth year a leap year, as the
  macro of the code has it.\<close>

definition days_before :: "int \<Rightarrow> int" where
  "days_before y = 365 * y + (y + 3) div 4"

lemma smod_pos: "0 \<le> a \<Longrightarrow> 0 < b \<Longrightarrow> a smod b = a mod b" for a b :: int
  by (simp add: signed_modulo_int_def sgn_if zero_less_mult_iff mult_sgn_abs flip: minus_mult_div_eq_mod signed_divide_int_def)

lemma sdiv_pos: "0 \<le> a \<Longrightarrow> 0 < b \<Longrightarrow> a sdiv b = a div b" for a b :: int
  by (cases "a = 0") (simp_all add: signed_divide_int_def)

lemma days_before_Suc: "0 \<le> y \<Longrightarrow> days_before (y + 1) = days_before y + days_in_year y"
proof -
  assume "0 \<le> y"
  then have "leapyear y \<longleftrightarrow> y mod 4 = 0" by (simp add: leapyear_def smod_pos)
  moreover have "(y + 1 + 3) div 4 = (y + 3) div 4 + (if y mod 4 = 0 then 1 else 0)" by presburger
  ultimately show ?thesis by (simp add: days_before_def days_in_year_def)
qed

lemma year_loop_spec:
  "0 \<le> i \<Longrightarrow> 0 \<le> day \<Longrightarrow> year_loop i day = (y, d) \<Longrightarrow>
    i \<le> y \<and> 0 \<le> d \<and> d < days_in_year y \<and> days_before y + d = days_before i + day"
proof (induction i day rule: year_loop.induct)
  case (1 i day)
  show ?case
  proof (cases "day \<ge> days_in_year i")
    case True
    with 1(4) have "year_loop (i + 1) (day - days_in_year i) = (y, d)"
      by (subst (asm) year_loop.simps) simp
    then show ?thesis
      using 1(1) [OF True] 1(2,3) True days_before_Suc [of i] by simp
  next
    case False
    with 1(2-4) show ?thesis by (subst (asm) year_loop.simps) simp
  qed
qed

text \<open>The months: offsets of a common year, one more day after February of a leap year.\<close>

lemma month_loop_spec:
  assumes "0 \<le> d" and "d < 365 + of_bool leap"
  shows "\<exists>m. month_loop 1 d (if leap then month_days[1 := 29] else month_days) =
      Some (m, d - (MonthOffset ! nat (m - 1) + (if leap \<and> 2 < m then 1 else 0))) \<and>
    1 \<le> m \<and> m \<le> 12 \<and> 0 \<le> d - (MonthOffset ! nat (m - 1) + (if leap \<and> 2 < m then 1 else 0)) \<and>
    d - (MonthOffset ! nat (m - 1) + (if leap \<and> 2 < m then 1 else 0)) < 31"
  using assms unfolding month_days_def MonthOffset_def by (cases leap) auto

section \<open>The inverse\<close>

text \<open>The day number that \<open>mktime\<close> computes, on integers.\<close>

definition day_number :: "int \<Rightarrow> int \<Rightarrow> int \<Rightarrow> int" where
  "day_number y m d =
     (let m' = (if m \<le> 2 then m + 10 else m - 2); y' = (if m \<le> 2 then y - 1 else y)
      in y' div 4 - y' div 100 + y' div 400 + 367 * m' div 12 + d + y' * 365 - 719499)"

lemma uint_of_int_u32: "0 \<le> k \<Longrightarrow> k < 4294967296 \<Longrightarrow> uint (word_of_int k :: u32) = k"
  by (simp add: uint_word_of_int)

lemma word_div_of_int:
  assumes "0 \<le> k" "k < 4294967296" "0 < n" "n < 4294967296"
  shows "(word_of_int k :: u32) div word_of_int n = word_of_int (k div n)"
proof -
  have "uint ((word_of_int k :: u32) div word_of_int n) = k div n"
    using assms by (simp add: uint_div_distrib uint_of_int_u32)
  then show ?thesis by (metis word_of_int_uint)
qed

lemma mktime_of_int:
  assumes "1970 \<le> y" "y \<le> 2038" "1 \<le> m" "m \<le> 12"
  shows "mktime (word_of_int y) (word_of_int m) (word_of_int d) (word_of_int h) (word_of_int mi) (word_of_int s) =
    word_of_int (((day_number y m d * 24 + h) * 60 + mi) * 60 + s)"
proof -
  have sm: "sint (word_of_int m - 2 :: u32) = m - 2"
  proof -
    have "word_of_int m - 2 = (word_of_int (m - 2) :: u32)" by simp
    then show ?thesis
      using assms by (simp only: sint_sbintrunc') (simp add: signed_take_bit_int_eq_self)
  qed
  define m' where "m' = (if m \<le> 2 then m + 10 else m - 2)"
  define y' where "y' = (if m \<le> 2 then y - 1 else y)"
  have b: "0 \<le> y'" "y' < 4294967296" "0 \<le> 367 * m'" "367 * m' < 4294967296"
    using assms by (simp_all add: m'_def y'_def)
  have "(367 :: u32) * word_of_int m' = word_of_int (367 * m')" by simp
  then have q: "(word_of_int y' :: u32) div 4 = word_of_int (y' div 4)"
    "(word_of_int y' :: u32) div 100 = word_of_int (y' div 100)"
    "(word_of_int y' :: u32) div 400 = word_of_int (y' div 400)"
    "(367 :: u32) * word_of_int m' div 12 = word_of_int (367 * m' div 12)"
    using word_div_of_int [OF b(1,2), of 4] word_div_of_int [OF b(1,2), of 100]
      word_div_of_int [OF b(1,2), of 400] word_div_of_int [OF b(3,4), of 12] by simp_all
  have pair: "(if sint (word_of_int m - 2 :: u32) \<le> 0 then (word_of_int m - 2 + 12, word_of_int y - 1) else (word_of_int m - 2, word_of_int y :: u32)) =
      (word_of_int m', word_of_int y')"
    unfolding sm by (simp add: m'_def y'_def)
  have dn: "day_number y m d = y' div 4 - y' div 100 + y' div 400 + 367 * m' div 12 + d + y' * 365 - 719499"
    by (simp add: day_number_def m'_def y'_def Let_def)
  show ?thesis
    unfolding mktime_def Let_def pair prod.case q dn by simp
qed

text \<open>The code's formula for the days before a month is the table.\<close>

lemma month_formula:
  assumes "1 \<le> m" "m \<le> 12"
  shows "367 * (if m \<le> 2 then m + 10 else m - 2) div 12 = MonthOffset ! nat (m - 1) + (if m \<le> 2 then 336 else - 29)"
    and "0 \<le> MonthOffset ! nat (m - 1)"
proof -
  have "m = 1 \<or> m = 2 \<or> m = 3 \<or> m = 4 \<or> m = 5 \<or> m = 6 \<or> m = 7 \<or> m = 8 \<or> m = 9 \<or> m = 10 \<or> m = 11 \<or> m = 12"
    using assms by presburger
  then show "367 * (if m \<le> 2 then m + 10 else m - 2) div 12 = MonthOffset ! nat (m - 1) + (if m \<le> 2 then 336 else - 29)"
    "0 \<le> MonthOffset ! nat (m - 1)"
    by (elim disjE; simp add: MonthOffset_def)+
qed

lemma div_eqI: "0 < b \<Longrightarrow> q * b \<le> a \<Longrightarrow> a < q * b + b \<Longrightarrow> a div b = q" for a b q :: int
  using int_div_pos_eq [of a b q "a - b * q"] by (simp add: mult.commute)

lemma centuries:
  fixes y :: int
  assumes "1970 \<le> y" "y \<le> 2038"
  shows "(y - 1) div 100 = (if y \<le> 2000 then 19 else 20)" "y div 100 = (if y \<le> 1999 then 19 else 20)"
    "(y - 1) div 400 = (if y \<le> 2000 then 4 else 5)" "y div 400 = (if y \<le> 1999 then 4 else 5)"
  using assms by (cases "y \<le> 1999"; cases "y = 2000"; simp add: div_eqI)+

lemma quarters:
  fixes y :: int
  shows "(y + 3) div 4 = y div 4 + (if y mod 4 = 0 then 0 else 1)"
    and "(y - 1) div 4 = y div 4 - (if y mod 4 = 0 then 1 else 0)"
  by presburger+

lemma day_number_inverse:
  assumes y: "1970 \<le> y" "y \<le> 2038" and m: "1 \<le> m" "m \<le> 12"
    and d: "d = k - (MonthOffset ! nat (m - 1) + (if y mod 4 = 0 \<and> 2 < m then 1 else 0))"
  shows "day_number y m (d + 1) = days_before y + k - days_before 1970"
proof -
  have e: "day_number y m (d' + 1) =
      (if m \<le> 2 then (y - 1) div 4 - (y - 1) div 100 + (y - 1) div 400 + (y - 1) * 365
       else y div 4 - y div 100 + y div 400 + y * 365) +
      367 * (if m \<le> 2 then m + 10 else m - 2) div 12 + (d' + 1) - 719499" for d'
    unfolding day_number_def Let_def by (cases "m \<le> 2") (simp_all only: if_True if_False)
  define Q R M where "Q = y div 4" and "R = y mod 4" and "M = MonthOffset ! nat (m - 1)"
  have b: "days_before y = 365 * y + (Q + (if R = 0 then 0 else 1))" "days_before 1970 = 719543"
    unfolding days_before_def quarters Q_def R_def by simp_all
  show ?thesis
    unfolding d e b centuries [OF y] month_formula(1) [OF m] quarters
    unfolding Q_def [symmetric] R_def [symmetric] M_def [symmetric]
    by (cases "m \<le> 2"; cases "R = 0"; cases "y \<le> 1999"; cases "y \<le> 2000") simp_all
qed

lemma tm_wday_update: "tm_wday (tm\<lparr>tm_wday := v\<rparr>) = v"
  by simp

lemma GregorianDay_wday:
  assumes "1970 \<le> y" "y \<le> 2038" "1 \<le> m" "m \<le> 12" "0 \<le> d"
    and k: "k = d + (MonthOffset ! nat (m - 1) + (if y mod 4 = 0 \<and> 2 < m then 1 else 0))"
    and tm: "tm_year tm = y" "tm_mon tm = m" "tm_mday tm = d + 1"
  shows "tm_wday (GregorianDay tm) = (days_before y + k - days_before 1970 + 4) mod 7"
proof -
  note h = centuries [OF assms(1,2)]
  have sd: "(y - 1) sdiv 4 = (y - 1) div 4" "(y - 1) sdiv 100 = (y - 1) div 100" "(y - 1) sdiv 400 = (y - 1) div 400"
    "y smod 4 = y mod 4" "y smod 100 = y mod 100" "y smod 400 = y mod 400"
    using assms(1) by (simp_all add: sdiv_pos smod_pos)
  have leap: "(y mod 4 = 0 \<and> (y mod 100 \<noteq> 0 \<or> y mod 400 = 0) \<and> 2 < m) = (y mod 4 = 0 \<and> 2 < m)"
  proof -
    have "y mod 4 = 0 \<Longrightarrow> y mod 100 \<noteq> 0 \<or> y mod 400 = 0"
    proof -
      assume "y mod 4 = 0"
      have "y = 2000" if "y mod 100 = 0"
      proof -
        have "y = 100 * (y div 100)" using div_mult_mod_eq [of y 100] that by linarith
        then show ?thesis using h(2) assms(1,2) by (simp split: if_splits)
      qed
      then show ?thesis by auto
    qed
    then show ?thesis by metis
  qed
  note off = month_formula(2) [OF assms(3,4)]
  define s where "s = (if y mod 4 = 0 \<and> 2 < m then 1 else 0) +
    ((y - 1) * 365 + ((y - 1) div 4 - (y - 1) div 100 + (y - 1) div 400) + MonthOffset ! nat (m - 1) + (d + 1))"
  have q: "0 \<le> (y - 1) div 4" using assms(1) by (simp only: pos_imp_zdiv_nonneg_iff zero_less_numeral)
  have c: "0 \<le> (if y mod 4 = 0 \<and> 2 < m then 1 else 0 :: int)" by simp
  have e: "- 19 \<le> - (if y \<le> 2000 then 19 else 20 :: int) + (if y \<le> 2000 then 4 else 5)" by simp
  have "1 * 365 \<le> (y - 1) * 365" using assms(1) by (intro mult_right_mono) simp_all
  then have "0 \<le> s" unfolding s_def h using q off assms(5) c e by linarith
  then have smod: "s smod 7 = s mod 7" by (rule smod_pos) (rule zero_less_numeral)
  have w: "tm_wday (GregorianDay tm) = s mod 7"
    unfolding smod [symmetric] unfolding GregorianDay_def Let_def tm sd leap s_def by (rule tm_wday_update)
  have lin: "s = (if y mod 4 = 0 \<and> 2 < m then 1 else 0) + ((y - 1) * 365 + (y div 4 - (if y mod 4 = 0 then 1 else 0)) +
      (if y \<le> 2000 then 4 else 5) - (if y \<le> 2000 then 19 else 20) + MonthOffset ! nat (m - 1) + (d + 1))"
    unfolding s_def h quarters by simp
  have b: "days_before y = 365 * y + (y div 4 + (if y mod 4 = 0 then 0 else 1))" "days_before 1970 = 719543"
    unfolding days_before_def quarters by simp_all
  have eq: "s = days_before y + k - days_before 1970 + 719163"
  proof -
    define Q R M where "Q = y div 4" and "R = y mod 4" and "M = MonthOffset ! nat (m - 1)"
    show ?thesis
      unfolding lin b k unfolding Q_def [symmetric] R_def [symmetric] M_def [symmetric]
      by (cases "R = 0"; cases "2 < m"; cases "y \<le> 2000") simp_all
  qed
  have "(A + 719163) mod 7 = (A + 4) mod 7" for A :: int by presburger
  then show ?thesis unfolding w eq .
qed

lemma div_lt_24: "a < 86400 \<Longrightarrow> a div 3600 < 24" and div_lt_60: "a < 3600 \<Longrightarrow> a div 60 < 60" for a :: int
  using div_mult_mod_eq [of a 3600] div_mult_mod_eq [of a 60]
    pos_mod_sign [of 3600 a] pos_mod_sign [of 60 a] by linarith+

text \<open>
  C34: \<open>mktime\<close> inverts \<open>to_tm\<close>: for every non-negative 32-bit time, \<open>to_tm\<close> ends without reading
  behind the table of months, the broken-down time is in range, \<open>mktime\<close> gives the time back, and
  the day of the week is that of the calendar (day 0 was a Thursday).
\<close>

theorem to_tm_mktime:
  assumes "0 \<le> tim" and "tim < 2 ^ 31"
  shows "\<exists>tm'. to_tm tim tm = Some tm' \<and>
    mktime (word_of_int (tm_year tm')) (word_of_int (tm_mon tm')) (word_of_int (tm_mday tm'))
      (word_of_int (tm_hour tm')) (word_of_int (tm_min tm')) (word_of_int (tm_sec tm')) = word_of_int tim \<and>
    tm_wday tm' = (tim div 86400 + 4) mod 7 \<and> tm_mon tm' \<in> {1..12} \<and> tm_mday tm' \<in> {1..31} \<and>
    tm_hour tm' \<in> {0..23} \<and> tm_min tm' \<in> {0..59} \<and> tm_sec tm' \<in> {0..59}"
proof -
  define day hms where "day = tim div 86400" and "hms = tim mod 86400"
  have hms: "0 \<le> hms" "hms < 86400" by (simp_all add: hms_def)
  have tim: "tim = day * 86400 + hms"
    unfolding day_def hms_def by (simp only: div_mult_mod_eq)
  have day: "0 \<le> day" "day \<le> 24855" using tim assms hms by simp_all
  have sd: "tim sdiv SECDAY = day" "tim smod SECDAY = hms" "hms sdiv 3600 = hms div 3600"
    "(hms smod 3600) sdiv 60 = (hms mod 3600) div 60" "(hms smod 3600) smod 60 = (hms mod 3600) mod 60"
    using sdiv_pos [of tim 86400] smod_pos [of tim 86400] sdiv_pos [of hms 3600] smod_pos [of hms 3600]
      sdiv_pos [of "hms mod 3600" 60] smod_pos [of "hms mod 3600" 60] assms(1) hms(1)
    by (simp_all only: SECDAY_def day_def hms_def zero_less_numeral pos_mod_sign simp_thms)
  obtain y d where yl: "year_loop STARTOFTIME day = (y, d)" by (cases "year_loop STARTOFTIME day")
  have y: "1970 \<le> y" "0 \<le> d" "d < days_in_year y" "days_before y + d = days_before 1970 + day"
    using year_loop_spec [OF _ day(1) yl] by (simp_all add: STARTOFTIME_def)
  have y2: "y \<le> 2038"
  proof (rule ccontr)
    assume "\<not> y \<le> 2038"
    then have "2039 \<le> y" by simp
    then have "(2039 + 3) div 4 \<le> (y + 3) div 4" by (intro zdiv_mono1) simp_all
    with \<open>2039 \<le> y\<close> have "days_before 2039 \<le> days_before y" unfolding days_before_def by linarith
    then show False using y(2,4) day(2) by (simp add: days_before_def)
  qed
  have leap: "leapyear y \<longleftrightarrow> y mod 4 = 0" using y(1) by (simp add: leapyear_def smod_pos)
  have "d < 365 + of_bool (leapyear y)" using y(3) by (simp add: days_in_year_def split: if_splits)
  from month_loop_spec [OF y(2) this] obtain m d' where
    ml: "month_loop 1 d (if leapyear y then month_days[1 := 29] else month_days) = Some (m, d')"
    and m: "1 \<le> m" "m \<le> 12" and d': "0 \<le> d'" "d' < 31"
    and dd: "d' = d - (MonthOffset ! nat (m - 1) + (if y mod 4 = 0 \<and> 2 < m then 1 else 0))"
    unfolding leap by blast
  define tm1 where "tm1 = tm\<lparr>tm_hour := hms div 3600, tm_min := (hms mod 3600) div 60,
      tm_sec := (hms mod 3600) mod 60, tm_year := y, tm_mon := m, tm_mday := d' + 1\<rparr>"
  have t: "to_tm tim tm = Some (GregorianDay tm1)"
    unfolding to_tm_def Let_def sd yl using ml by (simp add: tm1_def)
  have g: "tm_year (GregorianDay tm1) = y" "tm_mon (GregorianDay tm1) = m" "tm_mday (GregorianDay tm1) = d' + 1"
    "tm_hour (GregorianDay tm1) = hms div 3600" "tm_min (GregorianDay tm1) = (hms mod 3600) div 60"
    "tm_sec (GregorianDay tm1) = (hms mod 3600) mod 60"
    by (simp_all add: GregorianDay_def Let_def tm1_def)
  have "d = d' + (MonthOffset ! nat (m - 1) + (if y mod 4 = 0 \<and> 2 < m then 1 else 0))" using dd by simp
  from GregorianDay_wday [OF y(1) y2 m d'(1) this, of tm1]
  moreover have "days_before y + d - days_before 1970 = day" using y(4) by simp
  ultimately have w: "tm_wday (GregorianDay tm1) = (day + 4) mod 7" by (simp add: tm1_def)
  have n: "day_number y m (d' + 1) = day"
    using day_number_inverse [OF y(1) y2 m dd] y(4) by simp
  have s: "((day * 24 + hms div 3600) * 60 + (hms mod 3600) div 60) * 60 + (hms mod 3600) mod 60 = tim"
  proof -
    define a r b c where "a = hms div 3600" and "r = hms mod 3600" and "b = r div 60" and "c = r mod 60"
    have "a * 3600 + r = hms" "b * 60 + c = r"
      unfolding a_def b_def c_def r_def by (rule div_mult_mod_eq)+
    then show ?thesis
      unfolding tim a_def [symmetric] r_def [symmetric] b_def [symmetric] c_def [symmetric] by simp
  qed
  have "hms div 3600 \<in> {0..23}" "(hms mod 3600) div 60 \<in> {0..59}" "(hms mod 3600) mod 60 \<in> {0..59}"
  proof -
    have "hms div 3600 < 24" using hms by (intro div_lt_24) simp_all
    then show "hms div 3600 \<in> {0..23}" using hms(1) by simp
    have "0 \<le> hms mod 3600" "hms mod 3600 < 3600" by simp_all
    then show "(hms mod 3600) div 60 \<in> {0..59}" using div_lt_60 [of "hms mod 3600"] by simp
    show "(hms mod 3600) mod 60 \<in> {0..59}"
      using pos_mod_bound [of 60 "hms mod 3600"] by simp
  qed
  note tm_ranges = this
  have mk: "mktime (word_of_int y) (word_of_int m) (word_of_int (d' + 1)) (word_of_int (hms div 3600))
      (word_of_int ((hms mod 3600) div 60)) (word_of_int ((hms mod 3600) mod 60)) = word_of_int tim"
    unfolding mktime_of_int [OF y(1) y2 m] n s ..
  have mday: "m \<in> {1..12}" "d' + 1 \<in> {1..31}" using m d' by simp_all
  show ?thesis
  proof (intro exI [of _ "GregorianDay tm1"] conjI)
    show "to_tm tim tm = Some (GregorianDay tm1)" by (rule t)
    show "tm_wday (GregorianDay tm1) = (tim div 86400 + 4) mod 7" using w unfolding day_def .
  qed (unfold g, (rule mk mday tm_ranges)+)
qed

theorem to_tm_mktime_witness:
  "\<exists>tm'. to_tm 951782400 \<lparr>tm_sec = 0, tm_min = 0, tm_hour = 0, tm_mday = 0, tm_mon = 0, tm_year = 0,
      tm_wday = 0, tm_yday = 0, tm_isdst = 0\<rparr> = Some tm' \<and> tm_wday tm' = 2"
  using to_tm_mktime [of 951782400 "\<lparr>tm_sec = 0, tm_min = 0, tm_hour = 0, tm_mday = 0, tm_mon = 0,
      tm_year = 0, tm_wday = 0, tm_yday = 0, tm_isdst = 0\<rparr>"] by auto

end
