(* ===== verification/AddrMap.thy ===== *)
theory AddrMap
  imports Prelude
begin

text \<open>
  The address map of \<^verbatim>\<open>lib_generic/addr_map.c\<close>: a table of
  \<^verbatim>\<open>CONFIG_SYS_NUM_ADDR_MAP\<close> windows between virtual and physical addresses. The bounds are
  computed on 64-bit words, the results are cut to the 32 bits of an address.
\<close>

section \<open>The code\<close>

record addr_map_entry =
  am_paddr :: u32
  am_size :: u32
  am_vaddr :: u32

text \<open>The test of both searches, on the side of the window that starts at \<open>start\<close>.\<close>

definition map_hit :: "u32 \<Rightarrow> u32 \<Rightarrow> u32 \<Rightarrow> bool" where
  "map_hit start sz a =
     (let addr = ucast a :: u64; base = ucast start :: u64; upper = ucast sz + base - 1
      in addr \<ge> base \<and> addr \<le> upper)"

fun addrmap_virt_to_phys :: "addr_map_entry list \<Rightarrow> u32 \<Rightarrow> u32" where
  "addrmap_virt_to_phys [] vaddr = NOT 0"
| "addrmap_virt_to_phys (e # es) vaddr =
     (if am_size e = 0 then addrmap_virt_to_phys es vaddr
      else if map_hit (am_vaddr e) (am_size e) vaddr
      then ucast ((ucast vaddr :: u64) - ucast (am_vaddr e) + ucast (am_paddr e))
      else addrmap_virt_to_phys es vaddr)"

fun addrmap_phys_to_virt :: "addr_map_entry list \<Rightarrow> u32 \<Rightarrow> u32" where
  "addrmap_phys_to_virt [] paddr = NOT 0"
| "addrmap_phys_to_virt (e # es) paddr =
     (if am_size e = 0 then addrmap_phys_to_virt es paddr
      else if map_hit (am_paddr e) (am_size e) paddr
      then paddr - am_paddr e + am_vaddr e
      else addrmap_phys_to_virt es paddr)"

text \<open>\<open>None\<close> is a store outside the table.\<close>

definition addrmap_set_entry :: "addr_map_entry list \<Rightarrow> u32 \<Rightarrow> u32 \<Rightarrow> u32 \<Rightarrow> int \<Rightarrow> addr_map_entry list option" where
  "addrmap_set_entry address_map vaddr paddr sz idx =
     (if idx > int (length address_map) then Some address_map
      else if 0 \<le> idx \<and> idx < int (length address_map)
      then Some (address_map[nat idx := \<lparr>am_paddr = paddr, am_size = sz, am_vaddr = vaddr\<rparr>])
      else None)"

section \<open>The windows\<close>

lemma map_hit_iff:
  "sz \<noteq> 0 \<Longrightarrow> map_hit start sz a \<longleftrightarrow> unat start \<le> unat a \<and> unat a < unat start + unat sz"
proof -
  assume "sz \<noteq> 0"
  then have s: "0 < unat sz" by (simp add: unat_gt_0)
  have b: "unat start < 2 ^ 32" "unat sz < 2 ^ 32" "unat a < 2 ^ 32"
    using unsigned_less [where ?'a = nat, of start] unsigned_less [where ?'a = nat, of sz]
      unsigned_less [where ?'a = nat, of a] by simp_all
  have u: "unat (ucast x :: u64) = unat x" for x :: u32
    by (simp add: unsigned_ucast_eq unsigned_take_bit_eq [symmetric] take_bit_word_eq_self)
  have "unat (ucast sz + ucast start :: u64) = unat sz + unat start"
    using b by (simp add: unat_word_ariths u)
  moreover have "unat (x - 1) = unat x - 1" if "0 < unat x" for x :: u64
    using that by (metis unat_1 unat_sub word_less_eq_iff_unsigned word_le_nat_alt Suc_leI One_nat_def)
  ultimately have "unat (ucast sz + ucast start - 1 :: u64) = unat sz + unat start - 1"
    using s by simp
  then show ?thesis using s by (auto simp: map_hit_def Let_def word_le_nat_alt u)
qed

text \<open>A window is sound when neither of its sides wraps around the end of the address space.\<close>

definition window_ok :: "addr_map_entry \<Rightarrow> bool" where
  "window_ok e = (unat (am_paddr e) + unat (am_size e) \<le> 2 ^ 32 \<and> unat (am_vaddr e) + unat (am_size e) \<le> 2 ^ 32)"

definition phys_range :: "addr_map_entry \<Rightarrow> nat set" where
  "phys_range e = {unat (am_paddr e) ..< unat (am_paddr e) + unat (am_size e)}"

definition virt_range :: "addr_map_entry \<Rightarrow> nat set" where
  "virt_range e = {unat (am_vaddr e) ..< unat (am_vaddr e) + unat (am_size e)}"

lemma unat_shift:
  assumes "unat v \<le> unat a" "unat a < unat v + s" "unat p + s \<le> 2 ^ 32"
  shows "unat (a - v + p :: u32) = unat p + (unat a - unat v)"
proof -
  have "unat (a - v) = unat a - unat v" using assms(1) by (simp add: unat_sub word_le_nat_alt)
  then show ?thesis using assms by (simp add: unat_word_ariths)
qed

lemma cut_shift: "ucast ((ucast a :: u64) - ucast b + ucast c) = a - b + (c :: u32)"
proof -
  have down: "ucast w = (word_of_int (uint w) :: u32)" for w :: u64
    by (simp only: of_int_uint)
  have up: "uint (ucast w :: u64) = uint w" for w :: u32
    by (simp add: unsigned_ucast_eq take_bit_int_eq_self unsigned_less order_less_le_trans [OF uint_bounded])
  have "uint ((ucast a :: u64) - ucast b + ucast c) = take_bit 64 (uint a - uint b + uint c)"
    by (simp add: uint_word_ariths up mod_simps take_bit_eq_mod)
  then have "ucast ((ucast a :: u64) - ucast b + ucast c) = (word_of_int (take_bit 64 (uint a - uint b + uint c)) :: u32)"
    by (simp only: down)
  also have "\<dots> = word_of_int (uint a - uint b + uint c)"
    by (rule word_of_int_eq_iff [THEN iffD2]) (simp add: take_bit_take_bit)
  finally show ?thesis by simp
qed

lemma virt_to_phys_first:
  assumes "\<forall>e \<in> set es. window_ok e"
  shows "(\<exists>e \<in> set es. unat a \<in> virt_range e \<and> addrmap_virt_to_phys es a = a - am_vaddr e + am_paddr e) \<or>
    (unat a \<notin> (\<Union>e \<in> set es. virt_range e) \<and> addrmap_virt_to_phys es a = NOT 0)"
  using assms
proof (induction es)
  case (Cons e es)
  show ?case
  proof (cases "am_size e = 0")
    case True
    then have "virt_range e = {}" by (simp add: virt_range_def)
    then show ?thesis using Cons True by auto
  next
    case False
    then show ?thesis using Cons by (auto simp: map_hit_iff virt_range_def cut_shift)
  qed
qed simp

lemma phys_to_virt_first:
  assumes "\<forall>e \<in> set es. window_ok e"
  shows "(\<exists>e \<in> set es. unat a \<in> phys_range e \<and> addrmap_phys_to_virt es a = a - am_paddr e + am_vaddr e) \<or>
    (unat a \<notin> (\<Union>e \<in> set es. phys_range e) \<and> addrmap_phys_to_virt es a = NOT 0)"
  using assms
proof (induction es)
  case (Cons e es)
  show ?case
  proof (cases "am_size e = 0")
    case True
    then have "phys_range e = {}" by (simp add: phys_range_def)
    then show ?thesis using Cons True by auto
  next
    case False
    then show ?thesis using Cons by (auto simp: map_hit_iff phys_range_def)
  qed
qed simp

text \<open>
  translating a mapped virtual address to its physical address and back gives the address
  again, provided no window wraps around and physical windows of different entries are disjoint
  (virtual windows may overlap: the first one wins).
\<close>

lemma addrmap_roundtrip:
  assumes ok: "\<forall>e \<in> set es. window_ok e"
    and disj: "\<forall>e \<in> set es. \<forall>e' \<in> set es. phys_range e \<inter> phys_range e' \<noteq> {} \<longrightarrow> e = e'"
    and mapped: "unat v \<in> (\<Union>e \<in> set es. virt_range e)"
  shows "addrmap_phys_to_virt es (addrmap_virt_to_phys es v) = v"
proof -
  obtain e where e: "e \<in> set es" "unat v \<in> virt_range e"
    "addrmap_virt_to_phys es v = v - am_vaddr e + am_paddr e"
    using virt_to_phys_first [OF ok, of v] mapped by blast
  let ?p = "addrmap_virt_to_phys es v"
  have p: "unat ?p = unat (am_paddr e) + (unat v - unat (am_vaddr e))"
    using e ok unfolding e(3) by (intro unat_shift) (auto simp: virt_range_def window_ok_def)
  then have in_e: "unat ?p \<in> phys_range e" using e(2) by (auto simp: phys_range_def virt_range_def)
  then obtain e' where e': "e' \<in> set es" "unat ?p \<in> phys_range e'"
    "addrmap_phys_to_virt es ?p = ?p - am_paddr e' + am_vaddr e'"
    using phys_to_virt_first [OF ok, of ?p] e(1) by blast
  then have "e' = e" using disj e(1) in_e by blast
  then show ?thesis using e'(3) e(3) by simp
qed

theorem addrmap_roundtrip_witness:
  "addrmap_phys_to_virt [\<lparr>am_paddr = 0x80000000, am_size = 0x1000, am_vaddr = 0x1000\<rparr>]
     (addrmap_virt_to_phys [\<lparr>am_paddr = 0x80000000, am_size = 0x1000, am_vaddr = 0x1000\<rparr>] 0x1004) = 0x1004"
  by (rule addrmap_roundtrip) (simp_all add: window_ok_def virt_range_def)

text \<open>The bound check of \<open>addrmap_set_entry\<close> lets the index one past the table through, and every
  negative index.\<close>

lemma addrmap_set_entry_at_limit: "addrmap_set_entry m v p sz (int (length m)) = None"
  by (simp add: addrmap_set_entry_def)

lemma addrmap_set_entry_inside:
  "0 \<le> idx \<Longrightarrow> idx < int (length m) \<Longrightarrow> addrmap_set_entry m v p sz idx =
     Some (m[nat idx := \<lparr>am_paddr = p, am_size = sz, am_vaddr = v\<rparr>])"
  by (simp add: addrmap_set_entry_def)

end
