(* ===== verification/Div64.thy ===== *)
theory Div64
  imports Prelude
begin

text \<open>
  The 64-by-32-bit division of \<^verbatim>\<open>lib_generic/div64.c\<close> and the macro \<open>do_div\<close> of
  \<^verbatim>\<open>include/div64.h\<close> around it, which the target uses because it has no such instruction:
  number formatting and the timer code divide through it.
\<close>

section \<open>The code\<close>

text \<open>\<^verbatim>\<open>while ((int64_t)b > 0 && b < rem) { b = b+b; d = d+d; }\<close>\<close>

function div64_grow :: "u64 \<Rightarrow> u64 \<Rightarrow> u64 \<Rightarrow> u64 \<times> u64" where
  "div64_grow rem b d = (if 0 < sint b \<and> b < rem then div64_grow rem (b + b) (d + d) else (b, d))"
  by pat_completeness auto

lemma sint_pos_less: "0 < sint (b :: u64) \<Longrightarrow> 0 < unat b \<and> unat b < 2 ^ 63"
proof -
  assume a: "0 < sint b"
  have "\<not> bit b 63"
  proof
    assume "bit b 63"
    then have "sint b < 0" using bit_last_iff [of b] by simp
    with a show False by simp
  qed
  then have "b = take_bit 63 b"
    by (intro bit_word_eqI) (auto simp: bit_take_bit_iff less_Suc_eq nat_less_le numeral_eq_Suc)
  then have "unat b = take_bit 63 (unat b)" by (metis unsigned_take_bit_eq)
  then have "unat b < 2 ^ 63" by (metis take_bit_nat_less_exp)
  moreover have "b \<noteq> 0" using a by auto
  ultimately show ?thesis by (simp add: unat_gt_0)
qed

lemma unat_double: "unat (b :: u64) < 2 ^ 63 \<Longrightarrow> unat (b + b) = 2 * unat b"
  by (simp add: unat_word_ariths)

termination div64_grow
proof (relation "measure (\<lambda>(rem, b, d). 2 ^ 64 - unat b)")
  fix rem b d :: u64
  assume "0 < sint b \<and> b < rem"
  with sint_pos_less [of b] have "0 < unat b" "unat b < 2 ^ 63" by simp_all
  then show "((rem, b + b, d + d), (rem, b, d)) \<in> measure (\<lambda>(rem, b, d). 2 ^ 64 - unat b)"
    using unat_double [of b] by simp
qed simp

declare div64_grow.simps [simp del]

text \<open>The \<^verbatim>\<open>do ... while (d)\<close> loop: the remainder and the quotient.\<close>

function div64_reduce :: "u64 \<Rightarrow> u64 \<Rightarrow> u64 \<Rightarrow> u64 \<Rightarrow> u64 \<times> u64" where
  "div64_reduce rem b d res =
     (let (rem, res) = (if rem \<ge> b then (rem - b, res + d) else (rem, res));
          b = drop_bit 1 b; d = drop_bit 1 d
      in if d \<noteq> 0 then div64_reduce rem b d res else (rem, res))"
  by pat_completeness auto

lemma unat_half: "unat (drop_bit 1 d) = unat d div 2" for d :: u64
  by (simp add: unat_drop_bit_eq drop_bit_eq_div unat_div)

termination div64_reduce
proof (relation "measure (\<lambda>(rem, b, d, res). unat d)")
  fix rem b d res r' q' b' d' :: u64 and x
  assume "d' = drop_bit 1 d" "d' \<noteq> 0"
  moreover from this have "unat d div 2 \<noteq> 0" using unat_half [of d] by (metis unat_eq_zero)
  then have "unat d div 2 < unat d" by (intro div_less_dividend) auto
  ultimately show "((r', b', d', q'), (rem, b, d, res)) \<in> measure (\<lambda>(rem, b, d, res). unat d)"
    using unat_half [of d] by simp
qed simp

declare div64_reduce.simps [simp del]

text \<open>The result is the new \<open>*n\<close>, the quotient, and the remainder that is returned, cut to 32 bits.\<close>

definition div64_32 :: "u64 \<Rightarrow> u32 \<Rightarrow> u64 \<times> u32" where
  "div64_32 n base =
     (let b = ucast base; d = 1; high = ucast (drop_bit 32 n) :: u32;
          (res, rem) = (if high \<ge> base
                        then (let high = high div base in (push_bit 32 (ucast high), n - push_bit 32 (ucast (high * base))))
                        else (0, n));
          (b, d) = div64_grow rem b d;
          (rem, res) = div64_reduce rem b d res
      in (res, ucast rem))"

definition do_div :: "u64 \<Rightarrow> u32 \<Rightarrow> u64 \<times> u32" where
  "do_div n base =
     (if drop_bit 32 n = 0 then (ucast ((ucast n :: u32) div base), (ucast n :: u32) mod base)
      else div64_32 n base)"

section \<open>Correctness\<close>

lemma div64_grow_spec:
  assumes "0 < m" and "unat b = unat d * m" and "unat d = 2 ^ j" and "div64_grow rem b d = (b', d')"
  shows "\<exists>k. unat d' = 2 ^ k \<and> unat b' = unat d' * m \<and> (unat rem \<le> unat b' \<or> 2 ^ 63 \<le> unat b')"
  using assms(2-)
proof (induction rem b d arbitrary: j rule: div64_grow.induct)
  case (1 rem b d)
  show ?case
  proof (cases "0 < sint b \<and> b < rem")
    case True
    then have lt: "unat b < 2 ^ 63" using sint_pos_less by blast
    have "unat d \<le> unat b" using assms(1) unfolding 1(2) by simp
    then have "unat d < 2 ^ 63" using lt by (rule le_less_trans)
    then have dd: "unat (d + d) = 2 ^ Suc j" "unat (b + b) = unat (d + d) * m"
      using unat_double lt 1(2,3) by simp_all
    have "div64_grow rem (b + b) (d + d) = (b', d')" using 1(4) True by (subst (asm) div64_grow.simps) simp
    from 1(1) [OF True dd(2,1) this] show ?thesis .
  next
    case False
    then have "b' = b" "d' = d" using 1(4) by (subst (asm) div64_grow.simps, simp)+
    moreover have "unat rem \<le> unat b \<or> 2 ^ 63 \<le> unat b"
    proof (cases "b < rem")
      case True
      with False have np: "sint b \<le> 0" by simp
      have "b \<noteq> 0" using 1(2,3) assms(1) by auto
      then have "sint b < 0" using np by (metis order_le_less signed_eq_0_iff)
      then have "bit b 63" using bit_last_iff [of b] by simp
      then have "bit (unat b) 63" by (simp add: bit_unsigned_iff)
      then have "unat b div 2 ^ 63 \<noteq> 0" by (metis bit_nat_def even_zero)
      then have "2 ^ 63 \<le> unat b" by (metis div_less not_le)
      then show ?thesis ..
    qed (simp add: not_less word_le_nat_alt)
    ultimately show ?thesis using 1(2,3) by auto
  qed
qed

lemma div64_reduce_spec:
  assumes "0 < m" and "unat d = 2 ^ k" and "unat b = 2 ^ k * m" and "unat rem < 2 * unat b"
    and "unat res + unat rem div m < 2 ^ 64" and "div64_reduce rem b d res = (rem', res')"
  shows "unat res' = unat res + unat rem div m \<and> unat rem' = unat rem mod m"
  using assms(2-)
proof (induction k arbitrary: rem b d res)
  case (0 rem b d res)
  have "unat (drop_bit 1 d) = 0" unfolding unat_half using 0 by simp
  then have d': "drop_bit 1 d = 0" by (simp add: unat_eq_zero)
  have b: "unat b = m" using 0 by simp
  have d: "d = 1" using 0(1) by (simp add: word_unat_eq_iff)
  show ?case
  proof (cases "rem \<ge> b")
    case True
    then have le: "m \<le> unat rem" using b by (simp add: word_le_nat_alt)
    have q: "unat rem div m = 1" using le 0(3) b assms(1) by (intro div_nat_eqI) simp_all
    have "res' = res + 1" "rem' = rem - b" using 0(5) True d' d by (subst (asm) div64_reduce.simps, simp)+
    moreover have "unat (rem - b) = unat rem - m" using True b by (simp add: unat_sub)
    moreover have "unat (res + 1) = unat res + 1" using 0(4) q by (simp add: unat_word_ariths)
    moreover have "unat rem mod m = unat rem - m" using q le by (simp add: minus_div_mult_eq_mod [symmetric])
    ultimately show ?thesis using q by simp
  next
    case False
    then have "unat rem < m" using b by (simp add: word_le_nat_alt)
    moreover have "res' = res" "rem' = rem" using 0(5) False d' by (subst (asm) div64_reduce.simps, simp)+
    ultimately show ?thesis by simp
  qed
next
  case (Suc k rem b d res)
  let ?b = "drop_bit 1 b" and ?d = "drop_bit 1 d"
  have b2: "unat ?b = 2 ^ k * m" "unat ?d = 2 ^ k" unfolding unat_half Suc.prems(1,2) by simp_all
  then have d': "?d \<noteq> 0" by (metis power_not_zero unat_0 zero_neq_numeral)
  define rem1 where "rem1 = (if rem \<ge> b then rem - b else rem)"
  define res1 where "res1 = (if rem \<ge> b then res + d else res)"
  have step: "div64_reduce rem1 ?b ?d res1 = (rem', res')"
    using Suc.prems(5) d' by (subst (asm) div64_reduce.simps) (simp add: rem1_def res1_def split: if_splits)
  have bnat: "unat b = 2 ^ Suc k * m" by (rule Suc.prems(2))
  show ?case
  proof (cases "rem \<ge> b")
    case True
    then have le: "unat b \<le> unat rem" by (simp add: word_le_nat_alt)
    have r1: "unat rem1 = unat rem - unat b" using True by (simp add: rem1_def unat_sub)
    have split: "unat rem = 2 ^ Suc k * m + unat rem1" using r1 le bnat by simp
    have q: "unat rem div m = 2 ^ Suc k + unat rem1 div m" "unat rem mod m = unat rem1 mod m"
      unfolding split using assms(1) by simp_all
    have s1: "unat res1 = unat res + 2 ^ Suc k"
      using Suc.prems(1,4) True q by (simp add: res1_def unat_word_ariths)
    have "unat rem1 < 2 * unat ?b" using Suc.prems(3) r1 le b2 bnat by simp
    moreover have "unat res1 + unat rem1 div m < 2 ^ 64" using Suc.prems(4) q s1 by simp
    ultimately show ?thesis using Suc.IH [OF b2(2,1) _ _ step] q s1 by simp
  next
    case False
    then have "unat rem < 2 * unat ?b" using b2 bnat by (simp add: word_le_nat_alt)
    then show ?thesis using Suc.IH [OF b2(2,1) _ _ step] Suc.prems(4) False by (simp add: rem1_def res1_def)
  qed
qed

lemma unat_ucast_u32_u64 [simp]: "unat (ucast (x :: u32) :: u64) = unat x"
  by (simp add: unsigned_ucast_eq unsigned_take_bit_eq [symmetric] take_bit_word_eq_self)

lemma unat_ucast_u64_u32: "unat (ucast (x :: u64) :: u32) = unat x mod 2 ^ 32"
  by (simp add: unsigned_ucast_eq unsigned_take_bit_eq take_bit_eq_mod)

lemma div64_32_main:
  assumes "base \<noteq> 0"
  shows "unat (fst (div64_32 n base)) = unat n div unat base \<and> unat (snd (div64_32 n base)) = unat n mod unat base"
proof -
  let ?m = "unat base" and ?N = "unat n"
  have m: "0 < ?m" "?m < 2 ^ 32" using assms unsigned_less [of base, where ?'a = nat] by (simp_all add: unat_gt_0)
  have N: "?N < 2 ^ 64" using unsigned_less [of n, where ?'a = nat] by simp
  define high where "high = (ucast (drop_bit 32 n) :: u32)"
  have high: "unat high = ?N div 2 ^ 32"
  proof -
    have "?N div 2 ^ 32 < 2 ^ 32" using N by (intro less_mult_imp_div_less) simp
    then show ?thesis
      by (simp add: high_def unat_ucast_u64_u32 unat_drop_bit_eq drop_bit_eq_div unat_div)
  qed
  define q where "q = (if base \<le> high then unat high div ?m else 0)"
  define res where "res = (if base \<le> high then push_bit 32 (ucast (high div base)) else 0 :: u64)"
  define rem where "rem = (if base \<le> high then n - push_bit 32 (ucast ((high div base) * base)) else n)"
  have qm: "q * ?m \<le> unat high" unfolding q_def by (simp add: div_times_less_eq_dividend)
  have q32: "q < 2 ^ 32"
  proof -
    have "q \<le> q * ?m" using m(1) by (cases ?m) simp_all
    also have "\<dots> \<le> unat high" by (rule qm)
    also have "\<dots> < 2 ^ 32" using unsigned_less [of high, where ?'a = nat] by simp
    finally show ?thesis .
  qed
  have hN: "unat high * 2 ^ 32 \<le> ?N" unfolding high by (rule div_times_less_eq_dividend)
  then have qN: "q * ?m * 2 ^ 32 \<le> ?N" using mult_le_mono1 [OF qm, of "2 ^ 32"] by simp
  have push: "unat (push_bit 32 (ucast x :: u64)) = unat x * 2 ^ 32" for x :: u32
    using unsigned_less [of x, where ?'a = nat] by (simp add: push_bit_eq_mult unat_word_ariths)
  have res: "unat res = q * 2 ^ 32" by (simp add: res_def q_def push unat_div)
  have hb: "unat ((high div base) * base) = q * ?m" if "base \<le> high"
  proof -
    have e: "unat (high div base) = q" using that by (simp add: q_def unat_div)
    have "q * ?m < 2 ^ 32" using qm unsigned_less [of high, where ?'a = nat] by (simp add: le_less_trans)
    then show ?thesis unfolding unat_word_ariths(2) e by simp
  qed
  have rem: "unat rem = ?N - q * ?m * 2 ^ 32"
    using qN hb by (cases "base \<le> high") (simp_all add: rem_def q_def push unat_sub word_le_nat_alt)
  have split: "?N = q * 2 ^ 32 * ?m + unat rem" using rem qN by (simp add: ac_simps)
  have total: "q * 2 ^ 32 + unat rem div ?m = ?N div ?m" "unat rem mod ?m = ?N mod ?m"
    unfolding split using m(1) by simp_all
  obtain b' d' where g: "div64_grow rem (ucast base) 1 = (b', d')" by (cases "div64_grow rem (ucast base) 1")
  from div64_grow_spec [OF m(1) _ _ g, of 0] obtain k where
    k: "unat d' = 2 ^ k" "unat b' = unat d' * ?m" "unat rem \<le> unat b' \<or> 2 ^ 63 \<le> unat b'" by auto
  have b0: "0 < unat b'" using k m(1) by simp
  have lt: "unat rem < 2 * unat b'" using k(3) b0 unsigned_less [of rem, where ?'a = nat] by auto
  obtain rem' res' where r: "div64_reduce rem b' d' res = (rem', res')" by (cases "div64_reduce rem b' d' res")
  have "unat res + unat rem div ?m < 2 ^ 64"
    unfolding res total(1) using N by (rule le_less_trans [OF div_le_dividend])
  from div64_reduce_spec [OF m(1) k(1) _ lt this r] k
  have f: "unat res' = ?N div ?m" "unat rem' = ?N mod ?m" using total by (simp_all add: res)
  have run: "div64_32 n base = (res', ucast rem')"
    using g r unfolding div64_32_def Let_def
    by (auto simp: res_def rem_def high_def split: if_splits)
  have "?N mod ?m < 2 ^ 32" using m by (meson less_trans mod_less_divisor)
  then show ?thesis using f by (simp add: run unat_ucast_u64_u32)
qed

text \<open>
  the shift-and-subtract division is division: for every 64-bit dividend and every divisor but
  0, \<open>__div64_32\<close> ends and gives the quotient and the remainder, with no overflow on the way.
\<close>

lemma div64_32_correct:
  assumes "base \<noteq> 0"
  shows "unat (fst (div64_32 n base)) = unat n div unat base \<and> unat (snd (div64_32 n base)) = unat n mod unat base"
  by (rule div64_32_main [OF assms])

theorem div64_32_correct_witness:
  "unat (fst (div64_32 0x123456789ABCDEF 10)) = 8198552921648689"
  using div64_32_correct [of 10 "0x123456789ABCDEF"] by simp

lemma do_div_spec:
  assumes "base \<noteq> 0"
  shows "unat (fst (do_div n base)) = unat n div unat base \<and> unat (snd (do_div n base)) = unat n mod unat base"
proof (cases "drop_bit 32 n = 0")
  case True
  then have "unat n div 2 ^ 32 = 0" by (metis unat_0 unat_drop_bit_eq drop_bit_eq_div)
  then have "unat n < 2 ^ 32" by (simp add: div_eq_0_iff)
  then have "unat (ucast n :: u32) = unat n" by (simp add: unat_ucast_u64_u32)
  then show ?thesis using True by (simp add: do_div_def unat_div unat_mod)
next
  case False
  then show ?thesis using div64_32_main [OF assms, of n] by (simp add: do_div_def)
qed

end
