(* ===== verification/CStrings.thy ===== *)
theory CStrings
  imports Prelude "HOL-Library.Sublist"
begin

text \<open>
  The character classes of \<^verbatim>\<open>lib_generic/ctype.c\<close> with \<^verbatim>\<open>include/linux/ctype.h\<close>, and the string
  and memory routines of \<^verbatim>\<open>lib_generic/string.c\<close>.

  A pointer into a C string that is only read is the list of characters from there on; \<open>deref\<close> is
  \<open>*s\<close>, the NUL behind the last character included, and stepping the pointer is \<open>tl\<close>. A NULL
  pointer, where the code tests for it, is \<open>None\<close>. The routines that write memory work on the
  whole memory, a list of bytes with pointers as indices, so that source and destination may
  overlap; \<open>None\<close> is then an access outside this memory. \<open>strdup\<close> only wraps \<open>malloc\<close> and is not
  modelled.
\<close>

section \<open>Character classes\<close>

definition ctype_U :: u8 where "ctype_U = 0x01"
definition ctype_L :: u8 where "ctype_L = 0x02"
definition ctype_D :: u8 where "ctype_D = 0x04"
definition ctype_C :: u8 where "ctype_C = 0x08"
definition ctype_P :: u8 where "ctype_P = 0x10"
definition ctype_S :: u8 where "ctype_S = 0x20"
definition ctype_X :: u8 where "ctype_X = 0x40"
definition ctype_SP :: u8 where "ctype_SP = 0x80"

definition ctype :: "u8 list" where
  "ctype =
     (let mU = ctype_U; mL = ctype_L; mD = ctype_D; mC = ctype_C; mP = ctype_P; mS = ctype_S; mX = ctype_X;
          mSP = ctype_SP
      in [mC,mC,mC,mC,mC,mC,mC,mC,
          mC,mC OR mS,mC OR mS,mC OR mS,mC OR mS,mC OR mS,mC,mC,
          mC,mC,mC,mC,mC,mC,mC,mC,
          mC,mC,mC,mC,mC,mC,mC,mC,
          mS OR mSP,mP,mP,mP,mP,mP,mP,mP,
          mP,mP,mP,mP,mP,mP,mP,mP,
          mD,mD,mD,mD,mD,mD,mD,mD,
          mD,mD,mP,mP,mP,mP,mP,mP,
          mP,mU OR mX,mU OR mX,mU OR mX,mU OR mX,mU OR mX,mU OR mX,mU,
          mU,mU,mU,mU,mU,mU,mU,mU,
          mU,mU,mU,mU,mU,mU,mU,mU,
          mU,mU,mU,mP,mP,mP,mP,mP,
          mP,mL OR mX,mL OR mX,mL OR mX,mL OR mX,mL OR mX,mL OR mX,mL,
          mL,mL,mL,mL,mL,mL,mL,mL,
          mL,mL,mL,mL,mL,mL,mL,mL,
          mL,mL,mL,mP,mP,mP,mP,mC,
          0,0,0,0,0,0,0,0,0,0,0,0,0,0,0,0,
          0,0,0,0,0,0,0,0,0,0,0,0,0,0,0,0,
          mS OR mSP,mP,mP,mP,mP,mP,mP,mP,mP,mP,mP,mP,mP,mP,mP,mP,
          mP,mP,mP,mP,mP,mP,mP,mP,mP,mP,mP,mP,mP,mP,mP,mP,
          mU,mU,mU,mU,mU,mU,mU,mU,mU,mU,mU,mU,mU,mU,mU,mU,
          mU,mU,mU,mU,mU,mU,mU,mP,mU,mU,mU,mU,mU,mU,mU,mL,
          mL,mL,mL,mL,mL,mL,mL,mL,mL,mL,mL,mL,mL,mL,mL,mL,
          mL,mL,mL,mL,mL,mL,mL,mP,mL,mL,mL,mL,mL,mL,mL,mL])"

definition ismask :: "char \<Rightarrow> u8" where "ismask x = ctype ! of_char x"

definition isalnum :: "char \<Rightarrow> bool" where "isalnum c \<longleftrightarrow> ismask c AND (ctype_U OR ctype_L OR ctype_D) \<noteq> 0"
definition isalpha :: "char \<Rightarrow> bool" where "isalpha c \<longleftrightarrow> ismask c AND (ctype_U OR ctype_L) \<noteq> 0"
definition iscntrl :: "char \<Rightarrow> bool" where "iscntrl c \<longleftrightarrow> ismask c AND ctype_C \<noteq> 0"
definition isdigit :: "char \<Rightarrow> bool" where "isdigit c \<longleftrightarrow> ismask c AND ctype_D \<noteq> 0"
definition isgraph :: "char \<Rightarrow> bool" where
  "isgraph c \<longleftrightarrow> ismask c AND (ctype_P OR ctype_U OR ctype_L OR ctype_D) \<noteq> 0"
definition islower :: "char \<Rightarrow> bool" where "islower c \<longleftrightarrow> ismask c AND ctype_L \<noteq> 0"
definition isprint :: "char \<Rightarrow> bool" where
  "isprint c \<longleftrightarrow> ismask c AND (ctype_P OR ctype_U OR ctype_L OR ctype_D OR ctype_SP) \<noteq> 0"
definition ispunct :: "char \<Rightarrow> bool" where "ispunct c \<longleftrightarrow> ismask c AND ctype_P \<noteq> 0"
definition isspace :: "char \<Rightarrow> bool" where "isspace c \<longleftrightarrow> ismask c AND ctype_S \<noteq> 0"
definition isupper :: "char \<Rightarrow> bool" where "isupper c \<longleftrightarrow> ismask c AND ctype_U \<noteq> 0"
definition isxdigit :: "char \<Rightarrow> bool" where "isxdigit c \<longleftrightarrow> ismask c AND (ctype_D OR ctype_X) \<noteq> 0"

definition tolower :: "char \<Rightarrow> char" where
  "tolower c = (if isupper c then char_of (of_char c - (65 - 97) :: int) else c)"

definition toupper :: "char \<Rightarrow> char" where
  "toupper c = (if islower c then char_of (of_char c - (97 - 65) :: int) else c)"

section \<open>Reading strings\<close>

definition NUL :: char where "NUL = CHR 0x00"

fun deref :: "string \<Rightarrow> char" where
  "deref [] = NUL"
| "deref (c # s) = c"

lemma deref_not_NUL [dest]: "deref s \<noteq> NUL \<Longrightarrow> s \<noteq> []" by (cases s) auto

fun strlen :: "string \<Rightarrow> nat" where
  "strlen [] = 0"
| "strlen (c # s) = (if c = NUL then 0 else Suc (strlen s))"

fun strnlen :: "string \<Rightarrow> nat \<Rightarrow> nat" where
  "strnlen s 0 = 0"
| "strnlen s (Suc count) = (if deref s = NUL then 0 else Suc (strnlen (tl s) count))"

text \<open>The difference is cut to a \<^verbatim>\<open>signed char\<close>.\<close>

function strcmp :: "string \<Rightarrow> string \<Rightarrow> int" where
  "strcmp cs ct =
     (let res = of_char (deref cs) - of_char (deref ct) :: u8
      in if res \<noteq> 0 \<or> deref cs = NUL then sint res else strcmp (tl cs) (tl ct))"
  by pat_completeness auto

termination by (relation "measure (length \<circ> fst)") auto

fun strncmp :: "string \<Rightarrow> string \<Rightarrow> nat \<Rightarrow> int" where
  "strncmp cs ct 0 = 0"
| "strncmp cs ct (Suc count) =
     (let res = of_char (deref cs) - of_char (deref ct) :: u8
      in if res \<noteq> 0 \<or> deref cs = NUL then sint res
         else if count = 0 then sint res else strncmp (tl cs) (tl ct) count)"

function strchr :: "string \<Rightarrow> int \<Rightarrow> string option" where
  "strchr s c = (if deref s = char_of c then Some s else if deref s = NUL then None else strchr (tl s) c)"
  by pat_completeness auto

termination by (relation "measure (length \<circ> fst)") auto

fun strrchr_loop :: "string \<Rightarrow> int \<Rightarrow> nat \<Rightarrow> string option" where
  "strrchr_loop s c p =
     (if deref (drop p s) = char_of c then Some (drop p s)
      else if p = 0 then None else strrchr_loop s c (p - 1))"

definition strrchr :: "string \<Rightarrow> int \<Rightarrow> string option" where
  "strrchr s c = strrchr_loop s c (strlen s)"

fun char_in :: "char \<Rightarrow> string \<Rightarrow> bool" where
  "char_in c [] \<longleftrightarrow> False"
| "char_in c (a # accept) \<longleftrightarrow> a \<noteq> NUL \<and> (c = a \<or> char_in c accept)"

fun strspn :: "string \<Rightarrow> string \<Rightarrow> nat" where
  "strspn [] accept = 0"
| "strspn (p # s) accept =
     (if p = NUL then 0 else if char_in p accept then Suc (strspn s accept) else 0)"

fun strpbrk :: "string \<Rightarrow> string \<Rightarrow> string option" where
  "strpbrk [] ct = None"
| "strpbrk (c # cs) ct =
     (if c = NUL then None else if char_in c ct then Some (c # cs) else strpbrk cs ct)"

text \<open>
  \<open>strtok\<close> and \<open>strsep\<close> cut the string at the separator they find: the token that is returned ends
  there, and the pointer that is kept (in \<open>___strtok\<close> or in \<open>*s\<close>) is behind it.
\<close>

definition cut_at :: "string \<Rightarrow> string option \<Rightarrow> string \<times> string option" where
  "cut_at sbegin send =
     (case send of None \<Rightarrow> (sbegin, None)
      | Some e \<Rightarrow> (take (length sbegin - length e) sbegin, Some (tl e)))"

definition strtok :: "string option \<Rightarrow> string option \<Rightarrow> string \<Rightarrow> string option \<times> string option" where
  "strtok strtok_ptr s ct =
     (case (case s of Some p \<Rightarrow> Some p | None \<Rightarrow> strtok_ptr) of
        None \<Rightarrow> (None, strtok_ptr)
      | Some sbegin \<Rightarrow>
          (let sbegin = drop (strspn sbegin ct) sbegin in
           if deref sbegin = NUL then (None, None)
           else (let (tok, send) = cut_at sbegin (strpbrk sbegin ct) in (Some tok, send))))"

definition strsep :: "string option \<Rightarrow> string \<Rightarrow> string option \<times> string option" where
  "strsep s ct =
     (case s of None \<Rightarrow> (None, None)
      | Some sbegin \<Rightarrow> (let (tok, send) = cut_at sbegin (strpbrk sbegin ct) in (Some tok, send)))"

fun swab_loop :: "string \<Rightarrow> string" where
  "swab_loop (p # q # s) = (if p \<noteq> NUL \<and> q \<noteq> NUL then q # p # swab_loop s else p # q # s)"
| "swab_loop s = s"

definition strswab :: "string option \<Rightarrow> string option" where
  "strswab s = (case s of None \<Rightarrow> None | Some s \<Rightarrow> if deref s = NUL then None else Some (swab_loop s))"

fun memcmp :: "string \<Rightarrow> string \<Rightarrow> nat \<Rightarrow> int" where
  "memcmp su1 su2 0 = 0"
| "memcmp su1 su2 (Suc count) =
     (let res = int (of_char (deref su1)) - int (of_char (deref su2))
      in if res \<noteq> 0 then res else memcmp (tl su1) (tl su2) count)"

text \<open>\<open>memscan\<close> and \<open>memchr\<close> give the index of the byte; \<open>memscan\<close> gives the size when it is missing.\<close>

fun memscan :: "string \<Rightarrow> int \<Rightarrow> nat \<Rightarrow> nat" where
  "memscan p c 0 = 0"
| "memscan p c (Suc n) = (if int (of_char (deref p)) = c then 0 else Suc (memscan (tl p) c n))"

fun memchr :: "string \<Rightarrow> int \<Rightarrow> nat \<Rightarrow> nat option" where
  "memchr p c 0 = None"
| "memchr p c (Suc n) = (if char_of c = deref p then Some 0 else map_option Suc (memchr (tl p) c n))"

function strstr_loop :: "string \<Rightarrow> nat \<Rightarrow> string \<Rightarrow> nat \<Rightarrow> string option" where
  "strstr_loop s1 l1 s2 l2 =
     (if l1 \<ge> l2 \<and> l2 > 0 then (if memcmp s1 s2 l2 = 0 then Some s1 else strstr_loop (tl s1) (l1 - 1) s2 l2)
      else None)"
  by pat_completeness auto

termination by (relation "measure (\<lambda>(s1, l1, s2, l2). l1)") auto

definition strstr :: "string \<Rightarrow> string \<Rightarrow> string option" where
  "strstr s1 s2 = (let l2 = strlen s2 in if l2 = 0 then Some s1 else strstr_loop s1 (strlen s1) s2 l2)"

declare strcmp.simps [simp del] strchr.simps [simp del] strstr_loop.simps [simp del]
  strrchr_loop.simps [simp del]

section \<open>Writing memory\<close>

text \<open>A store of one byte; \<open>None\<close> when source or destination is outside the memory.\<close>

definition copy1 :: "string \<Rightarrow> nat \<Rightarrow> nat \<Rightarrow> string option" where
  "copy1 m dest src = (if dest < length m \<and> src < length m then Some (m[dest := m ! src]) else None)"

function strcpy :: "string \<Rightarrow> nat \<Rightarrow> nat \<Rightarrow> string option" where
  "strcpy m dest src =
     (if dest < length m \<and> src < length m
      then (if m ! src = NUL then copy1 m dest src else strcpy (m[dest := m ! src]) (dest + 1) (src + 1))
      else None)"
  by pat_completeness auto

termination by (relation "measure (\<lambda>(m, d, s). length m - s)") auto

fun strncpy :: "string \<Rightarrow> nat \<Rightarrow> nat \<Rightarrow> nat \<Rightarrow> string option" where
  "strncpy m dest src 0 = Some m"
| "strncpy m dest src (Suc count) =
     (if dest < length m \<and> src < length m
      then (if m ! src = NUL then copy1 m dest src
            else strncpy (m[dest := m ! src]) (dest + 1) (src + 1) count)
      else None)"

text \<open>\<open>skip_str m p\<close> is the loop \<open>while (*p) p++\<close>.\<close>

function skip_str :: "string \<Rightarrow> nat \<Rightarrow> nat option" where
  "skip_str m p = (if p < length m then (if m ! p = NUL then Some p else skip_str m (p + 1)) else None)"
  by pat_completeness auto

termination by (relation "measure (\<lambda>(m, p). length m - p)") auto

definition strcat :: "string \<Rightarrow> nat \<Rightarrow> nat \<Rightarrow> string option" where
  "strcat m dest src = (case skip_str m dest of None \<Rightarrow> None | Some d \<Rightarrow> strcpy m d src)"

fun strncat_loop :: "string \<Rightarrow> nat \<Rightarrow> nat \<Rightarrow> nat \<Rightarrow> string option" where
  "strncat_loop m dest src 0 = (if dest < length m then Some (m[dest := NUL]) else None)"
| "strncat_loop m dest src (Suc count) =
     (if dest < length m \<and> src < length m
      then (if m ! src = NUL then copy1 m dest src
            else strncat_loop (m[dest := m ! src]) (dest + 1) (src + 1) count)
      else None)"

definition strncat :: "string \<Rightarrow> nat \<Rightarrow> nat \<Rightarrow> nat \<Rightarrow> string option" where
  "strncat m dest src count =
     (if count = 0 then Some m
      else case skip_str m dest of None \<Rightarrow> None | Some d \<Rightarrow> strncat_loop m d src count)"

fun memset :: "string \<Rightarrow> nat \<Rightarrow> int \<Rightarrow> nat \<Rightarrow> string option" where
  "memset m xs c 0 = Some m"
| "memset m xs c (Suc count) =
     (if xs < length m then memset (m[xs := char_of c]) (xs + 1) c count else None)"

fun copy_up :: "string \<Rightarrow> nat \<Rightarrow> nat \<Rightarrow> nat \<Rightarrow> string option" where
  "copy_up m tmp s 0 = Some m"
| "copy_up m tmp s (Suc count) =
     (case copy1 m tmp s of None \<Rightarrow> None | Some m' \<Rightarrow> copy_up m' (tmp + 1) (s + 1) count)"

text \<open>\<open>copy_down m tmp s n\<close> copies the \<open>n\<close> bytes that end before \<open>tmp + n\<close>, the last one first.\<close>

fun copy_down :: "string \<Rightarrow> nat \<Rightarrow> nat \<Rightarrow> nat \<Rightarrow> string option" where
  "copy_down m dest src 0 = Some m"
| "copy_down m dest src (Suc count) =
     (case copy1 m (dest + count) (src + count) of None \<Rightarrow> None | Some m' \<Rightarrow> copy_down m' dest src count)"

definition memcpy :: "string \<Rightarrow> nat \<Rightarrow> nat \<Rightarrow> nat \<Rightarrow> string option" where
  "memcpy m dest src count = copy_up m dest src count"

definition bcopy :: "string \<Rightarrow> nat \<Rightarrow> nat \<Rightarrow> nat \<Rightarrow> string option" where
  "bcopy m src dest count = copy_up m dest src count"

definition memmove :: "string \<Rightarrow> nat \<Rightarrow> nat \<Rightarrow> nat \<Rightarrow> string option" where
  "memmove m dest src count =
     (if dest \<le> src then copy_up m dest src count else copy_down m dest src count)"

section \<open>The character classes\<close>

text \<open>A class is read off its column of the table.\<close>

lemmas ctype_masks = ctype_U_def ctype_L_def ctype_D_def ctype_C_def ctype_P_def ctype_S_def
  ctype_X_def ctype_SP_def

lemma length_ctype [simp]: "length ctype = 256" by (simp add: ctype_def)

lemma replicate_num: "replicate (numeral k) x = x # replicate (pred_numeral k) x"
  by (simp add: numeral_eq_Suc)

lemma mask_column:
  assumes "map (\<lambda>x. x AND k \<noteq> 0) ctype = bs"
  shows "ismask c AND k \<noteq> 0 \<longleftrightarrow> bs ! of_char c"
proof -
  have "(of_char c :: nat) < length ctype" by simp
  then show ?thesis unfolding ismask_def assms [symmetric] by (simp only: nth_map)
qed

lemma ctype_D_column:
  "map (\<lambda>x. x AND ctype_D \<noteq> 0) ctype = replicate 48 False @ replicate 10 True @ replicate 198 False"
  by (simp add: ctype_def ctype_masks replicate_num)

lemma ctype_X_column:
  "map (\<lambda>x. x AND (ctype_D OR ctype_X) \<noteq> 0) ctype =
    replicate 48 False @ replicate 10 True @ replicate 7 False @ replicate 6 True @ replicate 26 False @
    replicate 6 True @ replicate 153 False"
  by (simp add: ctype_def ctype_masks replicate_num)

lemma ctype_L_column:
  "map (\<lambda>x. x AND ctype_L \<noteq> 0) ctype =
    replicate 97 False @ replicate 26 True @ replicate 100 False @ replicate 24 True @ replicate 1 False @
    replicate 8 True"
  by (simp add: ctype_def ctype_masks replicate_num)

lemma ctype_U_column:
  "map (\<lambda>x. x AND ctype_U \<noteq> 0) ctype =
    replicate 65 False @ replicate 26 True @ replicate 101 False @ replicate 23 True @ replicate 1 False @
    replicate 7 True @ replicate 33 False"
  by (simp add: ctype_def ctype_masks replicate_num)

lemma isdigit_iff: "isdigit c \<longleftrightarrow> 48 \<le> (of_char c :: nat) \<and> (of_char c :: nat) \<le> 57"
  unfolding isdigit_def mask_column [OF ctype_D_column]
  using nat_of_char_less_256 [of c] by (auto simp: nth_append simp del: nat_of_char_less_256)

lemma isxdigit_iff:
  "isxdigit c \<longleftrightarrow> isdigit c \<or> 65 \<le> (of_char c :: nat) \<and> (of_char c :: nat) \<le> 70
     \<or> 97 \<le> (of_char c :: nat) \<and> (of_char c :: nat) \<le> 102"
  unfolding isxdigit_def mask_column [OF ctype_X_column] isdigit_iff
  using nat_of_char_less_256 [of c] by (auto simp: nth_append simp del: nat_of_char_less_256)

lemma islower_iff:
  "islower c \<longleftrightarrow> 97 \<le> (of_char c :: nat) \<and> (of_char c :: nat) \<le> 122
     \<or> 223 \<le> (of_char c :: nat) \<and> of_char c \<noteq> (247 :: nat)"
  unfolding islower_def mask_column [OF ctype_L_column]
  using nat_of_char_less_256 [of c] by (auto simp: nth_append simp del: nat_of_char_less_256)

lemma isupper_iff:
  "isupper c \<longleftrightarrow> 65 \<le> (of_char c :: nat) \<and> (of_char c :: nat) \<le> 90
     \<or> 192 \<le> (of_char c :: nat) \<and> (of_char c :: nat) \<le> 222 \<and> of_char c \<noteq> (215 :: nat)"
  unfolding isupper_def mask_column [OF ctype_U_column]
  using nat_of_char_less_256 [of c] by (auto simp: nth_append nth_Cons' simp del: nat_of_char_less_256)

lemma of_char_NUL [simp]: "of_char NUL = 0" by (simp add: NUL_def)

lemma isxdigit_NUL [simp]: "\<not> isxdigit NUL" by (simp add: isxdigit_iff isdigit_iff)

lemma of_char_shift: "(of_char (char_of (of_char c + k :: int)) :: nat) = nat ((of_char c + k) mod 256)"
proof -
  have "(of_char (char_of (of_char c + k :: int)) :: int) = (of_char c + k) mod 256" by simp
  moreover have "(of_char x :: nat) = nat (of_char x)" for x by simp
  ultimately show ?thesis by (metis nat_of_char)
qed

text \<open>\<open>toupper\<close> undoes \<open>tolower\<close> on every upper-case letter, those of Latin-1 included.\<close>

lemma toupper_tolower:
  assumes "isupper c"
  shows "toupper (tolower c) = c"
proof -
  note of_nat_of_char [where 'a = int, symmetric, simp] nat_of_char_less_256 [simp del]
  have r: "(of_char (tolower c) :: nat) = of_char c + 32"
    using assms of_char_shift [of c 32] nat_of_char_less_256 [of c]
    by (auto simp: tolower_def isupper_iff)
  then have "islower (tolower c)" using assms by (auto simp: isupper_iff islower_iff)
  then have "(of_char (toupper (tolower c)) :: nat) = of_char c"
    using r of_char_shift [of "tolower c" "- 32"] nat_of_char_less_256 [of c]
    by (simp add: toupper_def)
  then show ?thesis by (simp only: of_char_eq_iff)
qed

section \<open>Strings without NUL\<close>

definition nul_free :: "string \<Rightarrow> bool" where "nul_free s \<longleftrightarrow> NUL \<notin> set s"

lemma nul_free_simps [simp]:
  "nul_free []" "nul_free (c # s) \<longleftrightarrow> c \<noteq> NUL \<and> nul_free s" "nul_free (s @ t) \<longleftrightarrow> nul_free s \<and> nul_free t"
  by (auto simp: nul_free_def)

lemma nul_free_take [intro]: "nul_free s \<Longrightarrow> nul_free (take n s)"
  and nul_free_drop [intro]: "nul_free s \<Longrightarrow> nul_free (drop n s)"
  using in_set_takeD in_set_dropD by (fastforce simp: nul_free_def)+

lemma strlen_nul_free [simp]: "nul_free s \<Longrightarrow> strlen s = length s" by (induction s) auto

lemma strlen_append_NUL: "nul_free s \<Longrightarrow> strlen (s @ NUL # r) = length s" by (induction s) auto

lemma strlen_takeWhile: "strlen s = length (takeWhile ((\<noteq>) NUL) s)" by (induction s) auto

lemma deref_nul_free: "nul_free s \<Longrightarrow> deref s = NUL \<longleftrightarrow> s = []" by (cases s) auto

lemma strnlen_min: "strnlen s n = min n (strlen s)"
proof (induction s n rule: strnlen.induct)
  case (2 s count)
  then show ?case by (cases s) auto
qed simp

lemma of_char_u8_inj [simp]: "(of_char c :: u8) = of_char d \<longleftrightarrow> c = d"
proof
  have e: "unat (of_char x :: u8) = of_char x" for x
  proof -
    have "unat (of_nat (of_char x) :: u8) = of_char x"
      unfolding unat_of_nat using nat_of_char_less_256 [of x] by simp
    then show ?thesis unfolding of_nat_of_char .
  qed
  assume "(of_char c :: u8) = of_char d"
  then have "(of_char c :: nat) = of_char d" using e by metis
  then show "c = d" by simp
qed simp

section \<open>Comparison and search\<close>

lemma strcmp_eq_0: "nul_free s \<Longrightarrow> nul_free t \<Longrightarrow> strcmp s t = 0 \<longleftrightarrow> s = t"
proof (induction s t rule: strcmp.induct)
  case (1 s t)
  show ?case
  proof (cases "deref s = deref t \<and> deref s \<noteq> NUL")
    case True
    then obtain c s' t' where st: "s = c # s'" "t = c # t'"
      using deref_not_NUL by (metis deref.simps(2) neq_Nil_conv)
    then show ?thesis using 1 True by (subst strcmp.simps) simp
  next
    case False
    have "strcmp s t = sint (of_char (deref s) - of_char (deref t) :: u8)"
      using False by (subst strcmp.simps) auto
    then have z: "strcmp s t = 0 \<longleftrightarrow> deref s = deref t" by (simp add: signed_eq_0_iff)
    have "deref s = deref t \<Longrightarrow> s = t"
      using False 1(2,3) by (metis deref_nul_free)
    then show ?thesis using z by auto
  qed
qed

lemma memcmp_eq_0:
  "n \<le> length s \<Longrightarrow> n \<le> length t \<Longrightarrow> memcmp s t n = 0 \<longleftrightarrow> take n s = take n t"
proof (induction s t n rule: memcmp.induct)
  case (2 s t n)
  then obtain a s' b t' where "s = a # s'" "t = b # t'"
    by (metis Suc_le_length_iff)
  then show ?case using 2 by (auto simp: Let_def)
qed simp

lemma char_in_nul_free: "nul_free s \<Longrightarrow> char_in c s \<longleftrightarrow> c \<in> set s" by (induction s) auto

lemma strspn_takeWhile:
  "nul_free s \<Longrightarrow> nul_free ct \<Longrightarrow> strspn s ct = length (takeWhile (\<lambda>c. c \<in> set ct) s)"
  by (induction s) (auto simp: char_in_nul_free)

lemma strpbrk_dropWhile:
  "nul_free s \<Longrightarrow> nul_free ct \<Longrightarrow>
    strpbrk s ct = (let r = dropWhile (\<lambda>c. c \<notin> set ct) s in if r = [] then None else Some r)"
  by (induction s) (auto simp: char_in_nul_free Let_def)

lemma strchr_dropWhile:
  assumes "nul_free s" and "char_of c \<noteq> NUL"
  shows "strchr s c = (let r = dropWhile (\<lambda>d. d \<noteq> char_of c) s in if r = [] then None else Some r)"
  using assms
proof (induction s)
  case Nil
  then show ?case by (subst strchr.simps) auto
next
  case (Cons d s)
  then show ?case by (subst strchr.simps) auto
qed

lemma strstr_loop_spec:
  assumes "s2 \<noteq> []" and "nul_free s2"
  shows "case strstr_loop s1 (length s1) s2 (length s2) of
      None \<Rightarrow> \<not> sublist s2 s1
    | Some t \<Rightarrow> \<exists>pre. s1 = pre @ t \<and> prefix s2 t \<and> (\<forall>k < length pre. \<not> prefix s2 (drop k s1))"
proof (induction s1)
  case Nil
  then show ?case using assms by (subst strstr_loop.simps) (simp add: sublist_def)
next
  case (Cons c s)
  have pre: "memcmp (c # s) s2 (length s2) = 0 \<longleftrightarrow> prefix s2 (c # s)" if "length s2 \<le> Suc (length s)"
    using that memcmp_eq_0 [of "length s2" "c # s" s2]
    by (metis append_eq_conv_conj append_take_drop_id length_Cons order_refl prefix_def take_all_iff)
  consider "Suc (length s) < length s2" | "length s2 \<le> Suc (length s)" "prefix s2 (c # s)"
    | "length s2 \<le> Suc (length s)" "\<not> prefix s2 (c # s)" by linarith
  then show ?case
  proof cases
    case 1
    then have "\<not> sublist s2 (c # s)" using sublist_length_le [of s2 "c # s"] by auto
    then show ?thesis using 1 by (subst strstr_loop.simps) simp
  next
    case 2
    then show ?thesis using pre assms by (subst strstr_loop.simps) auto
  next
    case 3
    have step: "strstr_loop (c # s) (length (c # s)) s2 (length s2) = strstr_loop s (length s) s2 (length s2)"
      using 3 pre assms by (subst strstr_loop.simps) simp
    show ?thesis
    proof (cases "strstr_loop s (length s) s2 (length s2)")
      case None
      then show ?thesis using Cons.IH 3 unfolding step by (simp add: sublist_Cons_right)
    next
      case (Some t)
      then obtain p where p: "s = p @ t" "prefix s2 t" "\<forall>k < length p. \<not> prefix s2 (drop k s)"
        using Cons.IH by auto
      then have "\<forall>k < length (c # p). \<not> prefix s2 (drop k (c # s))"
        using 3(2) by (auto simp: less_Suc_eq_0_disj)
      then show ?thesis unfolding step using Some p by (simp add: exI [of _ "c # p"])
    qed
  qed
qed

text \<open>
  \<open>strstr\<close> finds a substring exactly when there is one, and then the first occurrence: the
  pointer it returns is a suffix that starts with the substring, and no earlier suffix does.
\<close>

lemma strstr_first:
  assumes "nul_free s1" and "nul_free s2"
  shows "case strstr s1 s2 of
      None \<Rightarrow> \<not> sublist s2 s1
    | Some t \<Rightarrow> \<exists>pre. s1 = pre @ t \<and> prefix s2 t \<and> (\<forall>k < length pre. \<not> prefix s2 (drop k s1))"
proof (cases "s2 = []")
  case False
  then have "strstr s1 s2 = strstr_loop s1 (length s1) s2 (length s2)"
    using assms by (simp add: strstr_def Let_def)
  then show ?thesis using strstr_loop_spec [OF False assms(2), of s1] by simp
qed (simp add: strstr_def)

theorem strstr_first_witness:
  "\<exists>pre. ''ethaddr'' = pre @ ''addr'' \<and> prefix ''ad'' (''addr'' :: string)"
proof -
  have "strstr ''ethaddr'' ''ad'' = Some ''addr''" by code_simp
  then show ?thesis using strstr_first [of "''ethaddr''" "''ad''"] by (auto simp: NUL_def)
qed

section \<open>Overlapping copies\<close>

text \<open>What a copy of \<open>n\<close> bytes should leave: the destination range holds the old source range.\<close>

lemma copy_up_spec:
  assumes "dest \<le> src" and "dest + n \<le> length m" and "src + n \<le> length m"
  shows "copy_up m dest src n = Some (buf_write m dest (take n (drop src m)))"
  using assms
proof (induction n arbitrary: m dest src)
  case 0
  then show ?case by (simp add: buf_write_def)
next
  case (Suc n m dest src)
  let ?m = "m[dest := m ! src]"
  have "copy_up m dest src (Suc n) = copy_up ?m (Suc dest) (Suc src) n"
    using Suc.prems by (simp add: copy1_def)
  also have "\<dots> = Some (buf_write ?m (Suc dest) (take n (drop (Suc src) ?m)))"
    using Suc.prems by (intro Suc.IH) simp_all
  also have "drop (Suc src) ?m = drop (Suc src) m" using Suc.prems by simp
  also have "buf_write ?m (Suc dest) (take n (drop (Suc src) m)) =
      buf_write m dest (take (Suc n) (drop src m))"
    using Suc.prems by (simp add: buf_write_def take_Suc_conv_app_nth Cons_nth_drop_Suc [symmetric])
  finally show ?case .
qed

lemma copy_down_spec:
  assumes "src < dest" and "dest + n \<le> length m" and "src + n \<le> length m"
  shows "copy_down m dest src n = Some (buf_write m dest (take n (drop src m)))"
  using assms
proof (induction n arbitrary: m)
  case 0
  then show ?case by (simp add: buf_write_def)
next
  case (Suc n m)
  let ?m = "m[dest + n := m ! (src + n)]"
  have "copy_down m dest src (Suc n) = copy_down ?m dest src n"
    using Suc.prems by (simp add: copy1_def)
  also have "\<dots> = Some (buf_write ?m dest (take n (drop src ?m)))"
    using Suc.prems by (intro Suc.IH) simp_all
  also have "take n (drop src ?m) = take n (drop src m)"
    using Suc.prems by (intro nth_equalityI) simp_all
  also have "buf_write ?m dest (take n (drop src m)) = buf_write m dest (take (Suc n) (drop src m))"
    using Suc.prems by (intro nth_equalityI) (auto simp: nth_buf_write nth_list_update)
  finally show ?case .
qed

lemma memmove_spec:
  assumes "dest + n \<le> length m" and "src + n \<le> length m"
  shows "memmove m dest src n = Some (buf_write m dest (take n (drop src m)))"
  using assms copy_up_spec copy_down_spec unfolding memmove_def by simp

text \<open>
  C37: \<open>memmove\<close> copes with overlap: whenever both ranges are inside the memory, wherever they
  lie, the destination range ends up with the bytes the source range had before the call, and no
  other byte changes.
\<close>

theorem memmove_correct:
  assumes "dest + n \<le> length m" and "src + n \<le> length m"
  shows "memmove m dest src n = Some (buf_write m dest (take n (drop src m)))"
  by (rule memmove_spec [OF assms])

theorem memmove_correct_witness: "memmove ''abcdef'' 2 0 4 = Some ''ababcd''"
  using memmove_correct [of 2 4 "''abcdef''" 0] by (simp add: buf_write_def)

end
