(* ===== verification/Vsprintf.thy ===== *)
theory Vsprintf
  imports CStrings Div64
begin

text \<open>
  Numbers and formatted text, \<^verbatim>\<open>lib_generic/vsprintf.c\<close>: the parsers behind every address and
  count a command takes, and the \<open>vsprintf\<close> every message goes through, as configured for the board
  (\<^verbatim>\<open>CONFIG_SYS_64BIT_VSPRINTF\<close>).

  A format string or a number is read through the list of its characters (theory CStrings). What
  is written is a list that is returned. The variable arguments are a list; taking an argument that
  is missing or has another type is undefined in C and is \<open>None\<close>. The flags of a directive and
  64-bit values are words; widths and counters are integers, which is what the C \<open>int\<close> holds as long
  as a width has fewer than ten digits. \<open>panic\<close> only prints and resets and is not modelled.
\<close>

section \<open>Parsing numbers\<close>

text \<open>\<open>digit_value\<close> is the expression assigned to \<open>value\<close>.\<close>

definition digit_value :: "char \<Rightarrow> 'a::len word" where
  "digit_value c =
     (if isdigit c then of_char c - of_char CHR ''0''
      else of_char (if islower c then toupper c else c) - of_char CHR ''A'' + 10)"

fun strtou_loop :: "string \<Rightarrow> u32 \<Rightarrow> 'a::len word \<Rightarrow> 'a word \<times> string" where
  "strtou_loop [] base result = (result, [])"
| "strtou_loop (c # cp) base result =
     (if isxdigit c \<and> (digit_value c :: 'a word) < ucast base
      then strtou_loop cp base (result * ucast base + digit_value c)
      else (result, c # cp))"

text \<open>The prefix: the new position and the base.\<close>

definition strtou_base :: "string \<Rightarrow> u32 \<Rightarrow> string \<times> u32" where
  "strtou_base cp base =
     (let (cp, base) =
        (if deref cp = CHR ''0''
         then (let cp = tl cp;
                   (cp, base) = (if deref cp = CHR ''x'' \<and> isxdigit (deref (tl cp)) then (tl cp, 16) else (cp, base))
               in (cp, if base = 0 then 8 else base))
         else (cp, base))
      in (cp, if base = 0 then 10 else base))"

text \<open>Both return the value and where the number ends (\<open>*endp\<close>).\<close>

definition simple_strtoul :: "string \<Rightarrow> u32 \<Rightarrow> u32 \<times> string" where
  "simple_strtoul cp base = (let (cp, base) = strtou_base cp base in strtou_loop cp base 0)"

definition simple_strtoull :: "string \<Rightarrow> u32 \<Rightarrow> u64 \<times> string" where
  "simple_strtoull cp base = (let (cp, base) = strtou_base cp base in strtou_loop cp base 0)"

definition simple_strtol :: "string \<Rightarrow> u32 \<Rightarrow> int \<times> string" where
  "simple_strtol cp base =
     (if deref cp = CHR ''-'' then (let (r, endp) = simple_strtoul (tl cp) base in (sint (- r), endp))
      else (let (r, endp) = simple_strtoul cp base in (sint r, endp)))"

definition ustrtoul :: "string \<Rightarrow> u32 \<Rightarrow> int \<times> string" where
  "ustrtoul cp base =
     (let (result, endp) = simple_strtoul cp base; e = deref endp;
          result = (if e = CHR ''G'' then result * 1024 else result);
          result = (if e = CHR ''G'' \<or> e = CHR ''M'' then result * 1024 else result)
      in if e = CHR ''G'' \<or> e = CHR ''M'' \<or> e = CHR ''K'' \<or> e = CHR ''k''
         then (let result = result * 1024;
                   endp = (if deref (tl endp) = CHR ''i''
                           then (if deref (tl (tl endp)) = CHR ''B'' then drop 3 endp else drop 2 endp)
                           else endp)
               in (sint result, endp))
         else (sint result, endp))"

definition is_digit :: "char \<Rightarrow> bool" where
  "is_digit c \<longleftrightarrow> (of_char CHR ''0'' :: int) \<le> of_char c \<and> (of_char c :: int) \<le> of_char CHR ''9''"

fun skip_atoi :: "int \<Rightarrow> string \<Rightarrow> int \<times> string" where
  "skip_atoi i [] = (i, [])"
| "skip_atoi i (c # s) =
     (if is_digit c then skip_atoi (i * 10 + of_char c - of_char CHR ''0'') s else (i, c # s))"

section \<open>Printing one number\<close>

definition ZEROPAD :: u32 where "ZEROPAD = 1"
definition SIGN :: u32 where "SIGN = 2"
definition PLUS :: u32 where "PLUS = 4"
definition SPACE :: u32 where "SPACE = 8"
definition LEFT :: u32 where "LEFT = 16"
definition SPECIAL :: u32 where "SPECIAL = 32"
definition LARGE :: u32 where "LARGE = 64"

definition has :: "u32 \<Rightarrow> u32 \<Rightarrow> bool" where "has type flag \<longleftrightarrow> type AND flag \<noteq> 0"

text \<open>\<open>tmp\<close>, filled from the lowest digit; \<open>number\<close> has rejected bases below 2.\<close>

function digit_loop :: "string \<Rightarrow> u64 \<Rightarrow> u32 \<Rightarrow> string" where
  "digit_loop digits num base =
     (if num = 0 \<or> base < 2 then []
      else (let (num, r) = do_div num base in digits ! unat r # digit_loop digits num base))"
  by pat_completeness auto

termination
proof (relation "measure (\<lambda>(digits, num, base). unat num)")
  fix digits num base qr q r
  assume a: "\<not> (num = 0 \<or> base < 2)" "qr = do_div num base" "(q, r) = qr"
  then have b: "1 < unat base" "0 < unat num" by (simp_all add: word_less_nat_alt unat_gt_0)
  then have "base \<noteq> 0" by auto
  from do_div_spec [OF this, of num] have "unat q = unat num div unat base"
    using a(2,3) by (metis fst_conv)
  with b   show "((digits, q, base), digits, num, base) \<in> measure (\<lambda>(digits, num, base). unat num)"
    by simp
qed simp

text \<open>\<open>while (size-- > 0) *str++ = c;\<close> and what it leaves in \<open>size\<close>.\<close>

function pad :: "char \<Rightarrow> int \<Rightarrow> string \<times> int" where
  "pad c size' = (if size' > 0 then (let (s, n) = pad c (size' - 1) in (c # s, n)) else ([], size' - 1))"
  by pat_completeness auto

termination by (relation "measure (\<lambda>(c, n). nat n)") auto

text \<open>\<open>while (i < precision--) *str++ = '0';\<close>\<close>

function zeros :: "int \<Rightarrow> int \<Rightarrow> string" where
  "zeros i precision = (if i < precision then CHR ''0'' # zeros i (precision - 1) else [])"
  by pat_completeness auto

termination by (relation "measure (\<lambda>(i, p). nat (p - i))") auto

declare digit_loop.simps [simp del] pad.simps [simp del] zeros.simps [simp del]

definition number_sign :: "u64 \<Rightarrow> u32 \<Rightarrow> int \<Rightarrow> string \<times> u64 \<times> int" where
  "number_sign num type size' =
     (if has type SIGN
      then (if sint num < 0 then (''-'', - num, size' - 1)
            else if has type PLUS then (''+'', num, size' - 1)
            else if has type SPACE then ('' '', num, size' - 1)
            else ([], num, size'))
      else ([], num, size'))"

text \<open>The second half, from the test of \<open>i > precision\<close> on: padding, sign, prefix, digits.\<close>

definition number_out :: "u32 \<Rightarrow> char \<Rightarrow> string \<Rightarrow> string \<Rightarrow> string \<Rightarrow> int \<Rightarrow> int \<Rightarrow> string" where
  "number_out type c sign special tmp precision size' =
     (let i = int (length tmp);
          precision = (if i > precision then i else precision);
          size' = size' - precision;
          (pad1, size') = (if \<not> has type (ZEROPAD + LEFT) then pad CHR '' '' size' else ([], size'));
          (pad2, size') = (if \<not> has type LEFT then pad c size' else ([], size'));
          (pad3, size') = pad CHR '' '' size'
      in pad1 @ sign @ special @ pad2 @ zeros i precision @ rev tmp @ pad3)"

definition number :: "u64 \<Rightarrow> u32 \<Rightarrow> int \<Rightarrow> int \<Rightarrow> u32 \<Rightarrow> string option" where
  "number num base size' precision type =
     (let digits = (if has type LARGE then ''0123456789ABCDEFGHIJKLMNOPQRSTUVWXYZ''
                    else ''0123456789abcdefghijklmnopqrstuvwxyz'');
          type = (if has type LEFT then type AND NOT ZEROPAD else type)
      in if base < 2 \<or> base > 36 then None
         else (let c = (if has type ZEROPAD then CHR ''0'' else CHR '' '');
                   (sign, num, size') = number_sign num type size';
                   size' = (if has type SPECIAL
                            then (if base = 16 then size' - 2 else if base = 8 then size' - 1 else size')
                            else size');
                   tmp = (if num = 0 then ''0'' else digit_loop digits num base);
                   special = (if has type SPECIAL
                              then (if base = 8 then ''0'' else if base = 16 then [CHR ''0'', digits ! 33] else [])
                              else [])
               in Some (number_out type c sign special tmp precision size')))"

section \<open>Format strings\<close>

text \<open>The variable arguments: 32-bit integers and pointers, 64-bit integers, strings (\<open>None\<close> is NULL).\<close>

datatype arg = A32 u32 | A64 u64 | AStr "string option"

fun flags_loop :: "string \<Rightarrow> u32 \<Rightarrow> string \<times> u32" where
  "flags_loop [] flags = ([], flags)"
| "flags_loop (c # fmt) flags =
     (if c = CHR ''-'' then flags_loop fmt (flags OR LEFT)
      else if c = CHR ''+'' then flags_loop fmt (flags OR PLUS)
      else if c = CHR '' '' then flags_loop fmt (flags OR SPACE)
      else if c = CHR ''#'' then flags_loop fmt (flags OR SPECIAL)
      else if c = CHR ''0'' then flags_loop fmt (flags OR ZEROPAD)
      else (c # fmt, flags))"

definition get_width :: "string \<Rightarrow> u32 \<Rightarrow> arg list \<Rightarrow> (int \<times> u32 \<times> string \<times> arg list) option" where
  "get_width fmt flags args =
     (if is_digit (deref fmt) then (let (w, fmt) = skip_atoi 0 fmt in Some (w, flags, fmt, args))
      else if deref fmt = CHR ''*''
      then (case args of
              A32 w # args \<Rightarrow>
                (let w = sint w
                 in Some (if w < 0 then (- w, flags OR LEFT, tl fmt, args) else (w, flags, tl fmt, args)))
            | _ \<Rightarrow> None)
      else Some (- 1, flags, fmt, args))"

definition get_precision :: "string \<Rightarrow> arg list \<Rightarrow> (int \<times> string \<times> arg list) option" where
  "get_precision fmt args =
     (if deref fmt = CHR ''.''
      then (let fmt = tl fmt in
            map_option (\<lambda>(p, fmt, args). (if p < 0 then 0 else p, fmt, args))
              (if is_digit (deref fmt) then (let (p, fmt) = skip_atoi 0 fmt in Some (p, fmt, args))
               else if deref fmt = CHR ''*''
               then (case args of A32 p # args \<Rightarrow> Some (sint p, tl fmt, args) | _ \<Rightarrow> None)
               else Some (- 1, fmt, args)))
      else Some (- 1, fmt, args))"

text \<open>The qualifier; NUL stands for \<open>-1\<close>.\<close>

definition get_qualifier :: "string \<Rightarrow> char \<times> string" where
  "get_qualifier fmt =
     (if deref fmt \<in> set ''hlLZztq''
      then (if deref fmt = CHR ''l'' \<and> deref (tl fmt) = CHR ''l'' then (CHR ''q'', tl (tl fmt))
            else (deref fmt, tl fmt))
      else (NUL, fmt))"

text \<open>\<open>while (--field_width > 0) *str++ = ' ';\<close> and \<open>while (len < field_width--) *str++ = ' ';\<close>\<close>

function pre_pad :: "int \<Rightarrow> string \<times> int" where
  "pre_pad w = (let w = w - 1 in if w > 0 then (let (s, n) = pre_pad w in (CHR '' '' # s, n)) else ([], w))"
  by pat_completeness auto

termination by (relation "measure nat") auto

function pad_to :: "int \<Rightarrow> int \<Rightarrow> string \<times> int" where
  "pad_to len w =
     (if len < w then (let (s, n) = pad_to len (w - 1) in (CHR '' '' # s, n)) else ([], w - 1))"
  by pat_completeness auto

termination by (relation "measure (\<lambda>(l, w). nat (w - l))") auto

declare pre_pad.simps [simp del] pad_to.simps [simp del]

definition fmt_char :: "int \<Rightarrow> u32 \<Rightarrow> char \<Rightarrow> string" where
  "fmt_char w flags c =
     (let (p1, w) = (if \<not> has flags LEFT then pre_pad w else ([], w)); (p2, w) = pre_pad w
      in p1 @ [c] @ p2)"

definition fmt_string :: "int \<Rightarrow> int \<Rightarrow> u32 \<Rightarrow> string option \<Rightarrow> string" where
  "fmt_string w precision flags s =
     (let s = (case s of None \<Rightarrow> ''<NULL>'' | Some s \<Rightarrow> s);
          len = strnlen s (unat (word_of_int precision :: u32));
          (p1, w) = (if \<not> has flags LEFT then pad_to (int len) w else ([], w));
          (p2, w) = pad_to (int len) w
      in p1 @ take len s @ p2)"

text \<open>The integer argument, by qualifier and signedness, widened to 64 bits as the code widens it.\<close>

definition get_num :: "char \<Rightarrow> u32 \<Rightarrow> arg list \<Rightarrow> (u64 \<times> arg list) option" where
  "get_num qualifier flags args =
     (case args of
        A64 n # args \<Rightarrow> if qualifier = CHR ''q'' then Some (n, args) else None
      | A32 n # args \<Rightarrow>
          if qualifier = CHR ''q'' then None
          else Some (if qualifier = CHR ''l'' then ucast n
                     else if qualifier = CHR ''Z'' \<or> qualifier = CHR ''z'' then ucast n
                     else if qualifier = CHR ''t'' then scast n
                     else if qualifier = CHR ''h''
                     then (if has flags SIGN then scast (ucast n :: u16) else ucast (ucast n :: u16))
                     else if has flags SIGN then scast n else ucast n, args)
      | _ \<Rightarrow> None)"

text \<open>
  One directive, \<open>fmt\<close> behind the \<open>%\<close> and \<open>len\<close> the number of characters written so far: the text,
  the stores of \<open>%n\<close> (address and value), the rest of the format and of the arguments.
\<close>

definition convert ::
  "string \<Rightarrow> arg list \<Rightarrow> nat \<Rightarrow> u32 \<Rightarrow> int \<Rightarrow> int \<Rightarrow> char \<Rightarrow>
    (string \<times> (u32 \<times> nat) list \<times> string \<times> arg list) option" where
  "convert fmt args len flags w precision qualifier =
     (let c = deref fmt; int_conv = (\<lambda>base flags.
            case get_num qualifier flags args of None \<Rightarrow> None
            | Some (num, args) \<Rightarrow>
                map_option (\<lambda>s. (s, [], tl fmt, args)) (number num base w precision flags))
      in if c = CHR ''c''
         then (case args of A32 n # args \<Rightarrow> Some (fmt_char w flags (char_of (unat n)), [], tl fmt, args) | _ \<Rightarrow> None)
         else if c = CHR ''s''
         then (case args of AStr s # args \<Rightarrow> Some (fmt_string w precision flags s, [], tl fmt, args) | _ \<Rightarrow> None)
         else if c = CHR ''p''
         then (case args of
                 A32 p # args \<Rightarrow>
                   (let (w, flags) = (if w = - 1 then (8, flags OR ZEROPAD) else (w, flags))
                    in map_option (\<lambda>s. (s, [], tl fmt, args)) (number (ucast p) 16 w precision flags))
               | _ \<Rightarrow> None)
         else if c = CHR ''n''
         then (case args of A32 ip # args \<Rightarrow> Some ([], [(ip, len)], tl fmt, args) | _ \<Rightarrow> None)
         else if c = CHR ''%'' then Some (''%'', [], tl fmt, args)
         else if c = CHR ''o'' then int_conv 8 flags
         else if c = CHR ''X'' then int_conv 16 (flags OR LARGE)
         else if c = CHR ''x'' then int_conv 16 flags
         else if c = CHR ''d'' \<or> c = CHR ''i'' then int_conv 10 (flags OR SIGN)
         else if c = CHR ''u'' then int_conv 10 flags
         else Some (if c \<noteq> NUL then (CHR ''%'' # [c], [], tl fmt, args) else (''%'', [], [], args)))"

definition directive ::
  "string \<Rightarrow> arg list \<Rightarrow> nat \<Rightarrow> (string \<times> (u32 \<times> nat) list \<times> string \<times> arg list) option" where
  "directive fmt args len =
     (let (fmt, flags) = flags_loop fmt 0
      in case get_width fmt flags args of None \<Rightarrow> None
         | Some (w, flags, fmt, args) \<Rightarrow>
             (case get_precision fmt args of None \<Rightarrow> None
              | Some (precision, fmt, args) \<Rightarrow>
                  (let (qualifier, fmt) = get_qualifier fmt
                   in convert fmt args len flags w precision qualifier)))"

section \<open>The formatter\<close>

lemma skip_atoi_length: "length (snd (skip_atoi i s)) \<le> length s"
  by (induction i s rule: skip_atoi.induct) (auto intro: le_SucI)

lemma flags_loop_length: "length (fst (flags_loop s f)) \<le> length s"
  by (induction s f rule: flags_loop.induct) (auto intro: le_SucI)

lemma get_width_length:
  "get_width fmt flags args = Some (w, flags', fmt', args') \<Longrightarrow> length fmt' \<le> length fmt"
  using skip_atoi_length [of 0 fmt]
  by (auto simp: get_width_def Let_def split: if_splits prod.splits list.splits arg.splits)

lemma get_precision_length:
  "get_precision fmt args = Some (p, fmt', args') \<Longrightarrow> length fmt' \<le> length fmt"
  using skip_atoi_length [of 0 "tl fmt"]
  by (auto simp: get_precision_def Let_def split: if_splits prod.splits list.splits arg.splits)

lemma get_qualifier_length: "length (snd (get_qualifier fmt)) \<le> length fmt"
  by (auto simp: get_qualifier_def)

lemma convert_length:
  "convert fmt args len flags w p q = Some (s, st, fmt', args') \<Longrightarrow> length fmt' \<le> length fmt"
  by (auto simp: convert_def Let_def split: if_splits option.splits list.splits arg.splits)

lemma directive_length:
  assumes "directive fmt args len = Some (s, st, fmt', args')"
  shows "length fmt' \<le> length fmt"
proof -
  obtain f1 fl where 1: "flags_loop fmt 0 = (f1, fl)" by (cases "flags_loop fmt 0")
  obtain w fl' f2 a2 where 2: "get_width f1 fl args = Some (w, fl', f2, a2)"
    using assms 1 by (auto simp: directive_def split: option.splits)
  obtain p f3 a3 where 3: "get_precision f2 a2 = Some (p, f3, a3)"
    using assms 1 2 by (auto simp: directive_def split: option.splits)
  obtain q f4 where 4: "get_qualifier f3 = (q, f4)" by (cases "get_qualifier f3")
  have "convert f4 a3 len fl' w p q = Some (s, st, fmt', args')"
    using assms 1 2 3 4 by (simp add: directive_def)
  from convert_length [OF this] get_width_length [OF 2] get_precision_length [OF 3]
    get_qualifier_length [of f3] flags_loop_length [of fmt 0] 1 4
  show ?thesis by simp
qed

function vsprintf_loop :: "string \<Rightarrow> arg list \<Rightarrow> nat \<Rightarrow> (string \<times> (u32 \<times> nat) list) option" where
  "vsprintf_loop [] args len = Some ([], [])"
| "vsprintf_loop (c # fmt) args len =
     (if c = NUL then Some ([], [])
      else if c \<noteq> CHR ''%''
      then map_option (\<lambda>(s, st). (c # s, st)) (vsprintf_loop fmt args (len + 1))
      else (case directive fmt args len of None \<Rightarrow> None
            | Some (s, st, fmt, args) \<Rightarrow>
                map_option (\<lambda>(s', st'). (s @ s', st @ st')) (vsprintf_loop fmt args (len + length s))))"
  by pat_completeness auto

termination
  by (relation "measure (\<lambda>(fmt, args, len). length fmt)") (auto dest: directive_length)

text \<open>
  The buffer's new content (the terminating NUL behind it is written too; the return value is the
  length) and the stores of \<open>%n\<close>.
\<close>

definition vsprintf :: "string \<Rightarrow> arg list \<Rightarrow> (string \<times> (u32 \<times> nat) list) option" where
  "vsprintf fmt args = vsprintf_loop fmt args 0"

section \<open>Widths\<close>

lemma pad_eq: "pad c w = (replicate (nat w) c, min w 0 - 1)"
proof (induction c w rule: pad.induct)
  case (1 c w)
  show ?case
  proof (cases "0 < w")
    case True
    then have "nat w = Suc (nat (w - 1))" by simp
    then show ?thesis using True 1 by (subst pad.simps) (simp add: min_def)
  qed (subst pad.simps, simp)
qed

lemma zeros_eq: "zeros i p = replicate (nat (p - i)) (CHR ''0'')"
proof (induction i p rule: zeros.induct)
  case (1 i p)
  show ?case
  proof (cases "i < p")
    case True
    then have "nat (p - i) = Suc (nat (p - 1 - i))" by simp
    then show ?thesis using True 1 by (subst zeros.simps) simp
  qed (subst zeros.simps, simp)
qed

text \<open>The flags are bits.\<close>

lemma has_bits:
  "has type ZEROPAD \<longleftrightarrow> bit type 0" "has type SIGN \<longleftrightarrow> bit type 1" "has type PLUS \<longleftrightarrow> bit type 2"
  "has type SPACE \<longleftrightarrow> bit type 3" "has type LEFT \<longleftrightarrow> bit type 4" "has type SPECIAL \<longleftrightarrow> bit type 5"
  "has type LARGE \<longleftrightarrow> bit type 6"
  using and_exp_eq_0_iff_not_bit [of type 0] and_exp_eq_0_iff_not_bit [of type 1]
    and_exp_eq_0_iff_not_bit [of type 2] and_exp_eq_0_iff_not_bit [of type 3]
    and_exp_eq_0_iff_not_bit [of type 4] and_exp_eq_0_iff_not_bit [of type 5]
    and_exp_eq_0_iff_not_bit [of type 6]
  by (simp_all add: has_def ZEROPAD_def SIGN_def PLUS_def SPACE_def LEFT_def SPECIAL_def LARGE_def)

lemma word_or_eq_0: "(a :: 'a::len word) OR b = 0 \<longleftrightarrow> a = 0 \<and> b = 0"
  by (auto simp: bit_eq_iff bit_or_iff)

lemma has_sum: "has type (ZEROPAD + LEFT) \<longleftrightarrow> has type ZEROPAD \<or> has type LEFT"
proof -
  have "ZEROPAD + LEFT = ZEROPAD OR LEFT" by (simp add: ZEROPAD_def LEFT_def)
  then show ?thesis by (simp add: has_def bit.conj_disj_distrib word_or_eq_0)
qed

lemma has_clear_zeropad [simp]:
  "\<not> has (type AND NOT ZEROPAD) ZEROPAD" "has (type AND NOT ZEROPAD) SIGN = has type SIGN"
  "has (type AND NOT ZEROPAD) PLUS = has type PLUS" "has (type AND NOT ZEROPAD) SPACE = has type SPACE"
  "has (type AND NOT ZEROPAD) LEFT = has type LEFT" "has (type AND NOT ZEROPAD) SPECIAL = has type SPECIAL"
  "has (type AND NOT ZEROPAD) LARGE = has type LARGE"
  unfolding has_bits bit_and_iff bit_not_iff by (simp_all add: ZEROPAD_def bit_1_iff)

text \<open>The parts of the text \<open>number\<close> writes, without the padding to the field width.\<close>

definition number_digits :: "u64 \<Rightarrow> u32 \<Rightarrow> u32 \<Rightarrow> string" where
  "number_digits num base type =
     (if num = 0 then ''0''
      else rev (digit_loop (if has type LARGE then ''0123456789ABCDEFGHIJKLMNOPQRSTUVWXYZ''
                    else ''0123456789abcdefghijklmnopqrstuvwxyz'') num base))"

definition number_prefix :: "u32 \<Rightarrow> u32 \<Rightarrow> string" where
  "number_prefix base type =
     (if has type SPECIAL
      then (if base = 8 then ''0'' else if base = 16 then (if has type LARGE then ''0X'' else ''0x'') else [])
      else [])"

lemma number_sign_size:
  "number_sign num type w = (fst (number_sign num type 0), fst (snd (number_sign num type 0)),
     w - int (length (fst (number_sign num type 0))))"
  by (simp add: number_sign_def)

lemma number_sign_zeropad [simp]: "number_sign num (type AND NOT ZEROPAD) w = number_sign num type w"
  by (simp add: number_sign_def)

lemma number_out_eq:
  fixes precision w :: int
  defines "body \<equiv> \<lambda>tmp. replicate (nat (precision - int (length tmp))) (CHR ''0'') @ rev tmp"
  shows "number_out type c sign special tmp precision w =
    (let k = nat (w - int (length (body tmp)))
     in if has type LEFT then sign @ special @ body tmp @ replicate k (CHR '' '')
        else if has type ZEROPAD then sign @ special @ replicate k c @ body tmp
        else replicate k (CHR '' '') @ sign @ special @ body tmp)"
proof -
  define p where "p = (if int (length tmp) > precision then int (length tmp) else precision)"
  have p: "int (length (body tmp)) = p" "zeros (int (length tmp)) p @ rev tmp = body tmp"
    by (simp_all add: body_def p_def zeros_eq)
  show ?thesis
    unfolding number_out_def Let_def p_def [symmetric] p(1) has_sum pad_eq
    by (cases "has type LEFT"; cases "has type ZEROPAD") (simp_all add: p(2) [symmetric])
qed

lemma number_eq:
  fixes precision w :: int
  assumes "2 \<le> base" and "base \<le> 36" and sg: "number_sign num type 0 = (sign, num', w0)"
  defines "ds \<equiv> number_digits num' base type"
  defines "body \<equiv> replicate (nat (precision - int (length ds))) (CHR ''0'') @ ds"
  defines "k \<equiv> nat (w - int (length (sign @ number_prefix base type @ body)))"
  shows "number num base w precision type = Some
    (if has type LEFT then sign @ number_prefix base type @ body @ replicate k (CHR '' '')
     else if has type ZEROPAD then sign @ number_prefix base type @ replicate k (CHR ''0'') @ body
     else replicate k (CHR '' '') @ sign @ number_prefix base type @ body)"
proof -
  have nb: "\<not> (base < 2 \<or> 36 < base)" using assms(1,2) by (simp add: not_less)
  note sgw = number_sign_size [of num type w, unfolded sg fst_conv snd_conv]
  define digits where "digits = (if has type LARGE then ''0123456789ABCDEFGHIJKLMNOPQRSTUVWXYZ''
                    else ''0123456789abcdefghijklmnopqrstuvwxyz'')"
  define tmp where "tmp = (if num' = 0 then ''0'' else digit_loop digits num' base)"
  have tmp: "rev tmp = ds" "length tmp = length ds"
    by (simp_all add: tmp_def ds_def number_digits_def digits_def)
  have sp: "(if has type SPECIAL then (if base = 8 then ''0'' else if base = 16 then [CHR ''0'', digits ! 33] else [])
      else []) = number_prefix base type"
    by (simp add: digits_def number_prefix_def)
  have spw: "(if has type SPECIAL then (if base = 16 then v - 2 else if base = 8 then v - 1 else v) else v) =
      v - int (length (number_prefix base type))" for v
    by (simp add: number_prefix_def)
  have "number num base w precision type = Some
      (number_out (if has type LEFT then type AND NOT ZEROPAD else type)
        (if has (if has type LEFT then type AND NOT ZEROPAD else type) ZEROPAD then CHR ''0'' else CHR '' '')
        sign (number_prefix base type) tmp precision
        (w - int (length sign) - int (length (number_prefix base type))))"
    unfolding number_def digits_def [symmetric] Let_def if_not_P [OF nb]
    using sgw by (simp add: tmp_def sp spw split: if_splits)
  moreover have "nat (w - int (length sign) - int (length (number_prefix base type)) - int (length body)) = k"
    by (simp add: k_def)
  ultimately show ?thesis
    by (cases "has type LEFT") (simp_all add: number_out_eq tmp body_def [symmetric] Let_def)
qed

text \<open>
  the field width of \<open>number\<close>: the text for any width is the text for width 0 with blanks or
  zeros put in until it has that width, and never cut; a number that is wider than its field is
  printed in full.
\<close>

lemma number_width:
  assumes "2 \<le> base" and "base \<le> 36"
  shows "\<exists>s t. number num base w precision type = Some s \<and> number num base 0 precision type = Some t \<and>
    int (length s) = max w (int (length t)) \<and> (w \<le> int (length t) \<longrightarrow> s = t)"
proof -
  obtain sign num' w0 where sg: "number_sign num type 0 = (sign, num', w0)"
    by (cases "number_sign num type 0")
  show ?thesis unfolding number_eq [OF assms sg] by auto
qed

theorem number_width_witness:
  "\<exists>s t. number 255 16 8 (- 1) ZEROPAD = Some s \<and> number 255 16 0 (- 1) ZEROPAD = Some t \<and>
    int (length s) = max 8 (int (length t))"
  using number_width [of 16 255 8 "- 1" ZEROPAD] by auto

section \<open>Printing and parsing\<close>

text \<open>The parser reads back every digit the printer can write, in either case, up to base 16.\<close>

definition hex_digits :: "u32 \<Rightarrow> string" where
  "hex_digits type = (if has type LARGE then ''0123456789ABCDEFGHIJKLMNOPQRSTUVWXYZ''
                    else ''0123456789abcdefghijklmnopqrstuvwxyz'')"

lemma of_char_of_int: "(of_char (char_of (k :: int)) :: 'a::len word) = of_int (k mod 256)"
  by (metis of_char_of of_int_of_char)

lemma hex_digit:
  assumes "r < 16"
  shows "isxdigit (hex_digits type ! r)"
    and "digit_value (hex_digits type ! r) = (of_nat r :: u32)"
proof -
  let ?P = "\<lambda>c v. isxdigit c \<and> digit_value c = (v :: u32)"
  have "list_all2 ?P ''0123456789ABCDEF'' [0,1,2,3,4,5,6,7,8,9,10,11,12,13,14,15]"
    and "list_all2 ?P ''0123456789abcdef'' [0,1,2,3,4,5,6,7,8,9,10,11,12,13,14,15]"
    by (simp_all add: isxdigit_iff isdigit_iff digit_value_def islower_iff toupper_def
      of_char_of_int)
  moreover have "map of_nat [0..<16] = ([0,1,2,3,4,5,6,7,8,9,10,11,12,13,14,15] :: u32 list)"
    by (simp add: upt_conv_Cons)
  ultimately have l: "list_all2 ?P (take 16 (hex_digits type)) (map of_nat [0..<16])"
    by (simp add: hex_digits_def del: list_all2_Cons)
  have "?P (hex_digits type ! r) (of_nat r)"
    using list_all2_nthD2 [OF l, of r] assms by simp
  then show "isxdigit (hex_digits type ! r)" "digit_value (hex_digits type ! r) = (of_nat r :: u32)"
    by simp_all
qed

lemma number_digits_alt:
  "number_digits num base type = (if num = 0 then ''0'' else rev (digit_loop (hex_digits type) num base))"
  by (simp add: number_digits_def hex_digits_def)

lemma digit_loop_0 [simp]: "digit_loop digits 0 base = []" by (subst digit_loop.simps) simp

lemma digit_loop_step:
  assumes "num \<noteq> 0" and "2 \<le> base" and "base \<le> 16" and "do_div num base = (q, r)"
  shows "digit_loop digits num base = digits ! unat r # digit_loop digits q base"
    and "unat r < unat base" and "(ucast num :: u32) = ucast q * base + r" and "unat q < unat num"
proof -
  have b: "1 < unat base" "base \<noteq> 0" using assms(2) by (auto simp: word_le_nat_alt)
  note dd = do_div_spec [OF b(2), of num, unfolded assms(4) fst_conv snd_conv]
  show "digit_loop digits num base = digits ! unat r # digit_loop digits q base"
    using assms by (subst digit_loop.simps) (simp add: not_less)
  show "unat r < unat base" using dd b by simp
  have "unat num = unat q * unat base + unat r" using dd by simp
  then have "(of_nat (unat num) :: u32) = of_nat (unat q) * of_nat (unat base) + of_nat (unat r)"
    by (metis of_nat_add of_nat_mult)
  then show "(ucast num :: u32) = ucast q * base + r" by (simp flip: unsigned_ucast_eq)
  show "unat q < unat num" using dd b assms(1) by (simp add: unat_gt_0)
qed

lemma base_16: "base \<le> (16 :: u32) \<Longrightarrow> unat base \<le> 16" by (simp add: word_le_nat_alt)

lemma digit_loop_nonempty:
  "num \<noteq> 0 \<Longrightarrow> 2 \<le> base \<Longrightarrow> base \<le> 16 \<Longrightarrow> digit_loop digits num base \<noteq> []"
  using digit_loop_step(1) by (cases "do_div num base") simp

lemma digit_loop_xdigits:
  assumes "2 \<le> base" and "base \<le> 16"
  shows "\<forall>c \<in> set (digit_loop (hex_digits type) num base). isxdigit c"
proof (induction "unat num" arbitrary: num rule: less_induct)
  case less
  show ?case
  proof (cases "num = 0")
    case False
    obtain q r where qr: "do_div num base = (q, r)" by (cases "do_div num base")
    note st = digit_loop_step [OF False assms qr]
    have "unat r < 16" using st(2) base_16 [OF assms(2)] by simp
    from hex_digit(1) [OF this] less [OF st(4)] show ?thesis by (simp add: st(1))
  qed simp
qed

text \<open>The parser's loop reads the printer's digits back, highest digit first.\<close>

lemma strtou_loop_digits:
  assumes "2 \<le> base" and "base \<le> 16"
  shows "strtou_loop (rev (digit_loop (hex_digits type) num base) @ s) base 0 =
    strtou_loop s base (ucast num :: u32)"
proof (induction "unat num" arbitrary: num s rule: less_induct)
  case less
  show ?case
  proof (cases "num = 0")
    case False
    obtain q r where qr: "do_div num base = (q, r)" by (cases "do_div num base")
    note st = digit_loop_step [OF False assms qr]
    let ?d = "hex_digits type ! unat r"
    have "unat r < 16" using st(2) base_16 [OF assms(2)] by simp
    then have d: "isxdigit ?d" "digit_value ?d = r" using hex_digit by simp_all
    have "strtou_loop (rev (digit_loop (hex_digits type) num base) @ s) base 0 =
        strtou_loop (rev (digit_loop (hex_digits type) q base) @ ?d # s) base (0 :: u32)"
      by (simp add: st(1))
    also have "\<dots> = strtou_loop (?d # s) base (ucast q)" by (rule less [OF st(4)])
    also have "\<dots> = strtou_loop s base (ucast num)"
      using d st(2,3) by (simp add: word_less_nat_alt)
    finally show ?thesis .
  qed simp
qed

lemma strtou_loop_zeros:
  "2 \<le> base \<Longrightarrow> strtou_loop (replicate n (CHR ''0'') @ s) base 0 = strtou_loop s base (0 :: u32)"
  by (induction n) (auto simp: isxdigit_iff isdigit_iff digit_value_def word_less_nat_alt word_le_nat_alt)

lemma strtou_loop_stop: "\<not> isxdigit (deref s) \<Longrightarrow> strtou_loop s base v = (v, s)"
  by (cases s) auto

text \<open>An explicit base makes the prefix test skip at most one zero.\<close>

lemma simple_strtoul_xdigits:
  assumes "\<forall>c \<in> set t. isxdigit c" and "t \<noteq> []" and "deref s \<noteq> CHR ''x''" and "2 \<le> base"
  shows "simple_strtoul (t @ s) base = strtou_loop (t @ s) base 0"
proof -
  obtain c t' where t: "t = c # t'" using assms(2) by (cases t) auto
  have x: "\<not> isxdigit CHR ''x''" by (simp add: isxdigit_iff isdigit_iff)
  have nx: "deref (t' @ s) \<noteq> CHR ''x''"
    using assms(1,3) x by (cases t') (auto simp: t)
  have "base \<noteq> 0" using assms(4) by auto
  then have "strtou_base (t @ s) base = (if c = CHR ''0'' then t' @ s else t @ s, base)"
    using nx by (simp add: strtou_base_def t)
  moreover have "strtou_loop (CHR ''0'' # t' @ s) base 0 = strtou_loop (t' @ s) base (0 :: u32)"
    using strtou_loop_zeros [OF assms(4), of 1] by simp
  ultimately show ?thesis
    by (cases "c = CHR ''0''") (simp_all add: simple_strtoul_def t del: strtou_loop.simps)
qed

text \<open>The digits of a number, with any zeros in front, are read back as the number.\<close>

lemma strtoul_digits:
  assumes "2 \<le> base" and "base \<le> 16" and "\<not> isxdigit (deref s)" and "deref s \<noteq> CHR ''x''"
  shows "simple_strtoul ((replicate z (CHR ''0'') @ number_digits (ucast n) base type) @ s) base = (n, s)"
proof -
  define ds where "ds = number_digits (ucast n) base type"
  have x0: "isxdigit CHR ''0''" by (simp add: isxdigit_iff isdigit_iff)
  have ds: "\<forall>c \<in> set (replicate z (CHR ''0'') @ ds). isxdigit c" "ds \<noteq> []"
    using x0 digit_loop_xdigits [OF assms(1,2)] digit_loop_nonempty [OF _ assms(1,2)]
    by (auto simp: ds_def number_digits_alt)
  have n: "(ucast (ucast n :: u64) :: u32) = n" by (simp add: word_unat_eq_iff unat_ucast_u64_u32 unat_u32_less)
  have "simple_strtoul ((replicate z (CHR ''0'') @ ds) @ s) base =
      strtou_loop ((replicate z (CHR ''0'') @ ds) @ s) base 0"
    using ds by (intro simple_strtoul_xdigits assms(1,4)) auto
  also have "\<dots> = strtou_loop (ds @ s) base 0" using strtou_loop_zeros [OF assms(1)] by simp
  also have "\<dots> = strtou_loop s base n"
  proof (cases "n = 0")
    case True
    then show ?thesis using strtou_loop_zeros [OF assms(1), of 1 s] by (simp add: ds_def number_digits_alt)
  next
    case False
    then have "(ucast n :: u64) \<noteq> 0" using n by auto
    then show ?thesis using strtou_loop_digits [OF assms(1,2)] n by (simp add: ds_def number_digits_alt)
  qed
  also have "\<dots> = (n, s)" by (rule strtou_loop_stop [OF assms(3)])
  finally show ?thesis by (simp add: ds_def)
qed

text \<open>
  C35: \<open>simple_strtoul\<close> reads back what \<open>number\<close> printed: for every value that fits 32 bits, every
  base from 2 to 16, upper or lower case, any precision, and zero padding to any width, the value
  is recovered and the parser stops exactly behind the number.
\<close>

theorem strtoul_number:
  assumes "2 \<le> base" and "base \<le> 16" and "\<not> has type SIGN" and "\<not> has type SPECIAL"
    and "w \<le> 0 \<or> has type ZEROPAD \<and> \<not> has type LEFT"
    and "\<not> isxdigit (deref s)" and "deref s \<noteq> CHR ''x''"
  shows "\<exists>t. number (ucast n) base w precision type = Some t \<and> simple_strtoul (t @ s) base = (n, s)"
proof -
  have b36: "base \<le> 36" using assms(2) by (rule order_trans) simp
  have sg: "number_sign (ucast n) type 0 = ([], ucast n, 0)" using assms(3) by (simp add: number_sign_def)
  define ds where "ds = number_digits (ucast n) base type"
  obtain z where t: "number (ucast n) base w precision type = Some (replicate z (CHR ''0'') @ ds)"
    using assms(4,5) unfolding number_eq [OF assms(1) b36 sg] ds_def [symmetric]
    by (auto simp: number_prefix_def replicate_add [symmetric] simp flip: append_assoc)
  then show ?thesis using strtoul_digits [OF assms(1,2,6,7), of z n type] by (auto simp: ds_def)
qed

theorem strtoul_number_witness:
  "\<exists>t. number (ucast (0xBEEF :: u32)) 16 8 (- 1) ZEROPAD = Some t \<and> simple_strtoul (t @ '' 4'') 16 = (0xBEEF, '' 4'')"
proof -
  have "has ZEROPAD ZEROPAD" "\<not> has ZEROPAD LEFT" "\<not> has ZEROPAD SIGN" "\<not> has ZEROPAD SPECIAL"
    by (simp_all add: has_def ZEROPAD_def LEFT_def SIGN_def SPECIAL_def)
  then show ?thesis
    by (intro strtoul_number) (simp_all add: isxdigit_iff isdigit_iff)
qed

section \<open>The formatter on plain text and single conversions\<close>

lemma vsprintf_loop_text:
  assumes "nul_free t" and "CHR ''%'' \<notin> set t"
  shows "vsprintf_loop (t @ fmt) args len = map_option (\<lambda>(s, st). (t @ s, st)) (vsprintf_loop fmt args (len + length t))"
  using assms by (induction t arbitrary: len) (auto simp: option.map_comp o_def split_def option.map_ident)

lemma pad_to_none [simp]: "w \<le> len \<Longrightarrow> pad_to len w = ([], w - 1)"
  by (subst pad_to.simps) simp

lemma directive_s:
  assumes "nul_free s" and "length s < 2 ^ 32"
  shows "directive (CHR ''s'' # fmt) (AStr (Some s) # args) len = Some (s, [], fmt, args)"
proof -
  have "strnlen s (unat (word_of_int (- 1) :: u32)) = length s"
    using assms by (simp add: strnlen_min unsigned_minus_1_eq_mask mask_eq_exp_minus_1)
  then have "fmt_string (- 1) (- 1) 0 (Some s) = s"
    by (simp add: fmt_string_def has_def Let_def)
  then show ?thesis
    by (simp add: directive_def get_width_def get_precision_def get_qualifier_def convert_def is_digit_def)
qed

text \<open>The decimal text of a number, and \<open>%d\<close> of one that is not negative.\<close>

abbreviation dec :: "u32 \<Rightarrow> string" where "dec v \<equiv> number_digits (ucast v) 10 SIGN"

lemma directive_d:
  assumes "v < 2 ^ 31"
  shows "directive (CHR ''d'' # fmt) (A32 v # args) len = Some (dec v, [], fmt, args)"
proof -
  have v: "uint v < 2 ^ 31" using assms by (simp add: word_less_def)
  moreover have "uint (ucast v :: u64) = uint v" by (simp add: uint_up_ucast is_up)
  ultimately have b: "uint v < 2 ^ 31" "uint (ucast v :: u64) < 2 ^ 63" by simp_all
  have p: "0 \<le> uint v" "0 \<le> uint (ucast v :: u64)" by (rule unsigned_greater_eq)+
  have "sint v = uint v" unfolding sint_uint by (rule signed_take_bit_int_eq_self) (use b(1) p(1) in \<open>simp_all add: order_trans [OF _ p(1)]\<close>)
  then have "(scast v :: u64) = ucast v" by (metis scast_eq ucast_eq word_of_int_uint)
  moreover have "sint (ucast v :: u64) = uint (ucast v :: u64)"
    unfolding sint_uint by (rule signed_take_bit_int_eq_self) (use b(2) p(2) in \<open>simp_all add: order_trans [OF _ p(2)]\<close>)
  then have "\<not> sint (ucast v :: u64) < 0" by simp
  moreover have "has SIGN SIGN" "\<not> has SIGN PLUS" "\<not> has SIGN SPACE" "\<not> has SIGN LEFT" "\<not> has SIGN ZEROPAD" "\<not> has SIGN SPECIAL"
    by (simp_all add: has_def ZEROPAD_def LEFT_def SIGN_def SPECIAL_def PLUS_def SPACE_def)
  moreover from calculation have "number (ucast v) 10 (- 1) (- 1) SIGN = Some (dec v)"
    by (subst number_eq [where sign = "[]" and num' = "ucast v" and ?w0.0 = 0]) (simp_all add: number_sign_def number_prefix_def)
  ultimately show ?thesis
    by (simp add: directive_def get_width_def get_precision_def get_qualifier_def convert_def is_digit_def get_num_def NUL_def)
qed

text \<open>
  the formatter is compositional on what most messages consist of: text without a percent sign
  is copied, \<open>%s\<close> is replaced by its argument in full, and the rest of the format sees the rest of
  the arguments.
\<close>

lemma vsprintf_string:
  assumes "nul_free t" and "CHR ''%'' \<notin> set t" and "nul_free s" and "length s < 2 ^ 32"
  shows "vsprintf_loop (t @ ''%s'' @ fmt) (AStr (Some s) # args) len =
    map_option (\<lambda>(r, st). (t @ s @ r, st)) (vsprintf_loop fmt args (len + length t + length s))"
  using directive_s [OF assms(3,4)]
  by (simp add: vsprintf_loop_text [OF assms(1,2)] NUL_def option.map_comp o_def split_def)

theorem vsprintf_string_witness:
  "vsprintf ''boot %s now'' [AStr (Some ''linux'')] = Some (''boot linux now'', [])"
proof -
  have "vsprintf_loop '' now'' [] 10 = Some ('' now'', [])" by (simp add: NUL_def)
  then show ?thesis
    using vsprintf_string [of "''boot ''" "''linux''" "'' now''" "[]" 0] by (simp add: vsprintf_def NUL_def)
qed

text \<open>
  A divergence: \<open>%ld\<close> takes its argument as \<^verbatim>\<open>unsigned long\<close> and widens it without the sign, so
  with 64-bit formatting on a 32-bit machine a negative \<open>long\<close> is printed as a large positive
  number; \<open>%d\<close> prints it right.
\<close>

lemma vsprintf_ld_negative:
  "vsprintf ''%ld'' [A32 (- 1)] = Some (''4294967295'', [])" "vsprintf ''%d'' [A32 (- 1)] = Some (''-1'', [])"
  by code_simp+

end
