(* ===== verification/Env.thy ===== *)
theory Env
  imports Crc32 Vsprintf
begin

text \<open>
  The environment: the variables the board boots by. \<^verbatim>\<open>common/env_common.c\<close> and
  \<^verbatim>\<open>common/env_nowhere.c\<close> hold the area and its access functions, \<^verbatim>\<open>common/cmd_nvedit.c\<close> the
  commands. The area is one block of memory with the entries \<open>name=value\<close> one after the other,
  each closed by a NUL, and one more NUL behind the last.

  The model is that of the board's configuration (\<^verbatim>\<open>include/configs/aspenite.h\<close>):
  \<^verbatim>\<open>CONFIG_ENV_IS_NOWHERE\<close>, \<^verbatim>\<open>CONFIG_ENV_OVERWRITE\<close>, no console multiplexer, and the network
  branches compiled in. The area is the list of its characters and pointers into it are indices.
  An outer \<open>None\<close> is an access outside the area, a dereference of NULL or a \<open>getc\<close> that never
  returns; an inner \<open>None\<close> is the NULL or the \<open>-1\<close> the code returns. \<open>console_assign\<close>
  (\<^verbatim>\<open>common/console.c\<close>) and \<open>ctrlc\<close> are parameters. Messages and hardware calls are collected in
  \<open>effects\<close>, the newest last.
\<close>

section \<open>State\<close>

definition CONFIG_ENV_SIZE :: nat where "CONFIG_ENV_SIZE = 0x20000"
definition ENV_SIZE :: nat where "ENV_SIZE = CONFIG_ENV_SIZE - 4"

record env_t =
  env_crc :: u32
  env_bytes :: string

datatype env_loc = Env_Default | Env_Ram

datatype effect = Printf string "arg list" | Udelay nat | Serial_setbrg int | Getc

record env_state =
  default_environment :: string
  env_ptr :: "env_t option"
  gd_env_addr :: env_loc
  gd_env_valid :: bool
  gd_reloc :: bool
  gd_baudrate :: int
  bi_enetaddr :: "u8 list"
  bi_ip_addr :: u32
  load_addr :: u32
  BootFile :: string
  eth_devices :: "u8 list list"
  con_input :: string
  effects :: "effect list"

section \<open>The area\<close>

text \<open>The memory \<open>gd->env_addr\<close> points to.\<close>

definition at_env_addr :: "env_state \<Rightarrow> string option" where
  "at_env_addr st =
     (case gd_env_addr st of Env_Default \<Rightarrow> Some (default_environment st)
      | Env_Ram \<Rightarrow> map_option env_bytes (env_ptr st))"

definition read_at :: "string option \<Rightarrow> nat \<Rightarrow> char option" where
  "read_at m i = (case m of None \<Rightarrow> None | Some d \<Rightarrow> if i < length d then Some (d ! i) else None)"

definition env_get_char_spec :: "env_state \<Rightarrow> nat \<Rightarrow> char option" where
  "env_get_char_spec st i = read_at (at_env_addr st) i"

definition env_get_char_init :: "env_state \<Rightarrow> nat \<Rightarrow> char option" where
  "env_get_char_init st i =
     (if gd_env_valid st then env_get_char_spec st i else read_at (Some (default_environment st)) i)"

definition env_get_char_memory :: "env_state \<Rightarrow> nat \<Rightarrow> char option" where
  "env_get_char_memory st i =
     (if gd_env_valid st then read_at (at_env_addr st) i else read_at (Some (default_environment st)) i)"

definition env_get_char :: "env_state \<Rightarrow> nat \<Rightarrow> char option" where
  "env_get_char st i = (if gd_reloc st then env_get_char_memory st i else env_get_char_init st i)"

text \<open>The area \<open>env_get_addr\<close> points into.\<close>

definition env_get_addr :: "env_state \<Rightarrow> string option" where
  "env_get_addr st = (if gd_env_valid st then at_env_addr st else Some (default_environment st))"

definition put_area :: "string \<Rightarrow> env_state \<Rightarrow> env_state" where
  "put_area d st =
     (if gd_env_valid st \<and> gd_env_addr st = Env_Ram
      then st\<lparr>env_ptr := map_option (\<lambda>e. e\<lparr>env_bytes := d\<rparr>) (env_ptr st)\<rparr>
      else st\<lparr>default_environment := d\<rparr>)"

definition env_crc_update :: "env_state \<Rightarrow> env_state option" where
  "env_crc_update st =
     (case env_ptr st of None \<Rightarrow> None
      | Some e \<Rightarrow> Some (st\<lparr>env_ptr := Some (e\<lparr>env_crc := crc32 0 (map of_char (env_bytes e))\<rparr>)\<rparr>))"

definition out :: "effect \<Rightarrow> env_state \<Rightarrow> env_state" where
  "out e st = st\<lparr>effects := effects st @ [e]\<rparr>"

definition set_default_env :: "env_state \<Rightarrow> env_state option" where
  "set_default_env st =
     (if length (default_environment st) > ENV_SIZE
      then Some (out (Printf ''*** Error - default environment is too large'' []) st)
      else (case env_ptr st of None \<Rightarrow> None
            | Some e \<Rightarrow>
                map_option (\<lambda>st. st\<lparr>gd_env_valid := True\<rparr>)
                  (env_crc_update (st\<lparr>env_ptr := Some \<lparr>env_crc = 0,
                     env_bytes = buf_write (replicate ENV_SIZE NUL) 0 (default_environment st)\<rparr>\<rparr>))))"

definition env_init :: "env_state \<Rightarrow> env_state" where
  "env_init st = st\<lparr>gd_env_addr := Env_Default, gd_env_valid := False\<rparr>"

text \<open>\<open>env_relocate_spec\<close> is empty in this configuration. The buffer \<open>malloc\<close> gives, or NULL, is an argument.\<close>

definition env_relocate :: "env_t option \<Rightarrow> env_state \<Rightarrow> env_state option" where
  "env_relocate buf st =
     (let st = st\<lparr>env_ptr := buf\<rparr>
      in map_option (\<lambda>st. st\<lparr>gd_env_addr := Env_Ram\<rparr>)
           (if \<not> gd_env_valid st then set_default_env (out (Printf ''Using default environment'' []) st)
            else Some st))"

section \<open>Looking up\<close>

text \<open>\<open>for (nxt=i; env_get_char(nxt) != '\0'; ++nxt);\<close>\<close>

function next_nul :: "string \<Rightarrow> nat \<Rightarrow> nat option" where
  "next_nul d nxt =
     (if nxt < length d then (if d ! nxt = NUL then Some nxt else next_nul d (nxt + 1)) else None)"
  by pat_completeness auto

termination by (relation "measure (\<lambda>(d, n). length d - n)") auto

text \<open>The name is a C string: reading behind its NUL, too, is an access outside.\<close>

function envmatch :: "string \<Rightarrow> string \<Rightarrow> nat \<Rightarrow> nat option option" where
  "envmatch d s1 i2 =
     (if i2 < length d
      then (if deref s1 = d ! i2
            then (if deref s1 = CHR ''='' then Some (Some (i2 + 1))
                  else if deref s1 = NUL then None else envmatch d (tl s1) (i2 + 1))
            else if deref s1 = NUL \<and> d ! i2 = CHR ''='' then Some (Some (i2 + 1))
            else Some None)
      else None)"
  by pat_completeness auto

termination by (relation "measure (\<lambda>(d, s, i). length d - i)") auto

text \<open>The inner loop of \<open>getenv\<close> gives up behind \<^verbatim>\<open>CONFIG_ENV_SIZE\<close>.\<close>

function getenv_nxt :: "string \<Rightarrow> nat \<Rightarrow> nat option option" where
  "getenv_nxt d nxt =
     (if nxt < length d
      then (if d ! nxt = NUL then Some (Some nxt)
            else if nxt \<ge> CONFIG_ENV_SIZE then Some None else getenv_nxt d (nxt + 1))
      else None)"
  by pat_completeness auto

termination by (relation "measure (\<lambda>(d, n). length d - n)") auto

lemma getenv_nxt_ge: "getenv_nxt d i = Some (Some nxt) \<Longrightarrow> i \<le> nxt \<and> nxt < length d"
proof (induction d i rule: getenv_nxt.induct)
  case (1 d i)
  then show ?case using getenv_nxt.simps [of d i] by (fastforce split: if_splits)
qed

declare next_nul.simps [simp del] envmatch.simps [simp del] getenv_nxt.simps [simp del]

function getenv_loop :: "string \<Rightarrow> string \<Rightarrow> nat \<Rightarrow> nat option option" where
  "getenv_loop d name i =
     (if i < length d
      then (if d ! i = NUL then Some None
            else (case getenv_nxt d i of None \<Rightarrow> None | Some None \<Rightarrow> Some None
                  | Some (Some nxt) \<Rightarrow>
                      (case envmatch d name i of None \<Rightarrow> None
                       | Some None \<Rightarrow> getenv_loop d name (nxt + 1)
                       | Some (Some v) \<Rightarrow> Some (Some v))))
      else None)"
  by pat_completeness auto

termination
  by (relation "measure (\<lambda>(d, s, i). length d - i)") (auto dest: getenv_nxt_ge)

definition getenv :: "env_state \<Rightarrow> string \<Rightarrow> nat option option" where
  "getenv st name = (case env_get_addr st of None \<Rightarrow> None | Some d \<Rightarrow> getenv_loop d name 0)"

text \<open>What \<open>getenv_r\<close> writes to \<open>buf\<close>, from its start, and the final \<open>n\<close>.\<close>

function getenv_copy :: "string \<Rightarrow> nat \<Rightarrow> nat \<Rightarrow> nat \<Rightarrow> (string \<times> nat) option" where
  "getenv_copy d v len n =
     (if len > n
      then (if v < length d
            then (if d ! v = NUL then Some ([NUL], n + 1)
                  else map_option (\<lambda>(b, m). (d ! v # b, m)) (getenv_copy d (v + 1) len (n + 1)))
            else None)
      else Some ([], n + 1))"
  by pat_completeness auto

termination by (relation "measure (\<lambda>(d, v, l, n). length d - v)") auto

definition getenv_r :: "env_state \<Rightarrow> string \<Rightarrow> nat \<Rightarrow> (string \<times> int) option" where
  "getenv_r st name len =
     (case env_get_addr st of None \<Rightarrow> None
      | Some d \<Rightarrow>
          (case getenv_loop d name 0 of None \<Rightarrow> None
           | Some None \<Rightarrow> Some ([], - 1)
           | Some (Some v) \<Rightarrow>
               map_option (\<lambda>(b, n). (if len = n then b @ [NUL] else b, int n)) (getenv_copy d v len 0)))"

declare getenv_loop.simps [simp del] getenv_copy.simps [simp del]

section \<open>Setting\<close>

text \<open>The search of \<open>_do_setenv\<close>: start of the entry, its NUL, and the index of the value.\<close>

lemma next_nul_ge: "next_nul d i = Some nxt \<Longrightarrow> i \<le> nxt \<and> nxt < length d"
proof (induction d i rule: next_nul.induct)
  case (1 d i)
  then show ?case using next_nul.simps [of d i] by (fastforce split: if_splits)
qed

function find_var :: "string \<Rightarrow> string \<Rightarrow> nat \<Rightarrow> (nat \<times> nat \<times> nat) option option" where
  "find_var d name env =
     (if env < length d
      then (if d ! env = NUL then Some None
            else (case next_nul d env of None \<Rightarrow> None
                  | Some nxt \<Rightarrow>
                      (case envmatch d name env of None \<Rightarrow> None
                       | Some None \<Rightarrow> find_var d name (nxt + 1)
                       | Some (Some oldval) \<Rightarrow> Some (Some (env, nxt, oldval)))))
      else None)"
  by pat_completeness auto

termination
  by (relation "measure (\<lambda>(d, s, i). length d - i)") (auto dest: next_nul_ge)

text \<open>The loop that moves the entries behind a deleted one down, and the deletion around it.\<close>

function move_down :: "string \<Rightarrow> nat \<Rightarrow> nat \<Rightarrow> (string \<times> nat) option" where
  "move_down d env nxt =
     (if nxt + 1 < length d \<and> env < length d
      then (let d = d[env := d ! nxt]; nxt = nxt + 1
            in if d ! env = NUL \<and> d ! nxt = NUL then Some (d, env) else move_down d (env + 1) nxt)
      else None)"
  by pat_completeness auto

termination by (relation "measure (\<lambda>(d, env, nxt). length d - nxt)") auto

definition delete_var :: "string \<Rightarrow> nat \<Rightarrow> nat \<Rightarrow> string option" where
  "delete_var d env nxt =
     (let nxt = nxt + 1
      in if nxt < length d
         then (case (if d ! nxt = NUL
                     then (if env > 0 then Some (d, env - 1) else Some (d[env := NUL], env))
                     else move_down d env nxt) of
                 None \<Rightarrow> None
               | Some (d, env) \<Rightarrow> if env + 1 < length d then Some (d[env + 1 := NUL]) else None)
         else None)"

text \<open>\<open>for (env=env_data; *env || *(env+1); ++env);\<close>\<close>

function find_end :: "string \<Rightarrow> nat \<Rightarrow> nat option" where
  "find_end d env =
     (if env + 1 < length d
      then (if d ! env \<noteq> NUL \<or> d ! (env + 1) \<noteq> NUL then find_end d (env + 1) else Some env)
      else None)"
  by pat_completeness auto

termination by (relation "measure (\<lambda>(d, env). length d - env)") auto

text \<open>\<open>while ((*env = *s++) != '\0') env++;\<close>: the area and the index of the NUL that was written.\<close>

fun put_str :: "string \<Rightarrow> nat \<Rightarrow> string \<Rightarrow> (string \<times> nat) option" where
  "put_str d env [] = (if env < length d then Some (d[env := NUL], env) else None)"
| "put_str d env (c # s) =
     (if env < length d
      then (if c = NUL then Some (d[env := NUL], env) else put_str (d[env := c]) (env + 1) s)
      else None)"

fun put_args :: "string \<Rightarrow> nat \<Rightarrow> char \<Rightarrow> string list \<Rightarrow> (string \<times> nat) option" where
  "put_args d env sep [] = Some (d, env)"
| "put_args d env sep (val # vals) =
     (if env < length d
      then (case put_str (d[env := sep]) (env + 1) val of None \<Rightarrow> None
            | Some (d, env) \<Rightarrow> put_args d env (CHR '' '') vals)
      else None)"

text \<open>Appending: \<open>Some None\<close> when the entry does not fit.\<close>

definition append_var :: "string \<Rightarrow> string \<Rightarrow> string list \<Rightarrow> string option option" where
  "append_var d name vals =
     (case find_end d 0 of None \<Rightarrow> None
      | Some env \<Rightarrow>
          (let env = (if env > 0 then env + 1 else env);
               len = foldl (\<lambda>len val. len + (strlen val + 1)) (strlen name + 2) vals
           in if int len > int ENV_SIZE - int env then Some None
              else (case put_str d env name of None \<Rightarrow> None
                    | Some (d, env) \<Rightarrow>
                        (case put_args d env (CHR ''='') vals of None \<Rightarrow> None
                         | Some (d, env) \<Rightarrow>
                             if env + 1 < length d then Some (Some (d[env + 1 := NUL])) else None))))"

definition baudrate_table :: "int list" where "baudrate_table = [9600, 19200, 38400, 57600, 115200]"

text \<open>The tests before an existing variable is deleted: \<open>Inl\<close> is an early return.\<close>

definition set_baudrate :: "string option \<Rightarrow> env_state \<Rightarrow> (int \<times> env_state + env_state) option" where
  "set_baudrate arg2 st =
     (case arg2 of None \<Rightarrow> None
      | Some v \<Rightarrow>
          (let baudrate = sint (fst (simple_strtoul v 10))
           in if baudrate \<notin> set baudrate_table
              then Some (Inl (1, out (Printf ''## Baudrate %d bps not supported'' [A32 (word_of_int baudrate)]) st))
              else (let st = out (Printf ''## Switch baudrate to %d bps and press ENTER ...'' [A32 (word_of_int baudrate)]) st;
                        st = out (Serial_setbrg baudrate) ((out (Udelay 50000) st)\<lparr>gd_baudrate := baudrate\<rparr>);
                        st = out (Udelay 50000) st;
                        rest = dropWhile (\<lambda>c. c \<noteq> CHR 0x0D) (con_input st)
                    in if rest = [] then None else Some (Inr (st\<lparr>con_input := tl rest\<rparr>)))))"

text \<open>The console redirection: an early return, if there is one.\<close>

definition check_console ::
  "(nat \<Rightarrow> string \<Rightarrow> int) \<Rightarrow> string \<Rightarrow> string option \<Rightarrow> env_state \<Rightarrow> (int \<times> env_state) option"
where
  "check_console console_assign name arg2 st =
     (let console = (if strcmp name ''stdin'' = 0 then Some 0 else if strcmp name ''stdout'' = 0 then Some 1
                     else if strcmp name ''stderr'' = 0 then Some 2 else None)
      in case console of None \<Rightarrow> None
         | Some c \<Rightarrow>
             (case arg2 of
                None \<Rightarrow> Some (1, out (Printf ''Can't delete \"%s\"'' [AStr (Some name)]) st)
              | Some v \<Rightarrow> if console_assign c v < 0 then Some (1, st) else None))"

definition check_change ::
  "(nat \<Rightarrow> string \<Rightarrow> int) \<Rightarrow> string \<Rightarrow> string option \<Rightarrow> env_state \<Rightarrow> (int \<times> env_state + env_state) option"
where
  "check_change console_assign name arg2 st =
     (case check_console console_assign name arg2 st of Some r \<Rightarrow> Some (Inl r)
      | None \<Rightarrow> if strcmp name ''baudrate'' = 0 then set_baudrate arg2 st else Some (Inr st))"

text \<open>\<open>s ? simple_strtoul(s, &e, base) : 0; if (s) s = (*e) ? e+1 : e;\<close>\<close>

definition addr_part :: "u32 \<Rightarrow> string option \<Rightarrow> u32 \<times> string option" where
  "addr_part base s =
     (case s of None \<Rightarrow> (0, None)
      | Some s \<Rightarrow> (let (v, e) = simple_strtoul s base in (v, Some (if deref e \<noteq> NUL then tl e else e))))"

fun addr_parts :: "nat \<Rightarrow> u32 \<Rightarrow> string option \<Rightarrow> u32 list" where
  "addr_parts 0 base s = []"
| "addr_parts (Suc n) base s = (let (v, s) = addr_part base s in v # addr_parts n base s)"

definition eth_set_enetaddr :: "int \<Rightarrow> string option \<Rightarrow> u8 list list \<Rightarrow> u8 list list" where
  "eth_set_enetaddr num addr devs =
     (if devs = [] then devs
      else (let enetaddr = map ucast (addr_parts 6 16 addr)
            in if nat num < length devs then devs[nat num := enetaddr] else devs))"

definition htonl :: "u32 \<Rightarrow> u32" where
  "htonl x = push_bit 24 (x AND 0xFF) OR (push_bit 8 (x AND 0xFF00) OR (drop_bit 8 (x AND 0xFF0000) OR drop_bit 24 x))"

fun copy_file_loop :: "string \<Rightarrow> int \<Rightarrow> string" where
  "copy_file_loop [] size' = []"
| "copy_file_loop (c # src) size' =
     (if size' - 1 > 0 \<and> c \<noteq> NUL \<and> c \<noteq> CHR 0x22 then c # copy_file_loop src (size' - 1) else [])"

definition copy_filename :: "string \<Rightarrow> int \<Rightarrow> string" where
  "copy_filename src size' =
     (if deref src = CHR 0x22 then copy_file_loop (tl src) (size' - 1) else copy_file_loop src size')"

text \<open>The last part: what follows a change of some variables.\<close>

definition after_set :: "string \<Rightarrow> string \<Rightarrow> env_state \<Rightarrow> env_state" where
  "after_set name val st =
     (if strcmp name ''ethaddr'' = 0
      then st\<lparr>bi_enetaddr := map ucast (addr_parts 6 16 (Some val)),
              eth_devices := eth_set_enetaddr 0 (Some val) (eth_devices st)\<rparr>
      else if strcmp name ''ipaddr'' = 0
      then st\<lparr>bi_ip_addr := htonl (foldl (\<lambda>addr v. push_bit 8 addr OR (v AND 0xFF)) 0 (addr_parts 4 10 (Some val)))\<rparr>
      else if strcmp name ''loadaddr'' = 0 then st\<lparr>load_addr := fst (simple_strtoul val 16)\<rparr>
      else if strcmp name ''bootfile'' = 0 then st\<lparr>BootFile := copy_filename val 128\<rparr>
      else st)"

definition notify_eth :: "string \<Rightarrow> string option \<Rightarrow> env_state \<Rightarrow> env_state" where
  "notify_eth name arg2 st =
     (if strncmp name ''eth'' 3 = 0
      then (let (num, end') = simple_strtoul (drop 3 name) 10
            in if strcmp end' ''addr'' = 0
               then st\<lparr>eth_devices := eth_set_enetaddr (sint num) arg2 (eth_devices st)\<rparr> else st)
      else st)"

text \<open>
  The whole handler; \<open>argv\<close> has the arguments \<open>argv[1]\<close> to \<open>argv[argc-1]\<close>, the caller has checked
  that there is one. The vector is closed by NULL, which is what \<open>argv[2]\<close> reads when it is missing.
\<close>

definition set_or_delete :: "string \<Rightarrow> string list \<Rightarrow> env_state \<Rightarrow> (int \<times> env_state) option" where
  "set_or_delete name vals st =
     (case vals of
        [] \<Rightarrow> map_option (\<lambda>st. (0, st)) (env_crc_update st)
      | val # _ \<Rightarrow>
          (case env_get_addr st of None \<Rightarrow> None
           | Some d \<Rightarrow>
               (case append_var d name vals of None \<Rightarrow> None
                | Some None \<Rightarrow>
                    Some (1, out (Printf ''## Error: environment overflow, \"%s\" deleted'' [AStr (Some name)]) st)
                | Some (Some d) \<Rightarrow>
                    map_option (\<lambda>st. (0, after_set name val st)) (env_crc_update (put_area d st)))))"

definition do_setenv_args ::
  "(nat \<Rightarrow> string \<Rightarrow> int) \<Rightarrow> string \<Rightarrow> string list \<Rightarrow> env_state \<Rightarrow> (int \<times> env_state) option" where
  "do_setenv_args console_assign name vals st =
     (case env_get_addr st of None \<Rightarrow> Some (1, st)
      | Some d \<Rightarrow>
          if strchr name 61 \<noteq> None
          then Some (1, out (Printf ''## Error: illegal character '=' in variable name \"%s\"'' [AStr (Some name)]) st)
          else (let arg2 = (case vals of [] \<Rightarrow> None | v # _ \<Rightarrow> Some v)
                in case find_var d name 0 of None \<Rightarrow> None
                   | Some None \<Rightarrow> set_or_delete name vals (notify_eth name arg2 st)
                   | Some (Some (env, nxt, oldval)) \<Rightarrow>
                       (case check_change console_assign name arg2 st of None \<Rightarrow> None
                        | Some (Inl r) \<Rightarrow> Some r
                        | Some (Inr st) \<Rightarrow>
                            (case delete_var d env nxt of None \<Rightarrow> None
                             | Some d \<Rightarrow> set_or_delete name vals (notify_eth name arg2 (put_area d st))))))"

definition setenv :: "(nat \<Rightarrow> string \<Rightarrow> int) \<Rightarrow> string \<Rightarrow> string option \<Rightarrow> env_state \<Rightarrow> (int \<times> env_state) option" where
  "setenv console_assign varname varvalue st =
     do_setenv_args console_assign varname (case varvalue of None \<Rightarrow> [] | Some v \<Rightarrow> [v]) st"

definition do_setenv :: "(nat \<Rightarrow> string \<Rightarrow> int) \<Rightarrow> string list \<Rightarrow> env_state \<Rightarrow> (int \<times> env_state) option" where
  "do_setenv console_assign argv st =
     (case argv of
        cmd # name # vals \<Rightarrow> do_setenv_args console_assign name vals st
      | _ \<Rightarrow> Some (1, out (Printf ''Usage:%s'' [AStr (Some ''setenv'')]) st))"

declare find_var.simps [simp del] move_down.simps [simp del] find_end.simps [simp del]

section \<open>Printing\<close>

text \<open>
  \<open>ctrlc k\<close> is the answer of the \<open>k\<close>-th poll. The result is the text, the index of the
  closing NUL, and whether the user aborted.
\<close>

function print_all :: "string \<Rightarrow> (nat \<Rightarrow> bool) \<Rightarrow> nat \<Rightarrow> nat \<Rightarrow> (string \<times> nat \<times> bool) option" where
  "print_all d ctrlc poll i =
     (if i < length d
      then (if d ! i = NUL then Some ([], i, False)
            else (case next_nul d i of None \<Rightarrow> None
                  | Some nxt \<Rightarrow>
                      (let line = map ((!) d) [i..<nxt] @ [CHR 0x0A]
                       in if ctrlc poll then Some (line, i, True)
                          else map_option (\<lambda>(s, i, ab). (line @ s, i, ab)) (print_all d ctrlc (poll + 1) (nxt + 1)))))
      else None)"
  by pat_completeness auto

termination
  by (relation "measure (\<lambda>(d, c, k, i). length d - i)") (auto dest: next_nul_ge)

text \<open>One name: the text, or \<open>None\<close> when it is not defined.\<close>

function print_one :: "string \<Rightarrow> string \<Rightarrow> nat \<Rightarrow> string option option" where
  "print_one d name j =
     (if j < length d
      then (if d ! j = NUL then Some None
            else (case next_nul d j of None \<Rightarrow> None
                  | Some nxt \<Rightarrow>
                      (case envmatch d name j of None \<Rightarrow> None
                       | Some None \<Rightarrow> print_one d name (nxt + 1)
                       | Some (Some k) \<Rightarrow>
                           Some (Some (name @ CHR ''='' # map ((!) d) [k..<nxt] @ [CHR 0x0A])))))
      else None)"
  by pat_completeness auto

termination
  by (relation "measure (\<lambda>(d, s, i). length d - i)") (auto dest: next_nul_ge)

declare print_all.simps [simp del] print_one.simps [simp del]

fun print_names :: "string \<Rightarrow> string list \<Rightarrow> (string \<times> int) option" where
  "print_names d [] = Some ([], 0)"
| "print_names d (name # names) =
     (case (print_one d name 0, print_names d names) of
        (Some (Some t), Some (s, rc)) \<Rightarrow> Some (t @ s, rc)
      | (Some None, Some (s, rc)) \<Rightarrow> Some (''## Error: '' @ CHR 0x22 # name @ CHR 0x22 # '' not defined'' @ CHR 0x0A # s, rc + 1)
      | _ \<Rightarrow> None)"

text \<open>The text and the return code; \<open>argv\<close> has the command's name first.\<close>

definition do_printenv :: "(nat \<Rightarrow> bool) \<Rightarrow> string list \<Rightarrow> env_state \<Rightarrow> (string \<times> int) option" where
  "do_printenv ctrlc argv st =
     (case env_get_addr st of None \<Rightarrow> None
      | Some d \<Rightarrow>
          if length argv = 1
          then (case print_all d ctrlc 0 0 of None \<Rightarrow> None
                | Some (s, i, True) \<Rightarrow> Some (s @ CHR 0x0A # '' ** Abort'' @ [CHR 0x0A], 1)
                | Some (s, i, False) \<Rightarrow>
                    map_option (\<lambda>(t, _). (s @ CHR 0x0A # t @ [CHR 0x0A], 0))
                      (vsprintf ''Environment size: %d/%ld bytes'' [A32 (of_nat i), A32 (of_nat ENV_SIZE)]))
          else print_names d (tl argv))"

section \<open>The area as a list of entries\<close>

definition key :: "string \<Rightarrow> string" where "key e = takeWhile (\<lambda>c. c \<noteq> CHR ''='') e"
definition val :: "string \<Rightarrow> string" where "val e = tl (dropWhile (\<lambda>c. c \<noteq> CHR ''='') e)"
definition entry :: "string \<Rightarrow> bool" where "entry e \<longleftrightarrow> nul_free e \<and> CHR ''='' \<in> set e"

definition flat :: "string list \<Rightarrow> string" where "flat es = concat (map (\<lambda>e. e @ [NUL]) es)"

text \<open>The entries with the closing NUL; an empty area is closed by two.\<close>

definition area :: "string list \<Rightarrow> string" where
  "area es = (if es = [] then [NUL, NUL] else flat es @ [NUL])"

definition env_repr :: "string \<Rightarrow> string list \<Rightarrow> bool" where
  "env_repr d es \<longleftrightarrow> (\<exists>rest. d = area es @ rest) \<and> (\<forall>e \<in> set es. entry e)"

lemma flat_simps [simp]: "flat [] = []" "flat (e # es) = e @ NUL # flat es" "flat (es @ fs) = flat es @ flat fs"
  by (simp_all add: flat_def)

lemma key_simps [simp]: "key [] = []" "key (c # s) = (if c = CHR ''='' then [] else c # key s)"
  by (simp_all add: key_def)

lemma key_no_eq [simp]: "CHR ''='' \<notin> set n \<Longrightarrow> key n = n" "CHR ''='' \<notin> set n \<Longrightarrow> key (n @ CHR ''='' # v) = n"
  by (induction n) auto

lemma val_no_eq [simp]: "CHR ''='' \<notin> set n \<Longrightarrow> val (n @ CHR ''='' # v) = v"
  by (induction n) (auto simp: val_def)

lemma entry_split: "entry e \<Longrightarrow> e = key e @ CHR ''='' # val e"
proof -
  assume "entry e"
  then have "dropWhile (\<lambda>c. c \<noteq> CHR ''='') e \<noteq> []" "CHR ''='' \<in> set e"
    by (auto simp: entry_def)
  then have "dropWhile (\<lambda>c. c \<noteq> CHR ''='') e = CHR ''='' # val e"
    using hd_dropWhile [of "\<lambda>c. c \<noteq> CHR ''=''" e] unfolding val_def by (metis list.collapse)
  then show ?thesis unfolding key_def by (metis takeWhile_dropWhile_id)
qed

lemma entryD: "entry e \<Longrightarrow> nul_free e" "entry e \<Longrightarrow> e \<noteq> []" "entry e \<Longrightarrow> hd e \<noteq> NUL"
  by (cases e; auto simp: entry_def nul_free_def)+

section \<open>Scanning\<close>

lemma next_nul_spec: "nul_free e \<Longrightarrow> next_nul (pre @ e @ NUL # s) (length pre) = Some (length pre + length e)"
proof (induction e arbitrary: pre)
  case Nil
  then show ?case by (subst next_nul.simps) simp
next
  case (Cons c e)
  then show ?case using Cons.IH [of "pre @ [c]"] by (subst next_nul.simps) simp
qed

lemma getenv_nxt_spec:
  "nul_free e \<Longrightarrow> length pre + length e \<le> CONFIG_ENV_SIZE \<Longrightarrow>
    getenv_nxt (pre @ e @ NUL # s) (length pre) = Some (Some (length pre + length e))"
proof (induction e arbitrary: pre)
  case Nil
  then show ?case by (subst getenv_nxt.simps) simp
next
  case (Cons c e)
  then show ?case using Cons.IH [of "pre @ [c]"] by (subst getenv_nxt.simps) simp
qed

lemma envmatch_spec:
  "entry e \<Longrightarrow> nul_free n \<Longrightarrow> envmatch (pre @ e @ s) n (length pre) =
    Some (if key e = key n then Some (length pre + length (key e) + 1) else None)"
proof (induction e arbitrary: pre n)
  case Nil
  then show ?case by (simp add: entry_def)
next
  case (Cons c e)
  have c: "c \<noteq> NUL" using Cons.prems(1) by (simp add: entry_def)
  show ?case
  proof (cases n)
    case Nil
    then show ?thesis using c by (subst envmatch.simps) (auto simp: NUL_def)
  next
    case (Cons a n')
    have IH: "envmatch ((pre @ [c]) @ e @ s) n' (length (pre @ [c])) =
      Some (if key e = key n' then Some (length (pre @ [c]) + length (key e) + 1) else None)" if "c \<noteq> CHR ''=''"
      using Cons.IH [of n' "pre @ [c]"] Cons.prems that Cons by (auto simp: entry_def)
    show ?thesis using c IH Cons Cons.prems(2) by (subst envmatch.simps) (auto simp: nth_append)
  qed
qed

lemma find_var_skip:
  assumes "entry e" and "nul_free n" and "key e \<noteq> key n"
  shows "find_var (pre @ e @ NUL # s) n (length pre) = find_var (pre @ e @ NUL # s) n (length (pre @ e @ [NUL]))"
proof -
  have "hd e = (pre @ e @ NUL # s) ! length pre"
    using entryD(2) [OF assms(1)] by (simp add: nth_append hd_conv_nth)
  then show ?thesis
    using entryD [OF assms(1)] next_nul_spec [of e pre s] envmatch_spec [OF assms(1,2), of pre "NUL # s"] assms(3)
    by (subst find_var.simps) simp
qed

lemma getenv_skip:
  assumes "entry e" and "nul_free n" and "key e \<noteq> key n" and "length pre + length e \<le> CONFIG_ENV_SIZE"
  shows "getenv_loop (pre @ e @ NUL # s) n (length pre) = getenv_loop (pre @ e @ NUL # s) n (length (pre @ e @ [NUL]))"
proof -
  have "hd e = (pre @ e @ NUL # s) ! length pre"
    using entryD(2) [OF assms(1)] by (simp add: nth_append hd_conv_nth)
  then show ?thesis
    using entryD [OF assms(1)] getenv_nxt_spec [OF _ assms(4), of s] envmatch_spec [OF assms(1,2), of pre "NUL # s"] assms(3)
    by (subst getenv_loop.simps) simp
qed

lemma find_var_hit:
  assumes "entry e" and "nul_free n" and "key e = key n"
  shows "find_var (pre @ e @ NUL # s) n (length pre) =
    Some (Some (length pre, length pre + length e, length pre + length (key e) + 1))"
proof -
  have "hd e = (pre @ e @ NUL # s) ! length pre"
    using entryD(2) [OF assms(1)] by (simp add: nth_append hd_conv_nth)
  then show ?thesis
    using entryD [OF assms(1)] next_nul_spec [of e pre s] envmatch_spec [OF assms(1,2), of pre "NUL # s"] assms(3)
    by (subst find_var.simps) simp
qed

lemma getenv_hit:
  assumes "entry e" and "nul_free n" and "key e = key n" and "length pre + length e \<le> CONFIG_ENV_SIZE"
  shows "getenv_loop (pre @ e @ NUL # s) n (length pre) = Some (Some (length pre + length (key e) + 1))"
proof -
  have "hd e = (pre @ e @ NUL # s) ! length pre"
    using entryD(2) [OF assms(1)] by (simp add: nth_append hd_conv_nth)
  then show ?thesis
    using entryD [OF assms(1)] getenv_nxt_spec [OF _ assms(4), of s] envmatch_spec [OF assms(1,2), of pre "NUL # s"] assms(3)
    by (subst getenv_loop.simps) simp
qed

text \<open>The index of the first entry with a key, as a split of the list of entries.\<close>

lemma key_split:
  assumes "\<exists>e \<in> set es. key e = k"
  obtains es1 e es2 where "es = es1 @ e # es2" "key e = k" "\<forall>x \<in> set es1. key x \<noteq> k"
  using split_list_first_prop [OF assms] by (metis (no_types, lifting))

lemma find_var_skip_all:
  assumes "\<forall>e \<in> set es. entry e \<and> key e \<noteq> key n" and "nul_free n"
  shows "find_var (pre @ flat es @ s) n (length pre) = find_var (pre @ flat es @ s) n (length pre + length (flat es))"
  using assms(1)
proof (induction es arbitrary: pre)
  case (Cons e es)
  then show ?case
    using find_var_skip [of e n pre "flat es @ s"] assms(2) Cons.IH [of "pre @ e @ [NUL]"] by (simp add: add.assoc)
qed simp

lemma getenv_skip_all:
  assumes "\<forall>e \<in> set es. entry e \<and> key e \<noteq> key n" and "nul_free n" and "length pre + length (flat es) \<le> CONFIG_ENV_SIZE"
  shows "getenv_loop (pre @ flat es @ s) n (length pre) = getenv_loop (pre @ flat es @ s) n (length pre + length (flat es))"
  using assms(1,3)
proof (induction es arbitrary: pre)
  case (Cons e es)
  then show ?case
    using getenv_skip [of e n pre "flat es @ s"] assms(2) Cons.IH [of "pre @ e @ [NUL]"] by (simp add: add.assoc)
qed simp

section \<open>Moving, appending\<close>

text \<open>\<open>closed s\<close>: the only two NULs in a row are the last two characters.\<close>

fun closed :: "string \<Rightarrow> bool" where
  "closed (a # b # []) \<longleftrightarrow> a = NUL \<and> b = NUL"
| "closed (a # b # c # s) \<longleftrightarrow> \<not> (a = NUL \<and> b = NUL) \<and> closed (b # c # s)"
| "closed _ \<longleftrightarrow> False"

lemma closed_length: "closed s \<Longrightarrow> 2 \<le> length s" by (induction s rule: closed.induct) auto

lemma closed_Cons: "closed s \<Longrightarrow> a \<noteq> NUL \<or> hd s \<noteq> NUL \<Longrightarrow> closed (a # s)"
  by (cases s rule: closed.cases) auto

lemma closed_entry:
  assumes "nul_free e" and "e \<noteq> []" and "s = [NUL] \<or> closed s \<and> hd s \<noteq> NUL"
  shows "closed (e @ NUL # s)"
  using assms(1,2)
proof (induction e)
  case (Cons c e)
  have "closed (NUL # s)" if "s \<noteq> [NUL]" using closed_Cons that assms(3) by blast
  then have "closed (c # NUL # s)" using assms(3) Cons.prems(1)
    by (cases "s = [NUL]") (auto intro: closed_Cons)
  then show ?case using Cons by (cases e) (auto intro: closed_Cons)
qed simp

lemma closed_area: "\<forall>e \<in> set es. entry e \<Longrightarrow> closed (area es)"
proof (induction es)
  case (Cons e es)
  note e = entryD(1,2) [of e] and IH = Cons.IH
  have "flat es @ [NUL] = [NUL] \<or> closed (flat es @ [NUL]) \<and> hd (flat es @ [NUL]) \<noteq> NUL"
    using IH Cons.prems entryD(2,3) by (cases es) (auto simp: area_def)
  from closed_entry [OF _ _ this, of e] e Cons.prems show ?case by (simp add: area_def)
qed (simp add: area_def)

lemma move_down_spec:
  assumes "closed S" and "mid \<noteq> []"
  shows "\<exists>junk. move_down (pre @ mid @ S @ rest) (length pre) (length pre + length mid) =
      Some (pre @ butlast S @ junk, length pre + length S - 2) \<and> length junk = Suc (length mid + length rest)"
  using assms
proof (induction S arbitrary: pre mid)
  case (Cons a S)
  obtain m mid' where mid: "mid = m # mid'" using Cons.prems(2) by (cases mid) auto
  let ?d = "pre @ mid @ (a # S) @ rest"
  let ?d' = "(pre @ [a]) @ (mid' @ [a]) @ S @ rest"
  have S: "S \<noteq> []" using closed_length [OF Cons.prems(1)] by auto
  have upd: "?d[length pre := ?d ! (length pre + length mid)] = ?d'"
    by (simp add: mid nth_append list_update_append)
  have nth: "?d' ! length pre = a" "?d' ! (length pre + length mid + 1) = hd S"
    using S by (simp_all add: mid nth_append hd_conv_nth)
  have step: "move_down ?d (length pre) (length pre + length mid) =
      (if a = NUL \<and> hd S = NUL then Some (?d', length pre)
       else move_down ?d' (length (pre @ [a])) (length (pre @ [a]) + length (mid' @ [a])))"
    unfolding move_down.simps [of ?d "length pre"] Let_def upd nth using S by (simp add: mid)
  show ?case
  proof (cases "a = NUL \<and> hd S = NUL")
    case True
    then have "S = [NUL]" using Cons.prems(1) S by (cases S; cases "tl S") auto
    then show ?thesis using step True by (simp add: mid)
  next
    case False
    have "closed S" using Cons.prems(1) False S
      by (cases "a # S" rule: closed.cases) auto
    from Cons.IH [OF this, of "mid' @ [a]" "pre @ [a]"] obtain junk where
      "move_down ?d' (length (pre @ [a])) (length (pre @ [a]) + length (mid' @ [a])) =
        Some ((pre @ [a]) @ butlast S @ junk, length (pre @ [a]) + length S - 2)"
      "length junk = Suc (length (mid' @ [a]) + length rest)" by auto
    then show ?thesis unfolding step if_not_P [OF False] using S by (simp add: mid)
  qed
qed simp

lemma find_end_spec: "closed S \<Longrightarrow> find_end (pre @ S @ rest) (length pre) = Some (length pre + length S - 2)"
proof (induction S arbitrary: pre)
  case (Cons a S)
  have S: "S \<noteq> []" using closed_length [OF Cons.prems] by auto
  show ?case
  proof (cases "a = NUL \<and> hd S = NUL")
    case True
    then have "S = [NUL]" using Cons.prems S by (cases S; cases "tl S") auto
    then show ?thesis using True by (subst find_end.simps) (simp add: nth_append)
  next
    case False
    have "closed S" using Cons.prems False S by (cases "a # S" rule: closed.cases) auto
    then have "find_end ((pre @ [a]) @ S @ rest) (length (pre @ [a])) = Some (length (pre @ [a]) + length S - 2)"
      by (rule Cons.IH)
    then show ?thesis using False S by (subst find_end.simps) (auto simp: nth_append hd_conv_nth)
  qed
qed simp

lemma put_str_spec:
  "nul_free s \<Longrightarrow> length mid = Suc (length s) \<Longrightarrow>
    put_str (pre @ mid @ suf) (length pre) s = Some (pre @ s @ NUL # suf, length pre + length s)"
proof (induction s arbitrary: pre mid)
  case Nil
  then obtain m where "mid = [m]" by (cases mid) auto
  then show ?case by simp
next
  case (Cons c s)
  then obtain m mid' where m: "mid = m # mid'" by (cases mid) auto
  then show ?case using Cons.IH [of mid' "pre @ [c]"] Cons.prems by simp
qed

text \<open>The text of a new entry behind its name.\<close>

fun args_text :: "char \<Rightarrow> string list \<Rightarrow> string" where
  "args_text sep [] = []"
| "args_text sep (v # vs) = sep # v @ args_text (CHR '' '') vs"

lemma put_args_spec:
  "\<forall>v \<in> set vs. nul_free v \<Longrightarrow> length mid = Suc (length (args_text sep vs)) \<Longrightarrow> hd mid = NUL \<Longrightarrow>
    put_args (pre @ mid @ suf) (length pre) sep vs =
      Some (pre @ args_text sep vs @ NUL # suf, length pre + length (args_text sep vs))"
proof (induction vs arbitrary: pre mid sep)
  case Nil
  then have "mid = [NUL]" by (cases mid) auto
  then show ?case by simp
next
  case (Cons v vs)
  define m1 m2 where "m1 = take (Suc (length v)) (tl mid)" and "m2 = drop (Suc (length v)) (tl mid)"
  have mid: "mid = hd mid # m1 @ m2" and m1: "length m1 = Suc (length v)"
    and m2: "length m2 = length (args_text (CHR '' '') vs)"
    using Cons.prems(2) by (cases mid; simp add: m1_def m2_def)+
  have "(pre @ mid @ suf)[length pre := sep] = (pre @ [sep]) @ m1 @ m2 @ suf" by (subst mid) simp
  then have "put_str ((pre @ mid @ suf)[length pre := sep]) (length pre + 1) v =
      Some ((pre @ sep # v) @ (NUL # m2) @ suf, length (pre @ sep # v))"
    using put_str_spec [of v m1 "pre @ [sep]" "m2 @ suf"] m1 Cons.prems(1) by simp
  moreover have "put_args ((pre @ sep # v) @ (NUL # m2) @ suf) (length (pre @ sep # v)) (CHR '' '') vs =
      Some ((pre @ sep # v) @ args_text (CHR '' '') vs @ NUL # suf,
        length (pre @ sep # v) + length (args_text (CHR '' '') vs))"
    using Cons.prems(1) m2 by (intro Cons.IH) auto
  ultimately show ?case using Cons.prems(2) by (simp add: add.assoc)
qed

lemma env_repr_flat: "env_repr d es \<Longrightarrow> \<exists>rest. d = flat es @ NUL # rest"
  by (auto simp: env_repr_def area_def)

lemma delete_var_spec:
  assumes d: "d = flat es1 @ e @ NUL # flat es2 @ NUL # rest"
    and ent: "\<forall>x \<in> set (es1 @ e # es2). entry x"
  shows "\<exists>d'. delete_var d (length (flat es1)) (length (flat es1) + length e) = Some d' \<and>
    length d' = length d \<and> env_repr d' (es1 @ es2)"
proof -
  have e: "e \<noteq> []" using ent entryD(2) by auto
  have ents: "\<forall>x \<in> set (es1 @ es2). entry x" using ent by auto
  show ?thesis
  proof (cases es2)
    case Nil
    show ?thesis
    proof (cases "es1 = []")
      case True
      then obtain a e' where ae: "e = a # e'" using e by (cases e) auto
      let ?d' = "NUL # (e' @ NUL # NUL # rest)[0 := NUL]"
      have "delete_var d (length (flat es1)) (length (flat es1) + length e) = Some ?d'"
        by (simp add: delete_var_def d True Nil ae nth_append)
      moreover have "env_repr ?d' (es1 @ es2)"
        by (cases e') (auto simp: env_repr_def area_def True Nil)
      moreover have "length ?d' = length d" by (simp add: d True Nil ae)
      ultimately show ?thesis by blast
    next
      case False
      then have pos: "flat es1 \<noteq> []" by (cases es1) auto
      let ?d' = "flat es1 @ NUL # tl (e @ NUL # NUL # rest)"
      have "d[length (flat es1) := NUL] = ?d'"
        using e by (cases e) (simp_all add: d Nil list_update_append)
      then have "delete_var d (length (flat es1)) (length (flat es1) + length e) = Some ?d'"
        using pos by (simp add: delete_var_def d Nil nth_append)
      moreover have "env_repr ?d' (es1 @ es2)" using False ents by (auto simp: env_repr_def area_def Nil)
      moreover have "length ?d' = length d" using e by (simp add: d Nil)
      ultimately show ?thesis by blast
    qed
  next
    case (Cons x xs)
    then have area: "area es2 = flat es2 @ [NUL]" "flat es2 \<noteq> []" by (auto simp: area_def)
    have hd: "hd (flat es2) \<noteq> NUL" using ent entryD(2,3) [of x] Cons by (auto simp: hd_append)
    have dd: "d = flat es1 @ (e @ [NUL]) @ area es2 @ rest" by (simp add: d area)
    from move_down_spec [OF closed_area, of es2 "e @ [NUL]" "flat es1" rest] ent obtain junk where
      md: "move_down d (length (flat es1)) (length (flat es1) + length e + 1) =
        Some (flat es1 @ flat es2 @ junk, length (flat es1) + length (flat es2) - 1)"
      and junk: "length junk = length e + length rest + 2"
      unfolding dd by (auto simp: area)
    have "d ! (length (flat es1) + length e + 1) = hd (flat es2)"
      using area(2) by (simp add: d nth_append hd_conv_nth)
    moreover obtain m where "length (flat es2) = Suc m" using area(2) by (cases "flat es2") auto
    ultimately have "delete_var d (length (flat es1)) (length (flat es1) + length e) =
        Some ((flat es1 @ flat es2 @ junk)[length (flat es1) + length (flat es2) := NUL])"
      using md hd junk by (simp add: delete_var_def d)
    also have "(flat es1 @ flat es2 @ junk)[length (flat es1) + length (flat es2) := NUL] =
        flat (es1 @ es2) @ NUL # tl junk"
      using junk by (cases junk) (simp_all add: list_update_append)
    finally have "delete_var d (length (flat es1)) (length (flat es1) + length e) =
        Some (flat (es1 @ es2) @ NUL # tl junk)" .
    moreover have "env_repr (flat (es1 @ es2) @ NUL # tl junk) (es1 @ es2)"
      using ents Cons by (auto simp: env_repr_def area_def)
    moreover have "length (flat (es1 @ es2) @ NUL # tl junk) = length d" using junk by (simp add: d)
    ultimately show ?thesis by blast
  qed
qed

definition new_entry :: "string \<Rightarrow> string list \<Rightarrow> string" where
  "new_entry n vals = n @ args_text (CHR ''='') vals"

lemma args_text_length:
  "\<forall>v \<in> set vs. nul_free v \<Longrightarrow> foldl (\<lambda>len v. len + (strlen v + 1)) k vs = k + length (args_text sep vs)"
proof (induction vs arbitrary: k sep)
  case (Cons v vs)
  from Cons.prems Cons.IH [of "k + (strlen v + 1)" "CHR '' ''"] show ?case by simp
qed simp

lemma args_text_nul_free: "\<forall>v \<in> set vs. nul_free v \<Longrightarrow> sep \<noteq> NUL \<Longrightarrow> nul_free (args_text sep vs)"
  by (induction vs arbitrary: sep) (auto simp: NUL_def)

lemma entry_new_entry:
  "nul_free n \<Longrightarrow> \<forall>v \<in> set vals. nul_free v \<Longrightarrow> vals \<noteq> [] \<Longrightarrow> entry (new_entry n vals)"
  using args_text_nul_free [of vals "CHR ''=''"]
  by (cases vals) (auto simp: new_entry_def entry_def NUL_def)

text \<open>The append succeeds exactly when the entry and two NULs fit behind the last entry.\<close>

lemma append_var_spec:
  assumes d: "env_repr d es" and len: "length d = ENV_SIZE"
    and n: "nul_free n" and vals: "\<forall>v \<in> set vals. nul_free v" "vals \<noteq> []"
  shows "if length (flat es) + length (new_entry n vals) + 2 \<le> ENV_SIZE
    then \<exists>d'. append_var d n vals = Some (Some d') \<and> length d' = ENV_SIZE \<and> env_repr d' (es @ [new_entry n vals])
    else append_var d n vals = Some None"
proof -
  let ?e = "new_entry n vals" and ?p = "length (flat es)"
  obtain rest where r: "d = area es @ rest" and ent: "\<forall>e \<in> set es. entry e" using d by (auto simp: env_repr_def)
  have "find_end d 0 = Some (length (area es) - 2)"
    using find_end_spec [OF closed_area [OF ent], of "[]"] by (simp add: r)
  moreover have "(if length (area es) - 2 > 0 then length (area es) - 2 + 1 else length (area es) - 2) = ?p"
  proof (cases es)
    case (Cons e es')
    then have "e \<noteq> []" "length (flat es) = length e + 1 + length (flat es')" using ent entryD(2) by auto
    then show ?thesis by (cases e) (auto simp: area_def Cons)
  qed (simp add: area_def)
  moreover have "foldl (\<lambda>len v. len + (strlen v + 1)) (strlen n + 2) vals = length ?e + 2"
    using args_text_length [OF vals(1), of _ "CHR ''=''"] n by (simp add: new_entry_def)
  ultimately have step: "append_var d n vals = (if int (length ?e + 2) > int ENV_SIZE - int ?p then Some None
      else (case put_str d ?p n of None \<Rightarrow> None
            | Some (d, env) \<Rightarrow> (case put_args d env (CHR ''='') vals of None \<Rightarrow> None
                | Some (d, env) \<Rightarrow> if env + 1 < length d then Some (Some (d[env + 1 := NUL])) else None)))"
    by (simp add: append_var_def Let_def)
  show ?thesis
  proof (cases "?p + length ?e + 2 \<le> ENV_SIZE")
    case True
    obtain tail where t: "d = flat es @ tail" using env_repr_flat [OF d] by blast
    define m1 m2 m3 where "m1 = take (Suc (length n)) tail" and
      "m2 = take (length (args_text (CHR ''='') vals)) (drop (Suc (length n)) tail)" and
      "m3 = drop (Suc (length n) + length (args_text (CHR ''='') vals)) tail"
    have tl: "length tail = ENV_SIZE - ?p" using len t by simp
    have m: "tail = m1 @ m2 @ m3"
      unfolding m1_def m2_def m3_def by (metis append_take_drop_id drop_drop add.commute)
    have ml: "length m1 = Suc (length n)" "length m2 = length (args_text (CHR ''='') vals)" "m3 \<noteq> []"
      using True tl by (simp_all add: m1_def m2_def m3_def new_entry_def)
    have 1: "put_str d ?p n = Some (flat es @ n @ NUL # m2 @ m3, ?p + length n)"
      using put_str_spec [OF n ml(1), of "flat es" "m2 @ m3"] by (simp add: t m)
    have 2: "put_args (flat es @ n @ NUL # m2 @ m3) (?p + length n) (CHR ''='') vals =
        Some (flat es @ ?e @ NUL # m3, ?p + length ?e)"
      using put_args_spec [OF vals(1), of "NUL # m2" "CHR ''=''" "flat es @ n" m3] ml(2)
      by (simp add: new_entry_def add.assoc)
    have 3: "(flat es @ ?e @ NUL # m3)[?p + length ?e + 1 := NUL] = flat (es @ [?e]) @ NUL # tl m3"
      using ml(3) by (cases m3) (simp_all add: list_update_append)
    have "append_var d n vals = Some (Some (flat (es @ [?e]) @ NUL # tl m3))"
      unfolding step using True 1 2 3 ml(3) by (auto simp: neq_Nil_conv)
    moreover have "env_repr (flat (es @ [?e]) @ NUL # tl m3) (es @ [?e])"
      using ent entry_new_entry [OF n vals] by (auto simp: env_repr_def area_def)
    moreover have "length (flat (es @ [?e]) @ NUL # tl m3) = ENV_SIZE"
      using len ml t m by (cases m3) (simp_all add: new_entry_def)
    ultimately show ?thesis using True by auto
  next
    case False
    then show ?thesis unfolding step by auto
  qed
qed

section \<open>The commands\<close>

definition env_ok :: "env_state \<Rightarrow> string list \<Rightarrow> bool" where
  "env_ok st es \<longleftrightarrow> gd_env_valid st \<and> gd_env_addr st = Env_Ram \<and>
     (\<exists>e. env_ptr st = Some e \<and> env_repr (env_bytes e) es \<and> length (env_bytes e) = ENV_SIZE)"

definition env_crc_ok :: "env_state \<Rightarrow> bool" where
  "env_crc_ok st \<longleftrightarrow> (\<exists>e. env_ptr st = Some e \<and> env_crc e = crc32 0 (map of_char (env_bytes e)))"

definition reserved :: "string \<Rightarrow> bool" where
  "reserved n \<longleftrightarrow> n \<in> {''stdin'', ''stdout'', ''stderr'', ''baudrate''}"

text \<open>A name that can be set: a C string without an equals sign.\<close>

definition var_name :: "string \<Rightarrow> bool" where "var_name n \<longleftrightarrow> nul_free n \<and> CHR ''='' \<notin> set n"

fun del_key :: "string \<Rightarrow> string list \<Rightarrow> string list" where
  "del_key k [] = []"
| "del_key k (e # es) = (if key e = k then es else e # del_key k es)"

lemma del_key_none: "\<forall>e \<in> set es. key e \<noteq> k \<Longrightarrow> del_key k es = es" by (induction es) auto

lemma del_key_split: "\<forall>e \<in> set es1. key e \<noteq> k \<Longrightarrow> key e = k \<Longrightarrow> del_key k (es1 @ e # es2) = es1 @ es2"
  by (induction es1) auto

lemma set_del_key: "set (del_key k es) \<subseteq> set es" by (induction es) auto

lemma env_area: "env_ok st es \<Longrightarrow> \<exists>d. env_get_addr st = Some d \<and> env_repr d es \<and> length d = ENV_SIZE"
  by (auto simp: env_ok_def env_get_addr_def at_env_addr_def)

lemma env_ok_put_area: "env_ok st es \<Longrightarrow> env_repr d fs \<Longrightarrow> length d = ENV_SIZE \<Longrightarrow>
    env_ok (put_area d st) fs \<and> env_get_addr (put_area d st) = Some d"
  by (auto simp: env_ok_def put_area_def env_get_addr_def at_env_addr_def)

lemma env_ok_crc: "env_ok st es \<Longrightarrow> \<exists>st'. env_crc_update st = Some st' \<and> env_ok st' es \<and> env_crc_ok st'"
  by (auto simp: env_ok_def env_crc_update_def env_crc_ok_def)

lemma env_ok_effects [simp]:
  "env_ok (notify_eth n a st) = env_ok st" "env_get_addr (notify_eth n a st) = env_get_addr st"
  "env_ok (after_set n v st) = env_ok st" "env_crc_ok (after_set n v st) = env_crc_ok st"
  "env_ok (out ef st) = env_ok st"
  by (cases "simple_strtoul (drop 3 n) 10"; cases "gd_env_addr st";
      simp add: fun_eq_iff notify_eth_def after_set_def env_ok_def env_crc_ok_def env_get_addr_def
      at_env_addr_def out_def)+

lemma strcmp_literal:
  "nul_free n \<Longrightarrow> strcmp n ''stdin'' = 0 \<longleftrightarrow> n = ''stdin''" "nul_free n \<Longrightarrow> strcmp n ''stdout'' = 0 \<longleftrightarrow> n = ''stdout''"
  "nul_free n \<Longrightarrow> strcmp n ''stderr'' = 0 \<longleftrightarrow> n = ''stderr''"
  "nul_free n \<Longrightarrow> strcmp n ''baudrate'' = 0 \<longleftrightarrow> n = ''baudrate''"
  by (intro strcmp_eq_0, assumption, simp add: NUL_def)+

lemma check_change_plain: "nul_free n \<Longrightarrow> \<not> reserved n \<Longrightarrow> check_change ca n a st = Some (Inr st)"
  by (simp add: check_change_def check_console_def strcmp_literal reserved_def)

lemma strchr_name: "var_name n \<Longrightarrow> strchr n 61 = None"
proof -
  have e: "char_of (61 :: int) = CHR ''=''" by code_simp
  assume "var_name n"
  then have "dropWhile (\<lambda>d. d \<noteq> CHR ''='') n = []" by (auto simp: var_name_def)
  then show ?thesis using \<open>var_name n\<close> strchr_dropWhile [of n 61]
    by (simp add: e var_name_def NUL_def Let_def)
qed

text \<open>The second half of the handler on a well-formed area.\<close>

lemma set_or_delete_spec:
  assumes ok: "env_ok st es" and n: "nul_free n" and vals: "\<forall>v \<in> set vals. nul_free v"
  shows "\<exists>rc st'. set_or_delete n vals st = Some (rc, st') \<and>
    (if vals = [] then rc = 0 \<and> env_ok st' es \<and> env_crc_ok st'
     else if length (flat es) + length (new_entry n vals) + 2 \<le> ENV_SIZE
     then rc = 0 \<and> env_ok st' (es @ [new_entry n vals]) \<and> env_crc_ok st'
     else rc = 1 \<and> env_ok st' es)"
proof (cases vals)
  case Nil
  then show ?thesis using env_ok_crc [OF ok] by (auto simp: set_or_delete_def)
next
  case (Cons v vs)
  then have ne: "vals \<noteq> []" by simp
  obtain d where d: "env_get_addr st = Some d" "env_repr d es" "length d = ENV_SIZE" using env_area [OF ok] by blast
  note ap = append_var_spec [OF d(2,3) n vals ne]
  show ?thesis
  proof (cases "length (flat es) + length (new_entry n vals) + 2 \<le> ENV_SIZE")
    case True
    then obtain d' where d': "append_var d n vals = Some (Some d')" "length d' = ENV_SIZE"
      "env_repr d' (es @ [new_entry n vals])" using ap by auto
    obtain st' where "env_crc_update (put_area d' st) = Some st'" "env_ok st' (es @ [new_entry n vals])" "env_crc_ok st'"
      using env_ok_crc env_ok_put_area [OF ok d'(3,2)] by blast
    then show ?thesis using d(1) d'(1) True Cons by (simp add: set_or_delete_def)
  next
    case False
    then show ?thesis using d(1) ap ok Cons by (simp add: set_or_delete_def)
  qed
qed

lemma find_var_area:
  assumes d: "env_repr d es" "length d = ENV_SIZE" and n: "nul_free n"
  shows "find_var d n 0 = Some None \<and> (\<forall>e \<in> set es. key e \<noteq> key n) \<or>
    (\<exists>env nxt v d'. find_var d n 0 = Some (Some (env, nxt, v)) \<and> delete_var d env nxt = Some d' \<and>
      length d' = ENV_SIZE \<and> env_repr d' (del_key (key n) es))"
proof -
  have ent: "\<forall>e \<in> set es. entry e" using d(1) by (simp add: env_repr_def)
  obtain rest where r: "d = flat es @ NUL # rest" using env_repr_flat [OF d(1)] by blast
  show ?thesis
  proof (cases "\<exists>e \<in> set es. key e = key n")
    case False
    then have "find_var d n 0 = Some None"
      using find_var_skip_all [of es n "[]" "NUL # rest"] ent n
      by (auto simp: r find_var.simps [of _ _ "length (flat es)"])
    then show ?thesis using False by auto
  next
    case True
    from key_split [OF True] obtain es1 e es2 where
      es: "es = es1 @ e # es2" "key e = key n" "\<forall>x \<in> set es1. key x \<noteq> key n" by blast
    have dd: "d = flat es1 @ e @ NUL # flat es2 @ NUL # rest" by (simp add: r es(1))
    have ent1: "\<forall>x \<in> set es1. entry x \<and> key x \<noteq> key n" "entry e" using ent es by auto
    have fv: "find_var d n 0 = Some (Some (length (flat es1), length (flat es1) + length e, length (flat es1) + length (key e) + 1))"
      using find_var_skip_all [OF ent1(1) n, of "[]"] find_var_hit [OF ent1(2) n es(2), of "flat es1"]
      by (simp add: dd)
    obtain d' where "delete_var d (length (flat es1)) (length (flat es1) + length e) = Some d'"
      "length d' = length d" "env_repr d' (es1 @ es2)"
      using delete_var_spec [OF dd] ent es(1) by auto
    moreover have "del_key (key n) es = es1 @ es2" using es by (simp add: del_key_split)
    ultimately show ?thesis using fv d(2) by auto
  qed
qed

lemma do_setenv_args_spec:
  assumes ok: "env_ok st es" and n: "var_name n" "\<not> reserved n" and vals: "\<forall>v \<in> set vals. nul_free v"
  defines "es' \<equiv> del_key n es"
  shows "\<exists>rc st'. do_setenv_args ca n vals st = Some (rc, st') \<and>
    (if vals = [] then rc = 0 \<and> env_ok st' es' \<and> env_crc_ok st'
     else if length (flat es') + length (new_entry n vals) + 2 \<le> ENV_SIZE
     then rc = 0 \<and> env_ok st' (es' @ [new_entry n vals]) \<and> env_crc_ok st'
     else rc = 1 \<and> env_ok st' es')"
proof -
  obtain d where d: "env_get_addr st = Some d" "env_repr d es" "length d = ENV_SIZE" using env_area [OF ok] by blast
  have nf: "nul_free n" and kn: "key n = n" using n(1) by (simp_all add: var_name_def)
  define a2 where "a2 = (case vals of [] \<Rightarrow> None | v # _ \<Rightarrow> Some v)"
  consider "find_var d n 0 = Some None" "\<forall>e \<in> set es. key e \<noteq> n"
    | env nxt v d' where "find_var d n 0 = Some (Some (env, nxt, v))" "delete_var d env nxt = Some d'"
      "length d' = ENV_SIZE" "env_repr d' es'"
    using find_var_area [OF d(2,3) nf] kn by (auto simp: es'_def)
  then show ?thesis
  proof cases
    case 1
    then have "do_setenv_args ca n vals st = set_or_delete n vals (notify_eth n a2 st)"
      using d(1) strchr_name [OF n(1)] by (simp add: do_setenv_args_def a2_def)
    moreover have "es' = es" using 1 by (simp add: es'_def del_key_none)
    moreover have "env_ok (notify_eth n a2 st) es" using ok by simp
    ultimately show ?thesis using set_or_delete_spec [OF _ nf vals] by metis
  next
    case 2
    then have "do_setenv_args ca n vals st = set_or_delete n vals (notify_eth n a2 (put_area d' st))"
      using d(1) strchr_name [OF n(1)] check_change_plain [OF nf n(2)]
      by (simp add: do_setenv_args_def a2_def)
    moreover have "env_ok (notify_eth n a2 (put_area d' st)) es'" using env_ok_put_area [OF ok 2(4,3)] by simp
    ultimately show ?thesis using set_or_delete_spec [OF _ nf vals] by metis
  qed
qed

text \<open>The reserved names, too, leave a well-formed area, on every path that returns.\<close>

lemma set_baudrate_area:
  "set_baudrate a st = Some (Inl (rc, st1)) \<Longrightarrow> env_ok st1 = env_ok st"
  "set_baudrate a st = Some (Inr st2) \<Longrightarrow> env_ok st2 = env_ok st"
  by (auto simp: set_baudrate_def Let_def out_def env_ok_def fun_eq_iff split: option.splits if_splits)

lemma check_change_area:
  "check_change ca n a st = Some (Inl (rc, st1)) \<Longrightarrow> env_ok st1 = env_ok st"
  "check_change ca n a st = Some (Inr st2) \<Longrightarrow> env_ok st2 = env_ok st"
proof -
  note c = check_change_def [of ca n a st]
  have e: "check_console ca n a st = None \<or> check_console ca n a st = Some (1, st) \<or>
    (\<exists>ef. check_console ca n a st = Some (1, out ef st))"
    by (auto simp: check_console_def Let_def split: option.split)
  show "env_ok st1 = env_ok st" if "check_change ca n a st = Some (Inl (rc, st1))"
    using that e unfolding c by (elim disjE exE) (auto split: if_splits dest: set_baudrate_area(1))
  show "env_ok st2 = env_ok st" if "check_change ca n a st = Some (Inr st2)"
    using that e unfolding c by (elim disjE exE) (auto split: if_splits dest: set_baudrate_area(2))
qed

lemma do_setenv_args_area:
  assumes run: "do_setenv_args ca n vals st = Some (rc, st')" and ok: "env_ok st es"
    and n: "nul_free n" and vals: "\<forall>v \<in> set vals. nul_free v"
  shows "\<exists>es'. env_ok st' es' \<and> (es' = es \<or> var_name n \<and> (es' = del_key n es \<or>
    vals \<noteq> [] \<and> es' = del_key n es @ [new_entry n vals]))"
proof -
  obtain d where d: "env_get_addr st = Some d" "env_repr d es" "length d = ENV_SIZE" using env_area [OF ok] by blast
  define a2 where "a2 = (case vals of [] \<Rightarrow> None | v # _ \<Rightarrow> Some v)"
  have sd: "\<exists>fs'. env_ok st' fs' \<and> (fs' = fs \<or> vals \<noteq> [] \<and> fs' = fs @ [new_entry n vals])"
    if "env_ok s fs" "set_or_delete n vals s = Some (rc, st')" for s fs
  proof -
    from set_or_delete_spec [OF that(1) n vals] that(2)
    have "if vals = [] then env_ok st' fs
      else if length (flat fs) + length (new_entry n vals) + 2 \<le> ENV_SIZE then env_ok st' (fs @ [new_entry n vals])
      else env_ok st' fs" by (auto simp del: One_nat_def)
    then show ?thesis by (cases "vals = []") (metis if_P if_not_P)+
  qed
  show ?thesis
  proof (cases "var_name n")
    case False
    then have "CHR ''='' \<in> set n" using n by (simp add: var_name_def)
    then have "strchr n 61 \<noteq> None"
    proof -
      have e: "char_of (61 :: int) = CHR ''=''" by code_simp
      then have "char_of (61 :: int) \<noteq> NUL" by (simp add: NUL_def)
      moreover have "dropWhile (\<lambda>d. d \<noteq> CHR ''='') n \<noteq> []" using \<open>CHR ''='' \<in> set n\<close> by auto
      ultimately show ?thesis using strchr_dropWhile [OF n, of 61] by (simp add: e Let_def)
    qed
    then show ?thesis using run d(1) ok by (auto simp: do_setenv_args_def)
  next
    case True
    then have kn: "key n = n" by (simp add: var_name_def)
    consider "find_var d n 0 = Some None" "\<forall>e \<in> set es. key e \<noteq> n"
      | env nxt v d' where "find_var d n 0 = Some (Some (env, nxt, v))" "delete_var d env nxt = Some d'"
        "length d' = ENV_SIZE" "env_repr d' (del_key n es)"
      using find_var_area [OF d(2,3) n] kn by auto
    then show ?thesis
    proof cases
      case 1
      then have "set_or_delete n vals (notify_eth n a2 st) = Some (rc, st')"
        using run d(1) strchr_name [OF True] by (simp add: do_setenv_args_def a2_def)
      from sd [OF _ this, of es] ok 1(2) show ?thesis using True by (auto simp: del_key_none)
    next
      case 2
      show ?thesis
      proof (cases "check_change ca n a2 st")
        case (Some r)
        note cc = this
        show ?thesis
        proof (cases r)
          case (Inl q)
          then have "q = (rc, st')" using run d(1) strchr_name [OF True] 2 cc by (simp add: do_setenv_args_def a2_def)
          then show ?thesis using check_change_area(1) cc Inl ok by auto
        next
          case (Inr st1)
          then have "set_or_delete n vals (notify_eth n a2 (put_area d' st1)) = Some (rc, st')"
            using run d(1) strchr_name [OF True] 2 cc by (simp add: do_setenv_args_def a2_def)
          moreover have "env_ok st1 es" using check_change_area(2) cc Inr ok by metis
          then have "env_ok (notify_eth n a2 (put_area d' st1)) (del_key n es)"
            using env_ok_put_area 2(3,4) by simp
          ultimately show ?thesis using sd True by blast
        qed
      qed (use run d(1) strchr_name [OF True] 2 in \<open>simp add: do_setenv_args_def a2_def\<close>)
    qed
  qed
qed

section \<open>Reading back\<close>

lemma flat_length_mem: "e \<in> set es \<Longrightarrow> length e < length (flat es)" by (induction es) auto

lemma getenv_area:
  assumes d: "env_repr d es" "length d = ENV_SIZE" and n: "nul_free n"
  shows "getenv_loop d n 0 =
    (case find (\<lambda>e. key e = key n) es of None \<Rightarrow> Some None
     | Some e \<Rightarrow> Some (Some (length (flat (takeWhile (\<lambda>x. key x \<noteq> key n) es)) + length (key e) + 1)))"
proof -
  have ent: "\<forall>e \<in> set es. entry e" using d(1) by (simp add: env_repr_def)
  obtain rest where r: "d = flat es @ NUL # rest" using env_repr_flat [OF d(1)] by blast
  have sz: "length (flat es) \<le> CONFIG_ENV_SIZE" using d(2) r by (simp add: ENV_SIZE_def)
  show ?thesis
  proof (cases "\<exists>e \<in> set es. key e = key n")
    case False
    then have "getenv_loop d n 0 = Some None"
      using getenv_skip_all [of es n "[]" "NUL # rest"] ent n sz
      by (auto simp: r getenv_loop.simps [of _ _ "length (flat es)"])
    moreover have "find (\<lambda>e. key e = key n) es = None" using False by (auto simp: find_None_iff)
    ultimately show ?thesis by simp
  next
    case True
    from key_split [OF True] obtain es1 e es2 where
      es: "es = es1 @ e # es2" "key e = key n" "\<forall>x \<in> set es1. key x \<noteq> key n" by blast
    have dd: "d = flat es1 @ e @ NUL # flat es2 @ NUL # rest" by (simp add: r es(1))
    have "getenv_loop d n 0 = Some (Some (length (flat es1) + length (key e) + 1))"
      using getenv_skip_all [of es1 n "[]" "e @ NUL # flat es2 @ NUL # rest"]
        getenv_hit [of e n "flat es1" "flat es2 @ NUL # rest"] es ent n sz
      by (simp add: dd)
    moreover have "find (\<lambda>e. key e = key n) es = Some e" "takeWhile (\<lambda>x. key x \<noteq> key n) es = es1"
      using es by (auto simp: es(1) takeWhile_append2 find_Some_iff nth_append intro!: exI [of _ "length es1"])
    ultimately show ?thesis by simp
  qed
qed

text \<open>The C string at an index of the area.\<close>

definition str_at :: "string \<Rightarrow> nat \<Rightarrow> string" where
  "str_at d i = takeWhile (\<lambda>c. c \<noteq> NUL) (drop i d)"

lemma takeWhile_nul_free: "nul_free s \<Longrightarrow> takeWhile (\<lambda>c. c \<noteq> NUL) (s @ NUL # t) = s"
  by (induction s) auto

lemma getenv_value:
  assumes ok: "env_ok st es" and n: "nul_free n" and f: "find (\<lambda>e. key e = key n) es = Some e"
  shows "\<exists>pre t. env_get_addr st = Some (pre @ val e @ NUL # t) \<and> getenv st n = Some (Some (length pre)) \<and>
    nul_free (val e)"
proof -
  obtain d where d: "env_get_addr st = Some d" "env_repr d es" "length d = ENV_SIZE" using env_area [OF ok] by blast
  have mem: "\<exists>e \<in> set es. key e = key n" using f by (auto simp: find_Some_iff)
  from key_split [OF mem] obtain es1 x es2 where
    es: "es = es1 @ x # es2" "key x = key n" "\<forall>y \<in> set es1. key y \<noteq> key n" by blast
  have x: "e = x" "takeWhile (\<lambda>y. key y \<noteq> key n) es = es1"
  proof -
    have "find (\<lambda>e. key e = key n) es1 = None" using es(3) by (auto simp: find_None_iff)
    then have "find (\<lambda>e. key e = key n) es = Some x" unfolding es(1) using es(2)
      by (induction es1) (auto split: if_splits)
    then show "e = x" using f by simp
  qed (use es in \<open>auto simp: takeWhile_append2\<close>)
  have "entry x" using d(2) es(1) by (simp add: env_repr_def)
  then have sp: "x = key x @ CHR ''='' # val x" "nul_free x" using entry_split entryD by auto
  then have nv: "nul_free (val x)" by (metis nul_free_simps(2,3))
  obtain rest where "d = flat es @ NUL # rest" using env_repr_flat [OF d(2)] by blast
  then have dd: "d = (flat es1 @ key x @ [CHR ''='']) @ val x @ NUL # flat es2 @ NUL # rest"
    using sp(1) by (simp add: es(1))
  let ?i = "length (flat es1 @ key x @ [CHR ''=''])"
  have g: "getenv st n = Some (Some ?i)"
    using getenv_area [OF d(2,3) n] f d(1) unfolding x by (simp add: getenv_def)
  show ?thesis using d(1) g dd nv unfolding x(1) by metis
qed

lemma str_at_append: "nul_free s \<Longrightarrow> str_at (pre @ s @ NUL # t) (length pre) = s"
  by (simp add: str_at_def takeWhile_nul_free)

lemma getenv_missing:
  assumes "env_ok st es" and "nul_free n" and "find (\<lambda>e. key e = key n) es = None"
  shows "getenv st n = Some None"
  using env_area [OF assms(1)] getenv_area [OF _ _ assms(2)] assms(3) by (auto simp: getenv_def)

section \<open>Set and get: what a store promises\<close>

text \<open>
  A store of variables: \<open>ok\<close> are its well-formed states, \<open>fits s k v\<close> says that setting \<open>k\<close> is
  accepted, \<open>legal k\<close> that \<open>k\<close> may be asked for. The clients' lemma: after any accepted sequence of
  assignments every variable has the value assigned last.
\<close>

fun run_sets :: "('s \<Rightarrow> 'k \<Rightarrow> 'v \<Rightarrow> bool) \<Rightarrow> ('s \<Rightarrow> 'k \<Rightarrow> 'v \<Rightarrow> 's) \<Rightarrow> ('k \<times> 'v) list \<Rightarrow> 's \<Rightarrow> 's option" where
  "run_sets fits put [] s = Some s"
| "run_sets fits put ((k, v) # kvs) s = (if fits s k v then run_sets fits put kvs (put s k v) else None)"

locale var_store =
  fixes get :: "'s \<Rightarrow> 'k \<Rightarrow> 'v option"
    and put :: "'s \<Rightarrow> 'k \<Rightarrow> 'v \<Rightarrow> 's"
    and del :: "'s \<Rightarrow> 'k \<Rightarrow> 's"
    and fits :: "'s \<Rightarrow> 'k \<Rightarrow> 'v \<Rightarrow> bool"
    and legal :: "'k \<Rightarrow> bool"
    and ok :: "'s \<Rightarrow> bool"
  assumes ok_set: "ok s \<Longrightarrow> fits s k v \<Longrightarrow> ok (put s k v)"
    and ok_del: "ok s \<Longrightarrow> legal k \<Longrightarrow> ok (del s k)"
    and get_set: "ok s \<Longrightarrow> fits s k v \<Longrightarrow> legal j \<Longrightarrow> get (put s k v) j = (if j = k then Some v else get s j)"
    and get_del: "ok s \<Longrightarrow> legal k \<Longrightarrow> legal j \<Longrightarrow> get (del s k) j = (if j = k then None else get s j)"
begin

lemma get_run_sets:
  "ok s \<Longrightarrow> run_sets fits put kvs s = Some s' \<Longrightarrow> legal j \<Longrightarrow>
    ok s' \<and> get s' j = (case map_of (rev kvs) j of Some v \<Rightarrow> Some v | None \<Rightarrow> get s j)"
proof (induction kvs arbitrary: s)
  case (Cons kv kvs)
  obtain k v where kv: "kv = (k, v)" by (cases kv)
  then have f: "fits s k v" and r: "run_sets fits put kvs (put s k v) = Some s'"
    using Cons.prems(2) by (simp_all split: if_splits)
  from Cons.IH [OF ok_set [OF Cons.prems(1) f] r Cons.prems(3)] get_set [OF Cons.prems(1) f Cons.prems(3)]
  show ?case by (auto simp: kv map_add_def split: option.splits)
qed simp

lemma get_set_del:
  "ok s \<Longrightarrow> fits s k v \<Longrightarrow> legal k \<Longrightarrow> legal j \<Longrightarrow> get (del (put s k v) k) j = (if j = k then None else get s j)"
  by (simp add: get_del get_set ok_set)

end

text \<open>The environment provides one: lookup by \<open>getenv\<close>, assignment and deletion by \<open>setenv\<close>.\<close>

definition getenv_str :: "env_state \<Rightarrow> string \<Rightarrow> string option" where
  "getenv_str st n =
     (case (getenv st n, env_get_addr st) of (Some (Some i), Some d) \<Rightarrow> Some (str_at d i) | _ \<Rightarrow> None)"

definition setenv_st :: "(nat \<Rightarrow> string \<Rightarrow> int) \<Rightarrow> env_state \<Rightarrow> string \<Rightarrow> string \<Rightarrow> env_state" where
  "setenv_st ca st n v = (case setenv ca n (Some v) st of Some (_, st') \<Rightarrow> st' | None \<Rightarrow> st)"

definition delenv_st :: "(nat \<Rightarrow> string \<Rightarrow> int) \<Rightarrow> env_state \<Rightarrow> string \<Rightarrow> env_state" where
  "delenv_st ca st n = (case setenv ca n None st of Some (_, st') \<Rightarrow> st' | None \<Rightarrow> st)"

definition plain_name :: "string \<Rightarrow> bool" where "plain_name n \<longleftrightarrow> var_name n \<and> \<not> reserved n"

text \<open>The assignment is accepted: \<open>setenv\<close> returns 0.\<close>

definition setenv_fits :: "(nat \<Rightarrow> string \<Rightarrow> int) \<Rightarrow> env_state \<Rightarrow> string \<Rightarrow> string \<Rightarrow> bool" where
  "setenv_fits ca st n v \<longleftrightarrow> plain_name n \<and> nul_free v \<and>
     (case setenv ca n (Some v) st of Some (rc, _) \<Rightarrow> rc = 0 | None \<Rightarrow> False)"

definition env_wf :: "env_state \<Rightarrow> bool" where
  "env_wf st \<longleftrightarrow> (\<exists>es. env_ok st es \<and> distinct (map key es))"

lemma find_del_key:
  "distinct (map key es) \<Longrightarrow> find (\<lambda>e. key e = j) (del_key k es) = (if j = k then None else find (\<lambda>e. key e = j) es)"
proof (induction es)
  case (Cons e es)
  then show ?case by (auto simp: find_None_iff image_iff)
qed simp

lemma distinct_del_key: "distinct (map key es) \<Longrightarrow> distinct (map key (del_key k es)) \<and> k \<notin> key ` set (del_key k es)"
  by (induction es) (auto dest: subsetD [OF set_del_key])

lemma find_append: "find P (xs @ ys) = (case find P xs of None \<Rightarrow> find P ys | Some x \<Rightarrow> Some x)"
  by (induction xs) auto

lemma new_entry_key [simp]:
  "var_name n \<Longrightarrow> key (new_entry n (v # vs)) = n"
  "var_name n \<Longrightarrow> val (new_entry n (v # vs)) = v @ args_text (CHR '' '') vs"
  by (simp_all add: new_entry_def var_name_def)

lemma getenv_str_find:
  assumes "env_ok st es" and "var_name n"
  shows "getenv_str st n = map_option val (find (\<lambda>e. key e = n) es)"
proof -
  have n: "nul_free n" "key n = n" using assms(2) by (simp_all add: var_name_def)
  show ?thesis
  proof (cases "find (\<lambda>e. key e = n) es")
    case None
    then show ?thesis using getenv_missing [OF assms(1) n(1)] n(2) by (simp add: getenv_str_def)
  next
    case (Some e)
    from getenv_value [OF assms(1) n(1), of e] Some n(2) obtain pre t where
      "env_get_addr st = Some (pre @ val e @ NUL # t)" "getenv st n = Some (Some (length pre))" "nul_free (val e)"
      by auto
    then show ?thesis using Some by (simp add: getenv_str_def str_at_append)
  qed
qed

lemma setenv_st_ok:
  assumes ok: "env_ok st es" and f: "setenv_fits ca st n v"
  shows "env_ok (setenv_st ca st n v) (del_key n es @ [new_entry n [v]])"
proof -
  have n: "var_name n" "\<not> reserved n" "nul_free v" using f by (auto simp: setenv_fits_def plain_name_def)
  from do_setenv_args_spec [OF ok n(1,2), of "[v]" ca] n(3) obtain rc st' where
    r: "setenv ca n (Some v) st = Some (rc, st')"
    "if length (flat (del_key n es)) + length (new_entry n [v]) + 2 \<le> ENV_SIZE
     then rc = 0 \<and> env_ok st' (del_key n es @ [new_entry n [v]]) \<and> env_crc_ok st' else rc = 1 \<and> env_ok st' (del_key n es)"
    by (auto simp: setenv_def)
  have "rc = 0" using f r(1) by (simp add: setenv_fits_def)
  then show ?thesis using r by (simp add: setenv_st_def split: if_splits)
qed

lemma delenv_st_ok:
  assumes ok: "env_ok st es" and n: "plain_name n"
  shows "env_ok (delenv_st ca st n) (del_key n es)"
  using do_setenv_args_spec [OF ok, of n "[]" ca] n by (auto simp: setenv_def delenv_st_def plain_name_def)

interpretation env: var_store getenv_str "setenv_st ca" "delenv_st ca" "setenv_fits ca" plain_name env_wf for ca
proof unfold_locales
  fix s k j and v :: string
  {
    assume "env_wf s" and f: "setenv_fits ca s k v"
    then obtain es where es: "env_ok s es" "distinct (map key es)" by (auto simp: env_wf_def)
    have k: "var_name k" using f by (simp add: setenv_fits_def plain_name_def)
    note ok = setenv_st_ok [OF es(1) f]
    show "env_wf (setenv_st ca s k v)"
      using ok distinct_del_key [OF es(2), of k] k by (auto simp: env_wf_def image_iff)
    assume "plain_name j"
    then have j: "var_name j" by (simp add: plain_name_def)
    show "getenv_str (setenv_st ca s k v) j = (if j = k then Some v else getenv_str s j)"
      using getenv_str_find [OF ok j] getenv_str_find [OF es(1) j] find_del_key [OF es(2), of j k] k
      by (auto simp: find_append split: option.split)
  next
    assume "env_wf s" and k: "plain_name k"
    then obtain es where es: "env_ok s es" "distinct (map key es)" by (auto simp: env_wf_def)
    note ok = delenv_st_ok [OF es(1) k]
    show "env_wf (delenv_st ca s k)" using ok distinct_del_key [OF es(2), of k] by (auto simp: env_wf_def)
    assume "plain_name j"
    then have j: "var_name j" by (simp add: plain_name_def)
    show "getenv_str (delenv_st ca s k) j = (if j = k then None else getenv_str s j)"
      using getenv_str_find [OF ok j] getenv_str_find [OF es(1) j] find_del_key [OF es(2), of j k]
      by simp
  }
qed

text \<open>
  C4: \<open>setenv\<close> does what its contract says, on the bytes of the area: for a well-formed area and
  any name that is not a console or the baud rate, the handler returns; the old definition is gone
  and the entries keep their order; without a value that is all; with values the entry
  \<open>name=v1 v2 ...\<close> is appended when it and two NULs still fit, exactly, the checksum is that of
  the new area, and 0 is returned; otherwise 1 is returned and the variable stays deleted.
\<close>

theorem do_setenv_correct:
  assumes "env_ok st es" and "plain_name n" and "\<forall>v \<in> set vals. nul_free v"
  shows "\<exists>rc st'. do_setenv ca (''setenv'' # n # vals) st = Some (rc, st') \<and>
    (let es' = del_key n es in
     if vals = [] then rc = 0 \<and> env_ok st' es' \<and> env_crc_ok st'
     else if length (flat es') + length (new_entry n vals) + 2 \<le> ENV_SIZE
     then rc = 0 \<and> env_ok st' (es' @ [new_entry n vals]) \<and> env_crc_ok st'
     else rc = 1 \<and> env_ok st' es')"
  using do_setenv_args_spec [OF assms(1) _ _ assms(3), of n ca] assms(2)
  by (auto simp: do_setenv_def plain_name_def Let_def)

text \<open>An area to apply it to: one variable, the rest of the area zero.\<close>

definition sample_env :: env_state where
  "sample_env =
     \<lparr>default_environment = [NUL, NUL],
      env_ptr = Some \<lparr>env_crc = 0, env_bytes = area [''a=1''] @ replicate (ENV_SIZE - 5) NUL\<rparr>,
      gd_env_addr = Env_Ram, gd_env_valid = True, gd_reloc = True, gd_baudrate = 115200,
      bi_enetaddr = [], bi_ip_addr = 0, load_addr = 0, BootFile = [], eth_devices = [],
      con_input = [], effects = []\<rparr>"

lemma sample_env_ok: "env_ok sample_env [''a=1'']"
  by (auto simp: env_ok_def sample_env_def env_repr_def area_def entry_def NUL_def ENV_SIZE_def CONFIG_ENV_SIZE_def)

theorem do_setenv_correct_witness:
  "\<exists>st'. do_setenv (\<lambda>_ _. 0) [''setenv'', ''b'', ''x'', ''y''] sample_env = Some (0, st') \<and>
    env_ok st' [''a=1'', ''b=x y''] \<and> env_crc_ok st'"
  using do_setenv_correct [OF sample_env_ok, of "''b''" "[''x'', ''y'']" "\<lambda>_ _. 0"]
  by (auto simp: plain_name_def var_name_def reserved_def NUL_def ENV_SIZE_def CONFIG_ENV_SIZE_def new_entry_def)

text \<open>
  C5: the environment is a store: after any sequence of accepted assignments, \<open>getenv\<close> finds for
  every name the value assigned last, and for the names not assigned what it found before.
\<close>

theorem setenv_getenv:
  assumes "env_wf st" and "run_sets (setenv_fits ca) (setenv_st ca) kvs st = Some st'" and "plain_name j"
  shows "env_wf st' \<and>
    getenv_str st' j = (case map_of (rev kvs) j of Some v \<Rightarrow> Some v | None \<Rightarrow> getenv_str st j)"
  by (rule env.get_run_sets [OF assms])

theorem setenv_getenv_witness:
  "\<exists>st'. run_sets (setenv_fits (\<lambda>_ _. 0)) (setenv_st (\<lambda>_ _. 0)) [(''b'', ''2'')] sample_env = Some st' \<and>
    getenv_str st' ''b'' = Some ''2''"
proof -
  have wf: "env_wf sample_env" using sample_env_ok by (auto simp: env_wf_def)
  have "setenv_fits (\<lambda>_ _. 0) sample_env ''b'' ''2''"
    using do_setenv_args_spec [OF sample_env_ok, of "''b''" "[''2'']" "\<lambda>_ _. 0"]
    by (auto simp: setenv_fits_def setenv_def plain_name_def var_name_def reserved_def NUL_def
        ENV_SIZE_def CONFIG_ENV_SIZE_def new_entry_def)
  then obtain st' where r: "run_sets (setenv_fits (\<lambda>_ _. 0)) (setenv_st (\<lambda>_ _. 0)) [(''b'', ''2'')] sample_env = Some st'"
    by simp
  have "plain_name ''b''" by (simp add: plain_name_def var_name_def reserved_def NUL_def)
  from setenv_getenv [OF wf r this] r show ?thesis by auto
qed

section \<open>Every reachable environment\<close>

text \<open>From the start of the board: relocation of the built-in environment, then commands.\<close>

inductive env_reach :: "(nat \<Rightarrow> string \<Rightarrow> int) \<Rightarrow> env_state \<Rightarrow> bool" for ca where
  boot: "env_repr (default_environment st) es \<Longrightarrow> distinct (map key es) \<Longrightarrow>
    length (default_environment st) \<le> ENV_SIZE \<Longrightarrow>
    env_relocate (Some buf) (env_init st) = Some st' \<Longrightarrow> env_reach ca st'"
| command: "env_reach ca st \<Longrightarrow> \<forall>a \<in> set argv. nul_free a \<Longrightarrow>
    do_setenv ca argv st = Some (rc, st') \<Longrightarrow> env_reach ca st'"

lemma env_relocate_spec:
  assumes "env_repr (default_environment st) es" and "length (default_environment st) \<le> ENV_SIZE"
  shows "\<exists>st'. env_relocate (Some buf) (env_init st) = Some st' \<and> env_ok st' es \<and> env_crc_ok st'"
proof -
  let ?d = "buf_write (replicate ENV_SIZE NUL) 0 (default_environment st)"
  have "env_repr ?d es" "length ?d = ENV_SIZE"
    using assms by (auto simp: env_repr_def buf_write_def)
  then show ?thesis using assms(2)
    by (simp add: env_relocate_def env_init_def set_default_env_def out_def env_crc_update_def env_ok_def
        env_crc_ok_def)
qed

lemma do_setenv_wf:
  assumes "env_wf st" and "\<forall>a \<in> set argv. nul_free a" and "do_setenv ca argv st = Some (rc, st')"
  shows "env_wf st'"
proof -
  obtain es where es: "env_ok st es" "distinct (map key es)" using assms(1) by (auto simp: env_wf_def)
  consider "st' = out (Printf ''Usage:%s'' [AStr (Some ''setenv'')]) st"
    | c n vals where "argv = c # n # vals" "do_setenv_args ca n vals st = Some (rc, st')"
    using assms(3) by (auto simp: do_setenv_def split: list.splits)
  then show ?thesis
  proof cases
    case 1
    then show ?thesis using es by (auto simp: env_wf_def)
  next
    case 2
    from do_setenv_args_area [OF 2(2) es(1)] assms(2) 2(1) obtain es' where
      e: "env_ok st' es'" "es' = es \<or> var_name n \<and> (es' = del_key n es \<or>
        vals \<noteq> [] \<and> es' = del_key n es @ [new_entry n vals])" by auto
    have "distinct (map key es')"
      using e(2) es(2) distinct_del_key [OF es(2), of n] by (cases vals) (auto simp: image_iff)
    with e(1) show ?thesis by (auto simp: env_wf_def)
  qed
qed

text \<open>
  C6: no sequence of \<open>setenv\<close> commands, whatever their arguments, corrupts the environment: every
  state reachable from the start has a well-formed area with distinct names, and every lookup ends
  inside it.
\<close>

theorem env_reach_wf:
  assumes "env_reach ca st"
  shows "env_wf st \<and> (\<forall>n. nul_free n \<longrightarrow> getenv st n \<noteq> None)"
proof -
  have "env_wf st" using assms
  proof induction
    case (boot st es buf st')
    then show ?case using env_relocate_spec [of st es buf] by (auto simp: env_wf_def)
  next
    case (command st argv rc st')
    then show ?case using do_setenv_wf by blast
  qed
  then obtain es where "env_ok st es" by (auto simp: env_wf_def)
  moreover from this obtain d where "env_get_addr st = Some d" "env_repr d es" "length d = ENV_SIZE"
    using env_area by blast
  ultimately show ?thesis
    using \<open>env_wf st\<close> getenv_area by (auto simp: getenv_def split: option.split)
qed

theorem env_reach_wf_witness:
  "\<exists>st. env_relocate (Some \<lparr>env_crc = 0, env_bytes = []\<rparr>) (env_init sample_env) = Some st \<and> env_wf st"
proof -
  have r: "env_repr (default_environment sample_env) []" "length (default_environment sample_env) \<le> ENV_SIZE"
    by (simp_all add: sample_env_def env_repr_def area_def ENV_SIZE_def CONFIG_ENV_SIZE_def)
  from env_relocate_spec [OF this] obtain st where
    "env_relocate (Some \<lparr>env_crc = 0, env_bytes = []\<rparr>) (env_init sample_env) = Some st" by blast
  moreover from this have "env_reach (\<lambda>_ _. 0) st"
    using r by (intro env_reach.boot [of sample_env "[]"]) simp_all
  ultimately show ?thesis using env_reach_wf by blast
qed

section \<open>Copying a value out\<close>

lemma getenv_copy_spec:
  "nul_free s \<Longrightarrow> n \<le> len \<Longrightarrow> getenv_copy (pre @ s @ NUL # t) (length pre) len n =
    Some (if length s < len - n then (s @ [NUL], n + length s + 1) else (take (len - n) s, len + 1))"
proof (induction s arbitrary: pre n)
  case Nil
  then show ?case by (subst getenv_copy.simps) auto
next
  case (Cons c s)
  show ?case
  proof (cases "n < len")
    case True
    then obtain k where k: "len - n = Suc k" "len - Suc n = k" by (metis Suc_diff_Suc)
    show ?thesis using Cons.IH [of "n + 1" "pre @ [c]"] Cons.prems True k
      by (subst getenv_copy.simps) auto
  next
    case False
    then show ?thesis using Cons.prems by (subst getenv_copy.simps) simp
  qed
qed

lemma print_all_spec:
  assumes "\<forall>e \<in> set es. entry e" and "\<forall>k. \<not> ctrlc k"
  shows "print_all (pre @ flat es @ NUL # t) ctrlc poll (length pre) =
    Some (concat (map (\<lambda>e. e @ [CHR 0x0A]) es), length pre + length (flat es), False)"
  using assms(1)
proof (induction es arbitrary: pre poll)
  case Nil
  then show ?case by (subst print_all.simps) simp
next
  case (Cons e es)
  let ?d = "pre @ e @ NUL # flat es @ NUL # t"
  have e: "nul_free e" "e \<noteq> []" "hd e \<noteq> NUL" using Cons.prems entryD by auto
  have hd: "?d ! length pre = hd e" using e(2) by (simp add: nth_append hd_conv_nth)
  have line: "map ((!) ?d) [length pre..<length pre + length e] = e"
    by (rule nth_equalityI) (simp_all add: nth_append)
  have "print_all ?d ctrlc (poll + 1) (length (pre @ e @ [NUL])) =
      Some (concat (map (\<lambda>e. e @ [CHR 0x0A]) es), length (pre @ e @ [NUL]) + length (flat es), False)"
    using Cons.IH [of "pre @ e @ [NUL]" "poll + 1"] Cons.prems by simp
  then show ?case
    using next_nul_spec [OF e(1), of pre "flat es @ NUL # t"] hd e(3) assms(2)
    by (subst print_all.simps) (simp add: line)
qed

text \<open>\<open>printenv\<close> lists the entries, one line each, in the order of the area.\<close>

lemma do_printenv_all:
  assumes ok: "env_ok st es" and "\<forall>k. \<not> ctrlc k" and run: "do_printenv ctrlc [c] st = Some (text, rc)"
  shows "prefix (concat (map (\<lambda>e. e @ [CHR 0x0A]) es)) text \<and> rc = 0"
proof -
  obtain d where d: "env_get_addr st = Some d" "env_repr d es" using env_area [OF ok] by blast
  obtain t where "d = flat es @ NUL # t" using env_repr_flat [OF d(2)] by blast
  moreover have "\<forall>e \<in> set es. entry e" using d(2) by (simp add: env_repr_def)
  ultimately have "print_all d ctrlc 0 0 = Some (concat (map (\<lambda>e. e @ [CHR 0x0A]) es), length (flat es), False)"
    using print_all_spec [of es ctrlc "[]"] assms(2) by simp
  then show ?thesis using run d(1) by (auto simp: do_printenv_def)
qed

text \<open>
  C38: what \<open>getenv_r\<close> writes into a buffer of \<open>len\<close> bytes. A value that is shorter than
  \<open>len - 1\<close> is copied with its NUL and its size returned. A value of exactly \<open>len - 1\<close> characters
  is copied too, but one more NUL is written behind the buffer. A longer value is cut to \<open>len\<close>
  characters without a NUL, and \<open>len + 1\<close> is returned.
\<close>

theorem getenv_r_exact:
  assumes "env_wf st" and "plain_name n" and "getenv_str st n = Some v"
  shows "getenv_r st n len = Some
    (if length v + 1 < len then (v @ [NUL], int (length v + 1))
     else if length v + 1 = len then (v @ [NUL, NUL], int len)
     else (take len v, int len + 1))"
proof -
  obtain es where ok: "env_ok st es" using assms(1) by (auto simp: env_wf_def)
  have n: "var_name n" "nul_free n" "key n = n" using assms(2) by (simp_all add: plain_name_def var_name_def)
  obtain e where e: "find (\<lambda>e. key e = n) es = Some e" "v = val e"
    using assms(3) getenv_str_find [OF ok n(1)] by auto
  from getenv_value [OF ok n(2)] e n(3) obtain pre t where
    "env_get_addr st = Some (pre @ v @ NUL # t)" "getenv st n = Some (Some (length pre))" "nul_free v" by auto
  then show ?thesis
    using getenv_copy_spec [of v 0 len pre t]
    by (auto simp: getenv_r_def getenv_def)
qed

theorem getenv_r_exact_witness:
  "getenv_r sample_env ''a'' 2 = Some ([CHR ''1'', NUL, NUL], 2)"
proof -
  have wf: "env_wf sample_env" using sample_env_ok by (auto simp: env_wf_def)
  have n: "plain_name ''a''" by (simp add: plain_name_def var_name_def reserved_def NUL_def)
  have "getenv_str sample_env ''a'' = Some ''1''"
    using getenv_str_find [OF sample_env_ok, of "''a''"] n by (simp add: plain_name_def val_def)
  from getenv_r_exact [OF wf n this, of 2] show ?thesis by simp
qed

end
