(* ===== verification/CmdParse.thy ===== *)
theory CmdParse
  imports CStrings "HOL-Library.Sublist"
begin

text \<open>
  From a command line to calls of commands, \<^verbatim>\<open>common/main.c\<close> (\<open>parse_line\<close>, \<open>process_macros\<close>,
  \<open>run_command\<close>) and the table search of \<^verbatim>\<open>common/command.c\<close> (\<open>find_cmd_tbl\<close>).

  Strings are read through the list of their characters (theory CStrings); the buffers the code
  cuts into arguments are modelled by the argument strings. What a command does to the rest of the
  system is a parameter: a state of any type, the effect of a table entry on it, and the value of a
  variable in it.
\<close>

section \<open>Arguments\<close>

definition CONFIG_SYS_CBSIZE :: nat where "CONFIG_SYS_CBSIZE = 512"
definition CONFIG_SYS_MAXARGS :: nat where "CONFIG_SYS_MAXARGS = 16"

definition blank :: "char \<Rightarrow> bool" where "blank c \<longleftrightarrow> c = CHR '' '' \<or> c = CHR 0x09"

fun skip_blanks :: "string \<Rightarrow> string" where
  "skip_blanks [] = []"
| "skip_blanks (c # line) = (if blank c then skip_blanks line else c # line)"

text \<open>The argument and the line from the character that ends it.\<close>

fun find_arg_end :: "string \<Rightarrow> string \<times> string" where
  "find_arg_end [] = ([], [])"
| "find_arg_end (c # line) =
     (if c \<noteq> NUL \<and> \<not> blank c then (let (a, r) = find_arg_end line in (c # a, r)) else ([], c # line))"

text \<open>
  The arguments from number \<open>nargs\<close> on, and whether \<open>argv[nargs] = NULL\<close> was stored: without it the
  line had too many arguments and the vector is not closed.
\<close>

function parse_args :: "nat \<Rightarrow> string \<Rightarrow> string list \<times> bool" where
  "parse_args nargs line =
     (if nargs < CONFIG_SYS_MAXARGS
      then (let line = skip_blanks line
            in if deref line = NUL then ([], True)
               else (let (arg, line) = find_arg_end line
                     in if deref line = NUL then ([arg], True)
                        else (let (args, closed) = parse_args (nargs + 1) (tl line) in (arg # args, closed))))
      else ([], False))"
  by pat_completeness auto

termination by (relation "measure (\<lambda>(n, l). CONFIG_SYS_MAXARGS - n)") auto

declare parse_args.simps [simp del]

definition parse_line :: "string \<Rightarrow> string list \<times> bool" where "parse_line line = parse_args 0 line"

section \<open>Variables in a line\<close>

text \<open>The variable \<open>state\<close>, 0 to 3; while the closing bracket is awaited \<open>varname_start\<close> is set.\<close>

datatype macro_state = Dollar | Open_bracket | Close_bracket string | Quote

text \<open>One character: the new state and what is written, before it is cut to the room that is left.\<close>

definition macro_step :: "(string \<Rightarrow> string option) \<Rightarrow> macro_state \<Rightarrow> char \<Rightarrow> char \<Rightarrow> string \<Rightarrow> macro_state \<times> string" where
  "macro_step lookup state prev c input =
     (case state of
        Dollar \<Rightarrow>
          if c = CHR 0x27 \<and> prev \<noteq> CHR 0x5C then (Quote, [])
          else if c = CHR ''$'' \<and> prev \<noteq> CHR 0x5C then (Open_bracket, []) else (Dollar, [c])
      | Open_bracket \<Rightarrow>
          if c = CHR ''('' \<or> c = CHR ''{'' then (Close_bracket input, []) else (Dollar, [CHR ''$'', c])
      | Close_bracket varname_start \<Rightarrow>
          if c = CHR '')'' \<or> c = CHR ''}''
          then (let envcnt = length varname_start - length input - 1
                in (Dollar, case lookup (take envcnt varname_start) of None \<Rightarrow> [] | Some envval \<Rightarrow> envval))
          else (Close_bracket varname_start, [])
      | Quote \<Rightarrow> if c = CHR 0x27 \<and> prev \<noteq> CHR 0x5C then (Dollar, []) else (Quote, [c]))"

text \<open>The loop; it writes at most \<open>outputcnt\<close> characters. \<open>inputcnt\<close> is the length of the rest.\<close>

function macro_loop :: "(string \<Rightarrow> string option) \<Rightarrow> macro_state \<Rightarrow> char \<Rightarrow> string \<Rightarrow> nat \<Rightarrow> string" where
  "macro_loop lookup state prev input outputcnt =
     (if input = [] \<or> outputcnt = 0 then []
      else (let c = hd input; input = tl input
            in if state \<noteq> Quote \<and> c = CHR 0x5C \<and> prev \<noteq> CHR 0x5C \<and> input = [] then []
               else (let (prev, c, input) = (if state \<noteq> Quote \<and> c = CHR 0x5C \<and> prev \<noteq> CHR 0x5C
                                             then (c, hd input, tl input) else (prev, c, input));
                         (state, s) = macro_step lookup state prev c input;
                         s = take outputcnt s
                     in s @ macro_loop lookup state c input (outputcnt - length s))))"
  by pat_completeness auto

termination
  by (relation "measure (\<lambda>(g, st, p, i, n). length i)") (auto split: if_splits )

declare macro_loop.simps [simp del]

text \<open>The closing NUL takes the place of the last character when the buffer is full.\<close>

definition process_macros :: "(string \<Rightarrow> string option) \<Rightarrow> string \<Rightarrow> string" where
  "process_macros lookup input =
     (let output = macro_loop lookup Dollar NUL (take (strlen input) input) CONFIG_SYS_CBSIZE
      in if length output < CONFIG_SYS_CBSIZE then output else butlast output)"

section \<open>The command table\<close>

record 'f cmd_tbl =
  cmd_name :: string
  maxargs :: int
  repeatable :: u32
  cmd_fn :: 'f
  usage :: string

text \<open>The loop over the table: a full match, or the last abbreviated match and the number of them.\<close>

fun find_loop :: "string \<Rightarrow> nat \<Rightarrow> 'f cmd_tbl list \<Rightarrow> 'f cmd_tbl option \<Rightarrow> nat \<Rightarrow> 'f cmd_tbl option" where
  "find_loop cmd len [] cmdtp_temp n_found = (if n_found = 1 then cmdtp_temp else None)"
| "find_loop cmd len (cmdtp # table) cmdtp_temp n_found =
     (if strncmp cmd (cmd_name cmdtp) len = 0
      then (if len = strlen (cmd_name cmdtp) then Some cmdtp
            else find_loop cmd len table (Some cmdtp) (n_found + 1))
      else find_loop cmd len table cmdtp_temp n_found)"

definition find_cmd_tbl :: "string \<Rightarrow> 'f cmd_tbl list \<Rightarrow> 'f cmd_tbl option" where
  "find_cmd_tbl cmd table =
     (let len = (case strchr cmd (of_char CHR ''.'') of None \<Rightarrow> strlen cmd | Some p \<Rightarrow> strlen cmd - strlen p)
      in find_loop cmd len table (case table of [] \<Rightarrow> None | c # _ \<Rightarrow> Some c) 0)"

section \<open>Command lines\<close>

text \<open>
  The token up to the separator and, behind one, the rest. \<open>prev\<close> is \<open>*(sep-1)\<close>, \<open>start\<close> is
  \<open>sep == str\<close>.
\<close>

fun find_sep :: "char \<Rightarrow> bool \<Rightarrow> bool \<Rightarrow> string \<Rightarrow> string \<times> string option" where
  "find_sep prev inquotes start [] = ([], None)"
| "find_sep prev inquotes start (c # s) =
     (if c = NUL then ([], None)
      else (let inquotes = (if c = CHR 0x27 \<and> prev \<noteq> CHR 0x5C then \<not> inquotes else inquotes)
            in if \<not> inquotes \<and> c = CHR '';'' \<and> \<not> start \<and> prev \<noteq> CHR 0x5C then ([], Some s)
               else (let (t, r) = find_sep c inquotes False s in (c # t, r))))"

text \<open>
  What the rest of the system does: the value of a variable, the command table, which commands are
  \<open>bootd\<close>, the effect of a command (entry, flag, arguments) with its return code, whether the user
  interrupted and the forgetting of an earlier interrupt, the effect of a message on the console, and
  whether the configuration defines \<^verbatim>\<open>CONFIG_REPEAT_COMMNAD\<close>, as the code spells it. No file of the
  repository does.
\<close>

datatype cmd_msg = Cmd_too_long | Too_many_args nat | Unknown_cmd string | Usage_of string | Bootd_recursion

record ('s, 'f) machine =
  var_of :: "'s \<Rightarrow> string \<Rightarrow> string option"
  cmd_table :: "'f cmd_tbl list"
  is_bootd :: "'f \<Rightarrow> bool"
  exec :: "'f cmd_tbl \<Rightarrow> u32 \<Rightarrow> string list \<Rightarrow> 's \<Rightarrow> int \<times> 's"
  had_ctrlc :: "'s \<Rightarrow> bool"
  clear_ctrlc :: "'s \<Rightarrow> 's"
  cmd_puts :: "cmd_msg \<Rightarrow> 's \<Rightarrow> 's"
  repeat_commnad :: bool

definition CMD_FLAG_BOOTD :: u32 where "CMD_FLAG_BOOTD = 2"

text \<open>
  One token: the flag, \<open>rc\<close>, \<open>repeatable\<close> and the state behind it; the last component is the
  early return after an interrupt.
\<close>

definition run_token ::
  "('s, 'f) machine \<Rightarrow> string \<Rightarrow> u32 \<Rightarrow> int \<Rightarrow> u32 \<Rightarrow> 's \<Rightarrow> u32 \<times> int \<times> u32 \<times> 's \<times> bool" where
  "run_token M token flag rc rep s =
     (let (argv, closed) = parse_line (process_macros (var_of M s) token);
          s = (if closed then s else cmd_puts M (Too_many_args CONFIG_SYS_MAXARGS) s)
      in if argv = [] then (flag, - 1, rep, s, False)
         else (case find_cmd_tbl (hd argv) (cmd_table M) of
                 None \<Rightarrow> (flag, - 1, rep, cmd_puts M (Unknown_cmd (hd argv)) s, False)
               | Some cmdtp \<Rightarrow>
                   if int (length argv) > maxargs cmdtp then (flag, - 1, rep, cmd_puts M (Usage_of (usage cmdtp)) s, False)
                   else if is_bootd M (cmd_fn cmdtp) \<and> flag AND CMD_FLAG_BOOTD \<noteq> 0
                   then (flag, - 1, rep, cmd_puts M Bootd_recursion s, False)
                   else (let flag = (if is_bootd M (cmd_fn cmdtp) then flag OR CMD_FLAG_BOOTD else flag);
                             (r, s) = exec M cmdtp flag argv s;
                             rc = (if r \<noteq> 0 then - 1 else rc)
                         in (flag, rc, rep AND repeatable cmdtp, s, had_ctrlc M s))))"

text \<open>The loop \<open>while (*str)\<close>; \<open>prev\<close> is the character before \<open>str\<close>.\<close>

lemma find_sep_length:
  assumes "find_sep prev q start s = (t, Some r)"
  shows "length r < length s"
  using assms
  by (induction prev q start s arbitrary: t rule: find_sep.induct)
    (auto simp: Let_def split: if_splits prod.splits intro: less_SucI)

function run_loop :: "('s, 'f) machine \<Rightarrow> char \<Rightarrow> string \<Rightarrow> u32 \<Rightarrow> int \<Rightarrow> u32 \<Rightarrow> 's \<Rightarrow> int \<times> 's" where
  "run_loop M prev str flag rc rep s =
     (if deref str = NUL then (if rc \<noteq> 0 then rc else uint rep, s)
      else (let (token, rest) = find_sep prev False True str;
                (flag, rc, rep, s, stop) = run_token M token flag rc rep s
            in if stop then (- 1, s)
               else (case rest of None \<Rightarrow> (if rc \<noteq> 0 then rc else uint rep, s)
                     | Some str \<Rightarrow> run_loop M NUL str flag rc rep s)))"
  by pat_completeness auto

termination
  by (relation "measure (\<lambda>(M, p, str, f, r, rep, s). length str)") (auto dest: find_sep_length [OF sym])

declare run_loop.simps [simp del]

text \<open>
  \<open>before\<close> is the byte in front of the buffer, which the test for an escaped quote reads.
\<close>

definition run_command :: "('s, 'f) machine \<Rightarrow> char \<Rightarrow> string option \<Rightarrow> u32 \<Rightarrow> 's \<Rightarrow> int \<times> 's" where
  "run_command M before cmd flag s =
     (let repeatable = (if repeat_commnad M then 1 else 0);
          s = clear_ctrlc M s
      in case cmd of None \<Rightarrow> (- 1, s)
         | Some cmd \<Rightarrow>
             if deref cmd = NUL then (- 1, s)
             else if strlen cmd \<ge> CONFIG_SYS_CBSIZE then (- 1, cmd_puts M Cmd_too_long s)
             else run_loop M before (take (strlen cmd) cmd) flag 0 repeatable s)"

section \<open>Arguments are the words of the line\<close>

text \<open>The words: maximal runs of characters that are not blank.\<close>

function words :: "string \<Rightarrow> string list" where
  "words s = (let s = dropWhile blank s in
     if s = [] then [] else takeWhile (\<lambda>c. \<not> blank c) s # words (dropWhile (\<lambda>c. \<not> blank c) s))"
  by pat_completeness auto

termination
proof (relation "measure length")
  fix s x :: string
  assume a: "x = dropWhile blank s" "x \<noteq> []"
  then have "\<not> blank (hd x)" using hd_dropWhile by blast
  then have "length (dropWhile (\<lambda>c. \<not> blank c) x) < length x"
    using a(2) by (cases x) (simp_all add: le_imp_less_Suc length_dropWhile_le)
  also have "\<dots> \<le> length s" using a(1) by (simp add: length_dropWhile_le)
  finally show "(dropWhile (\<lambda>c. \<not> blank c) x, s) \<in> measure length" by simp
qed simp

declare words.simps [simp del]

lemma skip_blanks_eq: "skip_blanks s = dropWhile blank s" by (induction s) auto

lemma find_arg_end_eq:
  "nul_free s \<Longrightarrow> find_arg_end s = (takeWhile (\<lambda>c. \<not> blank c) s, dropWhile (\<lambda>c. \<not> blank c) s)"
  by (induction s) auto

lemma nul_free_dropWhile [intro]: "nul_free s \<Longrightarrow> nul_free (dropWhile P s)"
  unfolding nul_free_def using set_dropWhileD by fast

lemma words_Cons_blank: "blank c \<Longrightarrow> words (c # s) = words s"
  by (subst (1 2) words.simps) simp

lemma words_Cons: "words (c # s) =
    (if blank c then words s else (c # takeWhile (\<lambda>c. \<not> blank c) s) # words (dropWhile (\<lambda>c. \<not> blank c) s))"
  by (cases "blank c") (simp_all add: words_Cons_blank, subst words.simps, simp)

lemma words_Nil [simp]: "words [] = []" by (subst words.simps) simp

text \<open>The line ends in the middle of a word.\<close>

definition ends_in_word :: "string \<Rightarrow> bool" where "ends_in_word s \<longleftrightarrow> s \<noteq> [] \<and> \<not> blank (last s)"

lemma ends_in_word_words: "ends_in_word s \<Longrightarrow> words s \<noteq> []"
proof -
  assume "ends_in_word s"
  then have "dropWhile blank s \<noteq> []" by (auto simp: ends_in_word_def dest: last_in_set)
  then show "words s \<noteq> []" by (subst words.simps) (simp add: Let_def)
qed

lemma parse_args_spec:
  assumes "nul_free s" and "n \<le> CONFIG_SYS_MAXARGS"
  shows "parse_args n s = (take (CONFIG_SYS_MAXARGS - n) (words s),
    n < CONFIG_SYS_MAXARGS \<and> (n + length (words s) < CONFIG_SYS_MAXARGS \<or>
      n + length (words s) = CONFIG_SYS_MAXARGS \<and> ends_in_word s))"
  using assms
proof (induction "length s" arbitrary: s n rule: less_induct)
  case less
  define x where "x = dropWhile blank s"
  define r where "r = dropWhile (\<lambda>c. \<not> blank c) x"
  let ?w = "takeWhile (\<lambda>c. \<not> blank c) x"
  have nx: "nul_free x" and nr: "nul_free r" using less.prems(1) by (auto simp: x_def r_def)
  have w: "words s = (if x = [] then [] else ?w # words r)"
    by (subst words.simps) (simp add: x_def r_def Let_def)
  have last: "x \<noteq> [] \<Longrightarrow> last s = last x"
    unfolding x_def by (metis append_Nil2 last_appendR takeWhile_dropWhile_id)
  show ?case
  proof (cases "n < CONFIG_SYS_MAXARGS")
    case False
    then show ?thesis using less.prems(2) by (subst parse_args.simps) simp
  next
    case True
    define k where "k = CONFIG_SYS_MAXARGS - Suc n"
    have k: "CONFIG_SYS_MAXARGS - n = Suc k" "CONFIG_SYS_MAXARGS - Suc n = k" using True by (simp_all add: k_def)
    show ?thesis
    proof (cases "x = [] \<or> r = []")
      case True
      have "x \<noteq> [] \<Longrightarrow> r = [] \<Longrightarrow> ends_in_word s"
        using last unfolding r_def ends_in_word_def x_def
        by (metis dropWhile.simps(1) dropWhile_eq_Nil_conv last_in_set)
      then show ?thesis
        using True \<open>n < CONFIG_SYS_MAXARGS\<close> nx k w words.simps [of "[]"]
        by (subst parse_args.simps) (auto simp: skip_blanks_eq x_def [symmetric] deref_nul_free find_arg_end_eq r_def [symmetric])
    next
      case False
      then have "blank (hd r)" unfolding r_def using hd_dropWhile [of "\<lambda>c. \<not> blank c" x] by simp
      then have wr: "words r = words (tl r)" using False words_Cons_blank by (metis list.collapse)
      have lt: "length (tl r) < length s"
        using False length_dropWhile_le [of "\<lambda>c. \<not> blank c" x] length_dropWhile_le [of blank s]
        unfolding r_def [symmetric] x_def [symmetric] by (cases r) simp_all
      have nt: "nul_free (tl r)" using nr by (cases r) auto
      have "last s = last r" using last False
        unfolding r_def by (metis last_appendR takeWhile_dropWhile_id)
      then have en: "ends_in_word s \<longleftrightarrow> ends_in_word (tl r)"
        using False \<open>blank (hd r)\<close> lt by (cases r) (auto simp: ends_in_word_def)
      have IH: "parse_args (Suc n) (tl r) = (take (CONFIG_SYS_MAXARGS - Suc n) (words (tl r)),
          Suc n < CONFIG_SYS_MAXARGS \<and> (Suc n + length (words (tl r)) < CONFIG_SYS_MAXARGS \<or>
          Suc n + length (words (tl r)) = CONFIG_SYS_MAXARGS \<and> ends_in_word (tl r)))"
        using less.hyps [OF lt nt, of "Suc n"] \<open>n < CONFIG_SYS_MAXARGS\<close> by simp
      show ?thesis
        using False \<open>n < CONFIG_SYS_MAXARGS\<close> nx nr k w wr en IH ends_in_word_words [of "tl r"]
        by (subst parse_args.simps; cases "words (tl r)")
          (auto simp: skip_blanks_eq x_def [symmetric] deref_nul_free find_arg_end_eq r_def [symmetric] Suc_lessI
            split: prod.split)
    qed
  qed
qed

text \<open>
  \<open>parse_line\<close> splits a line at its blanks: the arguments are the first 16 words of the line.
  The vector is closed by NULL exactly when there are fewer words, or 16 and the line ends with the
  last of them; otherwise the code reports too many arguments and leaves the vector open, also
  for 16 words with a blank behind them.
\<close>

lemma parse_line_words:
  assumes "nul_free line"
  shows "parse_line line = (take CONFIG_SYS_MAXARGS (words line),
    length (words line) < CONFIG_SYS_MAXARGS \<or> length (words line) = CONFIG_SYS_MAXARGS \<and> ends_in_word line)"
  using parse_args_spec [OF assms, of 0] by (simp add: parse_line_def CONFIG_SYS_MAXARGS_def)

theorem parse_line_words_witness:
  "parse_line '' md  0x100 '' = ([''md'', ''0x100''], True)"
proof -
  have "words '' md  0x100 '' = [''md'', ''0x100'']"
    by (simp add: words.simps blank_def)
  then show ?thesis using parse_line_words [of "'' md  0x100 ''"] by (simp add: NUL_def CONFIG_SYS_MAXARGS_def)
qed

section \<open>What the macros expand to\<close>

text \<open>A line as it is written: plain text and references in either bracket.\<close>

datatype piece = Lit string | Var bool string

fun write_piece :: "piece \<Rightarrow> string" where
  "write_piece (Lit t) = t"
| "write_piece (Var b n) = (if b then ''${'' @ n @ ''}'' else ''$('' @ n @ '')'')"

fun expand_piece :: "(string \<Rightarrow> string option) \<Rightarrow> piece \<Rightarrow> string" where
  "expand_piece lookup (Lit t) = t"
| "expand_piece lookup (Var b n) = (case lookup n of None \<Rightarrow> [] | Some v \<Rightarrow> v)"

fun piece_ok :: "piece \<Rightarrow> bool" where
  "piece_ok (Lit t) \<longleftrightarrow> set t \<inter> {NUL, CHR ''$'', CHR 0x27, CHR 0x5C} = {}"
| "piece_ok (Var b n) \<longleftrightarrow> set n \<inter> {NUL, CHR 0x5C, CHR '')'', CHR ''}''} = {}"

lemma macro_loop_Cons:
  "n > 0 \<Longrightarrow> \<not> (st \<noteq> Quote \<and> c = CHR 0x5C \<and> prev \<noteq> CHR 0x5C) \<Longrightarrow>
    macro_loop lookup st prev (c # input) n =
      (let (st', s) = macro_step lookup st prev c input; s = take n s
       in s @ macro_loop lookup st' c input (n - length s))"
  by (subst macro_loop.simps) (auto simp: Let_def)

lemma macro_loop_0 [simp]: "macro_loop lookup st prev input 0 = []" "macro_loop lookup st prev [] n = []"
  by (subst macro_loop.simps, simp)+

lemma macro_loop_lit:
  assumes "set t \<inter> {NUL, CHR ''$'', CHR 0x27, CHR 0x5C} = {}" and "length t < n"
  shows "\<exists>c. (c = prev \<or> c \<noteq> CHR 0x5C) \<and>
    macro_loop lookup Dollar prev (t @ s) n = t @ macro_loop lookup Dollar c s (n - length t)"
  using assms
proof (induction t arbitrary: prev n)
  case (Cons a t)
  then obtain c where "c = a \<or> c \<noteq> CHR 0x5C"
    "macro_loop lookup Dollar a (t @ s) (n - 1) = t @ macro_loop lookup Dollar c s (n - 1 - length t)"
    by (metis Cons.IH [of "n - 1" a] Int_insert_left_if0 disjoint_insert(1) length_Cons list.simps(15) less_diff_conv Suc_eq_plus1 insert_disjoint(1))
  then show ?case using Cons.prems by (auto simp: macro_loop_Cons macro_step_def Let_def intro!: exI [of _ c])
qed auto

lemma macro_loop_name:
  assumes "set m \<inter> {NUL, CHR 0x5C, CHR '')'', CHR ''}''} = {}" and "0 < n" and "prev \<noteq> CHR 0x5C \<or> m \<noteq> []"
    and "b \<in> {CHR '')'', CHR ''}''}"
  shows "macro_loop lookup (Close_bracket (pre @ m @ b # s)) prev (m @ b # s) n =
    (let v = take n (case lookup (pre @ m) of None \<Rightarrow> [] | Some v \<Rightarrow> v)
     in v @ macro_loop lookup Dollar b s (n - length v))"
  using assms(1)
proof (induction m arbitrary: pre prev)
  case Nil
  then show ?case using assms(2,4) by (auto simp: macro_loop_Cons macro_step_def Let_def)
next
  case (Cons a m)
  have "macro_loop lookup (Close_bracket (pre @ (a # m) @ b # s)) prev ((a # m) @ b # s) n =
      macro_loop lookup (Close_bracket ((pre @ [a]) @ m @ b # s)) a (m @ b # s) n"
    using Cons.prems assms(2) by (auto simp: macro_loop_Cons macro_step_def Let_def)
  also have "\<dots> = (let v = take n (case lookup ((pre @ [a]) @ m) of None \<Rightarrow> [] | Some v \<Rightarrow> v)
     in v @ macro_loop lookup Dollar b s (n - length v))"
    using Cons.prems by (intro Cons.IH) auto
  finally show ?case by simp
qed

lemma macro_loop_pieces:
  assumes "\<forall>p \<in> set ps. piece_ok p" and "length (concat (map (expand_piece lookup) ps)) < n" and "prev \<noteq> CHR 0x5C"
  shows "macro_loop lookup Dollar prev (concat (map write_piece ps)) n = concat (map (expand_piece lookup) ps)"
  using assms
proof (induction ps arbitrary: n prev)
  case (Cons p ps)
  show ?case
  proof (cases p)
    case (Lit t)
    then have t: "set t \<inter> {NUL, CHR ''$'', CHR 0x27, CHR 0x5C} = {}" "length t < n" using Cons.prems by auto
    from macro_loop_lit [OF t, of prev lookup "concat (map write_piece ps)"] Cons.prems(3) obtain c where
      "c \<noteq> CHR 0x5C" "macro_loop lookup Dollar prev (t @ concat (map write_piece ps)) n =
        t @ macro_loop lookup Dollar c (concat (map write_piece ps)) (n - length t)" by auto
    then show ?thesis using Cons.IH [of "n - length t" c] Cons.prems Lit by auto
  next
    case (Var b m)
    define o' c' where "o' = (if b then CHR ''{'' else CHR ''('')" and "c' = (if b then CHR ''}'' else CHR '')'')"
    let ?s = "concat (map write_piece ps)" and ?v = "case lookup m of None \<Rightarrow> [] | Some v \<Rightarrow> v"
    have w: "write_piece p = CHR ''$'' # o' # m @ [c']" by (simp add: Var o'_def c'_def)
    have "length ?v < n" "0 < n" using Cons.prems(2) by (auto simp: Var)
    have "macro_loop lookup Dollar prev (write_piece p @ ?s) n =
        macro_loop lookup (Close_bracket ([] @ m @ c' # ?s)) o' (m @ c' # ?s) n"
      using \<open>0 < n\<close> Cons.prems(3) by (auto simp: w macro_loop_Cons macro_step_def Let_def o'_def)
    also have "\<dots> = ?v @ macro_loop lookup Dollar c' ?s (n - length ?v)"
      using Cons.prems(1) \<open>0 < n\<close> \<open>length ?v < n\<close>
      by (subst macro_loop_name) (auto simp: Var c'_def o'_def Let_def)
    finally show ?thesis
      using Cons.IH [of "n - length ?v" c'] Cons.prems by (auto simp: Var c'_def)
  qed
qed simp

lemma macro_loop_length: "length (macro_loop lookup st prev input n) \<le> n"
proof (induction lookup st prev input n rule: macro_loop.induct)
  case (1 lookup st prev input n)
  show ?case
  proof (cases "input = [] \<or> n = 0 \<or> st \<noteq> Quote \<and> hd input = CHR 0x5C \<and> prev \<noteq> CHR 0x5C \<and> tl input = []")
    case True
    then show ?thesis by (subst macro_loop.simps) auto
  next
    case False
    obtain prev' c input' where pci: "(if st \<noteq> Quote \<and> hd input = CHR 0x5C \<and> prev \<noteq> CHR 0x5C
        then (hd input, hd (tl input), tl (tl input)) else (prev, hd input, tl input)) = (prev', c, input')"
      by (metis prod_cases3)
    obtain st' s where ms: "macro_step lookup st prev' c input' = (st', s)" by (cases "macro_step lookup st prev' c input'")
    have eq: "macro_loop lookup st prev input n =
        take n s @ macro_loop lookup st' c input' (n - length (take n s))"
      using False pci ms
      by (subst macro_loop.simps; cases "st \<noteq> Quote \<and> hd input = CHR 0x5C \<and> prev \<noteq> CHR 0x5C")
        (auto simp: Let_def)
    have "length (macro_loop lookup st' c input' (n - length (take n s))) \<le> n - length (take n s)"
      using 1 False pci ms by (auto simp: Let_def)
    then show ?thesis unfolding eq by simp
  qed
qed

lemma nul_free_pieces: "\<forall>p \<in> set ps. piece_ok p \<Longrightarrow> nul_free (concat (map write_piece ps))"
proof (induction ps)
  case (Cons p ps)
  then show ?case by (cases p) (auto simp: nul_free_def NUL_def)
qed simp

text \<open>
  C21: \<open>process_macros\<close> never writes behind its buffer of 512 bytes, whatever the line and the
  variables; and it expands correctly: in a line made of plain text and references \<open>${n}\<close> or
  \<open>$(n)\<close> every reference is replaced by the variable's value, or by nothing when there is no such
  variable, and everything else is kept, whenever the result fits.
\<close>

theorem process_macros_expand:
  "length (process_macros lookup line) < CONFIG_SYS_CBSIZE \<and>
   ((\<forall>p \<in> set ps. piece_ok p) \<longrightarrow> length (concat (map (expand_piece lookup) ps)) < CONFIG_SYS_CBSIZE \<longrightarrow>
     process_macros lookup (concat (map write_piece ps)) = concat (map (expand_piece lookup) ps))"
proof (intro conjI impI)
  have "length (macro_loop lookup Dollar NUL (take (strlen line) line) CONFIG_SYS_CBSIZE) \<le> CONFIG_SYS_CBSIZE"
    by (rule macro_loop_length)
  then show "length (process_macros lookup line) < CONFIG_SYS_CBSIZE"
    by (auto simp: process_macros_def Let_def CONFIG_SYS_CBSIZE_def)
  assume ok: "\<forall>p \<in> set ps. piece_ok p" and l: "length (concat (map (expand_piece lookup) ps)) < CONFIG_SYS_CBSIZE"
  have "NUL \<noteq> CHR 0x5C" by (simp add: NUL_def)
  from macro_loop_pieces [OF ok l this] nul_free_pieces [OF ok] l
  show "process_macros lookup (concat (map write_piece ps)) = concat (map (expand_piece lookup) ps)"
    by (simp add: process_macros_def Let_def)
qed

theorem process_macros_expand_witness:
  "process_macros (\<lambda>n. if n = ''kf'' then Some ''2'' else None) ''load ${kf} a$(x)'' = ''load 2 a''"
  using process_macros_expand [of "\<lambda>n. if n = ''kf'' then Some ''2'' else None" "[]"
      "[Lit ''load '', Var True ''kf'', Lit '' a'', Var False ''x'']"]
  by (simp add: NUL_def CONFIG_SYS_CBSIZE_def)

section \<open>Finding a command\<close>

lemma strncmp_eq_0:
  "n \<le> length s \<Longrightarrow> nul_free s \<Longrightarrow> nul_free t \<Longrightarrow> strncmp s t n = 0 \<longleftrightarrow> prefix (take n s) t"
proof (induction s t n rule: strncmp.induct)
  case (2 s t count)
  then obtain c s' where s: "s = c # s'" by (cases s) auto
  show ?case
  proof (cases "deref t = c")
    case True
    then obtain t' where t: "t = c # t'" using 2(3) by (cases t) (auto simp: s)
    show ?thesis
    proof (cases count)
      case 0
      then show ?thesis by (simp add: s t)
    next
      case (Suc k)
      then show ?thesis using 2 by (simp add: s t)
    qed
  next
    case False
    then have "\<not> prefix (c # take count s') t" by (cases t) auto
    then show ?thesis using False by (auto simp: s Let_def signed_eq_0_iff)
  qed
qed simp

text \<open>The entry a name means: its own, or the only one it abbreviates.\<close>

definition lookup_cmd :: "string \<Rightarrow> 'f cmd_tbl list \<Rightarrow> 'f cmd_tbl option" where
  "lookup_cmd w table =
     (case find (\<lambda>c. cmd_name c = w) table of Some c \<Rightarrow> Some c
      | None \<Rightarrow> (case filter (\<lambda>c. prefix w (cmd_name c)) table of [c] \<Rightarrow> Some c | _ \<Rightarrow> None))"

lemma find_loop_spec:
  assumes "nul_free cmd" and "len \<le> length cmd" and "\<forall>c \<in> set table. nul_free (cmd_name c)"
  defines "w \<equiv> take len cmd"
  shows "find_loop cmd len table tmp n =
    (case find (\<lambda>c. cmd_name c = w) table of Some c \<Rightarrow> Some c
     | None \<Rightarrow> (let m = filter (\<lambda>c. prefix w (cmd_name c)) table in
         if n + length m = 1 then (if m = [] then tmp else Some (last m)) else None))"
  using assms(3)
proof (induction table arbitrary: tmp n)
  case (Cons c table)
  have p: "strncmp cmd (cmd_name c) len = 0 \<longleftrightarrow> prefix w (cmd_name c)"
    using strncmp_eq_0 [OF assms(2,1)] Cons.prems by (simp add: w_def)
  have e: "cmd_name c = w \<longleftrightarrow> prefix w (cmd_name c) \<and> len = length (cmd_name c)"
  proof -
    have "length w = len" using assms(2) by (simp add: w_def)
    then show ?thesis by (metis not_equal_is_parallel parallelD1 prefix_order.refl)
  qed
  show ?case
  proof (cases "prefix w (cmd_name c)")
    case True
    then show ?thesis using p e Cons Cons.IH [of "Some c" "n + 1"] by (auto simp: Let_def split: option.split)
  next
    case False
    then show ?thesis using p e Cons by (auto simp: Let_def split: option.split)
  qed
qed (simp add: Let_def)

text \<open>The name up to its first dot, as in \<open>md.b\<close>.\<close>

definition base_name :: "string \<Rightarrow> string" where "base_name cmd = takeWhile (\<lambda>c. c \<noteq> CHR ''.'') cmd"

text \<open>
  \<open>find_cmd_tbl\<close> resolves a command: the part of the name before the first dot is looked up; an
  entry of that very name wins, wherever it stands in the table; otherwise the only entry the name
  abbreviates; an unknown or ambiguous name finds nothing.
\<close>

lemma find_cmd_tbl_correct:
  assumes "nul_free cmd" and "\<forall>c \<in> set table. nul_free (cmd_name c)"
  shows "find_cmd_tbl cmd table = lookup_cmd (base_name cmd) table"
proof -
  define k :: int where "k = of_char CHR ''.''"
  have dot: "char_of k = CHR ''.''" unfolding k_def by (rule char_of_char)
  define len where "len = length (base_name cmd)"
  have w: "base_name cmd = take len cmd" "len \<le> length cmd"
    by (simp_all add: len_def base_name_def takeWhile_eq_take [symmetric] length_takeWhile_le)
  have sp: "cmd = base_name cmd @ dropWhile (\<lambda>c. c \<noteq> CHR ''.'') cmd" by (simp add: base_name_def)
  have "(case strchr cmd k of None \<Rightarrow> strlen cmd | Some p \<Rightarrow> strlen cmd - strlen p) = len"
  proof -
    have nd: "nul_free (dropWhile (\<lambda>c. c \<noteq> CHR ''.'') cmd)" using assms(1) by blast
    have "length cmd = len + length (dropWhile (\<lambda>c. c \<noteq> CHR ''.'') cmd)"
      by (subst sp) (simp add: len_def)
    then show ?thesis
      using strchr_dropWhile [OF assms(1), of k] assms(1) nd by (auto simp: Let_def NUL_def dot)
  qed
  then have "find_cmd_tbl cmd table = find_loop cmd len table (case table of [] \<Rightarrow> None | c # _ \<Rightarrow> Some c) 0"
    by (simp only: find_cmd_tbl_def Let_def k_def)
  also have "\<dots> = lookup_cmd (base_name cmd) table"
    unfolding find_loop_spec [OF assms(1) w(2) assms(2)] lookup_cmd_def w(1)
    by (auto simp: Let_def split: option.split list.split)
  finally show ?thesis .
qed

theorem find_cmd_tbl_correct_witness:
  "map_option cmd_name (find_cmd_tbl ''printe.b''
     (map (\<lambda>n. \<lparr>cmd_name = n, maxargs = 1, repeatable = 1, cmd_fn = (), usage = []\<rparr>) [''print'', ''printenv'', ''ping''])) =
    Some ''printenv''"
  by (subst find_cmd_tbl_correct) (auto simp: NUL_def lookup_cmd_def base_name_def)

section \<open>Running a line\<close>

text \<open>The line of the tokens \<open>ts\<close>, separated by semicolons.\<close>

fun join_line :: "string list \<Rightarrow> string" where
  "join_line [] = []"
| "join_line [t] = t"
| "join_line (t # ts) = t @ CHR '';'' # join_line ts"

text \<open>A token the separator search takes as it is.\<close>

definition token_ok :: "string \<Rightarrow> bool" where
  "token_ok t \<longleftrightarrow> t \<noteq> [] \<and> set t \<inter> {NUL, CHR '';'', CHR 0x27, CHR 0x5C} = {}"

text \<open>The effect of the tokens one after the other, up to an interrupt.\<close>

fun run_tokens :: "('s, 'f) machine \<Rightarrow> string list \<Rightarrow> u32 \<Rightarrow> int \<Rightarrow> u32 \<Rightarrow> 's \<Rightarrow> int \<times> 's" where
  "run_tokens M [] flag rc rep s = (if rc \<noteq> 0 then rc else uint rep, s)"
| "run_tokens M (t # ts) flag rc rep s =
     (let (flag, rc, rep, s, stop) = run_token M t flag rc rep s
      in if stop then (- 1, s) else run_tokens M ts flag rc rep s)"

lemma find_sep_token:
  assumes "set t \<inter> {NUL, CHR '';'', CHR 0x27, CHR 0x5C} = {}" and "t \<noteq> [] \<or> \<not> start \<and> prev \<noteq> CHR 0x5C"
  shows "find_sep prev False start t = (t, None) \<and> find_sep prev False start (t @ CHR '';'' # s) = (t, Some s)"
  using assms
proof (induction t arbitrary: prev start)
  case Nil
  then show ?case by (simp add: NUL_def)
next
  case (Cons c t)
  have "find_sep c False False t = (t, None) \<and> find_sep c False False (t @ CHR '';'' # s) = (t, Some s)"
    using Cons.prems by (intro Cons.IH) auto
  then show ?case using Cons.prems by auto
qed

lemma run_loop_tokens:
  assumes "\<forall>t \<in> set ts. token_ok t"
  shows "run_loop M prev (join_line ts) flag rc rep s = run_tokens M ts flag rc rep s"
  using assms
proof (induction ts arbitrary: prev flag rc rep s rule: join_line.induct)
  case 1
  then show ?case by (subst run_loop.simps) simp
next
  case (2 t)
  then have t: "set t \<inter> {NUL, CHR '';'', CHR 0x27, CHR 0x5C} = {}" "t \<noteq> []" "deref t \<noteq> NUL"
    by (cases t; auto simp: token_ok_def)+
  then show ?case using find_sep_token [OF t(1)] by (subst run_loop.simps) (simp split: prod.split)
next
  case (3 t u ts)
  then have t: "set t \<inter> {NUL, CHR '';'', CHR 0x27, CHR 0x5C} = {}" "t \<noteq> []" "deref (join_line (t # u # ts)) \<noteq> NUL"
    by (cases t; auto simp: token_ok_def)+
  then show ?case using find_sep_token [OF t(1), of True prev "join_line (u # ts)"] 3
    by (subst run_loop.simps) (auto split: prod.split)
qed

lemma join_line_facts:
  assumes "\<forall>t \<in> set ts. token_ok t" and "ts \<noteq> []"
  shows "nul_free (join_line ts) \<and> deref (join_line ts) \<noteq> NUL"
  using assms
proof (induction ts rule: join_line.induct)
  case (2 t)
  then show ?case by (cases t) (auto simp: token_ok_def nul_free_def)
next
  case (3 t u ts)
  then show ?case by (cases t) (auto simp: token_ok_def nul_free_def NUL_def)
qed simp

text \<open>
  What a line means, without the routines that read it. A command is written as plain text and references;
  its arguments are the words of the text with every reference replaced, as it stands when the command is
  reached. There is room for 511 characters and 16 arguments; the code reports too many arguments also for 16
  words with a blank behind the last.
\<close>

definition cmd_text :: "piece list \<Rightarrow> string" where "cmd_text c = concat (map write_piece c)"

definition expanded :: "('s, 'f) machine \<Rightarrow> 's \<Rightarrow> piece list \<Rightarrow> string" where
  "expanded M s c = take 511 (concat (map (expand_piece (var_of M s)) c))"

definition args_of :: "('s, 'f) machine \<Rightarrow> 's \<Rightarrow> piece list \<Rightarrow> string list" where
  "args_of M s c = take 16 (words (expanded M s c))"

definition warned :: "('s, 'f) machine \<Rightarrow> piece list \<Rightarrow> 's \<Rightarrow> 's" where
  "warned M c s =
     (if length (words (expanded M s c)) < 16 \<or> length (words (expanded M s c)) = 16 \<and> ends_in_word (expanded M s c) then s
      else cmd_puts M (Too_many_args 16) s)"

text \<open>Whether a command that succeeded may be repeated, that it failed, or that the user stopped it.\<close>

datatype outcome = Succeeded bool | Failed | Stopped

inductive runs :: "('s, 'f) machine \<Rightarrow> u32 \<Rightarrow> piece list list \<Rightarrow> 's \<Rightarrow> outcome list \<Rightarrow> 's \<Rightarrow> bool" for M where
  finished: "runs M flag [] s [] s"
| empty: "args_of M s c = [] \<Longrightarrow> runs M flag cs s os s' \<Longrightarrow> runs M flag (c # cs) s (Failed # os) s'"
| unknown: "args_of M s c = w # ws \<Longrightarrow> lookup_cmd (base_name w) (cmd_table M) = None \<Longrightarrow>
    runs M flag cs (cmd_puts M (Unknown_cmd w) (warned M c s)) os s' \<Longrightarrow> runs M flag (c # cs) s (Failed # os) s'"
| too_many: "args_of M s c = w # ws \<Longrightarrow> lookup_cmd (base_name w) (cmd_table M) = Some e \<Longrightarrow> maxargs e < int (length (w # ws)) \<Longrightarrow>
    runs M flag cs (cmd_puts M (Usage_of (usage e)) (warned M c s)) os s' \<Longrightarrow> runs M flag (c # cs) s (Failed # os) s'"
| recursion: "args_of M s c = w # ws \<Longrightarrow> lookup_cmd (base_name w) (cmd_table M) = Some e \<Longrightarrow> int (length (w # ws)) \<le> maxargs e \<Longrightarrow>
    is_bootd M (cmd_fn e) \<Longrightarrow> flag AND 2 \<noteq> 0 \<Longrightarrow>
    runs M flag cs (cmd_puts M Bootd_recursion (warned M c s)) os s' \<Longrightarrow> runs M flag (c # cs) s (Failed # os) s'"
| stopped: "args_of M s c = w # ws \<Longrightarrow> lookup_cmd (base_name w) (cmd_table M) = Some e \<Longrightarrow> int (length (w # ws)) \<le> maxargs e \<Longrightarrow>
    flag' = (if is_bootd M (cmd_fn e) then flag OR 2 else flag) \<Longrightarrow> is_bootd M (cmd_fn e) \<longrightarrow> flag AND 2 = 0 \<Longrightarrow>
    exec M e flag' (w # ws) (warned M c s) = (r, s') \<Longrightarrow> had_ctrlc M s' \<Longrightarrow> runs M flag (c # cs) s [Stopped] s'"
| executed: "args_of M s c = w # ws \<Longrightarrow> lookup_cmd (base_name w) (cmd_table M) = Some e \<Longrightarrow> int (length (w # ws)) \<le> maxargs e \<Longrightarrow>
    flag' = (if is_bootd M (cmd_fn e) then flag OR 2 else flag) \<Longrightarrow> is_bootd M (cmd_fn e) \<longrightarrow> flag AND 2 = 0 \<Longrightarrow>
    exec M e flag' (w # ws) (warned M c s) = (r, s1) \<Longrightarrow> \<not> had_ctrlc M s1 \<Longrightarrow> runs M flag' cs s1 os s' \<Longrightarrow>
    runs M flag (c # cs) s ((if r = 0 then Succeeded (repeatable e AND 1 = 1) else Failed) # os) s'"

lemma macro_loop_take:
  "k \<le> n \<Longrightarrow> macro_loop lookup st prev input k = take k (macro_loop lookup st prev input n)"
proof (induction "length input" arbitrary: st prev input n k rule: less_induct)
  case less
  show ?case
  proof (cases "input = [] \<or> k = 0 \<or> st \<noteq> Quote \<and> hd input = CHR 0x5C \<and> prev \<noteq> CHR 0x5C \<and> tl input = []")
    case True
    then show ?thesis using less.prems by (subst (1 2) macro_loop.simps) auto
  next
    case False
    obtain prev' c input' where pci: "(if st \<noteq> Quote \<and> hd input = CHR 0x5C \<and> prev \<noteq> CHR 0x5C
        then (hd input, hd (tl input), tl (tl input)) else (prev, hd input, tl input)) = (prev', c, input')"
      by (metis prod_cases3)
    obtain st' s where ms: "macro_step lookup st prev' c input' = (st', s)" by (cases "macro_step lookup st prev' c input'")
    have eq: "macro_loop lookup st prev input m = take m s @ macro_loop lookup st' c input' (m - length (take m s))" if "m \<noteq> 0" for m
      using False pci ms that
      by (subst macro_loop.simps; cases "st \<noteq> Quote \<and> hd input = CHR 0x5C \<and> prev \<noteq> CHR 0x5C")
        (auto simp: Let_def)
    have l: "length input' < length input" using pci False by (cases input) (auto split: if_splits)
    show ?thesis
    proof (cases "length s < k")
      case True
      then have "k - length s \<le> n - length s" using less.prems by simp
      then show ?thesis using eq [of k] eq [of n] False less.prems True less.hyps [OF l] by simp
    next
      case ge: False
      have k: "k \<noteq> 0" "n \<noteq> 0" using False less.prems by auto
      show ?thesis unfolding eq [OF k(1)] eq [OF k(2)] using ge less.prems by simp
    qed
  qed
qed

lemma process_macros_take:
  assumes "\<forall>p \<in> set ps. piece_ok p"
  shows "process_macros lookup (concat (map write_piece ps)) = take 511 (concat (map (expand_piece lookup) ps))"
proof -
  let ?e = "concat (map (expand_piece lookup) ps)"
  define n where "n = max 512 (Suc (length ?e))"
  have "macro_loop lookup Dollar NUL (concat (map write_piece ps)) 512 =
      take 512 (macro_loop lookup Dollar NUL (concat (map write_piece ps)) n)"
    by (rule macro_loop_take) (simp add: n_def)
  also have "macro_loop lookup Dollar NUL (concat (map write_piece ps)) n = ?e"
    by (rule macro_loop_pieces [OF assms]) (auto simp: n_def NUL_def)
  finally show ?thesis using nul_free_pieces [OF assms]
    by (auto simp: process_macros_def CONFIG_SYS_CBSIZE_def Let_def butlast_conv_take min_def)
qed

lemma set_words: "w \<in> set (words s) \<Longrightarrow> set w \<subseteq> set s"
proof (induction s rule: words.induct)
  case (1 s)
  define x where "x = dropWhile blank s"
  have "set x \<subseteq> set s" unfolding x_def by (meson set_dropWhileD subsetI)
  moreover have "set (takeWhile (\<lambda>c. \<not> blank c) x) \<subseteq> set x" "set (dropWhile (\<lambda>c. \<not> blank c) x) \<subseteq> set x"
    by (meson set_takeWhileD set_dropWhileD subsetI)+
  moreover have "w \<in> set (if x = [] then [] else takeWhile (\<lambda>c. \<not> blank c) x # words (dropWhile (\<lambda>c. \<not> blank c) x))"
    using "1.prems" unfolding words.simps [of s] Let_def x_def .
  moreover note "1.IH" [OF x_def]
  ultimately show ?case by (auto split: if_splits)
qed

text \<open>The tables and variables hold C strings.\<close>

definition strings_ok :: "('s, 'f) machine \<Rightarrow> bool" where
  "strings_ok M \<longleftrightarrow> (\<forall>s n v. var_of M s n = Some v \<longrightarrow> nul_free v) \<and> (\<forall>e\<in>set (cmd_table M). nul_free (cmd_name e))"

lemma expanded_nul_free:
  assumes "strings_ok M" and "\<forall>p \<in> set c. piece_ok p"
  shows "nul_free (expanded M s c)"
proof -
  have "nul_free (expand_piece (var_of M s) p)" if "p \<in> set c" for p
  proof (cases p)
    case (Lit t)
    then show ?thesis using assms(2) that by (auto simp: nul_free_def)
  next
    case (Var b n)
    then show ?thesis using assms(1) by (auto simp: strings_ok_def nul_free_def split: option.split)
  qed
  then have "nul_free (concat (map (expand_piece (var_of M s)) c))" by (auto simp: nul_free_def)
  then show ?thesis by (auto simp: expanded_def nul_free_def dest: in_set_takeD)
qed

lemma run_token_args:
  assumes "strings_ok M" and "\<forall>p \<in> set c. piece_ok p"
  shows "run_token M (cmd_text c) flag rc rep s =
    (case args_of M s c of [] \<Rightarrow> (flag, - 1, rep, s, False)
     | w # ws \<Rightarrow>
        (case lookup_cmd (base_name w) (cmd_table M) of
           None \<Rightarrow> (flag, - 1, rep, cmd_puts M (Unknown_cmd w) (warned M c s), False)
         | Some e \<Rightarrow>
             if maxargs e < int (length (w # ws)) then (flag, - 1, rep, cmd_puts M (Usage_of (usage e)) (warned M c s), False)
             else if is_bootd M (cmd_fn e) \<and> flag AND 2 \<noteq> 0 then (flag, - 1, rep, cmd_puts M Bootd_recursion (warned M c s), False)
             else (let flag = (if is_bootd M (cmd_fn e) then flag OR 2 else flag); (r, s1) = exec M e flag (w # ws) (warned M c s)
                   in (flag, if r \<noteq> 0 then - 1 else rc, rep AND repeatable e, s1, had_ctrlc M s1))))"
proof -
  let ?x = "expanded M s c"
  have x: "process_macros (var_of M s) (cmd_text c) = ?x"
    unfolding cmd_text_def expanded_def by (rule process_macros_take [OF assms(2)])
  have n: "nul_free ?x" by (rule expanded_nul_free [OF assms])
  have p: "parse_line ?x = (args_of M s c, length (words ?x) < 16 \<or> length (words ?x) = 16 \<and> ends_in_word ?x)"
    unfolding parse_line_words [OF n] args_of_def CONFIG_SYS_MAXARGS_def ..
  have w: "(if length (words ?x) < 16 \<or> length (words ?x) = 16 \<and> ends_in_word ?x then s
      else cmd_puts M (Too_many_args CONFIG_SYS_MAXARGS) s) = warned M c s"
    by (simp add: warned_def CONFIG_SYS_MAXARGS_def)
  have e: "args_of M s c = [] \<Longrightarrow> warned M c s = s" by (simp add: args_of_def warned_def)
  have f: "find_cmd_tbl w (cmd_table M) = lookup_cmd (base_name w) (cmd_table M)" if "args_of M s c = w # ws" for w ws
  proof (rule find_cmd_tbl_correct)
    have "w \<in> set (words ?x)" using that by (metis args_of_def in_set_takeD list.set_intros(1))
    then show "nul_free w" using set_words n by (auto simp: nul_free_def)
  qed (use assms(1) in \<open>simp add: strings_ok_def\<close>)
  show ?thesis unfolding run_token_def x p Let_def prod.case w
    by (cases "args_of M s c") (simp_all add: e f CMD_FLAG_BOOTD_def split: option.split)
qed

text \<open>The value \<open>run_command\<close> returns: \<open>rc\<close> and \<open>rep\<close> are the variables \<open>rc\<close> and \<open>repeatable\<close> so far.\<close>

abbreviation line_value :: "int \<Rightarrow> u32 \<Rightarrow> outcome list \<Rightarrow> int" where
  "line_value rc rep os \<equiv> (if Stopped \<in> set os \<or> Failed \<in> set os \<or> rc \<noteq> 0 then - 1
     else if rep = 1 \<and> Succeeded False \<notin> set os then 1 else 0)"

lemma run_tokens_runs:
  assumes "strings_ok M" and "\<forall>c \<in> set cs. \<forall>p \<in> set c. piece_ok p" and "rc \<in> {0, - 1}" and "rep \<in> {0, 1}"
  shows "\<exists>os s'. runs M flag cs s os s' \<and> run_tokens M (map cmd_text cs) flag rc rep s = (line_value rc rep os, s')"
  using assms(2-)
proof (induction cs arbitrary: flag rc rep s)
  case Nil
  then show ?case by (intro exI [of _ "[]"] exI [of _ s]) (auto intro: runs.finished)
next
  case (Cons c cs)
  have c: "\<forall>p \<in> set c. piece_ok p" and cs: "\<forall>c \<in> set cs. \<forall>p \<in> set c. piece_ok p" using Cons.prems(1) by simp_all
  note t = run_token_args [OF assms(1) c, of flag rc rep s]
  have failed: ?case if "run_token M (cmd_text c) flag rc rep s = (flag, - 1, rep, s1, False)"
    and i: "\<And>os s'. runs M flag cs s1 os s' \<Longrightarrow> runs M flag (c # cs) s (Failed # os) s'" for s1
  proof -
    obtain os s' where "runs M flag cs s1 os s'" "run_tokens M (map cmd_text cs) flag (- 1) rep s1 = (line_value (- 1) rep os, s')"
      using Cons.IH [OF cs _ Cons.prems(3), of "- 1" flag s1] by auto
    then show ?thesis using i that(1) by (intro exI [of _ "Failed # os"] exI [of _ s']) simp
  qed
  show ?case
  proof (cases "args_of M s c")
    case Nil
    show ?thesis by (rule failed [of s]) (use t Nil in \<open>auto intro: runs.empty\<close>)
  next
    case args: (Cons w ws)
    show ?thesis
    proof (cases "lookup_cmd (base_name w) (cmd_table M)")
      case None
      show ?thesis by (rule failed) (use t args None in \<open>auto intro: runs.unknown\<close>)
    next
      case e: (Some e)
      consider "maxargs e < int (length (w # ws))" | "\<not> maxargs e < int (length (w # ws))" "is_bootd M (cmd_fn e) \<and> flag AND 2 \<noteq> 0"
        | "\<not> maxargs e < int (length (w # ws))" "\<not> (is_bootd M (cmd_fn e) \<and> flag AND 2 \<noteq> 0)" by blast
      then show ?thesis
      proof cases
        case 1
        show ?thesis by (rule failed) (use t args e 1 in \<open>auto intro: runs.too_many\<close>)
      next
        case 2
        show ?thesis by (rule failed) (use t args e 2 in \<open>auto intro: runs.recursion\<close>)
      next
        case 3
        define flag' where "flag' = (if is_bootd M (cmd_fn e) then flag OR 2 else flag)"
        obtain r s1 where x: "exec M e flag' (w # ws) (warned M c s) = (r, s1)" by fastforce
        have tk: "run_token M (cmd_text c) flag rc rep s =
            (flag', if r \<noteq> 0 then - 1 else rc, rep AND repeatable e, s1, had_ctrlc M s1)"
          unfolding t args e list.case option.case using 3 x by (simp only: if_False flag'_def [symmetric] Let_def prod.case)
        have l: "int (length (w # ws)) \<le> maxargs e" and b: "is_bootd M (cmd_fn e) \<longrightarrow> flag AND 2 = 0" using 3 by auto
        show ?thesis
        proof (cases "had_ctrlc M s1")
          case True
          then show ?thesis using runs.stopped [OF args e l flag'_def b x True] tk
            by (intro exI [of _ "[Stopped]"] exI [of _ s1]) simp
        next
          case False
          have rc: "(if r \<noteq> 0 then - 1 else rc) \<in> {0, - 1}" using Cons.prems(2) by simp
          have one: "1 AND repeatable e = (if repeatable e AND 1 = 1 then 1 else 0)"
            by (simp add: one_and_eq and_one_eq mod2_eq_if)
          then have rep: "rep AND repeatable e \<in> {0, 1}" using Cons.prems(3) by auto
          obtain os s' where "runs M flag' cs s1 os s'" "run_tokens M (map cmd_text cs) flag' (if r \<noteq> 0 then - 1 else rc) (rep AND repeatable e) s1
              = (line_value (if r \<noteq> 0 then - 1 else rc) (rep AND repeatable e) os, s')"
            using Cons.IH [OF cs rc rep] by blast
          then show ?thesis using runs.executed [OF args e l flag'_def b x False] tk False Cons.prems(2,3) one
            by (intro exI [of _ "(if r = 0 then Succeeded (repeatable e AND 1 = 1) else Failed) # os"] exI [of _ s']) auto
        qed
      qed
    qed
  qed
qed

text \<open>
  C20: \<open>run_command\<close> on a line of commands separated by semicolons, of at most 511 characters and written without
  quotes, backslashes and empty commands, does what the line means. It forgets an earlier interrupt; the commands
  run in the order of the line, each on the state the one before left and with the words of its own expansion as
  arguments; a command of no words, with an unknown or ambiguous name, with more arguments than it takes, or a nested
  \<open>bootd\<close> is reported and counts as failed, and the line goes on; an interrupt ends it. The result is -1 when one was stopped or failed, else 1 when \<open>CONFIG_REPEAT_COMMNAD\<close>
  is defined and every command is repeatable, else 0.
\<close>

theorem run_command_sequence:
  assumes "strings_ok M" and "\<forall>c \<in> set cs. (\<forall>p \<in> set c. piece_ok p) \<and> token_ok (cmd_text c)" and "cs \<noteq> []"
    and "line = join_line (map cmd_text cs)" and "length line < CONFIG_SYS_CBSIZE"
  shows "\<exists>os s'. runs M flag cs (clear_ctrlc M s) os s' \<and>
    run_command M before (Some line) flag s =
      (if Stopped \<in> set os \<or> Failed \<in> set os then - 1
       else if repeat_commnad M \<and> Succeeded False \<notin> set os then 1 else 0, s')"
proof -
  let ?rep = "if repeat_commnad M then 1 else 0 :: u32"
  have ok: "\<forall>t \<in> set (map cmd_text cs). token_ok t" and ne: "map cmd_text cs \<noteq> []" using assms(2,3) by auto
  have "run_command M before (Some line) flag s = run_tokens M (map cmd_text cs) flag 0 ?rep (clear_ctrlc M s)"
    using join_line_facts [OF ok ne] assms(5) run_loop_tokens [OF ok, of M] unfolding assms(4)
    by (simp add: run_command_def Let_def)
  moreover have "?rep \<in> {0, 1}" by simp
  then obtain os s' where "runs M flag cs (clear_ctrlc M s) os s'"
      "run_tokens M (map cmd_text cs) flag 0 ?rep (clear_ctrlc M s) = (line_value 0 ?rep os, s')"
    using run_tokens_runs [OF assms(1) _ _ \<open>?rep \<in> _\<close>, of cs 0 flag "clear_ctrlc M s"] assms(2) by blast
  ultimately show ?thesis by (intro exI [of _ os] exI [of _ s']) simp
qed

text \<open>A machine that records the argument vectors it is called with; its user has once pressed Control C.\<close>

definition trace_machine :: "(string list list \<times> bool, unit) machine" where
  "trace_machine =
     \<lparr>var_of = \<lambda>_ n. if n = ''p'' then Some ''2 3'' else None,
      cmd_table = map (\<lambda>n. \<lparr>cmd_name = n, maxargs = 4, repeatable = 1, cmd_fn = (), usage = []\<rparr>) [''echo'', ''mmc''],
      is_bootd = \<lambda>_. False, exec = \<lambda>_ _ argv (s, c). (0, s @ [argv], c), had_ctrlc = snd, clear_ctrlc = \<lambda>(s, c). (s, False),
      cmd_puts = \<lambda>_ s. s, repeat_commnad = True\<rparr>"

inductive_cases runs_ConsE: "runs M flag (c # cs) s os s'"
inductive_simps runs_Nil: "runs M flag [] s os s'"

lemma runs_executedE:
  assumes "runs M flag (c # cs) s os s'" and "args_of M s c = w # ws" and "lookup_cmd (base_name w) (cmd_table M) = Some e"
    and "int (length (w # ws)) \<le> maxargs e" and "\<not> is_bootd M (cmd_fn e)"
    and "exec M e flag (w # ws) (warned M c s) = (r, s1)" and "\<not> had_ctrlc M s1"
  obtains os' where "os = (if r = 0 then Succeeded (repeatable e AND 1 = 1) else Failed) # os'" and "runs M flag cs s1 os' s'"
  using assms by (elim runs_ConsE) auto


theorem run_command_sequence_witness:
  "run_command trace_machine NUL (Some ''mmc a;echo $(p)'') 0 ([], True) = (1, ([[''mmc'', ''a''], [''echo'', ''2'', ''3'']], False))"
proof -
  let ?cs = "[[Lit ''mmc a''], [Lit ''echo '', Var False ''p'']]"
  have h1: "strings_ok trace_machine" by (simp add: strings_ok_def trace_machine_def nul_free_def NUL_def)
  have h2: "\<forall>c \<in> set ?cs. (\<forall>p \<in> set c. piece_ok p) \<and> token_ok (cmd_text c)"
    by (simp add: token_ok_def cmd_text_def NUL_def)
  have h4: "''mmc a;echo $(p)'' = join_line (map cmd_text ?cs)" by (simp add: cmd_text_def)
  have h5: "length ''mmc a;echo $(p)'' < CONFIG_SYS_CBSIZE" by (simp add: CONFIG_SYS_CBSIZE_def)
  obtain os s' where os: "runs trace_machine 0 ?cs (clear_ctrlc trace_machine ([], True)) os s'"
    and r: "run_command trace_machine NUL (Some ''mmc a;echo $(p)'') 0 ([], True) =
      (if Stopped \<in> set os \<or> Failed \<in> set os then - 1
       else if repeat_commnad trace_machine \<and> Succeeded False \<notin> set os then 1 else 0, s')"
    using run_command_sequence [OF h1 h2 _ h4 h5, of 0 "([], True)" NUL] by auto
  have a: "args_of trace_machine ([], False) [Lit ''mmc a''] = [''mmc'', ''a'']"
    "args_of trace_machine ([[''mmc'', ''a'']], False) [Lit ''echo '', Var False ''p''] = [''echo'', ''2'', ''3'']"
    "lookup_cmd (base_name ''mmc'') (cmd_table trace_machine) = Some \<lparr>cmd_name = ''mmc'', maxargs = 4, repeatable = 1, cmd_fn = (), usage = []\<rparr>"
    "lookup_cmd (base_name ''echo'') (cmd_table trace_machine) = Some \<lparr>cmd_name = ''echo'', maxargs = 4, repeatable = 1, cmd_fn = (), usage = []\<rparr>"
    by (simp_all add: args_of_def expanded_def trace_machine_def words_Cons blank_def lookup_cmd_def base_name_def)
  have w: "warned trace_machine c s = s" for c s by (simp add: warned_def trace_machine_def)
  have x: "exec trace_machine e f argv s = (0, fst s @ [argv], snd s)" "had_ctrlc trace_machine s = snd s"
    "clear_ctrlc trace_machine s = (fst s, False)" "repeat_commnad trace_machine" for e f argv s
    by (simp_all add: trace_machine_def split_beta)
  have "os = [Succeeded True, Succeeded True] \<and> s' = ([[''mmc'', ''a''], [''echo'', ''2'', ''3'']], False)"
  proof -
    let ?e = "\<lambda>n. \<lparr>cmd_name = n, maxargs = 4, repeatable = 1, cmd_fn = (), usage = []\<rparr>"
    have m: "int (length ws) \<le> maxargs (?e n) \<longleftrightarrow> length ws \<le> 4" "\<not> is_bootd trace_machine u" for n u and ws :: "string list"
      by (simp_all add: trace_machine_def)
    from os [unfolded x fst_conv] obtain os' where o1: "os = Succeeded True # os'"
      and os': "runs trace_machine 0 [[Lit ''echo '', Var False ''p'']] ([[''mmc'', ''a'']], False) os' s'"
      by (rule runs_executedE [OF _ a(1,3) _ m(2) x(1)]) (simp_all add: m w x)
    from os' obtain os'' where "os' = Succeeded True # os''" "runs trace_machine 0 [] ([[''mmc'', ''a''], [''echo'', ''2'', ''3'']], False) os'' s'"
      by (rule runs_executedE [OF _ a(2,4) _ m(2) x(1)]) (simp_all add: m w x)
    then show ?thesis using o1 by (simp add: runs_Nil)
  qed
  then show ?thesis using r by (simp add: x)
qed

end
