(* ===== verification/LineEdit.thy ===== *)
theory LineEdit
  imports CStrings
begin

text \<open>
  The line editor of the console and its history, \<^verbatim>\<open>common/main.c\<close> with
  \<^verbatim>\<open>CONFIG_CMDLINE_EDITING\<close> and \<^verbatim>\<open>CONFIG_AUTO_COMPLETE\<close>: \<open>cread_line\<close> takes one key at a
  time, keeps the line in the console's buffer with a cursor, and echoes to the terminal.

  The buffer is a list of 512 characters, \<open>None\<close> is an access outside it or a line that does not
  fit its slot of the history. What is sent to the terminal is collected in \<open>echo\<close>. Completion
  (\<open>cmd_auto_complete\<close>) is a parameter: it sees the buffer and the cursor and returns them changed,
  or declines, or itself reads outside an object.
\<close>

section \<open>History\<close>

definition MAX_CMDBUF_SIZE :: nat where "MAX_CMDBUF_SIZE = 256"
definition HIST_MAX :: nat where "HIST_MAX = 20"
definition HIST_SIZE :: nat where "HIST_SIZE = MAX_CMDBUF_SIZE"

record hist =
  hist_max :: nat
  hist_add_idx :: nat
  hist_cur :: int
  hist_num :: u32
  hist_list :: "string list"

definition hist_init :: hist where
  "hist_init = \<lparr>hist_max = 0, hist_add_idx = 0, hist_cur = - 1, hist_num = 0, hist_list = replicate HIST_MAX []\<rparr>"

definition cread_add_to_hist :: "string \<Rightarrow> hist \<Rightarrow> hist option" where
  "cread_add_to_hist line h =
     (if strlen line < HIST_SIZE \<and> hist_add_idx h < length (hist_list h)
      then (let idx = (if hist_add_idx h + 1 \<ge> HIST_MAX then 0 else hist_add_idx h + 1)
            in Some (h\<lparr>hist_list := (hist_list h)[hist_add_idx h := take (strlen line) line],
                       hist_add_idx := idx,
                       hist_max := (if idx > hist_max h then idx else hist_max h),
                       hist_num := hist_num h + 1\<rparr>))
      else None)"

definition hist_prev :: "hist \<Rightarrow> string option \<times> hist" where
  "hist_prev h =
     (if hist_cur h < 0 then (None, h)
      else (let cur = (if hist_cur h - 1 < 0 then int (hist_max h) else hist_cur h - 1)
            in if cur = int (hist_add_idx h) then (None, h)
               else (Some (hist_list h ! nat cur), h\<lparr>hist_cur := cur\<rparr>)))"

definition hist_next :: "hist \<Rightarrow> string option \<times> hist" where
  "hist_next h =
     (if hist_cur h < 0 then (None, h)
      else if hist_cur h = int (hist_add_idx h) then (None, h)
      else (let cur = (if hist_cur h + 1 > int (hist_max h) then 0 else hist_cur h + 1);
                h = h\<lparr>hist_cur := cur\<rparr>
            in (Some (if cur = int (hist_add_idx h) then [] else hist_list h ! nat cur), h)))"

section \<open>The editor\<close>

record edit =
  num :: nat
  eol_num :: nat
  buf :: string
  insert_mode :: bool
  esc_len :: nat
  esc_save :: string
  echo :: string
  hist_of :: hist

definition CTL_CH :: "char \<Rightarrow> char" where "CTL_CH c = char_of (of_char c - of_char CHR ''a'' + 1 :: int)"

definition BEL :: char where "BEL = CHR 0x07"
definition BS :: char where "BS = CHR 0x08"

definition putch :: "string \<Rightarrow> edit \<Rightarrow> edit" where "putch s st = st\<lparr>echo := echo st @ s\<rparr>"

text \<open>\<open>putnstr(buf + i, n)\<close> prints at most \<open>n\<close> characters and stops at a NUL.\<close>

definition putnstr :: "nat \<Rightarrow> nat \<Rightarrow> edit \<Rightarrow> edit" where
  "putnstr i n st = putch (takeWhile (\<lambda>c. c \<noteq> NUL) (take n (drop i (buf st)))) st"

definition BEGINNING_OF_LINE :: "edit \<Rightarrow> edit" where
  "BEGINNING_OF_LINE st = (putch (replicate (num st) BS) st)\<lparr>num := 0\<rparr>"

definition ERASE_TO_EOL :: "edit \<Rightarrow> edit" where
  "ERASE_TO_EOL st =
     (if num st < eol_num st
      then (let k = eol_num st - num st
            in (putch (replicate k (CHR '' '') @ replicate k BS) st)\<lparr>eol_num := num st\<rparr>)
      else st)"

definition REFRESH_TO_EOL :: "edit \<Rightarrow> edit" where
  "REFRESH_TO_EOL st =
     (if num st < eol_num st then (putnstr (num st) (eol_num st - num st) st)\<lparr>num := eol_num st\<rparr> else st)"

definition poke :: "nat \<Rightarrow> char \<Rightarrow> string \<Rightarrow> string option" where
  "poke i c b = (if i < length b then Some (b[i := c]) else None)"

text \<open>The length \<open>len\<close> is always \<open>MAX_CMDBUF_SIZE\<close>.\<close>

definition cread_add_char :: "char \<Rightarrow> edit \<Rightarrow> edit option" where
  "cread_add_char ichar st =
     (let room = insert_mode st \<or> num st = eol_num st
      in if room \<and> eol_num st > MAX_CMDBUF_SIZE - 1 then Some (putch [BEL] st)
         else (let st = (if room then st\<lparr>eol_num := eol_num st + 1\<rparr> else st)
               in if insert_mode st
                  then (let wlen = eol_num st - num st;
                            moved = (if wlen > 1 then memmove (buf st) (num st + 1) (num st) (wlen - 1) else Some (buf st))
                        in case moved of None \<Rightarrow> None
                           | Some b \<Rightarrow>
                               (case poke (num st) ichar b of None \<Rightarrow> None
                                | Some b \<Rightarrow>
                                    (let st = putnstr (num st) wlen (st\<lparr>buf := b\<rparr>)
                                     in Some (putch (replicate (wlen - 1) BS) (st\<lparr>num := num st + 1\<rparr>)))))
                  else (case poke (num st) ichar (buf st) of None \<Rightarrow> None
                        | Some b \<Rightarrow>
                            (let st = putnstr (num st) 1 (st\<lparr>buf := b\<rparr>) in Some (st\<lparr>num := num st + 1\<rparr>)))))"

fun cread_add_str :: "string \<Rightarrow> edit \<Rightarrow> edit option" where
  "cread_add_str [] st = Some st"
| "cread_add_str (c # str) st =
     (case cread_add_char c st of None \<Rightarrow> None | Some st \<Rightarrow> cread_add_str str st)"

text \<open>
  The escape sequences: \<open>Inl\<close> is \<open>continue\<close>, \<open>Inr\<close> goes on to the key handlers. \<open>esc_save\<close> holds the
  characters of the sequence so far.
\<close>

definition cread_escape :: "char \<Rightarrow> edit \<Rightarrow> (edit + char \<times> edit) option" where
  "cread_escape ichar st =
     (if esc_len st = 0 then Some (Inr (ichar, st))
      else if esc_len st = 1
      then (if ichar = CHR ''['' then Some (Inl (st\<lparr>esc_save := esc_save st @ [ichar], esc_len := 2\<rparr>))
            else map_option (\<lambda>st. Inl (st\<lparr>esc_len := 0\<rparr>)) (cread_add_str (take (esc_len st) (esc_save st)) st))
      else if ichar = CHR ''D'' then Some (Inr (CTL_CH CHR ''b'', st\<lparr>esc_len := 0\<rparr>))
      else if ichar = CHR ''C'' then Some (Inr (CTL_CH CHR ''f'', st\<lparr>esc_len := 0\<rparr>))
      else if ichar = CHR ''H'' then Some (Inr (CTL_CH CHR ''a'', st\<lparr>esc_len := 0\<rparr>))
      else if ichar = CHR ''A'' then Some (Inr (CTL_CH CHR ''p'', st\<lparr>esc_len := 0\<rparr>))
      else if ichar = CHR ''B'' then Some (Inr (CTL_CH CHR ''n'', st\<lparr>esc_len := 0\<rparr>))
      else (let str = take (esc_len st) (esc_save st) @ [ichar]
            in map_option (\<lambda>st. Inl (st\<lparr>esc_len := 0\<rparr>)) (cread_add_str str (st\<lparr>esc_save := str\<rparr>))))"

definition cread_delete :: "edit \<Rightarrow> edit option" where
  "cread_delete st =
     (if num st < eol_num st
      then (let wlen = eol_num st - num st - 1
            in case (if wlen > 0 then memmove (buf st) (num st) (num st + 1) wlen else Some (buf st)) of
                 None \<Rightarrow> None
               | Some b \<Rightarrow>
                   (let st = st\<lparr>buf := b\<rparr>;
                        st = (if wlen > 0 then putnstr (num st) wlen st else st)
                    in Some ((putch (CHR '' '' # replicate (wlen + 1) BS) st)\<lparr>eol_num := eol_num st - 1\<rparr>)))
      else Some st)"

definition cread_backspace :: "edit \<Rightarrow> edit option" where
  "cread_backspace st =
     (if num st > 0
      then (let wlen = eol_num st - num st; st = st\<lparr>num := num st - 1\<rparr>
            in case memmove (buf st) (num st) (num st + 1) wlen of None \<Rightarrow> None
               | Some b \<Rightarrow>
                   (let st = putnstr (num st) wlen (putch [BS] (st\<lparr>buf := b\<rparr>))
                    in Some ((putch (CHR '' '' # replicate (wlen + 1) BS) st)\<lparr>eol_num := eol_num st - 1\<rparr>)))
      else Some st)"

text \<open>\<open>strcpy(buf, hline)\<close> for a line that is not in the buffer.\<close>

definition cread_history :: "bool \<Rightarrow> edit \<Rightarrow> edit option" where
  "cread_history back st =
     (let st = st\<lparr>esc_len := 0\<rparr>; (hline, h) = (if back then hist_prev (hist_of st) else hist_next (hist_of st));
          st = st\<lparr>hist_of := h\<rparr>
      in case hline of None \<Rightarrow> Some (putch [BEL] st)
         | Some hline \<Rightarrow>
             (let st = ERASE_TO_EOL (BEGINNING_OF_LINE st); l = strlen hline
              in if l < length (buf st)
                 then Some (REFRESH_TO_EOL (st\<lparr>buf := buf_write (buf st) 0 (take l hline @ [NUL]), eol_num := l\<rparr>))
                 else None))"

text \<open>\<open>None\<close> when completion reads outside an object, \<open>Some None\<close> when it returns 0.\<close>

type_synonym line_completion = "string \<Rightarrow> nat \<Rightarrow> (string \<times> nat) option option"

definition cread_complete :: "line_completion \<Rightarrow> edit \<Rightarrow> edit option" where
  "cread_complete complete st =
     (if num st < eol_num st then Some (putch [BEL] st)
      else case poke (num st) NUL (buf st) of None \<Rightarrow> None
           | Some b \<Rightarrow>
               (case complete b (num st) of None \<Rightarrow> None
                | Some None \<Rightarrow> Some (st\<lparr>buf := b\<rparr>)
                | Some (Some (b, num2)) \<Rightarrow>
                    Some (st\<lparr>buf := b, eol_num := eol_num st + (num2 - num st), num := num2\<rparr>)))"

text \<open>One key behind the escape sequences; \<open>Inr\<close> is the early return -1.\<close>

definition cread_handle ::
  "line_completion \<Rightarrow> char \<Rightarrow> edit \<Rightarrow> (edit + edit) option"
where
  "cread_handle complete ichar st =
     (if ichar = CHR 0x1B
      then Some (Inl (if esc_len st = 0 then st\<lparr>esc_save := [ichar], esc_len := 1\<rparr>
                      else (putch (''impossible condition #876'' @ [CHR 0x0A]) st)\<lparr>esc_len := 0\<rparr>))
      else if ichar = CTL_CH CHR ''a'' then Some (Inl (BEGINNING_OF_LINE st))
      else if ichar = CTL_CH CHR ''c'' then map_option (\<lambda>b. Inr (st\<lparr>buf := b\<rparr>)) (poke 0 NUL (buf st))
      else if ichar = CTL_CH CHR ''f''
      then Some (Inl (if num st < eol_num st then (putch [buf st ! num st] st)\<lparr>num := num st + 1\<rparr> else st))
      else if ichar = CTL_CH CHR ''b''
      then Some (Inl (if num st > 0 then (putch [BS] st)\<lparr>num := num st - 1\<rparr> else st))
      else if ichar = CTL_CH CHR ''d'' then map_option Inl (cread_delete st)
      else if ichar = CTL_CH CHR ''k'' then Some (Inl (ERASE_TO_EOL st))
      else if ichar = CTL_CH CHR ''e'' then Some (Inl (REFRESH_TO_EOL st))
      else if ichar = CTL_CH CHR ''o'' then Some (Inl (st\<lparr>insert_mode := \<not> insert_mode st\<rparr>))
      else if ichar = CTL_CH CHR ''x'' \<or> ichar = CTL_CH CHR ''u''
      then Some (Inl (ERASE_TO_EOL (BEGINNING_OF_LINE st)))
      else if ichar = CHR 0xFF \<or> ichar = CHR 0x7F \<or> ichar = CHR 0x08 then map_option Inl (cread_backspace st)
      else if ichar = CTL_CH CHR ''p'' then map_option Inl (cread_history True st)
      else if ichar = CTL_CH CHR ''n'' then map_option Inl (cread_history False st)
      else if ichar = CHR 0x09 then map_option Inl (cread_complete complete st)
      else map_option Inl (cread_add_char ichar st))"

definition cread_key ::
  "line_completion \<Rightarrow> char \<Rightarrow> edit \<Rightarrow> (edit + edit) option"
where
  "cread_key complete ichar st =
     (case cread_escape ichar st of None \<Rightarrow> None
      | Some (Inl st) \<Rightarrow> Some (Inl st)
      | Some (Inr (ichar, st)) \<Rightarrow> cread_handle complete ichar st)"

text \<open>Behind the loop: the line is closed and remembered.\<close>

definition cread_finish :: "edit \<Rightarrow> edit option" where
  "cread_finish st =
     (case poke (eol_num st) NUL (buf st) of None \<Rightarrow> None
      | Some b \<Rightarrow>
          (let st = putch [CHR 0x0A] (st\<lparr>buf := b\<rparr>)
           in map_option (\<lambda>h. st\<lparr>hist_of := h\<lparr>hist_cur := int (hist_add_idx h)\<rparr>\<rparr>)
                (if b ! 0 \<noteq> NUL \<and> b ! 0 \<noteq> CHR ''!'' then cread_add_to_hist b (hist_of st) else Some (hist_of st))))"

text \<open>
  The loop over the keys that arrive: the return code, the state and the keys that are left;
  \<open>Some None\<close> when the keys run out and the code waits.
\<close>

fun cread_loop ::
  "line_completion \<Rightarrow> string \<Rightarrow> edit \<Rightarrow> (int \<times> edit \<times> string) option option"
where
  "cread_loop complete [] st = Some None"
| "cread_loop complete (ichar # keys) st =
     (if ichar = CHR 0x0A \<or> ichar = CHR 0x0D
      then map_option (\<lambda>st. Some (0, st, keys)) (cread_finish st)
      else (case cread_key complete ichar st of None \<Rightarrow> None
            | Some (Inr st) \<Rightarrow> Some (Some (- 1, st, keys))
            | Some (Inl st) \<Rightarrow> cread_loop complete keys st))"

definition cread_line ::
  "line_completion \<Rightarrow> string \<Rightarrow> hist \<Rightarrow> string \<Rightarrow> (int \<times> edit \<times> string) option option"
where
  "cread_line complete b h keys =
     cread_loop complete keys \<lparr>num = 0, eol_num = 0, buf = b, insert_mode = True, esc_len = 0, esc_save = [],
       echo = [], hist_of = h\<rparr>"

section \<open>The line as text around a cursor\<close>

definition abs_line :: "edit \<Rightarrow> string \<times> string" where
  "abs_line st = (take (num st) (buf st), take (eol_num st - num st) (drop (num st) (buf st)))"

text \<open>Well-formed histories and states; 509 is the longest line completion can make.\<close>

definition hist_ok :: "hist \<Rightarrow> bool" where
  "hist_ok h \<longleftrightarrow> length (hist_list h) = HIST_MAX \<and> (\<forall>l \<in> set (hist_list h). nul_free l \<and> length l < HIST_SIZE) \<and>
     hist_add_idx h < HIST_MAX \<and> hist_max h < HIST_MAX \<and> hist_cur h < int HIST_MAX"

definition CONSOLE_SIZE :: nat where "CONSOLE_SIZE = 512"

definition edit_ok :: "edit \<Rightarrow> bool" where
  "edit_ok st \<longleftrightarrow> length (buf st) = CONSOLE_SIZE \<and> num st \<le> eol_num st \<and> eol_num st \<le> 509 \<and> hist_ok (hist_of st)"

text \<open>The contract of completion, which the code of \<open>cmd_auto_complete\<close> checks: it only appends, and keeps two bytes free.\<close>

definition complete_ok :: "line_completion \<Rightarrow> bool" where
  "complete_ok complete \<longleftrightarrow> (\<forall>b n b' n'. complete b n = Some (Some (b', n')) \<longrightarrow> n \<le> 509 \<longrightarrow>
     length b' = length b \<and> n \<le> n' \<and> n' \<le> 509)"

text \<open>The Tab key at the end of the line, outside an escape sequence, where completion leaves its objects.\<close>

definition completes_outside :: "line_completion \<Rightarrow> char \<Rightarrow> edit \<Rightarrow> bool" where
  "completes_outside complete c st \<longleftrightarrow>
     c = CHR 0x09 \<and> esc_len st = 0 \<and> num st = eol_num st \<and> complete ((buf st)[num st := NUL]) (num st) = None"

lemma putch_simps [simp]:
  "num (putch s st) = num st" "eol_num (putch s st) = eol_num st" "buf (putch s st) = buf st"
  "insert_mode (putch s st) = insert_mode st" "esc_len (putch s st) = esc_len st"
  "esc_save (putch s st) = esc_save st" "hist_of (putch s st) = hist_of st"
  by (simp_all add: putch_def)

lemma putnstr_simps [simp]:
  "num (putnstr i n st) = num st" "eol_num (putnstr i n st) = eol_num st" "buf (putnstr i n st) = buf st"
  "insert_mode (putnstr i n st) = insert_mode st" "esc_len (putnstr i n st) = esc_len st"
  "esc_save (putnstr i n st) = esc_save st" "hist_of (putnstr i n st) = hist_of st"
  by (simp_all add: putnstr_def)

lemma macro_simps [simp]:
  "num (BEGINNING_OF_LINE st) = 0" "eol_num (BEGINNING_OF_LINE st) = eol_num st" "buf (BEGINNING_OF_LINE st) = buf st"
  "insert_mode (BEGINNING_OF_LINE st) = insert_mode st" "hist_of (BEGINNING_OF_LINE st) = hist_of st"
  "num (ERASE_TO_EOL st) = num st" "eol_num (ERASE_TO_EOL st) = min (num st) (eol_num st)" "buf (ERASE_TO_EOL st) = buf st"
  "insert_mode (ERASE_TO_EOL st) = insert_mode st" "hist_of (ERASE_TO_EOL st) = hist_of st"
  "num (REFRESH_TO_EOL st) = max (num st) (eol_num st)" "eol_num (REFRESH_TO_EOL st) = eol_num st"
  "buf (REFRESH_TO_EOL st) = buf st" "insert_mode (REFRESH_TO_EOL st) = insert_mode st"
  "hist_of (REFRESH_TO_EOL st) = hist_of st" "esc_len (BEGINNING_OF_LINE st) = esc_len st"
  "esc_len (ERASE_TO_EOL st) = esc_len st" "esc_len (REFRESH_TO_EOL st) = esc_len st"
  by (simp_all add: BEGINNING_OF_LINE_def ERASE_TO_EOL_def REFRESH_TO_EOL_def Let_def min_def max_def)

text \<open>The abstract line decides the next one: inserting or overwriting a character.\<close>

fun add_line :: "bool \<Rightarrow> char \<Rightarrow> string \<times> string \<Rightarrow> string \<times> string" where
  "add_line ins c (b, a) =
     (if (ins \<or> a = []) \<and> length b + length a \<ge> MAX_CMDBUF_SIZE then (b, a)
      else (b @ [c], if ins then a else tl a))"

lemma abs_lengths:
  "edit_ok st \<Longrightarrow> length (fst (abs_line st)) = num st \<and> length (snd (abs_line st)) = eol_num st - num st"
  by (auto simp: edit_ok_def abs_line_def CONSOLE_SIZE_def)

lemma take_drop_buf_write:
  "off + length src \<le> length b \<Longrightarrow> take k (drop off (buf_write b off src)) = take k (src @ drop (off + length src) b)"
  by (simp add: buf_write_def)

lemma cread_add_char_spec:
  assumes ok: "edit_ok st"
  shows "\<exists>st'. cread_add_char c st = Some st' \<and> edit_ok st' \<and> abs_line st' = add_line (insert_mode st) c (abs_line st) \<and>
    insert_mode st' = insert_mode st \<and> hist_of st' = hist_of st \<and> esc_len st' = esc_len st"
proof -
  let ?n = "num st" and ?e = "eol_num st" and ?b = "buf st"
  have o: "length ?b = 512" "?n \<le> ?e" "?e \<le> 509" "hist_ok (hist_of st)"
    using ok by (simp_all add: edit_ok_def CONSOLE_SIZE_def)
  note al = abs_lengths [OF ok]
  have a0: "snd (abs_line st) = [] \<longleftrightarrow> ?n = ?e" using al o(2) by (metis diff_is_0_eq le_antisym length_0_conv order_refl)
  show ?thesis
  proof (cases "(insert_mode st \<or> ?n = ?e) \<and> ?e > MAX_CMDBUF_SIZE - 1")
    case True
    obtain x a where xa: "abs_line st = (x, a)" by (cases "abs_line st")
    have "length x + length a = ?e" "a = [] \<longleftrightarrow> ?n = ?e" using al a0 o(2) by (simp_all add: xa)
    then have "add_line (insert_mode st) c (abs_line st) = abs_line st" using True by (auto simp: xa MAX_CMDBUF_SIZE_def)
    moreover have "cread_add_char c st = Some (putch [BEL] st)" using True by (simp add: cread_add_char_def)
    moreover have "edit_ok (putch [BEL] st)" "abs_line (putch [BEL] st) = abs_line st"
      using ok by (simp_all add: edit_ok_def abs_line_def)
    ultimately show ?thesis by simp
  next
    case False
    note nf = this
    show ?thesis
    proof (cases "insert_mode st")
      case True
      let ?X = "take (?e - ?n) (drop ?n ?b)"
      have mv1: "?n < ?e \<Longrightarrow> memmove ?b (Suc ?n) ?n (?e - ?n) = Some (buf_write ?b (?n + 1) ?X)"
        and mv0: "?n = ?e \<Longrightarrow> ?b = buf_write ?b (?n + 1) ?X"
        using o by (simp_all add: memmove_spec buf_write_def)
      have b': "(buf_write ?b (?n + 1) ?X)[?n := c] = take ?n ?b @ c # ?X @ drop (?e + 1) ?b"
        using o by (simp add: buf_write_def take_Suc_conv_app_nth list_update_append)
      have e: "\<not> ?e > MAX_CMDBUF_SIZE - 1" using nf True by simp
      obtain st' where st': "cread_add_char c st = Some st'" "buf st' = take ?n ?b @ c # ?X @ drop (?e + 1) ?b"
        "num st' = ?n + 1" "eol_num st' = ?e + 1" "insert_mode st'" "hist_of st' = hist_of st" "esc_len st' = esc_len st"
      proof -
        let ?B = "take ?n ?b @ c # ?X @ drop (?e + 1) ?b"
        have pk: "poke ?n c (buf_write ?b (Suc ?n) ?X) = Some ?B"
          using b' o e by (simp add: poke_def MAX_CMDBUF_SIZE_def)
        have r: "cread_add_char c st = Some (putch (replicate (?e - ?n) BS)
                ((putnstr ?n (Suc (?e - ?n)) (st\<lparr>eol_num := ?e + 1, buf := ?B\<rparr>))\<lparr>num := ?n + 1\<rparr>))"
        proof (cases "?n < ?e")
          case True
          then have "1 < Suc (?e - ?n)" by simp
          then show ?thesis using \<open>insert_mode st\<close> e mv1 [OF True] o(2) pk
            by (simp add: cread_add_char_def Let_def Suc_diff_le)
        next
          case False
          then have "?n = ?e" using o(2) by simp
          moreover from this have "poke ?n c ?b = Some ?B" using pk mv0 by simp
          ultimately show ?thesis using \<open>insert_mode st\<close> e
            by (simp add: cread_add_char_def Let_def)
        qed
        show thesis by (rule that [OF r]) (simp_all add: True)
      qed
      have "edit_ok st'" using st' o e by (simp add: edit_ok_def CONSOLE_SIZE_def MAX_CMDBUF_SIZE_def)
      moreover have "abs_line st' = add_line True c (abs_line st)"
        using st' o e by (simp add: abs_line_def MAX_CMDBUF_SIZE_def)
      ultimately show ?thesis using st' True by simp
    next
      case False
      note ni = this
      define e' where "e' = (if ?n = ?e then ?e + 1 else ?e)"
      have e: "?n = ?e \<Longrightarrow> \<not> ?e > MAX_CMDBUF_SIZE - 1" using nf by simp
      obtain st' where st': "cread_add_char c st = Some st'" "buf st' = ?b[?n := c]"
        "num st' = ?n + 1" "eol_num st' = e'" "\<not> insert_mode st'" "hist_of st' = hist_of st" "esc_len st' = esc_len st"
        using ni e o by (cases "?n = ?e") (simp_all add: cread_add_char_def poke_def Let_def e'_def)
      have "edit_ok st'" using st' o e by (auto simp: edit_ok_def CONSOLE_SIZE_def MAX_CMDBUF_SIZE_def e'_def)
      moreover have "abs_line st' = add_line False c (abs_line st)"
      proof -
        have t: "take (Suc ?n) (?b[?n := c]) = take ?n ?b @ [c]" using o by (simp add: take_Suc_conv_app_nth)
        show ?thesis using st' o e t
          by (auto simp: abs_line_def e'_def MAX_CMDBUF_SIZE_def tl_take tl_drop drop_Suc [symmetric] drop_tl)
      qed
      ultimately show ?thesis using st' ni by simp
    qed
  qed
qed

lemma abs_lineI:
  "buf st = x @ a @ r \<Longrightarrow> num st = length x \<Longrightarrow> eol_num st = length x + length a \<Longrightarrow> abs_line st = (x, a)"
  by (simp add: abs_line_def)

text \<open>The buffer around the cursor.\<close>

lemma edit_split:
  assumes "edit_ok st"
  obtains x a r where "abs_line st = (x, a)" "buf st = x @ a @ r" "num st = length x"
    "eol_num st = length x + length a" "length x + length a \<le> 509" "length x + length a + length r = 512"
    "hist_ok (hist_of st)"
proof
  let ?n = "num st" and ?e = "eol_num st"
  show "abs_line st = (take ?n (buf st), take (?e - ?n) (drop ?n (buf st)))" by (simp add: abs_line_def)
  have "take ?n (buf st) @ take (?e - ?n) (drop ?n (buf st)) @ drop (?e - ?n) (drop ?n (buf st)) = buf st"
    by (simp only: append_take_drop_id)
  then show "buf st = take ?n (buf st) @ take (?e - ?n) (drop ?n (buf st)) @ drop (?e - ?n) (drop ?n (buf st))" ..
qed (use assms in \<open>auto simp: edit_ok_def CONSOLE_SIZE_def\<close>)

lemma edit_okI:
  "buf st = x @ a @ r \<Longrightarrow> num st = length x \<Longrightarrow> eol_num st = length x + length a \<Longrightarrow>
    length x + length a \<le> 509 \<Longrightarrow> length x + length a + length r = 512 \<Longrightarrow> hist_ok (hist_of st) \<Longrightarrow> edit_ok st"
  by (simp add: edit_ok_def CONSOLE_SIZE_def)

lemma cread_delete_spec:
  assumes "edit_ok st"
  shows "\<exists>st'. cread_delete st = Some st' \<and> edit_ok st' \<and>
    abs_line st' = (fst (abs_line st), tl (snd (abs_line st))) \<and> insert_mode st' = insert_mode st \<and>
    hist_of st' = hist_of st \<and> esc_len st' = esc_len st"
proof -
  obtain x a r where l: "abs_line st = (x, a)" "buf st = x @ a @ r" "num st = length x"
    "eol_num st = length x + length a" "length x + length a \<le> 509" "length x + length a + length r = 512"
    "hist_ok (hist_of st)" using edit_split [OF assms] .
  show ?thesis
  proof (cases a)
    case Nil
    then show ?thesis using l assms by (simp add: cread_delete_def)
  next
    case (Cons c a')
    define r' where "r' = (if a' = [] then c # r else drop (Suc (length x + length a')) (buf st) )"
    have mv: "memmove (buf st) (length x) (Suc (length x)) (length a') = Some (x @ a' @ drop (length x + length a') (buf st))"
      using l by (subst memmove_spec) (simp_all add: Cons buf_write_def)
    show ?thesis
    proof (cases "a' = []")
      case True
      have "eol_num st = Suc (num st)" using l Cons True by simp
      then obtain st' where d: "cread_delete st = Some st'" "buf st' = buf st" "num st' = num st"
        "eol_num st' = num st" "hist_of st' = hist_of st" "insert_mode st' = insert_mode st" "esc_len st' = esc_len st"
        by (simp add: cread_delete_def)
      have "buf st' = x @ [] @ c # r" "num st' = length x" "eol_num st' = length x + length ([] :: string)"
        using l Cons True d by simp_all
      from edit_okI [OF this] abs_lineI [OF this] d l Cons True show ?thesis by simp
    next
      case False
      obtain st' where d: "cread_delete st = Some st'" "buf st' = x @ a' @ drop (length x + length a') (buf st)"
        "num st' = length x" "eol_num st' = length x + length a'" "hist_of st' = hist_of st" "insert_mode st' = insert_mode st" "esc_len st' = esc_len st"
        using l Cons False mv by (simp add: cread_delete_def Let_def)
      from edit_okI [OF d(2-4)] abs_lineI [OF d(2-4)] d l Cons show ?thesis by simp
    qed
  qed
qed

lemma cread_backspace_spec:
  assumes "edit_ok st"
  shows "\<exists>st'. cread_backspace st = Some st' \<and> edit_ok st' \<and>
    abs_line st' = (butlast (fst (abs_line st)), snd (abs_line st)) \<and> insert_mode st' = insert_mode st \<and>
    hist_of st' = hist_of st \<and> esc_len st' = esc_len st"
proof -
  obtain x a r where l: "abs_line st = (x, a)" "buf st = x @ a @ r" "num st = length x"
    "eol_num st = length x + length a" "length x + length a \<le> 509" "length x + length a + length r = 512"
    "hist_ok (hist_of st)" using edit_split [OF assms] .
  show ?thesis
  proof (cases x rule: rev_cases)
    case Nil
    then show ?thesis using l assms by (simp add: cread_backspace_def)
  next
    case (snoc x' c)
    have mv: "memmove (buf st) (length x') (Suc (length x')) (length a) = Some (x' @ a @ drop (length x' + length a) (buf st))"
      using l by (subst memmove_spec) (simp_all add: snoc buf_write_def)
    obtain st' where d: "cread_backspace st = Some st'" "buf st' = x' @ a @ drop (length x' + length a) (buf st)"
      "num st' = length x'" "eol_num st' = length x' + length a" "hist_of st' = hist_of st" "insert_mode st' = insert_mode st" "esc_len st' = esc_len st"
      using l snoc mv by (simp add: cread_backspace_def Let_def)
    from edit_okI [OF d(2-4)] abs_lineI [OF d(2-4)] d l snoc show ?thesis by simp
  qed
qed

lemma hist_move_ok:
  assumes "hist_ok h"
  shows "hist_ok (snd (hist_prev h))" "hist_ok (snd (hist_next h))"
    and "fst (hist_prev h) = Some l \<Longrightarrow> nul_free l \<and> length l < HIST_SIZE"
    and "fst (hist_next h) = Some l \<Longrightarrow> nul_free l \<and> length l < HIST_SIZE"
  using assms
  by (auto simp: hist_prev_def hist_next_def hist_ok_def Let_def HIST_SIZE_def MAX_CMDBUF_SIZE_def
      split: if_splits)

lemma cread_history_spec:
  assumes "edit_ok st"
  shows "\<exists>st'. cread_history back st = Some st' \<and> edit_ok st'"
proof -
  obtain hl h where hh: "(if back then hist_prev (hist_of st) else hist_next (hist_of st)) = (hl, h)" by fastforce
  then have hh': "back \<Longrightarrow> hist_prev (hist_of st) = (hl, h)" "\<not> back \<Longrightarrow> hist_next (hist_of st) = (hl, h)"
    by simp_all
  have ho: "hist_ok (hist_of st)" using assms by (simp add: edit_ok_def)
  have h: "hist_ok h" using hh hist_move_ok(1,2) [OF ho] by (auto split: if_splits)
  show ?thesis
  proof (cases hl)
    case None
    then show ?thesis using hh h assms by (auto simp: cread_history_def Let_def edit_ok_def split: prod.split)
  next
    case (Some l)
    then have l: "nul_free l" "length l < 256"
      using hh hist_move_ok(3,4) [OF ho] by (auto simp: HIST_SIZE_def MAX_CMDBUF_SIZE_def split: if_splits)
    then show ?thesis using hh' h assms Some
      by (cases "back") (simp_all add: cread_history_def Let_def edit_ok_def CONSOLE_SIZE_def)
  qed
qed

lemma cread_complete_spec:
  assumes "edit_ok st" and "complete_ok complete"
  shows "if num st = eol_num st \<and> complete ((buf st)[num st := NUL]) (num st) = None then cread_complete complete st = None
    else \<exists>st'. cread_complete complete st = Some st' \<and> edit_ok st'"
proof -
  have o: "length (buf st) = 512" "num st \<le> eol_num st" "eol_num st \<le> 509" "hist_ok (hist_of st)"
    using assms(1) by (simp_all add: edit_ok_def CONSOLE_SIZE_def)
  show ?thesis
  proof (cases "num st < eol_num st")
    case True
    then show ?thesis using o by (simp add: cread_complete_def edit_ok_def CONSOLE_SIZE_def)
  next
    case False
    have p: "poke (num st) NUL (buf st) = Some ((buf st)[num st := NUL])" using o by (simp add: poke_def)
    show ?thesis
    proof (cases "complete ((buf st)[num st := NUL]) (num st)")
      case None
      then show ?thesis using o False p by (simp add: cread_complete_def)
    next
      case c: (Some q)
      show ?thesis
      proof (cases q)
        case None
        then show ?thesis using o False p c by (simp add: cread_complete_def edit_ok_def CONSOLE_SIZE_def)
      next
        case (Some bn)
        obtain b' n' where q: "bn = (b', n')" by (cases bn)
        have "length b' = 512 \<and> num st \<le> n' \<and> n' \<le> 509"
          using assms(2) [unfolded complete_ok_def, rule_format, OF c [unfolded Some q]] o by simp
        then show ?thesis using o False p Some q c by (simp add: cread_complete_def edit_ok_def CONSOLE_SIZE_def)
      qed
    qed
  qed
qed

text \<open>The keys of the line as operations on the text before and behind the cursor.\<close>

fun edit_key :: "bool \<Rightarrow> char \<Rightarrow> string \<times> string \<Rightarrow> string \<times> string" where
  "edit_key ins c (b, a) =
     (if c = CTL_CH CHR ''a'' then ([], b @ a)
      else if c = CTL_CH CHR ''f'' then (b @ take 1 a, tl a)
      else if c = CTL_CH CHR ''b'' then (butlast b, drop (length b - 1) b @ a)
      else if c = CTL_CH CHR ''d'' then (b, tl a)
      else if c = CTL_CH CHR ''k'' then (b, [])
      else if c = CTL_CH CHR ''e'' then (b @ a, [])
      else if c = CTL_CH CHR ''o'' then (b, a)
      else if c = CTL_CH CHR ''x'' \<or> c = CTL_CH CHR ''u'' then ([], [])
      else if c = CHR 0xFF \<or> c = CHR 0x7F \<or> c = CHR 0x08 then (butlast b, a)
      else add_line ins c (b, a))"

declare edit_key.simps [simp del]

lemma CTL_CH_eqs:
  "CTL_CH CHR ''a'' = CHR 0x01" "CTL_CH CHR ''b'' = CHR 0x02" "CTL_CH CHR ''c'' = CHR 0x03"
  "CTL_CH CHR ''d'' = CHR 0x04" "CTL_CH CHR ''e'' = CHR 0x05" "CTL_CH CHR ''f'' = CHR 0x06"
  "CTL_CH CHR ''k'' = CHR 0x0B" "CTL_CH CHR ''n'' = CHR 0x0E" "CTL_CH CHR ''o'' = CHR 0x0F"
  "CTL_CH CHR ''p'' = CHR 0x10" "CTL_CH CHR ''u'' = CHR 0x15" "CTL_CH CHR ''x'' = CHR 0x18"
  by code_simp+

text \<open>Keys that only edit the line: no escape, break, history, completion or end of line.\<close>

definition edits_line :: "char \<Rightarrow> bool" where
  "edits_line c \<longleftrightarrow> c \<notin> {NUL, CHR 0x1B, CTL_CH CHR ''c'', CTL_CH CHR ''p'', CTL_CH CHR ''n'', CHR 0x09, CHR 0x0A, CHR 0x0D}"

lemma moves_ok:
  assumes "edit_ok st"
  shows "edit_ok (BEGINNING_OF_LINE st)" "edit_ok (ERASE_TO_EOL st)" "edit_ok (REFRESH_TO_EOL st)"
    "edit_ok (putch s st)" "num st < eol_num st \<Longrightarrow> edit_ok (st\<lparr>num := num st + 1\<rparr>)" "edit_ok (st\<lparr>num := num st - 1\<rparr>)"
    "edit_ok (st\<lparr>buf := (buf st)[i := c]\<rparr>)" "edit_ok (st\<lparr>esc_len := k\<rparr>)" "edit_ok (st\<lparr>esc_save := t\<rparr>)"
    "edit_ok (st\<lparr>insert_mode := m\<rparr>)"
  using assms by (auto simp: edit_ok_def)

lemma moves_abs:
  assumes "edit_ok st" and "abs_line st = (x, a)"
  shows "abs_line (BEGINNING_OF_LINE st) = ([], x @ a)" "abs_line (ERASE_TO_EOL st) = (x, [])"
    "abs_line (REFRESH_TO_EOL st) = (x @ a, [])"
    "num st < eol_num st \<Longrightarrow> abs_line ((putch s st)\<lparr>num := num st + 1\<rparr>) = (x @ take 1 a, tl a)"
    "0 < num st \<Longrightarrow> abs_line ((putch s st)\<lparr>num := num st - 1\<rparr>) = (butlast x, drop (length x - 1) x @ a)"
proof -
  obtain r where l: "buf st = x @ a @ r" "num st = length x" "eol_num st = length x + length a"
    using edit_split [OF assms(1)] assms(2) by (metis prod.inject)
  show "abs_line (BEGINNING_OF_LINE st) = ([], x @ a)" "abs_line (ERASE_TO_EOL st) = (x, [])"
    "abs_line (REFRESH_TO_EOL st) = (x @ a, [])" using l by (simp_all add: abs_line_def)
  show "num st < eol_num st \<Longrightarrow> abs_line ((putch s st)\<lparr>num := num st + 1\<rparr>) = (x @ take 1 a, tl a)"
    using l by (cases a) (simp_all add: abs_line_def)
  show "0 < num st \<Longrightarrow> abs_line ((putch s st)\<lparr>num := num st - 1\<rparr>) = (butlast x, drop (length x - 1) x @ a)"
    using l by (cases x rule: rev_cases) (simp_all add: abs_line_def)
qed

lemma cread_add_str_spec:
  "edit_ok st \<Longrightarrow> \<exists>st'. cread_add_str s st = Some st' \<and> edit_ok st'"
proof (induction s arbitrary: st)
  case (Cons c s)
  obtain st1 where "cread_add_char c st = Some st1" "edit_ok st1" using cread_add_char_spec [OF Cons.prems] by blast
  then show ?case using Cons.IH by simp
qed simp

lemma cread_escape_spec:
  assumes "edit_ok st"
  shows "(\<exists>st'. cread_escape c st = Some (Inl st') \<and> edit_ok st') \<or>
    (\<exists>c' st'. cread_escape c st = Some (Inr (c', st')) \<and> edit_ok st' \<and>
       (if esc_len st = 0 then c' = c \<and> st' = st else c' \<noteq> CHR 0x09))"
proof -
  have s: "\<exists>st'. cread_add_str t st = Some st' \<and> edit_ok st'"
    "\<exists>st'. cread_add_str t (st\<lparr>esc_save := t\<rparr>) = Some st' \<and> edit_ok st'" for t
    using cread_add_str_spec moves_ok(9) [OF assms] assms by blast+
  have e: "edit_ok (st\<lparr>esc_save := t, esc_len := k\<rparr>)" for t k using assms by (simp add: edit_ok_def)
  consider "esc_len st = 0" | "esc_len st = 1" | "esc_len st > 1" by linarith
  then show ?thesis
  proof cases
    case 1
    then show ?thesis using assms by (simp add: cread_escape_def)
  next
    case 2
    obtain s1 where "cread_add_str (take 1 (esc_save st)) st = Some s1" "edit_ok s1" using s(1) by blast
    then show ?thesis using 2 e by (cases "c = CHR ''[''") (simp_all add: cread_escape_def moves_ok(8))
  next
    case 3
    let ?t = "take (esc_len st) (esc_save st) @ [c]"
    obtain s2 where s2: "cread_add_str ?t (st\<lparr>esc_save := ?t\<rparr>) = Some s2" "edit_ok s2" using s(2) by blast
    show ?thesis
    proof (cases "c \<in> {CHR ''D'', CHR ''C'', CHR ''H'', CHR ''A'', CHR ''B''}")
      case True
      then show ?thesis using 3 assms by (auto simp: cread_escape_def moves_ok(8) CTL_CH_eqs)
    next
      case False
      then show ?thesis using 3 s2 by (simp add: cread_escape_def Let_def moves_ok(8))
    qed
  qed
qed

lemma cread_handle_spec:
  assumes "edit_ok st" and "complete_ok complete"
  shows "if c = CHR 0x09 \<and> num st = eol_num st \<and> complete ((buf st)[num st := NUL]) (num st) = None
    then cread_handle complete c st = None
    else \<exists>r. cread_handle complete c st = Some r \<and> edit_ok (case r of Inl st' \<Rightarrow> st' | Inr st' \<Rightarrow> st')"
proof -
  have p: "poke 0 NUL (buf st) = Some ((buf st)[0 := NUL])"
    using assms(1) by (simp add: poke_def edit_ok_def CONSOLE_SIZE_def)
  obtain s1 s2 s3 s4 s6 where s: "cread_delete st = Some s1" "edit_ok s1" "cread_backspace st = Some s2" "edit_ok s2"
    "cread_history True st = Some s3" "edit_ok s3" "cread_history False st = Some s4" "edit_ok s4"
    "cread_add_char c st = Some s6" "edit_ok s6"
    using cread_delete_spec [OF assms(1)] cread_backspace_spec [OF assms(1)] cread_history_spec [OF assms(1)]
      cread_add_char_spec [OF assms(1)] by metis
  note m = moves_ok [OF assms(1)]
  have f: "num st < eol_num st \<Longrightarrow> edit_ok ((putch t st)\<lparr>num := Suc (num st)\<rparr>)" "edit_ok ((putch t st)\<lparr>num := num st - Suc 0\<rparr>)"
    "edit_ok ((putch t st)\<lparr>esc_len := k\<rparr>)" "edit_ok (st\<lparr>esc_save := t, esc_len := k\<rparr>)"
    "edit_ok (ERASE_TO_EOL (BEGINNING_OF_LINE st))" for t k
    using assms(1) m(1) moves_ok(2) by (auto simp: edit_ok_def)
  show ?thesis
  proof (cases "c = CHR 0x09")
    case True
    then have "cread_handle complete c st = map_option Inl (cread_complete complete st)" by (simp add: cread_handle_def CTL_CH_eqs)
    then show ?thesis using True cread_complete_spec [OF assms] by (auto split: if_splits)
  next
    case False
    then show ?thesis by (simp add: cread_handle_def CTL_CH_eqs s p m f assms(1))
  qed
qed

lemma cread_key_spec:
  assumes "edit_ok st" and "complete_ok complete"
  shows "if completes_outside complete c st then cread_key complete c st = None
    else \<exists>r. cread_key complete c st = Some r \<and> edit_ok (case r of Inl st' \<Rightarrow> st' | Inr st' \<Rightarrow> st')"
  using cread_escape_spec [OF assms(1), of c]
proof (elim disjE exE conjE)
  fix st' assume e: "cread_escape c st = Some (Inl st')" "edit_ok st'"
  then have "esc_len st \<noteq> 0" by (cases "esc_len st = 0") (simp_all add: cread_escape_def)
  then show ?thesis using e by (simp add: cread_key_def completes_outside_def)
next
  fix c' st' assume e: "cread_escape c st = Some (Inr (c', st'))" "edit_ok st'"
    "if esc_len st = 0 then c' = c \<and> st' = st else c' \<noteq> CHR 0x09"
  have k: "cread_key complete c st = cread_handle complete c' st'" by (simp add: cread_key_def e(1))
  show ?thesis using cread_handle_spec [OF e(2) assms(2), of c'] e(3) unfolding k completes_outside_def
    by (cases "esc_len st = 0") (simp_all split: if_splits)
qed

lemma cread_handle_edits:
  assumes "edit_ok st" and "edits_line c"
  shows "\<exists>st'. cread_handle complete c st = Some (Inl st') \<and> edit_ok st' \<and>
    abs_line st' = edit_key (insert_mode st) c (abs_line st) \<and>
    insert_mode st' = (if c = CTL_CH CHR ''o'' then \<not> insert_mode st else insert_mode st) \<and>
    hist_of st' = hist_of st \<and> esc_len st' = esc_len st"
proof -
  obtain x a r where l: "abs_line st = (x, a)" "num st = length x" "eol_num st = length x + length a"
    using edit_split [OF assms(1)] by metis
  note ok = assms(1) and m = moves_ok [OF assms(1)] and ma = moves_abs [OF assms(1) l(1)]
  have ma2: "abs_line (ERASE_TO_EOL (BEGINNING_OF_LINE st)) = ([], [])"
    using moves_abs(2) [OF m(1) ma(1)] .
  have f: "num st < eol_num st \<Longrightarrow> edit_ok ((putch t st)\<lparr>num := num st + 1\<rparr>)" "edit_ok ((putch t st)\<lparr>num := num st - 1\<rparr>)"
    "edit_ok (ERASE_TO_EOL (BEGINNING_OF_LINE st))" "abs_line (st\<lparr>insert_mode := i\<rparr>) = abs_line st" for t i
    using assms(1) m(1) moves_ok(2) by (auto simp: edit_ok_def abs_line_def)
  obtain s1 s2 s6 where s:
    "cread_delete st = Some s1" "edit_ok s1" "abs_line s1 = (x, tl a)" "insert_mode s1 = insert_mode st"
    "hist_of s1 = hist_of st" "esc_len s1 = esc_len st"
    "cread_backspace st = Some s2" "edit_ok s2" "abs_line s2 = (butlast x, a)" "insert_mode s2 = insert_mode st"
    "hist_of s2 = hist_of st" "esc_len s2 = esc_len st"
    "cread_add_char c st = Some s6" "edit_ok s6" "abs_line s6 = add_line (insert_mode st) c (x, a)"
    "insert_mode s6 = insert_mode st" "hist_of s6 = hist_of st" "esc_len s6 = esc_len st"
    using cread_delete_spec [OF ok] cread_backspace_spec [OF ok] cread_add_char_spec [OF ok, of c] l(1)
    by (metis fst_conv snd_conv)
  note d = cread_handle_def CTL_CH_eqs edit_key.simps l(1)
  have c: "c \<notin> {CHR 0x1B, CHR 0x03, CHR 0x10, CHR 0x0E, CHR 0x09}" using assms(2) by (simp add: edits_line_def CTL_CH_eqs)
  consider "c = CHR 0x01" | "c = CHR 0x06" | "c = CHR 0x02" | "c = CHR 0x04" | "c = CHR 0x0B" | "c = CHR 0x05"
    | "c = CHR 0x0F" | "c \<in> {CHR 0x18, CHR 0x15}" | "c \<in> {CHR 0xFF, CHR 0x7F, CHR 0x08}"
    | "c \<notin> {CHR 0x01, CHR 0x06, CHR 0x02, CHR 0x04, CHR 0x0B, CHR 0x05, CHR 0x0F, CHR 0x18, CHR 0x15, CHR 0xFF, CHR 0x7F, CHR 0x08}"
    by (atomize_elim) (simp only: insert_iff empty_iff, satx)
  then show ?thesis
  proof cases
    case 1
    then show ?thesis by (simp add: d m ma)
  next
    case 2
    then show ?thesis using l(2,3) f(1) ma(4) ok by (cases a) (simp_all add: d)
  next
    case 3
    then show ?thesis using l(2,3) f(2) ma(5) ok by (cases "x = []") (simp_all add: d)
  next
    case 4
    then show ?thesis by (simp add: d s)
  next
    case 5
    then show ?thesis by (simp add: d m ma)
  next
    case 6
    then show ?thesis by (simp add: d m ma)
  next
    case 7
    then show ?thesis by (simp add: d m f)
  next
    case 8
    then show ?thesis using f(3) ma2 by (elim insertE) (simp_all add: d)
  next
    case 9
    then show ?thesis using s by (elim insertE) (simp_all add: d)
  next
    case 10
    then show ?thesis using c by (simp add: d s)
  qed
qed


text \<open>A sequence of such keys and the end of the line.\<close>

fun edit_keys :: "bool \<Rightarrow> string \<Rightarrow> string \<times> string \<Rightarrow> string \<times> string" where
  "edit_keys ins [] l = l"
| "edit_keys ins (c # cs) l = edit_keys (if c = CTL_CH CHR ''o'' then \<not> ins else ins) cs (edit_key ins c l)"

lemma cread_loop_edits:
  assumes "edit_ok st" and "esc_len st = 0" and "\<forall>c \<in> set ks. edits_line c"
  shows "\<exists>st'. cread_loop complete (ks @ keys) st = cread_loop complete keys st' \<and> edit_ok st' \<and>
    abs_line st' = edit_keys (insert_mode st) ks (abs_line st) \<and> hist_of st' = hist_of st"
  using assms
proof (induction ks arbitrary: st)
  case (Cons c ks)
  then have c: "edits_line c" by simp
  obtain st1 where 1: "cread_handle complete c st = Some (Inl st1)" "edit_ok st1"
    "abs_line st1 = edit_key (insert_mode st) c (abs_line st)"
    "insert_mode st1 = (if c = CTL_CH CHR ''o'' then \<not> insert_mode st else insert_mode st)"
    "hist_of st1 = hist_of st" "esc_len st1 = 0"
    using cread_handle_edits [OF Cons.prems(1) c, of complete] Cons.prems(2) by metis
  have k: "cread_key complete c st = Some (Inl st1)"
    using 1(1) Cons.prems(2) by (simp add: cread_key_def cread_escape_def)
  have n: "c \<noteq> CHR 0x0A" "c \<noteq> CHR 0x0D" using c by (simp_all add: edits_line_def)
  obtain st' where "cread_loop complete (ks @ keys) st1 = cread_loop complete keys st'" "edit_ok st'"
    "abs_line st' = edit_keys (insert_mode st1) ks (abs_line st1)" "hist_of st' = hist_of st1"
    using Cons.IH [OF 1(2,6)] Cons.prems(3) by auto
  then show ?case using k n 1(3-5) by (intro exI [of _ st']) simp
qed auto

lemma edit_key_set: "set (fst (edit_key ins c l)) \<union> set (snd (edit_key ins c l)) \<subseteq> insert c (set (fst l) \<union> set (snd l))"
proof (cases l)
  case (Pair b a)
  have sub: "set (tl a) \<subseteq> set a" "set (take 1 a) \<subseteq> set a" "set (butlast b) \<subseteq> set b" "set (drop (length b - 1) b) \<subseteq> set b"
    by (cases a, auto dest: in_set_dropD in_set_takeD in_set_butlastD)
  define ok where "ok e \<longleftrightarrow> set (fst e) \<union> set (snd e) \<subseteq> insert c (set b \<union> set a)" for e
  have if_ok: "ok e1 \<Longrightarrow> ok e2 \<Longrightarrow> ok (if p then e1 else e2)" for p e1 e2 by simp
  have "ok (add_line ins c (b, a))" using sub unfolding add_line.simps by (intro if_ok) (auto simp: ok_def)
  then have "ok (edit_key ins c (b, a))"
    using sub unfolding edit_key.simps by (intro if_ok) (auto simp: ok_def)
  then show ?thesis by (simp add: Pair ok_def)
qed

lemma edit_keys_set:
  "set (fst (edit_keys ins ks l)) \<union> set (snd (edit_keys ins ks l)) \<subseteq> set ks \<union> (set (fst l) \<union> set (snd l))"
proof (induction ks arbitrary: ins l)
  case (Cons c ks)
  show ?case using Cons.IH [of "if c = CTL_CH CHR ''o'' then \<not> ins else ins" "edit_key ins c l"] edit_key_set [of ins c l]
    by auto
qed simp

text \<open>Enter on a line that does not fit its slot of the history.\<close>

definition overflows_slot :: "edit \<Rightarrow> bool" where
  "overflows_slot st \<longleftrightarrow> HIST_SIZE \<le> strlen ((buf st)[eol_num st := NUL]) \<and> buf st ! 0 \<noteq> CHR ''!''"

lemma cread_finish_None:
  assumes "edit_ok st"
  shows "cread_finish st = None \<longleftrightarrow> overflows_slot st"
proof -
  have o: "length (buf st) = 512" "eol_num st \<le> 509" "hist_ok (hist_of st)"
    using assms(1) by (simp_all add: edit_ok_def CONSOLE_SIZE_def)
  have p: "poke (eol_num st) NUL (buf st) = Some ((buf st)[eol_num st := NUL])" using o by (simp add: poke_def)
  let ?b = "(buf st)[eol_num st := NUL]"
  have "cread_add_to_hist ?b (hist_of st) = None \<longleftrightarrow> HIST_SIZE \<le> strlen ?b"
    using o(3) by (auto simp: cread_add_to_hist_def hist_ok_def Let_def)
  moreover have "strlen ?b = 0" if "?b ! 0 = NUL" using that o(1) by (cases ?b) auto
  moreover have "?b ! 0 = buf st ! 0" if "?b ! 0 \<noteq> NUL" using that o(1) by (cases "eol_num st = 0") simp_all
  ultimately show ?thesis unfolding cread_finish_def p overflows_slot_def
    by (auto simp: Let_def HIST_SIZE_def MAX_CMDBUF_SIZE_def NUL_def)
qed

lemma cread_finish_spec:
  assumes ok: "edit_ok st" and al: "abs_line st = (x, a)" and nf: "nul_free (x @ a)" and len: "length (x @ a) < HIST_SIZE"
  shows "\<exists>st'. cread_finish st = Some st' \<and> take (eol_num st') (buf st') = x @ a \<and> eol_num st' = length (x @ a) \<and>
    buf st' ! eol_num st' = NUL \<and> hist_ok (hist_of st') \<and>
    (x @ a \<noteq> [] \<and> hd (x @ a) \<noteq> CHR ''!'' \<longrightarrow> hist_list (hist_of st') ! hist_add_idx (hist_of st) = x @ a)"
proof -
  obtain r where l: "buf st = x @ a @ r" "eol_num st = length x + length a" "length x + length a + length r = 512"
    using edit_split [OF ok] al by (metis prod.inject)
  have h: "hist_ok (hist_of st)" using ok by (simp add: edit_ok_def)
  have lt: "length (x @ a) < 256" using len by (simp add: HIST_SIZE_def MAX_CMDBUF_SIZE_def)
  obtain c r' where r: "r = c # r'" using lt l(3) by (cases r) simp_all
  let ?b = "(x @ a) @ NUL # r'"
  have p: "poke (eol_num st) NUL (buf st) = Some ?b"
    unfolding l(1,2) r by (simp add: poke_def list_update_append)
  have s: "strlen ?b = length (x @ a)" using nf by (rule strlen_append_NUL)
  let ?h = "hist_of st"
  have b0: "?b ! 0 = (if x @ a = [] then NUL else hd (x @ a))" by (simp add: nth_append hd_conv_nth)
  define remember where "remember \<longleftrightarrow> ?b ! 0 \<noteq> NUL \<and> ?b ! 0 \<noteq> CHR ''!''"
  have rem: "remember" if "x @ a \<noteq> []" "hd (x @ a) \<noteq> CHR ''!''"
  proof -
    have "hd (x @ a) \<in> set (x @ a)" using that(1) by (rule hd_in_set)
    then have "hd (x @ a) \<noteq> NUL" using nf by (auto simp: nul_free_def)
    then show ?thesis using that unfolding remember_def b0 by simp
  qed
  obtain h' where h': "(if remember then cread_add_to_hist ?b ?h else Some ?h) = Some h'" "hist_ok h'"
    "remember \<Longrightarrow> hist_list h' ! hist_add_idx ?h = x @ a"
  proof (cases remember)
    case True
    let ?i = "if hist_add_idx ?h + 1 \<ge> HIST_MAX then 0 else hist_add_idx ?h + 1"
    obtain h' where g: "cread_add_to_hist ?b ?h = Some h'" "hist_list h' = (hist_list ?h)[hist_add_idx ?h := x @ a]"
      "hist_add_idx h' = ?i" "hist_max h' = max ?i (hist_max ?h)" "hist_cur h' = hist_cur ?h"
      using h s lt unfolding hist_ok_def
      by (simp add: cread_add_to_hist_def HIST_SIZE_def MAX_CMDBUF_SIZE_def Let_def max_def)
    have "l \<in> set (hist_list h') \<Longrightarrow> nul_free l \<and> length l < HIST_SIZE" for l
      using h nf len set_update_subset_insert [of "hist_list ?h" "hist_add_idx ?h" "x @ a"] unfolding g hist_ok_def by blast
    then have "hist_ok h'" using h unfolding hist_ok_def g by (simp add: HIST_MAX_def)
    then show thesis using that [of h'] True g h by (simp add: hist_ok_def)
  qed (use h that in simp)
  define bb where "bb = ?b"
  have "cread_finish st = Some ((putch [CHR 0x0A] (st\<lparr>buf := bb\<rparr>))\<lparr>hist_of := h'\<lparr>hist_cur := int (hist_add_idx h')\<rparr>\<rparr>)"
    unfolding cread_finish_def p bb_def [symmetric]
    by (simp add: Let_def h'(1) [unfolded remember_def bb_def [symmetric]] cong: if_cong del: map_option_eq_Some)
  then obtain st' where f: "cread_finish st = Some st'" "buf st' = ?b" "eol_num st' = length (x @ a)"
    "hist_of st' = h'\<lparr>hist_cur := int (hist_add_idx h')\<rparr>"
    using l(2) by (simp add: bb_def)
  have "hist_ok (hist_of st')" using h'(2) unfolding f hist_ok_def by simp
  then show ?thesis using f h'(3) rem by (simp add: nth_append)
qed


section \<open>Whole key sequences\<close>

text \<open>The start of a line, and the state the keys \<open>ks\<close> lead to, when none of them ends the line.\<close>

definition line_start :: "string \<Rightarrow> hist \<Rightarrow> edit" where
  "line_start b h = \<lparr>num = 0, eol_num = 0, buf = b, insert_mode = True, esc_len = 0, esc_save = [], echo = [], hist_of = h\<rparr>"

fun after_keys :: "line_completion \<Rightarrow> string \<Rightarrow> edit \<Rightarrow> edit option" where
  "after_keys complete [] st = Some st"
| "after_keys complete (c # ks) st =
     (if c = CHR 0x0A \<or> c = CHR 0x0D then None
      else (case cread_key complete c st of Some (Inl st') \<Rightarrow> after_keys complete ks st' | _ \<Rightarrow> None))"

text \<open>The keys at which the editor leaves its objects.\<close>

definition key_fails :: "line_completion \<Rightarrow> char \<Rightarrow> edit \<Rightarrow> bool" where
  "key_fails complete c st \<longleftrightarrow> (c = CHR 0x0A \<or> c = CHR 0x0D) \<and> overflows_slot st \<or> completes_outside complete c st"

lemma first_key:
  "(\<exists>ks k rest st. c # keys = ks @ k # rest \<and> P ks k st) \<longleftrightarrow>
   (\<exists>st. P [] c st) \<or> (\<exists>ks k rest st. keys = ks @ k # rest \<and> P (c # ks) k st)"
  by (auto simp: Cons_eq_append_conv)

text \<open>The interface to completion and what follows from its contract for any sequence of keys.\<close>

locale line_completer =
  fixes complete :: line_completion
  assumes complete_ok: "complete_ok complete"
begin

lemma after_keys_ok: "edit_ok st \<Longrightarrow> after_keys complete ks st = Some st' \<Longrightarrow> edit_ok st'"
proof (induction ks arbitrary: st)
  case (Cons c ks)
  then obtain st1 where "cread_key complete c st = Some (Inl st1)" "after_keys complete ks st1 = Some st'"
    by (auto split: if_splits option.splits sum.splits)
  then show ?case using Cons.IH [of st1] cread_key_spec [OF Cons.prems(1) complete_ok, of c] by (auto split: if_splits)
qed simp

lemma cread_loop_None:
  "edit_ok st \<Longrightarrow> cread_loop complete keys st = None \<longleftrightarrow>
     (\<exists>ks c rest st'. keys = ks @ c # rest \<and> after_keys complete ks st = Some st' \<and> key_fails complete c st')"
proof (induction keys arbitrary: st)
  case (Cons c keys)
  have split: "(\<exists>ks c' rest st'. c # keys = ks @ c' # rest \<and> after_keys complete ks st = Some st' \<and> key_fails complete c' st') \<longleftrightarrow>
    key_fails complete c st \<or> (\<exists>ks c' rest st'. keys = ks @ c' # rest \<and> after_keys complete (c # ks) st = Some st' \<and> key_fails complete c' st')"
    using first_key [of c keys "\<lambda>ks c' st'. after_keys complete ks st = Some st' \<and> key_fails complete c' st'"] by simp
  show ?case
  proof (cases "c = CHR 0x0A \<or> c = CHR 0x0D")
    case True
    then have "key_fails complete c st \<longleftrightarrow> overflows_slot st" by (auto simp: key_fails_def completes_outside_def)
    then show ?thesis unfolding split using True cread_finish_None [OF Cons.prems] by auto
  next
    case False
    then have f: "key_fails complete c st \<longleftrightarrow> completes_outside complete c st" by (simp add: key_fails_def)
    note k = cread_key_spec [OF Cons.prems complete_ok, of c]
    show ?thesis
    proof (cases "completes_outside complete c st")
      case True
      then show ?thesis unfolding split using False f k by simp
    next
      case c: False
      then obtain r where r: "cread_key complete c st = Some r" "edit_ok (case r of Inl st' \<Rightarrow> st' | Inr st' \<Rightarrow> st')" using k by auto
      show ?thesis unfolding split using False f c r Cons.IH by (cases r) simp_all
    qed
  qed
qed simp

lemma cread_line_None:
  assumes "hist_ok h" and "length b = CONSOLE_SIZE"
  shows "cread_line complete b h keys = None \<longleftrightarrow>
    (\<exists>ks c rest st. keys = ks @ c # rest \<and> after_keys complete ks (line_start b h) = Some st \<and> edit_ok st \<and> key_fails complete c st)"
proof -
  have ok: "edit_ok (line_start b h)" using assms by (simp add: edit_ok_def line_start_def)
  have "after_keys complete ks (line_start b h) = Some st \<and> edit_ok st \<and> X \<longleftrightarrow> after_keys complete ks (line_start b h) = Some st \<and> X"
    for ks st X using after_keys_ok [OF ok] by blast
  then show ?thesis unfolding cread_line_def line_start_def [symmetric] cread_loop_None [OF ok] by simp
qed

end

section \<open>What the editor promises\<close>

text \<open>
  C23: The line editor is memory-safe for every key: from any well-formed state, whatever the key (an
  escape sequence in progress, history, completion within its contract, or a character), \<open>cread_line\<close>
  handles it without an access outside the 512-byte console buffer and stays well formed; only where completion
  itself leaves its objects, on a Tab at the end of the line, the key does not come back. A key that
  edits the line does to the text around the cursor exactly what the editing command says.
\<close>

theorem cread_key_correct:
  assumes "edit_ok st" and "complete_ok complete"
  shows "(if completes_outside complete c st then cread_key complete c st = None
          else \<exists>r. cread_key complete c st = Some r \<and> edit_ok (case r of Inl st' \<Rightarrow> st' | Inr st' \<Rightarrow> st')) \<and>
    (esc_len st = 0 \<and> edits_line c \<longrightarrow>
      (\<exists>st'. cread_key complete c st = Some (Inl st') \<and> abs_line st' = edit_key (insert_mode st) c (abs_line st)))"
proof (intro conjI impI)
  show "if completes_outside complete c st then cread_key complete c st = None
    else \<exists>r. cread_key complete c st = Some r \<and> edit_ok (case r of Inl st' \<Rightarrow> st' | Inr st' \<Rightarrow> st')"
    by (rule cread_key_spec [OF assms])
next
  assume e: "esc_len st = 0 \<and> edits_line c"
  then show "\<exists>st'. cread_key complete c st = Some (Inl st') \<and> abs_line st' = edit_key (insert_mode st) c (abs_line st)"
    using cread_handle_edits [OF assms(1), of c complete] by (auto simp: cread_key_def cread_escape_def)
qed

definition no_complete :: line_completion where "no_complete b n = Some None"

definition sample_edit :: edit where
  "sample_edit = \<lparr>num = 1, eol_num = 3, buf = ''abc'' @ replicate 509 NUL, insert_mode = True, esc_len = 0, esc_save = [],
     echo = [], hist_of = hist_init\<rparr>"

lemma hist_init_ok: "hist_ok hist_init"
  by (simp add: hist_ok_def hist_init_def HIST_MAX_def HIST_SIZE_def MAX_CMDBUF_SIZE_def)

lemma cread_key_correct_witness:
  "\<exists>st'. cread_key no_complete (CHR 0x08) sample_edit = Some (Inl st') \<and> abs_line st' = ([], ''bc'')"
proof -
  have "edit_ok sample_edit"
    by (simp add: edit_ok_def sample_edit_def hist_init_ok CONSOLE_SIZE_def)
  moreover have "complete_ok no_complete" by (simp add: complete_ok_def no_complete_def)
  moreover have "esc_len sample_edit = 0 \<and> edits_line (CHR 0x08)"
    by (simp add: sample_edit_def edits_line_def CTL_CH_eqs NUL_def)
  moreover have "edit_key (insert_mode sample_edit) (CHR 0x08) (abs_line sample_edit) = ([], ''bc'')"
    by (simp add: abs_line_def sample_edit_def edit_key.simps CTL_CH_eqs)
  ultimately show ?thesis using cread_key_correct by metis
qed

text \<open>
  C22: Typing a line: for any sequence of editing keys followed by Enter, \<open>cread_line\<close> returns 0 with the
  buffer holding, NUL-terminated, exactly the text the editing commands denote, leaves the keys behind
  Enter unread, and (unless the line is empty or starts with an exclamation mark) stores it in the next
  slot of the history, whose invariant it keeps - provided the line is shorter than a history slot.
\<close>

theorem cread_line_edits:
  assumes "hist_ok h" and "length b = CONSOLE_SIZE" and "\<forall>c \<in> set ks. edits_line c" and "nl \<in> {CHR 0x0A, CHR 0x0D}"
    and "line = fst (edit_keys True ks ([], [])) @ snd (edit_keys True ks ([], []))" and "length line < HIST_SIZE"
  shows "\<exists>st. cread_line complete b h (ks @ nl # rest) = Some (Some (0, st, rest)) \<and>
    take (eol_num st) (buf st) = line \<and> eol_num st = length line \<and> buf st ! eol_num st = NUL \<and> hist_ok (hist_of st) \<and>
    (line \<noteq> [] \<and> hd line \<noteq> CHR ''!'' \<longrightarrow> hist_list (hist_of st) ! hist_add_idx h = line)"
proof -
  let ?s = "\<lparr>num = 0, eol_num = 0, buf = b, insert_mode = True, esc_len = 0, esc_save = [], echo = [], hist_of = h\<rparr>"
  have s: "edit_ok ?s" "abs_line ?s = ([], [])" using assms(1,2) by (simp_all add: edit_ok_def abs_line_def)
  obtain st1 where 1: "cread_line complete b h (ks @ nl # rest) = cread_loop complete (nl # rest) st1" "edit_ok st1"
    "abs_line st1 = edit_keys True ks ([], [])" "hist_of st1 = h"
    using cread_loop_edits [OF s(1) _ assms(3), of complete "nl # rest"] s(2) by (auto simp: cread_line_def)
  have "set line \<subseteq> set ks" using edit_keys_set [of True ks "([], [])"] by (simp add: assms(5))
  moreover have "NUL \<notin> set ks" using assms(3) by (auto simp: edits_line_def)
  ultimately have nf: "nul_free line" by (auto simp: nul_free_def)
  obtain x a where xa: "edit_keys True ks ([], []) = (x, a)" "line = x @ a" using assms(5) by (metis prod.collapse)
  obtain st2 where "cread_finish st1 = Some st2" "take (eol_num st2) (buf st2) = line" "eol_num st2 = length line"
    "buf st2 ! eol_num st2 = NUL" "hist_ok (hist_of st2)"
    "line \<noteq> [] \<and> hd line \<noteq> CHR ''!'' \<longrightarrow> hist_list (hist_of st2) ! hist_add_idx h = line"
    using cread_finish_spec [OF 1(2), of x a] 1(3,4) xa nf assms(6) by auto
  then show ?thesis using 1(1) assms(4) by auto
qed

text \<open>Typing \<open>ac\<close>, left, \<open>b\<close> and Enter.\<close>

lemma cread_line_edits_witness:
  "\<exists>st. cread_line no_complete (replicate 512 NUL) hist_init (''ac'' @ [CTL_CH CHR ''b''] @ ''b'' @ [CHR 0x0D]) = Some (Some (0, st, [])) \<and>
    take (eol_num st) (buf st) = ''abc'' \<and> hist_list (hist_of st) ! 0 = ''abc''"
proof -
  let ?ks = "''ac'' @ [CTL_CH CHR ''b''] @ ''b''"
  have e: "edit_keys True ?ks ([], []) = (''ab'', ''c'')"
    by (simp add: CTL_CH_eqs edit_key.simps MAX_CMDBUF_SIZE_def)
  have k: "\<forall>c \<in> set ?ks. edits_line c" by (simp add: edits_line_def CTL_CH_eqs NUL_def)
  have l: "length (''abc'') < HIST_SIZE" by (simp add: HIST_SIZE_def MAX_CMDBUF_SIZE_def)
  from cread_line_edits [OF hist_init_ok _ k _ _ l, of "replicate 512 NUL" "CHR 0x0D" no_complete "[]"] e
  show ?thesis by (auto simp: CONSOLE_SIZE_def hist_init_def)
qed

text \<open>
  A full line overflows its slot: 256 characters pass the check of \<open>cread_add_char\<close>, whose room ends at
  \<open>eol_num > len - 1\<close>, and with its NUL the line needs 257 bytes of the 256-byte slot \<open>strcpy\<close> writes.
\<close>

lemma cread_line_overflow:
  assumes "hist_ok h" and "length b = CONSOLE_SIZE"
  shows "cread_line complete b h (replicate 256 (CHR ''a'') @ [CHR 0x0D]) = None"
proof -
  let ?s = "\<lparr>num = 0, eol_num = 0, buf = b, insert_mode = True, esc_len = 0, esc_save = [], echo = [], hist_of = h\<rparr>"
  let ?ks = "replicate 256 (CHR ''a'')"
  have s: "edit_ok ?s" "abs_line ?s = ([], [])" using assms by (simp_all add: edit_ok_def abs_line_def)
  have k: "edits_line (CHR ''a'')" "CHR ''a'' \<noteq> CTL_CH CHR ''o''"
    "\<And>x. edit_key True (CHR ''a'') (x, []) = add_line True (CHR ''a'') (x, [])"
    by (simp_all add: edits_line_def CTL_CH_eqs edit_key.simps NUL_def)
  have "n + length x \<le> 256 \<Longrightarrow> edit_keys True (replicate n (CHR ''a'')) (x, []) = (x @ replicate n (CHR ''a''), [])" for n x
    using k(2) by (induction n arbitrary: x) (simp_all add: k(3) MAX_CMDBUF_SIZE_def)
  from this [of 256 "[]"] have e: "edit_keys True ?ks ([], []) = (?ks, [])" by simp
  have "\<forall>c \<in> set ?ks. edits_line c" using k(1) by simp
  from cread_loop_edits [OF s(1) _ this, of complete "[CHR 0x0D]"] s(2) e
  obtain st1 where 1: "cread_line complete b h (?ks @ [CHR 0x0D]) = cread_loop complete [CHR 0x0D] st1" "edit_ok st1"
    "abs_line st1 = (?ks, [])" by (auto simp: cread_line_def)
  obtain r where l: "buf st1 = ?ks @ r" "eol_num st1 = 256" "length r = 256"
    using edit_split [OF 1(2)] 1(3) by (metis (no_types, lifting) append_Nil add_0_right add_left_imp_eq length_replicate list.size(3) numeral_Bit0 prod.inject)
  then obtain c r' where r: "r = c # r'" by (cases r) simp_all
  have p: "poke 256 NUL (?ks @ r) = Some (?ks @ NUL # r')" by (simp add: poke_def r list_update_append)
  have "strlen (?ks @ NUL # r') = 256" "(?ks @ NUL # r') ! 0 = CHR ''a''"
    by (subst strlen_append_NUL) (simp_all add: nul_free_def nth_append NUL_def)
  then have "cread_finish st1 = None"
    unfolding cread_finish_def l p by (simp add: Let_def NUL_def cread_add_to_hist_def HIST_SIZE_def MAX_CMDBUF_SIZE_def)
  then show ?thesis using 1(1) by simp
qed


section \<open>Browsing the history\<close>

text \<open>
  The ring buffer against a list of all lines and how many lines back the user stands: 0 is the line
  being typed, \<open>k\<close> the \<open>k\<close>-th last line. One of the 20 slots always separates the ends, so 19 are kept.
\<close>

definition hist_kept :: "string list \<Rightarrow> nat" where "hist_kept ls = min (length ls) 19"

definition hist_inv :: "string list \<Rightarrow> nat \<Rightarrow> hist \<Rightarrow> bool" where
  "hist_inv ls k h \<longleftrightarrow>
     length (hist_list h) = 20 \<and> hist_add_idx h = length ls mod 20 \<and> hist_max h = hist_kept ls \<and>
     (\<forall>j < length ls. length ls < j + 20 \<longrightarrow> hist_list h ! (j mod 20) = ls ! j) \<and>
     k \<le> hist_kept ls \<and> hist_cur h = int ((length ls - k) mod 20)"

lemma mod20_pred: "0 < m \<Longrightarrow> (m - 1) mod 20 = (if m mod 20 = 0 then 19 else m mod 20 - 1)" for m :: nat
  by (cases m) (auto simp: mod_Suc)

lemma mod20_19: "(m + 19) mod 20 = (if m mod 20 = 0 then 19 else m mod 20 - 1)" for m :: nat
proof (cases "m mod 20")
  case 0
  then show ?thesis by (subst mod_add_left_eq [symmetric]) simp
next
  case (Suc r)
  have "Suc r < 20" unfolding Suc [symmetric] by simp
  then show ?thesis by (subst mod_add_left_eq [symmetric]) (simp add: Suc)
qed

lemma mod20_0: "0 < m \<Longrightarrow> m mod 20 = 0 \<Longrightarrow> 20 \<le> m" for m :: nat
  by (metis dvd_imp_le mod_0_imp_dvd)

lemma mod20_eq: "j < n \<Longrightarrow> n < j + 20 \<Longrightarrow> j mod 20 \<noteq> n mod 20" for j n :: nat
proof
  assume a: "j < n" "n < j + 20" "j mod 20 = n mod 20"
  then have "20 dvd n - j" by (metis less_imp_le mod_eq_dvd_iff_nat)
  then show False using a dvd_imp_le [of 20 "n - j"] by simp
qed

lemma hist_prev_spec:
  assumes "hist_inv ls k h"
  shows "k < hist_kept ls \<Longrightarrow> fst (hist_prev h) = Some (ls ! (length ls - k - 1)) \<and> hist_inv ls (k + 1) (snd (hist_prev h))"
    and "k = hist_kept ls \<Longrightarrow> hist_prev h = (None, h)"
proof -
  let ?N = "length ls" and ?c = "(length ls - k) mod 20"
  have i: "length (hist_list h) = 20" "hist_add_idx h = ?N mod 20" "hist_max h = min ?N 19" "hist_cur h = int ?c"
    "\<And>j. j < ?N \<Longrightarrow> ?N < j + 20 \<Longrightarrow> hist_list h ! (j mod 20) = ls ! j"
    using assms by (simp_all add: hist_inv_def hist_kept_def)
  show "fst (hist_prev h) = Some (ls ! (?N - k - 1)) \<and> hist_inv ls (k + 1) (snd (hist_prev h))" if "k < hist_kept ls"
  proof -
    let ?m = "?N - k - 1"
    have k: "k < ?N" "k < 19" using that by (simp_all add: hist_kept_def)
    have m: "?m < ?N" "?N < ?m + 20" "?m mod 20 = (if ?c = 0 then 19 else ?c - 1)"
      using k mod20_pred [of "?N - k"] by simp_all
    have c0: "19 \<le> ?N" if "?c = 0" using mod20_0 [OF _ that] k by linarith
    have cur: "(if hist_cur h - 1 < 0 then int (hist_max h) else hist_cur h - 1) = int (?m mod 20)"
      using c0 m(3) i(3,4) by (cases "?c = 0") (simp_all add: of_nat_diff)
    have ne: "int (?m mod 20) \<noteq> int (hist_add_idx h)" using mod20_eq [OF m(1,2)] i(2) by simp
    have "\<not> hist_cur h < 0" using i(4) by simp
    then have p: "hist_prev h = (Some (hist_list h ! (?m mod 20)), h\<lparr>hist_cur := int (?m mod 20)\<rparr>)"
      unfolding hist_prev_def cur Let_def using ne by simp
    show ?thesis using assms that k i(5) [OF m(1,2)] unfolding p by (simp add: hist_inv_def)
  qed
  show "hist_prev h = (None, h)" if "k = hist_kept ls"
  proof -
    have "(if hist_cur h - 1 < 0 then int (hist_max h) else hist_cur h - 1) = int (hist_add_idx h)"
    proof (cases "?N < 19")
      case True
      then show ?thesis using that i by (simp add: hist_kept_def)
    next
      case False
      define m where "m = ?N - 19"
      have m: "?N = m + 19" "k = 19" using that False by (simp_all add: m_def hist_kept_def)
      have "?N mod 20 = (if m mod 20 = 0 then 19 else m mod 20 - 1)" "?c = m mod 20" using m mod20_19 [of m] by simp_all
      then show ?thesis using i(2-4) m(1) by (cases "m mod 20 = 0") (simp_all add: of_nat_diff)
    qed
    then show ?thesis using i(4) by (simp add: hist_prev_def Let_def)
  qed
qed

lemma hist_next_spec:
  assumes "hist_inv ls k h"
  shows "0 < k \<Longrightarrow> fst (hist_next h) = Some (if k = 1 then [] else ls ! (length ls - k + 1)) \<and> hist_inv ls (k - 1) (snd (hist_next h))"
    and "k = 0 \<Longrightarrow> hist_next h = (None, h)"
proof -
  let ?N = "length ls" and ?c = "(length ls - k) mod 20"
  have i: "length (hist_list h) = 20" "hist_add_idx h = ?N mod 20" "hist_max h = min ?N 19" "hist_cur h = int ?c"
    "\<And>j. j < ?N \<Longrightarrow> ?N < j + 20 \<Longrightarrow> hist_list h ! (j mod 20) = ls ! j"
    and k: "k \<le> ?N" "k \<le> 19"
    using assms by (simp_all add: hist_inv_def hist_kept_def)
  show "hist_next h = (None, h)" if "k = 0" using that i by (simp add: hist_next_def)
  show "fst (hist_next h) = Some (if k = 1 then [] else ls ! (?N - k + 1)) \<and> hist_inv ls (k - 1) (snd (hist_next h))" if k0: "0 < k"
  proof -
    let ?m = "?N - k + 1"
    have m1: "?N - (k - 1) = ?m" "?m \<le> ?N" using k k0 by simp_all
    have ne: "hist_cur h \<noteq> int (hist_add_idx h)" using mod20_eq [of "?N - k" ?N] k k0 i(2,4) by simp
    have cur: "(if hist_cur h + 1 > int (hist_max h) then 0 else hist_cur h + 1) = int (?m mod 20)"
    proof (cases "?c = 19")
      case True
      then show ?thesis using i(3,4) by (simp add: mod_Suc)
    next
      case False
      have "?c < 20" by simp
      then have c: "?c < 19" "?m mod 20 = ?c + 1" using False by (simp_all add: mod_Suc)
      have "?c < ?N" using k k0 mod_less_eq_dividend [of "?N - k" 20] by linarith
      then have "\<not> int ?c + 1 > int (min ?N 19)" using c(1) by simp
      then show ?thesis using i(3,4) c(2) by simp
    qed
    have add: "int (?m mod 20) = int (hist_add_idx h) \<longleftrightarrow> k = 1"
    proof (cases "k = 1")
      case True
      then have "?m = ?N" using k by simp
      then show ?thesis using i(2) True by simp
    next
      case False
      then show ?thesis using mod20_eq [of ?m ?N] k k0 i(2) by simp
    qed
    have "\<not> hist_cur h < 0" using i(4) by simp
    then have p: "hist_next h = (Some (if k = 1 then [] else hist_list h ! (?m mod 20)), h\<lparr>hist_cur := int (?m mod 20)\<rparr>)"
      unfolding hist_next_def cur Let_def using ne add by simp
    have "k \<noteq> 1 \<Longrightarrow> hist_list h ! (?m mod 20) = ls ! ?m" using i(5) [of ?m] k k0 by simp
    then show ?thesis using assms k0 unfolding p hist_inv_def m1(1) by (simp add: le_diff_conv)
  qed
qed

lemma cread_add_to_hist_spec:
  assumes "hist_inv ls k h" and "nul_free line" and "length line < HIST_SIZE"
  shows "\<exists>h'. cread_add_to_hist (line @ NUL # r) h = Some h' \<and> hist_inv (ls @ [line]) 0 (h'\<lparr>hist_cur := int (hist_add_idx h')\<rparr>)"
proof -
  let ?N = "length ls"
  have i: "length (hist_list h) = 20" "hist_add_idx h = ?N mod 20" "hist_max h = min ?N 19"
    "\<And>j. j < ?N \<Longrightarrow> ?N < j + 20 \<Longrightarrow> hist_list h ! (j mod 20) = ls ! j"
    using assms(1) by (simp_all add: hist_inv_def hist_kept_def)
  have idx: "(if hist_add_idx h + 1 \<ge> HIST_MAX then 0 else hist_add_idx h + 1) = Suc ?N mod 20"
  proof -
    have "?N mod 20 < 20" by simp
    then show ?thesis using i(2) by (cases "?N mod 20 = 19") (simp_all add: HIST_MAX_def mod_Suc)
  qed
  have mx: "(if Suc ?N mod 20 > hist_max h then Suc ?N mod 20 else hist_max h) = hist_kept (ls @ [line])"
  proof (cases "?N < 19")
    case False
    have "Suc ?N mod 20 \<le> 19" using mod_less_divisor [of 20 "Suc ?N"] by linarith
    then show ?thesis using False i(3) by (simp add: hist_kept_def)
  qed (use i(3) in \<open>simp add: hist_kept_def\<close>)
  have s: "strlen (line @ NUL # r) = length line" using assms(2) by (rule strlen_append_NUL)
  obtain h' where h': "cread_add_to_hist (line @ NUL # r) h = Some h'" "hist_add_idx h' = Suc ?N mod 20"
    "hist_max h' = hist_kept (ls @ [line])" "hist_list h' = (hist_list h)[?N mod 20 := line]"
    using assms(3) i(1,2) unfolding cread_add_to_hist_def Let_def s idx mx by simp
  have "hist_list h' ! (j mod 20) = (ls @ [line]) ! j" if "j < Suc ?N" "Suc ?N < j + 20" for j
  proof (cases "j = ?N")
    case True
    then show ?thesis using h'(4) i(1) by (simp add: nth_append)
  next
    case False
    then have "j < ?N" "j mod 20 \<noteq> ?N mod 20" using that mod20_eq [of j ?N] by simp_all
    then show ?thesis using h'(4) i(4) [of j] that by (simp add: nth_append)
  qed
  then show ?thesis using h' i(1) by (simp add: hist_inv_def)
qed

text \<open>
  C26: The history is a correct browser over the lines entered: \<open>hist_prev\<close> steps one line further back and
  returns it until the last 19 lines are exhausted, \<open>hist_next\<close> steps forward again and ends on the empty
  line being typed, both refuse (and change nothing) at their end, and adding a line overwrites only
  the oldest slot - the ring of 20 slots refines the list of all lines with a position in it.
\<close>

theorem hist_browse:
  assumes "hist_inv ls k h" and "nul_free line" and "length line < HIST_SIZE"
  shows "(if k < hist_kept ls
          then fst (hist_prev h) = Some (ls ! (length ls - k - 1)) \<and> hist_inv ls (k + 1) (snd (hist_prev h))
          else hist_prev h = (None, h)) \<and>
    (if 0 < k
     then fst (hist_next h) = Some (if k = 1 then [] else ls ! (length ls - k + 1)) \<and> hist_inv ls (k - 1) (snd (hist_next h))
     else hist_next h = (None, h)) \<and>
    (\<exists>h'. cread_add_to_hist (line @ NUL # r) h = Some h' \<and> hist_inv (ls @ [line]) 0 (h'\<lparr>hist_cur := int (hist_add_idx h')\<rparr>))"
proof -
  have "\<not> k < hist_kept ls \<Longrightarrow> k = hist_kept ls" "\<not> 0 < k \<Longrightarrow> k = 0" using assms(1) by (simp_all add: hist_inv_def)
  then show ?thesis unfolding if_bool_eq_conj
    using hist_prev_spec [OF assms(1)] hist_next_spec [OF assms(1)] cread_add_to_hist_spec [OF assms]
    by blast
qed

text \<open>One line entered, one step back.\<close>

lemma hist_browse_witness:
  "fst (hist_prev (hist_init\<lparr>hist_max := 1, hist_add_idx := 1, hist_cur := 1, hist_list := ''boot'' # replicate 19 []\<rparr>)) = Some ''boot''"
proof -
  have "hist_inv [''boot''] 0 (hist_init\<lparr>hist_max := 1, hist_add_idx := 1, hist_cur := 1, hist_list := ''boot'' # replicate 19 []\<rparr>)"
    by (simp add: hist_inv_def hist_init_def hist_kept_def)
  from hist_browse [OF this, of "[]" "[]"] show ?thesis
    by (simp add: hist_kept_def HIST_SIZE_def MAX_CMDBUF_SIZE_def)
qed

end
