(* ===== verification/Completion.thy ===== *)
theory Completion
  imports CmdParse Env LineEdit
begin

text \<open>
  Completion of the line being typed: \<open>cmd_auto_complete\<close> and its helpers in \<^verbatim>\<open>common/command.c\<close>,
  \<open>env_complete\<close> in \<^verbatim>\<open>common/env_common.c\<close>. The candidates (the array \<open>cmdv\<close> up to its NULL) are a
  list of strings. \<open>None\<close> is an access outside an object: the code reads behind a candidate that is
  shorter than the word typed, or \<open>argv[-1]\<close>.
\<close>

section \<open>Candidates\<close>

type_synonym completer = "string list \<Rightarrow> char \<Rightarrow> nat \<Rightarrow> string list option"

record 'f comp_tbl = "'f cmd_tbl" +
  help_text :: "string option"
  complete :: "completer option"

text \<open>\<open>vallen\<close> and the name of the entry at \<open>i\<close>.\<close>

definition env_lval :: "string \<Rightarrow> string" where
  "env_lval lval = (case strchr lval (of_char CHR ''='') of None \<Rightarrow> take (strlen lval) lval
     | Some rval \<Rightarrow> take (length lval - length rval) lval)"

function env_complete_loop ::
  "string \<Rightarrow> string \<Rightarrow> nat \<Rightarrow> nat \<Rightarrow> nat \<Rightarrow> nat \<Rightarrow> string list option"
where
  "env_complete_loop d var maxv i found bufsz =
     (if i < length d
      then (if d ! i = NUL then Some []
            else (case next_nul d i of None \<Rightarrow> None
                  | Some nxt \<Rightarrow>
                      (let name = env_lval (take (nxt - i) (drop i d)); vallen = length name; len = strlen var
                       in if len > 0 \<and> (vallen < len \<or> memcmp (drop i d) var len \<noteq> 0)
                          then env_complete_loop d var maxv (nxt + 1) found bufsz
                          else if found \<ge> maxv - 2 \<or> bufsz < vallen + 1 then Some [''...'']
                          else map_option ((#) name)
                                 (env_complete_loop d var maxv (nxt + 1) (found + 1) (bufsz - (vallen + 1))))))
      else None)"
  by pat_completeness auto

termination
  by (relation "measure (\<lambda>(d, v, m, i, f, b). length d - i)") (auto dest: next_nul_ge)

declare env_complete_loop.simps [simp del]

definition env_complete :: "string \<Rightarrow> string \<Rightarrow> nat \<Rightarrow> nat \<Rightarrow> string list option" where
  "env_complete d var maxv bufsz = env_complete_loop d var maxv 0 0 bufsz"

definition word_ended :: "char \<Rightarrow> bool" where
  "word_ended last_char \<longleftrightarrow> last_char = NUL \<or> last_char = CHR '' '' \<or> last_char = CHR 0x09"

definition var_complete :: "string \<Rightarrow> completer" where
  "var_complete d argv last_char maxv =
     (if word_ended last_char \<and> length argv = 1 then env_complete d [] maxv 512
      else if \<not> word_ended last_char \<and> length argv = 2 then env_complete d (argv ! 1) maxv 512
      else Some [])"

text \<open>The entry \<open>find_cmd\<close> returns is the first of its name.\<close>

fun set_complete :: "string \<Rightarrow> completer \<Rightarrow> 'f comp_tbl list \<Rightarrow> 'f comp_tbl list" where
  "set_complete nm f [] = []"
| "set_complete nm f (c # table) =
     (if cmd_name c = nm then c\<lparr>complete := Some f\<rparr> # table else c # set_complete nm f table)"

text \<open>The search over the whole table is that of \<open>find_cmd_tbl\<close>; the entry it finds keeps its extra field.\<close>

definition find_cmd :: "'f comp_tbl list \<Rightarrow> string \<Rightarrow> 'f comp_tbl option" where
  "find_cmd table cmd =
     (case find_cmd_tbl cmd (map cmd_tbl.truncate table) of None \<Rightarrow> None
      | Some c \<Rightarrow> List.find (\<lambda>e. cmd_name e = cmd_name c) table)"

definition install_auto_complete_handler :: "string \<Rightarrow> completer \<Rightarrow> 'f comp_tbl list \<Rightarrow> 'f comp_tbl list" where
  "install_auto_complete_handler cmd f table =
     (case find_cmd table cmd of None \<Rightarrow> table | Some c \<Rightarrow> set_complete (cmd_name c) f table)"

definition install_auto_complete :: "string \<Rightarrow> 'f comp_tbl list \<Rightarrow> 'f comp_tbl list" where
  "install_auto_complete d table =
     install_auto_complete_handler ''run'' (var_complete d)
       (install_auto_complete_handler ''setenv'' (var_complete d)
         (install_auto_complete_handler ''printenv'' (var_complete d) table))"

fun all_cmds :: "nat \<Rightarrow> nat \<Rightarrow> 'f comp_tbl list \<Rightarrow> string list" where
  "all_cmds maxv n_found [] = []"
| "all_cmds maxv n_found (cmdtp # table) =
     (if n_found \<ge> maxv - 2 then [''...''] else cmd_name cmdtp # all_cmds maxv (n_found + 1) table)"

fun matching_cmds :: "string \<Rightarrow> nat \<Rightarrow> nat \<Rightarrow> nat \<Rightarrow> 'f comp_tbl list \<Rightarrow> string list" where
  "matching_cmds cmd len maxv n_found [] = []"
| "matching_cmds cmd len maxv n_found (cmdtp # table) =
     (if strlen (cmd_name cmdtp) < len \<or> memcmp cmd (cmd_name cmdtp) len \<noteq> 0
      then matching_cmds cmd len maxv n_found table
      else if n_found \<ge> maxv - 2 then [''...'']
      else cmd_name cmdtp # matching_cmds cmd len maxv (n_found + 1) table)"

definition complete_cmdv :: "'f comp_tbl list \<Rightarrow> completer" where
  "complete_cmdv table argv last_char maxv =
     (if argv = [] then Some (all_cmds maxv 0 table)
      else if length argv > 1 \<or> word_ended last_char
      then (case find_cmd table (argv ! 0) of None \<Rightarrow> Some []
            | Some c \<Rightarrow> (case complete c of None \<Rightarrow> Some [] | Some f \<Rightarrow> f argv last_char maxv))
      else (let cmd = argv ! 0;
                len = (case strchr cmd (of_char CHR ''.'') of None \<Rightarrow> strlen cmd | Some p \<Rightarrow> length cmd - length p)
            in Some (matching_cmds cmd len maxv 0 table)))"

text \<open>
  \<open>make_argv\<close> splits like \<open>parse_line\<close> but does not complain; \<open>room\<close> is \<open>argvsz - 1 - argc\<close>.
\<close>

fun make_argv :: "nat \<Rightarrow> string \<Rightarrow> string list" where
  "make_argv 0 s = []"
| "make_argv (Suc room) s =
     (let s = skip_blanks s
      in if deref s = NUL then []
         else (let (arg, s) = find_arg_end s in if deref s = NUL then [arg] else arg # make_argv room (tl s)))"

fun common_len :: "nat \<Rightarrow> string \<Rightarrow> string \<Rightarrow> nat" where
  "common_len 0 t s = 0"
| "common_len (Suc len) t s = (if deref t \<noteq> deref s then 0 else Suc (common_len len (tl t) (tl s)))"

fun common_loop :: "string \<Rightarrow> nat \<Rightarrow> string list \<Rightarrow> nat" where
  "common_loop anchor len [] = len"
| "common_loop anchor len (t # argv) = common_loop anchor (common_len len t anchor) argv"

definition find_common_prefix :: "string list \<Rightarrow> nat" where
  "find_common_prefix argv = (case argv of [] \<Rightarrow> 0 | anchor # argv \<Rightarrow> common_loop anchor (strlen anchor) argv)"

section \<open>Output\<close>

fun print_args :: "string option \<Rightarrow> string option \<Rightarrow> int \<Rightarrow> int \<Rightarrow> string list \<Rightarrow> string" where
  "print_args leader sep linemax i [] = [CHR 0x0A]"
| "print_args leader sep linemax i (a # argv) =
     (let ll = (case leader of None \<Rightarrow> 0 | Some l \<Rightarrow> int (strlen l));
          sl = (case sep of None \<Rightarrow> 0 | Some s \<Rightarrow> int (strlen s));
          len = int (strlen a) + sl;
          (pre, i) = (if i + len \<ge> linemax
                      then (CHR 0x0A # (case leader of None \<Rightarrow> [] | Some l \<Rightarrow> l), ll - sl)
                      else (case sep of None \<Rightarrow> [] | Some s \<Rightarrow> s, i))
      in pre @ a @ print_args leader sep linemax (i + len) argv)"

definition print_argv :: "string option \<Rightarrow> string option \<Rightarrow> string option \<Rightarrow> int \<Rightarrow> string list \<Rightarrow> string" where
  "print_argv banner leader sep linemax argv =
     (case banner of None \<Rightarrow> [] | Some b \<Rightarrow> CHR 0x0A # b) @ print_args leader sep linemax linemax argv"

section \<open>Completing the line\<close>

definition CONFIG_SYS_PROMPT :: string where "CONFIG_SYS_PROMPT = ''Aspenite>> ''"

record completed =
  ret :: int
  line :: string
  np :: nat
  colp :: nat
  shown :: string

text \<open>What is inserted: the text, the separator, or neither (\<open>s == NULL\<close>).\<close>

definition completion_text :: "string list \<Rightarrow> string list \<Rightarrow> (string \<times> bool) option option" where
  "completion_text argv cmdv =
     (if length cmdv = 1
      then (if argv = [] then None
            else (let k = strlen (last argv)
                  in if k \<le> strlen (hd cmdv) then Some (Some (drop k (hd cmdv), True)) else None))
      else if find_common_prefix cmdv \<noteq> 0
      then (if argv = [] then None
            else (let k = strlen (last argv); j = find_common_prefix cmdv
                  in if j > k then Some (Some (take (j - k) (drop k (hd cmdv)), False)) else Some None))
      else Some None)"

definition cmd_auto_complete ::
  "'f comp_tbl list \<Rightarrow> string \<Rightarrow> string \<Rightarrow> nat \<Rightarrow> nat \<Rightarrow> completed option"
where
  "cmd_auto_complete table prompt b n col =
     (if strcmp prompt CONFIG_SYS_PROMPT \<noteq> 0
      then Some \<lparr>ret = 0, line = b, np = n, colp = col, shown = []\<rparr>
      else (let cnt = strlen b;
                last_char = (if cnt \<ge> 1 then b ! (cnt - 1) else NUL);
                argv = make_argv CONFIG_SYS_MAXARGS (take cnt b)
            in case complete_cmdv table argv last_char 20 of None \<Rightarrow> None
               | Some cmdv \<Rightarrow>
                   (if cmdv = []
                    then Some \<lparr>ret = (if length argv > 1 then 0 else 1), line = b, np = n, colp = col,
                               shown = (if length argv > 1 then [] else [BEL])\<rparr>
                    else (case completion_text argv cmdv of None \<Rightarrow> None
                          | Some None \<Rightarrow>
                              Some \<lparr>ret = 1, line = b, np = n, colp = col,
                                    shown = print_argv None (Some ''  '') (Some '' '') 78 cmdv @ prompt @ take cnt b\<rparr>
                          | Some (Some (s, sep)) \<Rightarrow>
                              (let text = s @ (if sep then '' '' else []); k = length text
                               in if n + k \<ge> CONFIG_SYS_CBSIZE - 2
                                  then Some \<lparr>ret = 1, line = b, np = n, colp = col, shown = [BEL]\<rparr>
                                  else if cnt + k < length b
                                  then Some \<lparr>ret = 1, line = buf_write b cnt (text @ [NUL]), np = n + k, colp = col + k,
                                             shown = text @ (if sep then [] else [BEL])\<rparr>
                                  else None)))))"


section \<open>The longest common prefix\<close>

fun lcps :: "string list \<Rightarrow> string" where
  "lcps [] = []"
| "lcps (c # cs) = foldl longest_common_prefix c cs"

lemma common_len_eq:
  "nul_free s \<Longrightarrow> n \<le> length s \<Longrightarrow>
    take (common_len n t s) s = longest_common_prefix (take n s) t \<and> common_len n t s \<le> n"
proof (induction n t s rule: common_len.induct)
  case (2 n t s)
  then obtain c s' where s: "s = c # s'" by (cases s) auto
  show ?case using 2 by (cases t) (auto simp: s)
qed simp

lemma common_loop_eq:
  "nul_free s \<Longrightarrow> n \<le> length s \<Longrightarrow>
    take (common_loop s n argv) s = foldl longest_common_prefix (take n s) argv \<and> common_loop s n argv \<le> n"
proof (induction argv arbitrary: n)
  case (Cons t argv)
  have c: "take (common_len n t s) s = longest_common_prefix (take n s) t" "common_len n t s \<le> n"
    using common_len_eq Cons.prems by auto
  then have "common_len n t s \<le> length s" using Cons.prems(2) by simp
  from Cons.IH [OF Cons.prems(1) this] c show ?case by simp
qed simp

lemma find_common_prefix_eq:
  assumes "cands \<noteq> []" and "nul_free (hd cands)"
  shows "find_common_prefix cands = length (lcps cands)" "take (find_common_prefix cands) (hd cands) = lcps cands"
proof -
  obtain c cs where c: "cands = c # cs" "nul_free c" using assms by (cases cands) auto
  have "take (common_loop c (length c) cs) c = lcps cands" "common_loop c (length c) cs \<le> length c"
    using common_loop_eq [OF c(2), of "length c" cs] c(1) by simp_all
  then show "find_common_prefix cands = length (lcps cands)" "take (find_common_prefix cands) (hd cands) = lcps cands"
    using c by (simp_all add: find_common_prefix_def) (metis length_take min.absorb2)
qed

lemma foldl_lcp_greatest:
  "prefix w (foldl longest_common_prefix c cs) \<longleftrightarrow> prefix w c \<and> (\<forall>d \<in> set cs. prefix w d)"
proof (induction cs arbitrary: c)
  case (Cons d cs)
  have "prefix w (longest_common_prefix c d) \<longleftrightarrow> prefix w c \<and> prefix w d"
    using longest_common_prefix_max_prefix longest_common_prefix_prefix1 longest_common_prefix_prefix2 prefix_order.trans by metis
  then show ?case using Cons.IH by auto
qed simp

lemma lcps_greatest: "cands \<noteq> [] \<Longrightarrow> prefix w (lcps cands) \<longleftrightarrow> (\<forall>c \<in> set cands. prefix w c)"
  by (cases cands) (simp_all add: foldl_lcp_greatest)

section \<open>The editor stays inside its buffer\<close>

text \<open>
  Completion as the line editor calls it: declined when \<open>cmd_auto_complete\<close> returns 0, and \<open>None\<close> when it
  reads outside an object, as it does for a word that goes on behind the dot of a command's name.
\<close>

definition auto_complete_cb :: "'f comp_tbl list \<Rightarrow> string \<Rightarrow> line_completion" where
  "auto_complete_cb table prompt b n =
     (case cmd_auto_complete table prompt b n (strlen prompt + n) of None \<Rightarrow> None
      | Some r \<Rightarrow> Some (if ret r = 0 then None else Some (line r, np r)))"

lemma cmd_auto_complete_bounds:
  assumes "cmd_auto_complete table prompt b n col = Some r" and "n \<le> 509"
  shows "length (line r) = length b \<and> n \<le> np r \<and> np r \<le> 509 \<and> take (strlen b) (line r) = take (strlen b) b"
proof -
  let ?cnt = "strlen b"
  define argv where "argv = make_argv CONFIG_SYS_MAXARGS (take ?cnt b)"
  define last_char where "last_char = (if ?cnt \<ge> 1 then b ! (?cnt - 1) else NUL)"
  have d: "cmd_auto_complete table prompt b n col =
    (if strcmp prompt CONFIG_SYS_PROMPT \<noteq> 0 then Some \<lparr>ret = 0, line = b, np = n, colp = col, shown = []\<rparr>
     else case complete_cmdv table argv last_char 20 of None \<Rightarrow> None
       | Some cmdv \<Rightarrow>
          (if cmdv = []
           then Some \<lparr>ret = (if length argv > 1 then 0 else 1), line = b, np = n, colp = col,
                      shown = (if length argv > 1 then [] else [BEL])\<rparr>
           else (case completion_text argv cmdv of None \<Rightarrow> None
                 | Some None \<Rightarrow>
                     Some \<lparr>ret = 1, line = b, np = n, colp = col,
                           shown = print_argv None (Some ''  '') (Some '' '') 78 cmdv @ prompt @ take ?cnt b\<rparr>
                 | Some (Some (s, sep)) \<Rightarrow>
                     (let text = s @ (if sep then '' '' else []); k = length text
                      in if n + k \<ge> CONFIG_SYS_CBSIZE - 2
                         then Some \<lparr>ret = 1, line = b, np = n, colp = col, shown = [BEL]\<rparr>
                         else if ?cnt + k < length b
                         then Some \<lparr>ret = 1, line = buf_write b ?cnt (text @ [NUL]), np = n + k, colp = col + k,
                                    shown = text @ (if sep then [] else [BEL])\<rparr>
                         else None))))"
    unfolding cmd_auto_complete_def argv_def last_char_def Let_def by (rule refl)
  show ?thesis
    using assms unfolding d
    by (auto simp: Let_def CONFIG_SYS_CBSIZE_def buf_write_def split: if_splits option.splits)
qed


lemma auto_complete_cb_ok: "complete_ok (auto_complete_cb table prompt)"
  unfolding complete_ok_def auto_complete_cb_def
  by (auto split: option.splits if_splits dest: cmd_auto_complete_bounds)

interpretation cb: line_completer "auto_complete_cb table prompt" for table :: "'f comp_tbl list" and prompt
  by unfold_locales (rule auto_complete_cb_ok)

text \<open>
  C24: The line editor with its completion: for every table of commands, every history and every sequence of
  keys, arrows, completions and breaks included, \<open>cread_line\<close> leaves its objects exactly when some key does, in
  the state the keys before it lead to: Enter, when the line there has at least 256 characters and does not start
  with an exclamation mark, so that it overflows its slot of the history; or Tab at the end of the line and outside an
  escape sequence, when \<open>cmd_auto_complete\<close> reads behind a candidate or the argument vector for the
  text before the cursor. Nothing else ever leaves the 512-byte console buffer.
\<close>

theorem cread_line_completion_safe:
  assumes "hist_ok h" and "length b = CONSOLE_SIZE"
  shows "cread_line (auto_complete_cb table prompt) b h keys = None \<longleftrightarrow>
    (\<exists>ks c rest st. keys = ks @ c # rest \<and> after_keys (auto_complete_cb table prompt) ks (line_start b h) = Some st \<and> edit_ok st \<and>
      ((c = CHR 0x0A \<or> c = CHR 0x0D) \<and> 256 \<le> strlen ((buf st)[eol_num st := NUL]) \<and> buf st ! 0 \<noteq> CHR ''!'' \<or>
       c = CHR 0x09 \<and> esc_len st = 0 \<and> num st = eol_num st \<and>
         cmd_auto_complete table prompt ((buf st)[num st := NUL]) (num st) (strlen prompt + num st) = None))"
proof -
  have "auto_complete_cb table prompt x n = None \<longleftrightarrow> cmd_auto_complete table prompt x n (strlen prompt + n) = None" for x n
    by (simp add: auto_complete_cb_def split: option.split)
  then show ?thesis unfolding cb.cread_line_None [OF assms] key_fails_def overflows_slot_def completes_outside_def
    by (simp add: HIST_SIZE_def MAX_CMDBUF_SIZE_def)
qed

section \<open>Completing a command name\<close>

lemma matching_cmds_eq:
  assumes "len \<le> length cmd" and "\<forall>c \<in> set table. nul_free (cmd_name c)"
    and "k + length (filter (prefix (take len cmd)) (map cmd_name table)) \<le> maxv - 2"
  shows "matching_cmds cmd len maxv k table = filter (prefix (take len cmd)) (map cmd_name table)"
  using assms(2,3)
proof (induction table arbitrary: k)
  case (Cons c table)
  have n: "nul_free (cmd_name c)" using Cons.prems by simp
  have m: "strlen (cmd_name c) < len \<or> memcmp cmd (cmd_name c) len \<noteq> 0 \<longleftrightarrow> \<not> prefix (take len cmd) (cmd_name c)"
  proof (cases "length (cmd_name c) < len")
    case True
    then show ?thesis using n assms(1) by (auto dest: prefix_length_le)
  next
    case False
    then have "memcmp cmd (cmd_name c) len = 0 \<longleftrightarrow> take len cmd = take len (cmd_name c)"
      using memcmp_eq_0 assms(1) by simp
    moreover have "take len cmd = take len (cmd_name c) \<longleftrightarrow> prefix (take len cmd) (cmd_name c)"
      using assms(1) by (metis append_eq_conv_conj length_take min.absorb2 prefix_def take_is_prefix)
    ultimately show ?thesis using False n by simp
  qed
  show ?case
  proof (cases "prefix (take len cmd) (cmd_name c)")
    case True
    then show ?thesis using Cons.IH [of "k + 1"] Cons.prems m by (simp del: length_filter_map)
  next
    case False
    then show ?thesis using Cons.IH [of k] Cons.prems m by (simp del: length_filter_map)
  qed
qed simp

lemma make_argv_word:
  assumes "list_all blank sp" and "w \<noteq> []" and "nul_free w" and "list_all (\<lambda>c. \<not> blank c) w"
  shows "make_argv (Suc room) (sp @ w) = [w]"
proof -
  have "skip_blanks (sp @ w) = w" using assms(1,2,4) by (induction sp) (cases w, auto)
  moreover have "find_arg_end w = (w, [])" using assms(3,4) by (induction w) auto
  ultimately show ?thesis using assms(2,3) by (simp add: deref_nul_free)
qed

text \<open>What the line becomes: the only candidate and a blank, or what all candidates have in common.\<close>

definition completed_word :: "string list \<Rightarrow> string" where
  "completed_word cands = (case cands of [c] \<Rightarrow> c @ '' '' | _ \<Rightarrow> lcps cands)"

lemma completion_text_word:
  assumes "cands \<noteq> []" and "\<forall>c \<in> set cands. prefix w c \<and> nul_free c" and "nul_free w" and "w \<noteq> []"
  shows "case completion_text [w] cands of None \<Rightarrow> False
    | Some None \<Rightarrow> completed_word cands = w
    | Some (Some (t, sep)) \<Rightarrow> w @ t @ (if sep then '' '' else []) = completed_word cands"
proof (cases "length cands = 1")
  case True
  then obtain c where c: "cands = [c]" by (auto simp: length_Suc_conv)
  then obtain t where "c = w @ t" using assms(2) by (auto simp: prefix_def)
  then show ?thesis using c assms(2,3) by (simp add: completion_text_def completed_word_def)
next
  case False
  have h: "nul_free (hd cands)" using assms(1,2) by simp
  note f = find_common_prefix_eq [OF assms(1) h]
  have w: "prefix w (lcps cands)" using lcps_greatest [OF assms(1)] assms(2) by blast
  then obtain t where t: "lcps cands = w @ t" by (auto simp: prefix_def)
  have cw: "completed_word cands = lcps cands"
    using False by (auto simp: completed_word_def split: list.split)
  have "take (length (w @ t)) (hd cands) = w @ t" using f by (simp add: t)
  then have "take (length t) (drop (length w) (hd cands)) = t"
    by (metis append_eq_conv_conj length_append take_drop add.commute)
  then show ?thesis using False assms(3,4) f(1) t cw by (auto simp: completion_text_def Let_def)
qed

text \<open>
  C25: Completing a command name: on a line with one (partial) word \<open>w\<close>, \<open>cmd_auto_complete\<close> looks at
  exactly the commands whose name starts with \<open>w\<close>. With none it rings the bell and changes nothing;
  otherwise, when it fits, the word becomes the only such command followed by a blank, or the longest
  common prefix of the several, NUL-terminated, with the cursor behind it.
\<close>

theorem cmd_auto_complete_word:
  assumes "list_all blank sp" and "w \<noteq> []" and "nul_free w" and "list_all (\<lambda>c. \<not> blank c) w" and "CHR ''.'' \<notin> set w"
    and "\<forall>c \<in> set table. nul_free (cmd_name c)" and "nul_free sp"
    and "cands = filter (prefix w) (map cmd_name table)" and "length cands \<le> 18"
    and "b = sp @ w @ NUL # rest" and "length b = CONSOLE_SIZE" and "n = length (sp @ w)"
    and "length (sp @ completed_word cands) < 510"
  shows "\<exists>r. cmd_auto_complete table CONFIG_SYS_PROMPT b n col = Some r \<and> ret r = 1 \<and>
    (if cands = [] then line r = b \<and> np r = n \<and> shown r = [BEL]
     else take (np r) (line r) = sp @ completed_word cands \<and> np r = length (sp @ completed_word cands) \<and>
       line r ! np r = NUL \<and> colp r = col + (np r - n))"
proof -
  have cnt: "strlen b = n" using assms(3,7,10,12) strlen_append_NUL [of "sp @ w" rest] by simp
  have tk: "take n b = sp @ w" using assms(10,12) by simp
  have n0: "n \<ge> 1" using assms(2,12) by (cases w) simp_all
  have "b ! (n - 1) = (sp @ w) ! (n - 1)" 
  proof -
    have "n - 1 < length (sp @ w)" using assms(12) n0 by linarith
    moreover have "b = (sp @ w) @ NUL # rest" by (simp add: assms(10))
    ultimately show ?thesis by (simp only: nth_append if_True)
  qed
  also have "\<dots> = last w" using assms(2,12) last_conv_nth [of "sp @ w"] by simp
  finally have lc: "\<not> word_ended (b ! (n - 1))"
    using assms(2-4) unfolding word_ended_def by (metis blank_def last_in_set list_all_iff nul_free_def)
  have argv: "make_argv CONFIG_SYS_MAXARGS (take n b) = [w]"
    unfolding tk using make_argv_word [OF assms(1-4), of 15] by (simp add: CONFIG_SYS_MAXARGS_def eval_nat_numeral)
  have dot: "strchr w (of_char CHR ''.'') = None"
    using strchr_dropWhile [OF assms(3), of "of_char CHR ''.''", unfolded char_of_char] assms(5) by (auto simp: NUL_def Let_def dropWhile_eq_Nil_conv)
  have cv: "complete_cmdv table [w] (b ! (n - 1)) 20 = Some cands"
    using matching_cmds_eq [of "length w" w table 0 20] assms(3,6,8,9) lc dot by (simp add: complete_cmdv_def)
  have pr: "strcmp CONFIG_SYS_PROMPT CONFIG_SYS_PROMPT = 0"
    by (subst strcmp_eq_0) (simp_all add: CONFIG_SYS_PROMPT_def NUL_def)
  note d = cmd_auto_complete_def cnt n0 argv cv cv [unfolded One_nat_def] pr Let_def
  show ?thesis
  proof (cases "cands = []")
    case True
    then show ?thesis using n0 by (simp add: d)
  next
    case False
    have cs: "\<forall>c \<in> set cands. prefix w c \<and> nul_free c" using assms(6,8) by auto
    note ct = completion_text_word [OF False cs assms(3,2)]
    show ?thesis
    proof (cases "completion_text [w] cands")
      case None
      then show ?thesis using ct by simp
    next
      case (Some q)
      show ?thesis
      proof (cases q)
        case None
        then have "completed_word cands = w" using ct Some by simp
        moreover have "b ! n = NUL" unfolding assms(10,12) by (simp add: nth_append)
        moreover have "cmd_auto_complete table CONFIG_SYS_PROMPT b n col = Some \<lparr>ret = 1, line = b, np = n, colp = col,
            shown = print_argv None (Some ''  '') (Some '' '') 78 cands @ CONFIG_SYS_PROMPT @ take n b\<rparr>"
          using False Some None n0 by (simp add: d)
        ultimately show ?thesis using False tk assms(12) by simp
      next
        case (Some q')
        obtain t sep where q': "q' = (t, sep)" by (cases q')
        define u where "u = t @ (if sep then '' '' else [])"
        have u: "completed_word cands = w @ u" using ct \<open>completion_text [w] cands = Some q\<close> Some q' by (simp add: u_def)
        have k: "n + length u < 510" using assms(12,13) u by simp
        let ?b = "buf_write b n (u @ [NUL])"
        have "n + length u < length b" using k assms(11) by (simp add: CONSOLE_SIZE_def)
        then have r: "cmd_auto_complete table CONFIG_SYS_PROMPT b n col = Some \<lparr>ret = 1, line = ?b, np = n + length u,
            colp = col + length u, shown = u @ (if sep then [] else [BEL])\<rparr>"
          using False \<open>completion_text [w] cands = Some q\<close> Some q' k n0 unfolding u_def
          by (simp add: d CONFIG_SYS_CBSIZE_def)
        have "take (n + length u) ?b = (sp @ w) @ u" "?b ! (n + length u) = NUL"
          using tk assms(12) by (simp_all add: buf_write_def nth_append)
        then show ?thesis unfolding r using False u assms(12) by (simp add: add.assoc)
      qed
    qed
  qed
qed


text \<open>Two commands that start with \<open>pr\<close>.\<close>

definition sample_cmd :: "string \<Rightarrow> unit comp_tbl" where
  "sample_cmd nm = \<lparr>cmd_name = nm, maxargs = 16, repeatable = 1, cmd_fn = (), usage = [], help_text = None, complete = None\<rparr>"

lemma cmd_auto_complete_word_witness:
  "\<exists>r. cmd_auto_complete [sample_cmd ''printenv'', sample_cmd ''setenv'', sample_cmd ''protect'', sample_cmd ''prompt'']
     CONFIG_SYS_PROMPT (''pro'' @ NUL # replicate 508 NUL) 3 13 = Some r \<and>
   ret r = 1 \<and> take (np r) (line r) = ''pro'' \<and> np r = 3"
proof -
  let ?t = "[sample_cmd ''printenv'', sample_cmd ''setenv'', sample_cmd ''protect'', sample_cmd ''prompt'']"
  have c: "filter (prefix ''pro'') (map cmd_name ?t) = [''protect'', ''prompt'']"
    by (simp add: sample_cmd_def)
  have w: "completed_word [''protect'', ''prompt''] = ''pro''" by (simp add: completed_word_def)
  have n: "\<forall>c \<in> set ?t. nul_free (cmd_name c)" by (simp add: sample_cmd_def NUL_def)
  show ?thesis
    using cmd_auto_complete_word [of "[]" "''pro''" ?t "[''protect'', ''prompt'']" "''pro'' @ NUL # replicate 508 NUL"
        "replicate 508 NUL" 3 13] n
    unfolding c by (auto simp: w NUL_def blank_def CONSOLE_SIZE_def)
qed

text \<open>
  A word with a length modifier: the candidate is shorter than the word, and the code goes on reading
  behind its end. So the keys \<open>cp.b\<close> and Tab make the editor leave its objects.
\<close>

lemma cmd_auto_complete_dot:
  "cmd_auto_complete [sample_cmd ''cp''] CONFIG_SYS_PROMPT (''cp.b'' @ NUL # replicate 507 NUL) 4 15 = None"
  by code_simp

theorem cread_line_completion_safe_witness:
  "cread_line (auto_complete_cb [sample_cmd ''cp''] CONFIG_SYS_PROMPT) (replicate 512 NUL) hist_init (''cp.b'' @ [CHR 0x09]) = None"
proof -
  let ?cb = "auto_complete_cb [sample_cmd ''cp''] CONFIG_SYS_PROMPT" and ?s = "line_start (replicate 512 NUL) hist_init"
  have b: "length (replicate 512 NUL) = CONSOLE_SIZE" by (simp add: CONSOLE_SIZE_def)
  have "map_option (\<lambda>st. (buf st, num st, eol_num st, esc_len st)) (after_keys ?cb ''cp.b'' ?s) = Some (''cp.b'' @ replicate 508 NUL, 4, 4, 0)"
    by code_simp
  then obtain st where st: "after_keys ?cb ''cp.b'' ?s = Some st" "buf st = ''cp.b'' @ NUL # replicate 507 NUL" "num st = 4" "eol_num st = 4" "esc_len st = 0"
    by (auto simp: numeral_eq_Suc)
  have ok: "edit_ok st" using cb.after_keys_ok [OF _ st(1)] by (simp add: edit_ok_def line_start_def hist_init_ok CONSOLE_SIZE_def)
  have u: "(buf st)[num st := NUL] = ''cp.b'' @ NUL # replicate 507 NUL" by (simp add: st)
  have d: "cmd_auto_complete [sample_cmd ''cp''] CONFIG_SYS_PROMPT ((buf st)[num st := NUL]) (num st) (strlen CONFIG_SYS_PROMPT + num st) = None"
    using cmd_auto_complete_dot unfolding u unfolding st(3) by (simp add: CONFIG_SYS_PROMPT_def NUL_def)
  have e: "num st = eol_num st" by (simp add: st)
  show ?thesis unfolding cread_line_completion_safe [OF hist_init_ok b]
    by (intro exI [of _ "''cp.b''"] exI [of _ "CHR 0x09"] exI [of _ "[]"] exI [of _ st] conjI disjI2 st(1,5) ok d e refl)
qed

end
