(* ===== verification/Commands.thy ===== *)
theory Commands
  imports Completion "HOL-Library.Char_ord" "HOL-Library.List_Lexorder" "HOL-Library.Multiset"
begin

text \<open>
  The commands \<^verbatim>\<open>common/command.c\<close> defines itself: \<open>version\<close>, \<open>echo\<close>, \<open>test\<close>, \<open>exit\<close> and \<open>help\<close>.
  What they print is a string; \<open>argv\<close> is the list of the arguments, the name of the command first.
\<close>

section \<open>Version, echo and exit\<close>

definition do_version :: "string \<Rightarrow> string \<times> int" where
  "do_version version_string = (CHR 0x0A # version_string @ [CHR 0x0A], 0)"

text \<open>One argument: what is put out, and whether \<open>putnl\<close> stays set.\<close>

fun echo_arg :: "string \<Rightarrow> bool \<Rightarrow> string \<times> bool" where
  "echo_arg [] putnl = ([], putnl)"
| "echo_arg (c # p) putnl =
     (if c = NUL then ([], putnl)
      else if c = CHR 0x5C \<and> deref p = CHR ''c'' then echo_arg (tl p) False
      else (let (s, putnl) = echo_arg p putnl in (c # s, putnl)))"

fun echo_args :: "bool \<Rightarrow> string list \<Rightarrow> bool \<Rightarrow> string" where
  "echo_args sp [] putnl = (if putnl then [CHR 0x0A] else [])"
| "echo_args sp (a # argv) putnl =
     (let (s, putnl) = echo_arg a putnl in (if sp then '' '' else []) @ s @ echo_args True argv putnl)"

definition do_echo :: "string list \<Rightarrow> string \<times> int" where
  "do_echo argv = (echo_args False (tl argv) True, 0)"

definition do_exit :: "string list \<Rightarrow> int" where
  "do_exit argv =
     (let r = (if length argv > 1 then fst (simple_strtoul (argv ! 1) 10) else 0) in sint (- r - 2))"

section \<open>Test\<close>

definition truth :: "bool \<Rightarrow> int" where "truth b = (if b then 1 else 0)"

definition test_unary :: "string \<Rightarrow> string \<Rightarrow> int option" where
  "test_unary a0 a1 =
     (if strcmp a0 ''-z'' = 0 then Some (if strlen a1 = 0 then 1 else 0)
      else if strcmp a0 ''-n'' = 0 then Some (if strlen a1 = 0 then 0 else 1)
      else None)"

definition test_binary :: "string \<Rightarrow> string \<Rightarrow> string \<Rightarrow> int option" where
  "test_binary a0 a1 a2 =
     (let num = (\<lambda>s. fst (simple_strtol s 10))
      in if strcmp a1 ''='' = 0 then Some (truth (strcmp a0 a2 = 0))
         else if strcmp a1 ''!='' = 0 then Some (truth (strcmp a0 a2 \<noteq> 0))
         else if strcmp a1 ''>'' = 0 then Some (truth (strcmp a0 a2 > 0))
         else if strcmp a1 ''<'' = 0 then Some (truth (strcmp a0 a2 < 0))
         else if strcmp a1 ''-eq'' = 0 then Some (truth (num a0 = num a2))
         else if strcmp a1 ''-ne'' = 0 then Some (truth (num a0 \<noteq> num a2))
         else if strcmp a1 ''-lt'' = 0 then Some (truth (num a0 < num a2))
         else if strcmp a1 ''-le'' = 0 then Some (truth (num a0 \<le> num a2))
         else if strcmp a1 ''-gt'' = 0 then Some (truth (num a0 > num a2))
         else if strcmp a1 ''-ge'' = 0 then Some (truth (num a0 \<ge> num a2))
         else None)"

definition test_join :: "int \<Rightarrow> int \<Rightarrow> int \<Rightarrow> int" where
  "test_join last_cmp last_expr expr =
     (if last_cmp = 0 then truth (last_expr \<noteq> 0 \<or> expr \<noteq> 0)
      else if last_cmp = 1 then truth (last_expr \<noteq> 0 \<and> expr \<noteq> 0) else expr)"

definition test_adv :: "string \<Rightarrow> nat" where
  "test_adv a =
     (if strcmp a ''-o'' = 0 \<or> strcmp a ''-a'' = 0 then 1
      else if strcmp a ''-z'' = 0 \<or> strcmp a ''-n'' = 0 then 2 else 3)"

lemma test_adv_pos [simp]: "0 < test_adv a" by (simp add: test_adv_def)

function test_loop :: "string list \<Rightarrow> int \<Rightarrow> int \<Rightarrow> int \<Rightarrow> int" where
  "test_loop ap expr last_expr last_cmp =
     (if ap = [] then expr
      else (let adv = test_adv (ap ! 0)
            in if length ap < adv then 1
               else if adv = 1
               then (if strcmp (ap ! 0) ''-o'' = 0 then test_loop (drop adv ap) expr expr 0
                     else if strcmp (ap ! 0) ''-a'' = 0 then test_loop (drop adv ap) expr expr 1 else 1)
               else (case (if adv = 2 then test_unary (ap ! 0) (ap ! 1) else test_binary (ap ! 0) (ap ! 1) (ap ! 2)) of
                       None \<Rightarrow> 1
                     | Some e \<Rightarrow> test_loop (drop adv ap) (test_join last_cmp last_expr e) last_expr (- 1))))"
  by pat_completeness auto

termination
  by (relation "measure (\<lambda>(ap, e, l, c). length ap)") (auto simp: Let_def)

declare test_loop.simps [simp del]

definition do_test :: "string list \<Rightarrow> int" where
  "do_test argv =
     (if length argv < 3 then 1
      else (let neg = strcmp (argv ! 1) ''!'' = 0;
                expr = test_loop (drop (if neg then 2 else 1) argv) (- 1) (- 1) (- 1);
                expr = (if neg then truth (expr = 0) else expr)
            in truth (expr = 0)))"

section \<open>Help\<close>

text \<open>One pass of the bubble sort over the array of entries, with its count of swaps; then the passes.\<close>

fun sort_pass :: "nat \<Rightarrow> nat \<Rightarrow> 'f comp_tbl list \<Rightarrow> nat \<Rightarrow> 'f comp_tbl list \<times> nat" where
  "sort_pass 0 j cmds swaps = (cmds, swaps)"
| "sort_pass (Suc k) j cmds swaps =
     (if strcmp (cmd_name (cmds ! j)) (cmd_name (cmds ! (j + 1))) > 0
      then sort_pass k (j + 1) (cmds[j := cmds ! (j + 1), j + 1 := cmds ! j]) (swaps + 1)
      else sort_pass k (j + 1) cmds swaps)"

fun sort_cmds :: "nat \<Rightarrow> 'f comp_tbl list \<Rightarrow> 'f comp_tbl list" where
  "sort_cmds 0 cmds = cmds"
| "sort_cmds (Suc i) cmds =
     (let (cmds, swaps) = sort_pass (Suc i) 0 cmds 0 in if swaps = 0 then cmds else sort_cmds i cmds)"

text \<open>\<open>ctrlc\<close> is asked before each line; its answers are a list, at its end the user does nothing.\<close>

fun print_usages :: "bool list \<Rightarrow> 'f comp_tbl list \<Rightarrow> string \<times> int" where
  "print_usages ctrlc [] = ([], 0)"
| "print_usages ctrlc (c # cmds) =
     (if ctrlc \<noteq> [] \<and> hd ctrlc then ([], 1)
      else (let (s, rc) = print_usages (tl ctrlc) cmds in (usage c @ s, rc)))"

fun help_names :: "'f comp_tbl list \<Rightarrow> string list \<Rightarrow> int \<Rightarrow> string \<times> int" where
  "help_names table [] rcode = ([], rcode)"
| "help_names table (a # argv) rcode =
     (let (t, rcode) =
            (case find_cmd table a of
               Some c \<Rightarrow> (cmd_name c @ '' '' @ (case help_text c of Some h \<Rightarrow> h | None \<Rightarrow> ''- No help available.'' @ [CHR 0x0A]) @ [CHR 0x0A],
                          if help_text c = None then 1 else rcode)
             | None \<Rightarrow> (''Unknown command '' @ [CHR 0x27] @ a @ [CHR 0x27] @
                          '' - try '' @ [CHR 0x27] @ ''help'' @ [CHR 0x27] @ '' without arguments for list of all known commands'' @
                          [CHR 0x0A, CHR 0x0A], 1));
          (s, rcode) = help_names table argv rcode
      in (t @ s, rcode))"

definition do_help :: "bool list \<Rightarrow> 'f comp_tbl list \<Rightarrow> string list \<Rightarrow> string \<times> int" where
  "do_help ctrlc table argv =
     (if length argv = 1 then print_usages ctrlc (sort_cmds (length table - 1) table)
      else help_names table (tl argv) 0)"


section \<open>The order of the names\<close>

definition ascii :: "string \<Rightarrow> bool" where "ascii s \<longleftrightarrow> nul_free s \<and> (\<forall>c \<in> set s. of_char c < (128 :: nat))"

lemma ascii_simps [simp]:
  "ascii []" "ascii (c # s) \<longleftrightarrow> c \<noteq> NUL \<and> of_char c < (128 :: nat) \<and> ascii s"
  by (auto simp: ascii_def)

lemma ascii_diff:
  fixes a b :: char
  assumes "of_char a < (128 :: nat)" and "of_char b < (128 :: nat)"
  shows "sint (of_char a - of_char b :: u8) = int (of_char a) - int (of_char b)"
proof -
  let ?d = "int (of_char a) - int (of_char b)"
  have "(of_char a - of_char b :: u8) = of_int ?d"
    by (simp add: of_int_of_char of_nat_of_char)
  moreover have "sint (of_int ?d :: u8) = ?d"
    unfolding signed_of_int using assms by (simp add: signed_take_bit_int_eq_self)
  ultimately show ?thesis by simp
qed

text \<open>On ASCII strings \<open>strcmp\<close> is the lexicographic order.\<close>

lemma strcmp_less:
  "ascii s \<Longrightarrow> ascii t \<Longrightarrow> (strcmp s t > 0 \<longleftrightarrow> t < s) \<and> (strcmp s t < 0 \<longleftrightarrow> s < t)"
proof (induction s arbitrary: t)
  case Nil
  show ?case
  proof (cases t)
    case Nil
    then show ?thesis by (subst strcmp.simps, simp)+
  next
    case (Cons d t')
    have "sint (of_char NUL - of_char d :: u8) = int (of_char NUL) - int (of_char d)"
      using Nil.prems Cons by (intro ascii_diff) (simp_all add: NUL_def)
    moreover have "(of_char d :: nat) \<noteq> 0" using Nil.prems Cons by (metis ascii_simps(2) of_char_NUL of_char_eq_iff)
    ultimately show ?thesis using Cons by (subst (1 2) strcmp.simps) simp
  qed
next
  case (Cons c s)
  have c: "c \<noteq> NUL" "of_char c < (128 :: nat)" using Cons.prems by simp_all
  show ?case
  proof (cases t)
    case Nil
    have "sint (of_char c - of_char NUL :: u8) = int (of_char c) - int (of_char NUL)"
      using c by (intro ascii_diff) (simp_all add: NUL_def)
    moreover have "(of_char c :: nat) \<noteq> 0" using c(1) by (metis of_char_NUL of_char_eq_iff)
    moreover have "(of_char c :: u8) \<noteq> 0" using c(1) by (metis of_char_NUL of_char_u8_inj)
    ultimately show ?thesis using Nil by (subst (1 2) strcmp.simps) (simp add: Let_def)
  next
    case (Cons d t')
    have d: "d \<noteq> NUL" "of_char d < (128 :: nat)" "ascii t'" using Cons.prems \<open>t = d # t'\<close> by simp_all
    show ?thesis
    proof (cases "c = d")
      case True
      then have "strcmp (c # s) t = strcmp s t'" using c(1) \<open>t = d # t'\<close> by (subst strcmp.simps) simp
      then show ?thesis using Cons.IH [of t'] Cons.prems(1) d(3) True \<open>t = d # t'\<close> by simp
    next
      case False
      have "strcmp (c # s) t = int (of_char c) - int (of_char d)"
        using ascii_diff [OF c(2) d(2)] False \<open>t = d # t'\<close> by (subst strcmp.simps) simp
      then show ?thesis using False \<open>t = d # t'\<close> by (auto simp: less_char_def)
    qed
  qed
qed


section \<open>The list of commands is sorted\<close>

definition pass_ok :: "nat \<Rightarrow> nat \<Rightarrow> 'f comp_tbl list \<Rightarrow> 'f comp_tbl list \<Rightarrow> bool" where
  "pass_ok k j cs cs' \<longleftrightarrow> mset cs' = mset cs \<and> length cs' = length cs \<and> drop (j + k + 1) cs' = drop (j + k + 1) cs \<and>
     take j cs' = take j cs \<and> cmd_name (cs ! j) \<le> cmd_name (cs' ! (j + k)) \<and>
     (\<forall>m. j \<le> m \<and> m \<le> j + k \<longrightarrow> cmd_name (cs' ! m) \<le> cmd_name (cs' ! (j + k)))"

lemma pass_ok_Suc:
  assumes "pass_ok k (j + 1) cs1 cs'" and "mset cs1 = mset cs" and "length cs1 = length cs" and "Suc (j + k) < length cs"
    and "drop (j + 2) cs1 = drop (j + 2) cs" and "take j cs1 = take j cs"
    and "cmd_name (cs ! j) \<le> cmd_name (cs1 ! (j + 1))" and "cmd_name (cs1 ! j) \<le> cmd_name (cs1 ! (j + 1))"
  shows "pass_ok (Suc k) j cs cs'"
proof -
  have r: "mset cs' = mset cs" "length cs' = length cs" "drop (j + k + 2) cs' = drop (j + k + 2) cs1" "take (j + 1) cs' = take (j + 1) cs1"
    "cmd_name (cs1 ! (j + 1)) \<le> cmd_name (cs' ! Suc (j + k))"
    "\<And>m. j + 1 \<le> m \<Longrightarrow> m \<le> Suc (j + k) \<Longrightarrow> cmd_name (cs' ! m) \<le> cmd_name (cs' ! Suc (j + k))"
    using assms(1-3) by (simp_all add: pass_ok_def)
  have j: "cs' ! j = cs1 ! j" using r(4) by (metis Suc_eq_plus1 lessI nth_take)
  have "cmd_name (cs' ! m) \<le> cmd_name (cs' ! Suc (j + k))" if "j \<le> m" "m \<le> Suc (j + k)" for m
  proof (cases "m = j")
    case True
    then show ?thesis using j assms(8) r(5) by (metis order.trans)
  next
    case False
    then show ?thesis using r(6) [of m] that by simp
  qed
  moreover have "drop (j + k + 2) cs1 = drop (j + k + 2) cs"
    using arg_cong [OF assms(5), of "drop k"] by (simp add: add.commute add.left_commute)
  moreover have "take j cs' = take j cs"
    using arg_cong [OF r(4), of "take j"] assms(6) by simp
  moreover have "cmd_name (cs ! j) \<le> cmd_name (cs' ! Suc (j + k))" using assms(7) r(5) by (rule order.trans)
  ultimately show ?thesis using r(1-3) by (simp add: pass_ok_def)
qed

lemma sort_pass_spec:
  assumes "j + k < length cs" and "\<forall>c \<in> set cs. ascii (cmd_name c)" and "sort_pass k j cs n = (cs', n')"
  shows "pass_ok k j cs cs' \<and> n \<le> n' \<and>
    (n' = n \<longrightarrow> cs' = cs \<and> (\<forall>m. j \<le> m \<and> m < j + k \<longrightarrow> cmd_name (cs ! m) \<le> cmd_name (cs ! Suc m)))"
  using assms
proof (induction k j cs n arbitrary: cs' n' rule: sort_pass.induct)
  case (1 j cmds swaps)
  then show ?case by (auto simp: pass_ok_def le_antisym)
next
  case (2 k j cmds swaps)
  let ?x = "cmds ! j" and ?y = "cmds ! (j + 1)"
  let ?sw = "cmds[j := ?y, j + 1 := ?x]"
  have asc: "ascii (cmd_name ?x)" "ascii (cmd_name ?y)" using 2(3,4) by simp_all
  have cmp: "strcmp (cmd_name ?x) (cmd_name ?y) > 0 \<longleftrightarrow> cmd_name ?y < cmd_name ?x" using strcmp_less asc by blast
  show ?case
  proof (cases "cmd_name ?y < cmd_name ?x")
    case True
    have ms: "mset ?sw = mset cmds" using 2(3) mset_swap [of "j + 1" cmds j] by (simp add: list_update_swap)
    have st: "set ?sw = set cmds" by (rule mset_eq_setD [OF ms])
    have "sort_pass k (j + 1) ?sw (swaps + 1) = (cs', n')" using 2(5) cmp True by simp
    from 2(1) [OF cmp [THEN iffD2, OF True] _ _ this]
    have IH: "pass_ok k (j + 1) ?sw cs'" "swaps + 1 \<le> n'" using 2(3,4) unfolding st by simp_all
    have "pass_ok (Suc k) j cmds cs'"
      by (rule pass_ok_Suc [OF IH(1) ms]) (use 2(3) True in simp_all)
    then show ?thesis using IH(2) by simp
  next
    case False
    have "sort_pass k (j + 1) cmds swaps = (cs', n')" using 2(5) cmp False by simp
    from 2(2) [OF _ _ _ this]
    have IH: "pass_ok k (j + 1) cmds cs'" "swaps \<le> n'"
      "n' = swaps \<Longrightarrow> cs' = cmds \<and> (\<forall>m. j + 1 \<le> m \<and> m < j + 1 + k \<longrightarrow> cmd_name (cmds ! m) \<le> cmd_name (cmds ! Suc m))"
      using 2(3,4) cmp False by simp_all
    have xy: "cmd_name ?x \<le> cmd_name ?y" using False by simp
    have "pass_ok (Suc k) j cmds cs'"
      by (rule pass_ok_Suc [OF IH(1)]) (use 2(3) xy in simp_all)
    moreover have "cmd_name (cmds ! m) \<le> cmd_name (cmds ! Suc m)" if "n' = swaps" "j \<le> m" "m < j + Suc k" for m
      using IH(3) [OF that(1)] that(2,3) xy by (cases "m = j") simp_all
    ultimately show ?thesis using IH(2,3) by blast
  qed
qed

text \<open>Entries from \<open>i\<close> on are in their final place: sorted, and not smaller than the ones before.\<close>

lemma sort_cmds_spec:
  assumes "i < length cs" and "\<forall>c \<in> set cs. ascii (cmd_name c)"
    and "\<And>m m'. m \<le> m' \<Longrightarrow> i < m' \<Longrightarrow> m' < length cs \<Longrightarrow> cmd_name (cs ! m) \<le> cmd_name (cs ! m')"
  shows "mset (sort_cmds i cs) = mset cs \<and> sorted (map cmd_name (sort_cmds i cs))"
  using assms
proof (induction i cs rule: sort_cmds.induct)
  case (1 cs)
  then show ?case
    by (auto simp: sorted_iff_nth_mono_less)
next
  case (2 i cs)
  obtain cs' n' where p: "sort_pass (Suc i) 0 cs 0 = (cs', n')" by fastforce
  from sort_pass_spec [OF _ 2(3) p] 2(2)
  have ok: "pass_ok (Suc i) 0 cs cs'" and z: "n' = 0 \<Longrightarrow> cs' = cs \<and> (\<forall>m < Suc i. cmd_name (cs ! m) \<le> cmd_name (cs ! Suc m))"
    by auto
  have r: "mset cs' = mset cs" "length cs' = length cs" "drop (i + 2) cs' = drop (i + 2) cs"
    "\<And>m. m \<le> Suc i \<Longrightarrow> cmd_name (cs' ! m) \<le> cmd_name (cs' ! Suc i)"
    using ok by (simp_all add: pass_ok_def)
  show ?case
  proof (cases "n' = 0")
    case True
    have "cmd_name (cs ! m) \<le> cmd_name (cs ! Suc m)" if "Suc m < length cs" for m
      using z [OF True] 2(4) [of m "Suc m"] that by (cases "m < Suc i") simp_all
    then have "sorted (map cmd_name cs)" by (simp add: sorted_iff_nth_Suc)
    then show ?thesis using p True z by simp
  next
    case False
    have hi: "cs' ! m = cs ! m" if "Suc i < m" "m < length cs" for m
    proof -
      define t where "t = m - (i + 2)"
      have m: "m = i + 2 + t" using that(1) by (simp add: t_def)
      have "drop (i + 2) cs' ! t = drop (i + 2) cs ! t" by (simp only: r(3))
      then show ?thesis using that r(2) by (simp add: m)
    qed
    have "mset (take (i + 2) cs') + mset (drop (i + 2) cs') = mset (take (i + 2) cs) + mset (drop (i + 2) cs)"
      by (simp only: r(1) mset_append [symmetric] append_take_drop_id)
    then have lo: "set (take (i + 2) cs') = set (take (i + 2) cs)" using r(3) by (metis add_right_cancel set_mset_mset)
    have "cmd_name (cs' ! m) \<le> cmd_name (cs' ! m')" if "m \<le> m'" "i < m'" "m' < length cs'" for m m'
    proof (cases "m' = Suc i")
      case True
      then show ?thesis using r(4) that(1) by simp
    next
      case False
      then have m': "Suc i < m'" "m' < length cs" "cs' ! m' = cs ! m'" using that r(2) hi by simp_all
      show ?thesis
      proof (cases "Suc i < m")
        case True
        then show ?thesis using hi [of m] 2(4) [OF that(1)] that m' by simp
      next
        case False
        then have "cs' ! m \<in> set (take (i + 2) cs')" using that r(2) by (auto simp: in_set_conv_nth intro!: exI [of _ m])
        then obtain m0 where "m0 < i + 2" "m0 < length cs" "cs' ! m = cs ! m0" unfolding lo by (auto simp: in_set_conv_nth)
        then show ?thesis using 2(4) [of m0 m'] m' by simp
      qed
    qed
    then have "mset (sort_cmds i cs') = mset cs' \<and> sorted (map cmd_name (sort_cmds i cs'))"
      using 2(1) [OF p [symmetric] refl False] 2(2,3) r(1,2) by (metis Suc_lessD mset_eq_setD)
    then show ?thesis using p False r(1) by simp
  qed
qed


text \<open>
  \<open>help\<close> lists every command once and in order: the bubble sort of \<open>do_help\<close>, with its early exit,
  permutes the table of commands so that the names (in ASCII) ascend, whatever the table and its size.
\<close>

lemma sort_cmds_sorts:
  assumes "\<forall>c \<in> set table. ascii (cmd_name c)"
  shows "mset (sort_cmds (length table - 1) table) = mset table \<and> sorted (map cmd_name (sort_cmds (length table - 1) table))"
proof (cases "table = []")
  case False
  then show ?thesis using sort_cmds_spec [of "length table - 1" table] assms by simp
qed simp

lemma sort_cmds_sorts_witness:
  "map cmd_name (sort_cmds 2 [sample_cmd ''md'', sample_cmd ''cp'', sample_cmd ''bootm'']) = [''bootm'', ''cp'', ''md''] \<and>
   sorted (map cmd_name (sort_cmds 2 [sample_cmd ''md'', sample_cmd ''cp'', sample_cmd ''bootm'']))"
proof -
  have a: "\<forall>c \<in> set [sample_cmd ''md'', sample_cmd ''cp'', sample_cmd ''bootm'']. ascii (cmd_name c)"
    by (simp add: sample_cmd_def NUL_def)
  have "map cmd_name (sort_cmds 2 [sample_cmd ''md'', sample_cmd ''cp'', sample_cmd ''bootm'']) = [''bootm'', ''cp'', ''md'']"
    by code_simp
  then show ?thesis using sort_cmds_sorts [OF a] by (simp add: numeral_2_eq_2)
qed


section \<open>The language of test\<close>

datatype test_op = Op_eq | Op_ne | Op_gt | Op_lt | Num_eq | Num_ne | Num_lt | Num_le | Num_gt | Num_ge

datatype test_prim = Empty string | Nonempty string | Compare string test_op string

datatype connective = Or_else | And_then

fun op_word :: "test_op \<Rightarrow> string" where
  "op_word Op_eq = ''=''" | "op_word Op_ne = ''!=''" | "op_word Op_gt = ''>''" | "op_word Op_lt = ''<''"
| "op_word Num_eq = ''-eq''" | "op_word Num_ne = ''-ne''" | "op_word Num_lt = ''-lt''"
| "op_word Num_le = ''-le''" | "op_word Num_gt = ''-gt''" | "op_word Num_ge = ''-ge''"

fun prim_words :: "test_prim \<Rightarrow> string list" where
  "prim_words (Empty s) = [''-z'', s]"
| "prim_words (Nonempty s) = [''-n'', s]"
| "prim_words (Compare s r t) = [s, op_word r, t]"

fun conn_word :: "connective \<Rightarrow> string" where
  "conn_word Or_else = ''-o''" | "conn_word And_then = ''-a''"

text \<open>The value of a decimal number with an optional sign, as \<open>simple_strtol\<close> reads it.\<close>

definition decimal :: "string \<Rightarrow> int" where "decimal s = fst (simple_strtol s 10)"

fun op_holds :: "test_op \<Rightarrow> string \<Rightarrow> string \<Rightarrow> bool" where
  "op_holds Op_eq s t \<longleftrightarrow> s = t" | "op_holds Op_ne s t \<longleftrightarrow> s \<noteq> t"
| "op_holds Op_gt s t \<longleftrightarrow> t < s" | "op_holds Op_lt s t \<longleftrightarrow> s < t"
| "op_holds Num_eq s t \<longleftrightarrow> decimal s = decimal t" | "op_holds Num_ne s t \<longleftrightarrow> decimal s \<noteq> decimal t"
| "op_holds Num_lt s t \<longleftrightarrow> decimal s < decimal t" | "op_holds Num_le s t \<longleftrightarrow> decimal s \<le> decimal t"
| "op_holds Num_gt s t \<longleftrightarrow> decimal s > decimal t" | "op_holds Num_ge s t \<longleftrightarrow> decimal s \<ge> decimal t"

fun prim_holds :: "test_prim \<Rightarrow> bool" where
  "prim_holds (Empty s) \<longleftrightarrow> s = []"
| "prim_holds (Nonempty s) \<longleftrightarrow> s \<noteq> []"
| "prim_holds (Compare s r t) \<longleftrightarrow> op_holds r s t"

fun join_holds :: "bool \<Rightarrow> (connective \<times> test_prim) list \<Rightarrow> bool" where
  "join_holds b [] = b"
| "join_holds b ((Or_else, p) # ps) = join_holds (b \<or> prim_holds p) ps"
| "join_holds b ((And_then, p) # ps) = join_holds (b \<and> prim_holds p) ps"

definition rest_words :: "(connective \<times> test_prim) list \<Rightarrow> string list" where
  "rest_words ps = concat (map (\<lambda>(c, p). conn_word c # prim_words p) ps)"

text \<open>Operands are ASCII, and the first one is not taken for an operator of its own.\<close>

fun prim_ok :: "test_prim \<Rightarrow> bool" where
  "prim_ok (Empty s) \<longleftrightarrow> ascii s"
| "prim_ok (Nonempty s) \<longleftrightarrow> ascii s"
| "prim_ok (Compare s r t) \<longleftrightarrow> ascii s \<and> ascii t \<and> s \<notin> {''-o'', ''-a'', ''-z'', ''-n''}"

lemma ascii_nul_free: "ascii s \<Longrightarrow> nul_free s" by (simp add: ascii_def)

lemma strcmp_word: "nul_free s \<Longrightarrow> nul_free t \<Longrightarrow> strcmp s t = 0 \<longleftrightarrow> s = t" by (rule strcmp_eq_0)

lemma test_binary_holds:
  assumes "ascii s" and "ascii t"
  shows "test_binary s (op_word r) t = Some (truth (op_holds r s t))"
  unfolding test_binary_def Let_def decimal_def [symmetric]
  using strcmp_less [OF assms] strcmp_word [OF ascii_nul_free [OF assms(1)] ascii_nul_free [OF assms(2)]]
  by (cases r) (simp_all add: strcmp_word NUL_def)

lemma test_loop_prim:
  assumes "prim_ok p"
  shows "test_loop (prim_words p @ ws) e l c = test_loop ws (test_join c l (truth (prim_holds p))) l (- 1)"
proof (cases p)
  case (Empty s)
  then show ?thesis using assms ascii_nul_free [of s]
    by (subst test_loop.simps)
      (simp add: test_adv_def strcmp_word NUL_def test_unary_def truth_def numeral_2_eq_2)
next
  case (Nonempty s)
  then show ?thesis using assms ascii_nul_free [of s]
    by (subst test_loop.simps)
      (simp add: test_adv_def strcmp_word NUL_def test_unary_def truth_def numeral_2_eq_2)
next
  case (Compare s r t)
  have n: "nul_free s" using assms Compare by (simp add: ascii_nul_free)
  have "test_adv s = 3" using assms Compare n by (simp add: test_adv_def strcmp_word NUL_def)
  then show ?thesis using assms Compare
    by (subst test_loop.simps) (simp add: test_binary_holds numeral_3_eq_3 Let_def)
qed

lemma test_loop_rest:
  assumes "\<forall>(c, p) \<in> set ps. prim_ok p"
  shows "test_loop (rest_words ps) (truth b) l (- 1) = truth (join_holds b ps)"
  using assms
proof (induction ps arbitrary: b l)
  case Nil
  then show ?case by (subst test_loop.simps) (simp add: rest_words_def)
next
  case (Cons cp ps)
  obtain c p where cp: "cp = (c, p)" by (cases cp)
  have p: "prim_ok p" "\<forall>(c, p) \<in> set ps. prim_ok p" using Cons.prems cp by auto
  have w: "rest_words (cp # ps) = conn_word c # prim_words p @ rest_words ps" by (simp add: cp rest_words_def)
  have "test_loop (rest_words (cp # ps)) (truth b) l (- 1) =
    test_loop (prim_words p @ rest_words ps) (truth b) (truth b) (case c of Or_else \<Rightarrow> 0 | And_then \<Rightarrow> 1)"
    unfolding w by (cases c; subst test_loop.simps) (simp_all add: test_adv_def strcmp_word NUL_def Let_def)
  also have "\<dots> = test_loop (rest_words ps) (truth (case c of Or_else \<Rightarrow> b \<or> prim_holds p | And_then \<Rightarrow> b \<and> prim_holds p)) (truth b) (- 1)"
    by (cases c) (simp_all add: test_loop_prim [OF p(1)] test_join_def truth_def)
  also have "\<dots> = truth (join_holds b (cp # ps))"
    unfolding Cons.IH [OF p(2)] by (cases c) (simp_all add: cp)
  finally show ?case .
qed

text \<open>
  C40: The \<open>test\<close> command decides its expression: for comparisons joined by \<open>-o\<close> and \<open>-a\<close>, evaluated from
  left to right without precedence, with an optional leading exclamation mark that negates the whole,
  the return code is 0 exactly when the expression holds, and 1 otherwise.
\<close>

theorem do_test_correct:
  assumes "prim_ok p" and "\<forall>(c, q) \<in> set ps. prim_ok q"
    and "neg \<or> hd (prim_words p) \<noteq> ''!''"
  shows "do_test (''test'' # (if neg then [''!''] else []) @ prim_words p @ rest_words ps) =
    (if join_holds (prim_holds p) ps \<noteq> neg then 0 else 1)"
proof -
  let ?ws = "prim_words p @ rest_words ps"
  have v: "test_loop ?ws (- 1) (- 1) (- 1) = truth (join_holds (prim_holds p) ps)"
    using test_loop_rest [OF assms(2)] by (simp add: test_loop_prim [OF assms(1)] test_join_def)
  obtain a b cs where w: "prim_words p = a # b # cs" by (cases p) simp_all
  have "nul_free a" using assms(1) w by (cases p) (auto simp: NUL_def ascii_nul_free)
  then show ?thesis using assms(3) v
    by (cases neg) (simp_all add: do_test_def w strcmp_word NUL_def truth_def numeral_2_eq_2 Let_def)
qed

lemma do_test_correct_witness:
  "do_test [''test'', ''9'', ''-lt'', ''10'', ''-a'', ''-n'', ''x''] = 0"
proof -
  have "prim_ok (Compare ''9'' Num_lt ''10'')" "\<forall>(c, q) \<in> set [(And_then, Nonempty ''x'')]. prim_ok q"
    by (simp_all add: NUL_def)
  from do_test_correct [OF this, of False]
  have "do_test [''test'', ''9'', ''-lt'', ''10'', ''-a'', ''-n'', ''x''] = (if decimal ''9'' < decimal ''10'' then 0 else 1)"
    by (simp add: rest_words_def)
  moreover have "decimal ''9'' < decimal ''10''" by code_simp
  ultimately show ?thesis by simp
qed

end
