(* ===== verification/Memsize.thy ===== *)
theory Memsize
  imports Prelude
begin

text \<open>
  Sizing the memory, \<open>get_ram_size\<close> in \<^verbatim>\<open>common/memsize.c\<close>: markers are written at the powers of two,
  the highest first, and read back from the lowest; a memory smaller than the window answers at a
  higher power with its first cell. The memory itself is hardware: reading and writing a \<open>long\<close> at an
  index from \<open>base\<close> are parameters. \<open>None\<close> is an access outside the array \<open>save\<close>.
\<close>

section \<open>The probe\<close>

function mark_loop ::
  "('s \<Rightarrow> nat \<Rightarrow> u32) \<Rightarrow> ('s \<Rightarrow> nat \<Rightarrow> u32 \<Rightarrow> 's) \<Rightarrow> nat \<Rightarrow> 's \<Rightarrow> u32 list \<Rightarrow> 's \<times> u32 list"
where
  "mark_loop rd wr cnt s save =
     (if cnt > 0 then mark_loop rd wr (cnt div 2) (wr s cnt (NOT (of_nat cnt))) (save @ [rd s cnt]) else (s, save))"
  by pat_completeness auto

termination by (relation "measure (\<lambda>(r, w, c, s, sv). c)") auto

text \<open>\<open>for (...; cnt < maxsize / sizeof(long); cnt <<= 1) base[cnt] = save[--i]\<close>\<close>

function restore_loop :: "('s \<Rightarrow> nat \<Rightarrow> u32 \<Rightarrow> 's) \<Rightarrow> nat \<Rightarrow> nat \<Rightarrow> 's \<Rightarrow> u32 list \<Rightarrow> 's option" where
  "restore_loop wr cnt lim s save =
     (if 0 < cnt \<and> cnt < lim
      then (if save = [] then None else restore_loop wr (cnt * 2) lim (wr s cnt (last save)) (butlast save))
      else Some s)"
  by pat_completeness auto

termination by (relation "measure (\<lambda>(w, c, l, s, sv). l - c)") auto

function probe_loop ::
  "('s \<Rightarrow> nat \<Rightarrow> u32) \<Rightarrow> ('s \<Rightarrow> nat \<Rightarrow> u32 \<Rightarrow> 's) \<Rightarrow> nat \<Rightarrow> nat \<Rightarrow> nat \<Rightarrow> 's \<Rightarrow> u32 list \<Rightarrow> ('s \<times> nat) option"
where
  "probe_loop rd wr maxsize cnt lim s save =
     (if 0 < cnt \<and> cnt < lim
      then (if save = [] then None
            else (let val = rd s cnt; s = wr s cnt (last save); save = butlast save
                  in if val \<noteq> NOT (of_nat cnt)
                     then map_option (\<lambda>s. (s, cnt * 4)) (restore_loop wr (cnt * 2) lim s save)
                     else probe_loop rd wr maxsize (cnt * 2) lim s save))
      else Some (s, maxsize))"
  by pat_completeness auto

termination by (relation "measure (\<lambda>(r, w, m, c, l, s, sv). l - c)") auto

declare mark_loop.simps [simp del] restore_loop.simps [simp del] probe_loop.simps [simp del]

definition get_ram_size ::
  "('s \<Rightarrow> nat \<Rightarrow> u32) \<Rightarrow> ('s \<Rightarrow> nat \<Rightarrow> u32 \<Rightarrow> 's) \<Rightarrow> 's \<Rightarrow> nat \<Rightarrow> ('s \<times> nat) option"
where
  "get_ram_size rd wr s maxsize =
     (let lim = maxsize div 4; (s, save) = mark_loop rd wr (lim div 2) s []
      in if length save < 32
         then (let saved = rd s 0; s = wr s 0 0
               in if rd s 0 \<noteq> 0
                  then map_option (\<lambda>s. (s, 0)) (restore_loop wr 1 lim (wr s 0 saved) save)
                  else probe_loop rd wr maxsize 1 lim s save)
         else None)"

section \<open>A memory that repeats itself\<close>

text \<open>\<open>2 ^ k\<close> cells behind an address decoder that ignores the higher address lines.\<close>

locale repeating_ram =
  fixes rd :: "'s \<Rightarrow> nat \<Rightarrow> u32" and wr :: "'s \<Rightarrow> nat \<Rightarrow> u32 \<Rightarrow> 's" and k :: nat
  assumes rd_mod: "rd s (i mod 2 ^ k) = rd s i"
    and rd_wr: "rd (wr s i v) j = (if i mod 2 ^ k = j mod 2 ^ k then v else rd s j)"
begin

lemma pow_mod: "2 ^ j mod 2 ^ k = (if j < k then 2 ^ j else (0 :: nat))"
proof (cases "j < k")
  case False
  then show ?thesis by (simp add: le_imp_power_dvd)
qed simp

lemma pow_mod_eq: "2 ^ j mod 2 ^ k = (2 ^ l mod 2 ^ k :: nat) \<longleftrightarrow> j = l \<or> k \<le> j \<and> k \<le> l"
  by (auto simp: pow_mod)

text \<open>What is saved at \<open>2 ^ j\<close>, when the marking starts at \<open>2 ^ q\<close>, and the cells afterwards.\<close>

definition saved :: "nat \<Rightarrow> 's \<Rightarrow> nat \<Rightarrow> u32" where
  "saved q s j = (if j < k \<or> j = q then rd s (2 ^ j) else NOT (of_nat (2 ^ (j + 1))))"

definition marked :: "nat \<Rightarrow> 's \<Rightarrow> nat \<Rightarrow> u32" where
  "marked q s i =
     (if i mod 2 ^ k = 0 \<and> k \<le> q then NOT (of_nat (2 ^ k))
      else if \<exists>j \<le> q. j < k \<and> i mod 2 ^ k = 2 ^ j then NOT (of_nat (i mod 2 ^ k)) else rd s i)"

lemma mark_loop_spec:
  "\<exists>s'. mark_loop rd wr (2 ^ q) s sv = (s', sv @ map (saved q s) (rev [0..<Suc q])) \<and> (\<forall>i. rd s' i = marked q s i)"
proof (induction q arbitrary: s sv)
  case 0
  have "rd (wr s 1 (NOT (of_nat 1))) i = marked 0 s i" for i
    using pow_mod [of 0] by (auto simp: rd_wr marked_def)
  then show ?case by (simp add: mark_loop.simps [of _ _ "Suc 0"] mark_loop.simps [of _ _ 0] saved_def)
next
  case (Suc q)
  let ?s = "wr s (2 ^ Suc q) (NOT (of_nat (2 ^ Suc q)))"
  obtain s' where s': "mark_loop rd wr (2 ^ q) ?s (sv @ [rd s (2 ^ Suc q)]) =
      (s', (sv @ [rd s (2 ^ Suc q)]) @ map (saved q ?s) (rev [0..<Suc q]))" "\<And>i. rd s' i = marked q ?s i"
    using Suc.IH [of ?s] by blast
  have sv: "saved q ?s j = saved (Suc q) s j" if "j \<le> q" for j
  proof -
    have "rd ?s (2 ^ j) = (if k \<le> j then NOT (of_nat (2 ^ Suc q)) else rd s (2 ^ j))"
      unfolding rd_wr pow_mod_eq using that by auto
    then show ?thesis using that by (auto simp: saved_def)
  qed
  have mk: "marked q ?s i = marked (Suc q) s i" for i
  proof -
    have rdi: "rd ?s i = (if 2 ^ Suc q mod 2 ^ k = i mod 2 ^ k then NOT (of_nat (2 ^ Suc q)) else rd s i)" by (rule rd_wr)
    consider "k \<le> q" | "k = Suc q" | "Suc q < k" by linarith
    then show ?thesis
    proof cases
      case 1
      then have "2 ^ Suc q mod 2 ^ k = (0 :: nat)" unfolding pow_mod by simp
      with rdi 1 show ?thesis by (auto simp: marked_def le_Suc_eq)
    next
      case 2
      then have z: "2 ^ Suc q mod 2 ^ k = (0 :: nat)" "of_nat (2 ^ Suc q) = (of_nat (2 ^ k) :: u32)" by simp_all
      have "l \<le> Suc q \<and> l < k \<longleftrightarrow> l \<le> q \<and> l < k" "\<not> k \<le> q" "k \<le> Suc q" for l using 2 by auto
      then show ?thesis using rdi unfolding marked_def z by (auto simp del: power_Suc of_nat_power)
    next
      case 3
      then have "2 ^ Suc q mod 2 ^ k = (2 ^ Suc q :: nat)" unfolding pow_mod by simp
      with rdi 3 show ?thesis by (auto simp: marked_def le_Suc_eq)
    qed
  qed
  have "mark_loop rd wr (2 ^ Suc q) s sv = mark_loop rd wr (2 ^ q) ?s (sv @ [rd s (2 ^ Suc q)])"
    by (subst mark_loop.simps) simp
  moreover have "rev [0..<Suc (Suc q)] = Suc q # rev [0..<Suc q]" by simp
  moreover have "map (saved q ?s) (rev [0..<Suc q]) = map (saved (Suc q) s) (rev [0..<Suc q])"
    using sv by (intro map_cong) auto
  moreover have "saved (Suc q) s (Suc q) = rd s (2 ^ Suc q)" by (simp add: saved_def)
  ultimately show ?case using s' mk by (simp del: upt_Suc power_Suc)
qed

lemma restore_loop_spec:
  assumes "k < j" and "j \<le> p"
  shows "\<exists>s'. restore_loop wr (2 ^ j) (2 ^ p) s (map f (rev [j..<p])) = Some s' \<and>
    (\<forall>i. rd s' i = (if j < p \<and> i mod 2 ^ k = 0 then f (p - 1) else rd s i))"
  using assms
proof (induction "p - j" arbitrary: j s)
  case 0
  then show ?case by (subst restore_loop.simps) simp
next
  case (Suc d)
  then have jp: "j < p" by simp
  let ?s = "wr s (2 ^ j) (f j)"
  have "rev [j..<p] = rev [Suc j..<p] @ [j]" using jp by (simp add: upt_rec)
  then have st: "restore_loop wr (2 ^ j) (2 ^ p) s (map f (rev [j..<p])) = restore_loop wr (2 ^ Suc j) (2 ^ p) ?s (map f (rev [Suc j..<p]))"
    using jp by (subst restore_loop.simps) (simp add: mult.commute)
  obtain s' where s': "restore_loop wr (2 ^ Suc j) (2 ^ p) ?s (map f (rev [Suc j..<p])) = Some s'"
    "\<And>i. rd s' i = (if Suc j < p \<and> i mod 2 ^ k = 0 then f (p - 1) else rd ?s i)"
  proof -
    have "d = p - Suc j" "k < Suc j" "Suc j \<le> p" using Suc.hyps(2) Suc.prems(1) jp by simp_all
    from Suc.hyps(1) [OF this] that show thesis by blast
  qed
  have pj: "\<not> Suc j < p \<Longrightarrow> p - Suc 0 = j" using jp by linarith
  have "2 ^ j mod 2 ^ k = (0 :: nat)" unfolding pow_mod using Suc.prems(1) by simp
  then have "rd s' i = (if j < p \<and> i mod 2 ^ k = 0 then f (p - 1) else rd s i)" for i
    using s'(2) [of i] jp rd_wr [of s "2 ^ j" "f j" i] pj by (cases "Suc j < p") auto
  with s'(1) st show ?case by auto
qed

text \<open>Before the marker at \<open>2 ^ j\<close> is read: the cells of the powers below are restored, the base is 0.\<close>

definition probing :: "nat \<Rightarrow> nat \<Rightarrow> 's \<Rightarrow> nat \<Rightarrow> u32" where
  "probing p j s i =
     (if i mod 2 ^ k = 0 then 0
      else if \<exists>l \<ge> j. l < p \<and> l < k \<and> i mod 2 ^ k = 2 ^ l then NOT (of_nat (i mod 2 ^ k)) else rd s i)"

lemma marker_nonzero: "NOT (of_nat (2 ^ k)) \<noteq> (0 :: u32)"
proof
  assume a: "NOT (of_nat (2 ^ k)) = (0 :: u32)"
  have b: "bit (NOT (of_nat (2 ^ k)) :: u32) n \<longleftrightarrow> n < 32 \<and> n \<noteq> k" for n
    by (auto simp: bit_simps)
  have "bit (NOT (of_nat (2 ^ k)) :: u32) (if k = 0 then 1 else 0)" unfolding b by simp
  then show False unfolding a by simp
qed

lemma probe_loop_spec:
  assumes "j \<le> p" and "j \<le> k" and "p < 32" and "0 < p" and "\<And>i. rd s i = probing p j s0 i"
  shows "\<exists>s'. probe_loop rd wr maxsize (2 ^ j) (2 ^ p) s (map (saved (p - 1) s0) (rev [j..<p])) =
      Some (s', if k < p then 2 ^ k * 4 else maxsize) \<and>
    (\<forall>i. rd s' i = (if p \<le> k \<and> i mod 2 ^ k = 0 then 0 else rd s0 i))"
  using assms
proof (induction "p - j" arbitrary: j s)
  case 0
  then have "j = p" "p \<le> k" by simp_all
  then show ?case using "0.prems"(5) by (subst probe_loop.simps) (auto simp: probing_def)
next
  case (Suc d)
  then have jp: "j < p" by simp
  let ?v = "saved (p - 1) s0 j"
  let ?s = "wr s (2 ^ j) ?v"
  have r: "rev [j..<p] = rev [Suc j..<p] @ [j]" using jp by (simp add: upt_rec)
  show ?case
  proof (cases "j < k")
    case True
    have m: "2 ^ j mod 2 ^ k = (2 ^ j :: nat)" unfolding pow_mod using True by simp
    have "rd s (2 ^ j) = NOT (of_nat (2 ^ j))" unfolding Suc.prems(5) probing_def m using True jp by auto
    then have st: "probe_loop rd wr maxsize (2 ^ j) (2 ^ p) s (map (saved (p - 1) s0) (rev [j..<p])) =
        probe_loop rd wr maxsize (2 ^ Suc j) (2 ^ p) ?s (map (saved (p - 1) s0) (rev [Suc j..<p]))"
      using jp r by (subst probe_loop.simps) (simp add: mult.commute Let_def)
    have "rd ?s i = probing p (Suc j) s0 i" for i
    proof (cases "i mod 2 ^ k = 2 ^ j")
      case True
      have "rd s0 (2 ^ j) = rd s0 i" using rd_mod [of s0 i] by (simp only: True)
      then show ?thesis using True \<open>j < k\<close> rd_wr [of s "2 ^ j" ?v i] by (auto simp: m probing_def saved_def)
    next
      case False
      have "(\<exists>l \<ge> Suc j. l < p \<and> l < k \<and> i mod 2 ^ k = 2 ^ l) \<longleftrightarrow> (\<exists>l \<ge> j. l < p \<and> l < k \<and> i mod 2 ^ k = 2 ^ l)"
        using False by (metis Suc_leD le_antisym not_less_eq_eq)
      then show ?thesis using False rd_wr [of s "2 ^ j" ?v i] Suc.prems(5) by (simp add: m probing_def)
    qed
    then show ?thesis unfolding st using Suc.hyps True jp Suc.prems(3,4) by (intro Suc.hyps(1)) simp_all
  next
    case False
    then have k: "j = k" using Suc.prems(2) by simp
    have m: "2 ^ k mod 2 ^ k = (0 :: nat)" by simp
    have "rd s (2 ^ k) = 0" unfolding Suc.prems(5) probing_def m by simp
    then have "rd s (2 ^ j) \<noteq> NOT (of_nat (2 ^ j))" using marker_nonzero k by simp
    then have st: "probe_loop rd wr maxsize (2 ^ j) (2 ^ p) s (map (saved (p - 1) s0) (rev [j..<p])) =
        map_option (\<lambda>s. (s, 2 ^ j * 4)) (restore_loop wr (2 ^ Suc j) (2 ^ p) ?s (map (saved (p - 1) s0) (rev [Suc j..<p])))"
      using jp r by (subst probe_loop.simps) (simp add: mult.commute Let_def)
    obtain s' where s': "restore_loop wr (2 ^ Suc j) (2 ^ p) ?s (map (saved (p - 1) s0) (rev [Suc j..<p])) = Some s'"
      "\<And>i. rd s' i = (if Suc j < p \<and> i mod 2 ^ k = 0 then saved (p - 1) s0 (p - 1) else rd ?s i)"
      using restore_loop_spec [of "Suc j" p ?s "saved (p - 1) s0"] k jp by auto
    have pj: "\<not> Suc k < p \<Longrightarrow> p - Suc 0 = k" using jp k by linarith
    have "rd s' i = rd s0 i" for i
    proof -
      have top: "saved (p - 1) s0 (p - 1) = rd s0 i" if "i mod 2 ^ k = 0"
      proof -
        have "2 ^ (p - 1) mod 2 ^ k = (0 :: nat)" unfolding pow_mod using k jp by simp
        then show ?thesis using rd_mod [of s0 i] rd_mod [of s0 "2 ^ (p - 1)"] that by (simp add: saved_def)
      qed
      show ?thesis
      proof (cases "i mod 2 ^ k = 0")
        case True
        then show ?thesis using s'(2) [of i] top rd_wr [of s "2 ^ j" ?v i] k jp m pj
          by (cases "Suc j < p") auto
      next
        case False
        then have "rd s i = rd s0 i" unfolding Suc.prems(5) probing_def using k by auto
        then show ?thesis using False s'(2) [of i] rd_wr [of s "2 ^ j" ?v i] k m by simp
      qed
    qed
    then show ?thesis using st s' k jp by auto
  qed
qed

lemma get_ram_size_spec:
  assumes "0 < p" and "p < 30"
  shows "\<exists>s'. get_ram_size rd wr s (2 ^ p * 4) = Some (s', 2 ^ min k p * 4) \<and>
    (\<forall>i. rd s' i = (if p \<le> k \<and> i mod 2 ^ k = 0 then 0 else rd s i))"
proof -
  obtain q where q: "p = Suc q" using assms(1) by (cases p) simp_all
  obtain s1 where s1: "mark_loop rd wr (2 ^ q) s [] = (s1, map (saved q s) (rev [0..<Suc q]))" "\<And>i. rd s1 i = marked q s i"
    using mark_loop_spec [of q s "[]"] by auto
  let ?s2 = "wr s1 0 0"
  have z: "rd ?s2 0 = 0" by (simp add: rd_wr)
  have "rd ?s2 i = probing p 0 s i" for i
    using rd_wr [of s1 0 0 i] s1(2) [of i] by (auto simp: probing_def marked_def q less_Suc_eq_le)
  from probe_loop_spec [OF _ _ _ assms(1) this, of "2 ^ p * 4"] assms
  obtain s' where s': "probe_loop rd wr (2 ^ p * 4) 1 (2 ^ p) ?s2 (map (saved q s) (rev [0..<p])) =
      Some (s', if k < p then 2 ^ k * 4 else 2 ^ p * 4)"
    "\<And>i. rd s' i = (if p \<le> k \<and> i mod 2 ^ k = 0 then 0 else rd s i)" by (auto simp: q)
  have "get_ram_size rd wr s (2 ^ p * 4) = probe_loop rd wr (2 ^ p * 4) 1 (2 ^ p) ?s2 (map (saved q s) (rev [0..<p]))"
    using s1(1) assms(2) z by (simp add: get_ram_size_def q Let_def del: upt_Suc)
  with s' show ?thesis by (auto simp: min_def)
qed

end

section \<open>The memory of the board\<close>

text \<open>A memory of \<open>2 ^ k\<close> words as a list; the address lines above \<open>k\<close> are not decoded.\<close>

definition ram_rd :: "nat \<Rightarrow> (nat \<Rightarrow> u32) \<Rightarrow> nat \<Rightarrow> u32" where "ram_rd k m i = m (i mod 2 ^ k)"

definition ram_wr :: "nat \<Rightarrow> (nat \<Rightarrow> u32) \<Rightarrow> nat \<Rightarrow> u32 \<Rightarrow> nat \<Rightarrow> u32" where "ram_wr k m i v = m(i mod 2 ^ k := v)"

interpretation ram: repeating_ram "ram_rd k" "ram_wr k" k for k
  by unfold_locales (auto simp: ram_rd_def ram_wr_def)

text \<open>
  C33: For a memory of \<open>2 ^ k\<close> words that repeats itself through a window of \<open>2 ^ p\<close> words, \<open>get_ram_size\<close>
  returns the size of the memory, or of the window when that is smaller. The contents are as before
  when the memory is smaller than the window; when it fills the window every word is restored except
  the first, which is left 0.
\<close>

theorem get_ram_size_correct:
  assumes "0 < p" and "p < 30"
  shows "\<exists>m'. get_ram_size (ram_rd k) (ram_wr k) m (2 ^ p * 4) = Some (m', 2 ^ min k p * 4) \<and>
    (\<forall>i. ram_rd k m' i = (if p \<le> k \<and> i mod 2 ^ k = 0 then 0 else ram_rd k m i))"
  by (rule ram.get_ram_size_spec [OF assms])

text \<open>Four words behind a window of 16: the memory counts 16 bytes and is unchanged.\<close>

lemma get_ram_size_correct_witness:
  "\<exists>m'. get_ram_size (ram_rd 2) (ram_wr 2) (\<lambda>i. of_nat (i + 7)) 64 = Some (m', 16) \<and> ram_rd 2 m' 0 = 7 \<and> ram_rd 2 m' 3 = 10"
proof -
  have "\<exists>m'. get_ram_size (ram_rd 2) (ram_wr 2) (\<lambda>i. of_nat (i + 7)) (2 ^ 4 * 4) = Some (m', 2 ^ min 2 4 * 4) \<and>
    (\<forall>i. ram_rd 2 m' i = (if 4 \<le> (2 :: nat) \<and> i mod 2 ^ 2 = 0 then 0 else ram_rd 2 (\<lambda>i. of_nat (i + 7)) i))"
    by (rule get_ram_size_correct) simp_all
  then obtain m' where m: "get_ram_size (ram_rd 2) (ram_wr 2) (\<lambda>i. of_nat (i + 7)) 64 = Some (m', 16)"
    "\<And>i. ram_rd 2 m' i = ram_rd 2 (\<lambda>i. of_nat (i + 7)) i" by auto
  have "ram_rd 2 m' 0 = 7" "ram_rd 2 m' 3 = 10" unfolding m(2) by (simp_all add: ram_rd_def)
  with m(1) show ?thesis by blast
qed

text \<open>Without a memory that takes the 0 (read-only, or nothing there), the probe answers 0.\<close>

lemma get_ram_size_rom:
  "get_ram_size (\<lambda>s i. 0xFFFFFFFF) (\<lambda>s i v. s) () 64 = Some ((), 0)"
  by code_simp

end
