(* ===== verification/Image.thy ===== *)
theory Image
  imports Crc32 Vsprintf RtcDate
begin

text \<open>
  Boot images in the legacy format: the header and its accessors (\<^verbatim>\<open>include/image.h\<close>), the checks, the
  components of multi-file images and the search for a ramdisk (\<^verbatim>\<open>common/image.c\<close>), the image the
  build tool writes (\<^verbatim>\<open>tools/mkimage.c\<close>), and the sizes printed (\<^verbatim>\<open>lib_generic/display_options.c\<close>).

  The memory is a list of bytes and addresses are indices into it; an outer \<open>None\<close> is a read outside.
  Fields of the header are kept in the processor's order, as the accessors give them: the bytes in
  memory are big-endian. Messages and progress codes are collected in the order they are issued.
\<close>

section \<open>The header\<close>

definition IH_MAGIC :: u32 where "IH_MAGIC = 0x27051956"
definition IH_NMLEN :: nat where "IH_NMLEN = 32"
definition IH_OS_LINUX :: u8 where "IH_OS_LINUX = 5"
definition IH_TYPE_RAMDISK :: u8 where "IH_TYPE_RAMDISK = 3"
definition IH_TYPE_MULTI :: u8 where "IH_TYPE_MULTI = 4"
definition IH_TYPE_SCRIPT :: u8 where "IH_TYPE_SCRIPT = 6"
definition CHUNKSZ_CRC32 :: nat where "CHUNKSZ_CRC32 = 64 * 1024"

record image_header =
  ih_magic :: u32
  ih_hcrc :: u32
  ih_time :: u32
  ih_size :: u32
  ih_load :: u32
  ih_ep :: u32
  ih_dcrc :: u32
  ih_os :: u8
  ih_arch :: u8
  ih_type :: u8
  ih_comp :: u8
  ih_name :: "u8 list"

definition image_get_header_size :: nat where "image_get_header_size = 64"

text \<open>The header at an address, through \<open>uimage_to_cpu\<close>, and its bytes, through \<open>cpu_to_uimage\<close>.\<close>

definition read_header :: "u8 list \<Rightarrow> nat \<Rightarrow> image_header option" where
  "read_header m a =
     (if a + image_get_header_size \<le> length m
      then (let b = take image_get_header_size (drop a m)
            in Some \<lparr>ih_magic = GET_UINT32_BE b 0, ih_hcrc = GET_UINT32_BE b 4, ih_time = GET_UINT32_BE b 8,
                     ih_size = GET_UINT32_BE b 12, ih_load = GET_UINT32_BE b 16, ih_ep = GET_UINT32_BE b 20,
                     ih_dcrc = GET_UINT32_BE b 24, ih_os = b ! 28, ih_arch = b ! 29, ih_type = b ! 30,
                     ih_comp = b ! 31, ih_name = drop 32 b\<rparr>)
      else None)"

definition header_bytes :: "image_header \<Rightarrow> u8 list" where
  "header_bytes h =
     PUT_UINT32_BE (ih_magic h) @ PUT_UINT32_BE (ih_hcrc h) @ PUT_UINT32_BE (ih_time h) @ PUT_UINT32_BE (ih_size h) @
     PUT_UINT32_BE (ih_load h) @ PUT_UINT32_BE (ih_ep h) @ PUT_UINT32_BE (ih_dcrc h) @
     [ih_os h, ih_arch h, ih_type h, ih_comp h] @ ih_name h"

definition image_get_data :: "nat \<Rightarrow> nat" where "image_get_data hdr = hdr + image_get_header_size"
definition image_get_data_size :: "image_header \<Rightarrow> u32" where "image_get_data_size h = ih_size h"
definition image_get_image_size :: "image_header \<Rightarrow> u32" where
  "image_get_image_size h = ih_size h + of_nat image_get_header_size"

definition image_check_magic :: "image_header \<Rightarrow> bool" where "image_check_magic h \<longleftrightarrow> ih_magic h = IH_MAGIC"
definition image_check_type :: "image_header \<Rightarrow> u8 \<Rightarrow> bool" where "image_check_type h t \<longleftrightarrow> ih_type h = t"
definition image_check_arch :: "image_header \<Rightarrow> u8 \<Rightarrow> bool" where "image_check_arch h t \<longleftrightarrow> ih_arch h = t"
definition image_check_os :: "image_header \<Rightarrow> u8 \<Rightarrow> bool" where "image_check_os h t \<longleftrightarrow> ih_os h = t"

definition image_check_hcrc :: "image_header \<Rightarrow> bool" where
  "image_check_hcrc h \<longleftrightarrow> crc32 0 (header_bytes (h\<lparr>ih_hcrc := 0\<rparr>)) = ih_hcrc h"

definition image_check_dcrc :: "u8 list \<Rightarrow> nat \<Rightarrow> image_header \<Rightarrow> bool option" where
  "image_check_dcrc m hdr h =
     (let data = image_get_data hdr; len = unat (image_get_data_size h)
      in if data + len \<le> length m
         then map_option (\<lambda>(dcrc, n). dcrc = ih_dcrc h) (crc32_wd 0 (take len (drop data m)) CHUNKSZ_CRC32)
         else None)"

section \<open>Components\<close>

definition read_size :: "u8 list \<Rightarrow> nat \<Rightarrow> u32 option" where
  "read_size m p = (if p + 4 \<le> length m then Some (GET_UINT32_BE (drop p m) 0) else None)"

function count_sizes :: "u8 list \<Rightarrow> nat \<Rightarrow> nat option" where
  "count_sizes m p =
     (case read_size m p of None \<Rightarrow> None
      | Some s \<Rightarrow> if s = 0 then Some 0 else map_option Suc (count_sizes m (p + 4)))"
  by pat_completeness auto

termination by (relation "measure (\<lambda>(m, p). length m - p)") (auto simp: read_size_def split: if_splits)

declare count_sizes.simps [simp del]

definition image_multi_count :: "u8 list \<Rightarrow> nat \<Rightarrow> nat option" where
  "image_multi_count m hdr = count_sizes m (image_get_data hdr)"

text \<open>Address and size of a component, in the 32-bit arithmetic of \<open>ulong\<close>.\<close>

definition image_multi_getimg :: "u8 list \<Rightarrow> nat \<Rightarrow> nat \<Rightarrow> (u32 \<times> u32) option" where
  "image_multi_getimg m hdr idx =
     (case image_multi_count m hdr of None \<Rightarrow> None
      | Some count \<Rightarrow>
          (let sz = (\<lambda>i. GET_UINT32_BE (drop (image_get_data hdr + 4 * i) m) 0);
               img_data = of_nat (image_get_data hdr) + (of_nat count + 1) * 4
           in if idx < count
              then Some (img_data + foldl (\<lambda>offset i. offset + ((sz i + 3) AND NOT 3)) 0 [0..<idx], sz idx)
              else Some (0, 0)))"

section \<open>The image mkimage writes\<close>

text \<open>
  The options; the name is the string of \<open>-n\<close> without its NUL, and the entry point is \<open>None\<close> without \<open>-e\<close>.
  With \<open>-x\<close> (execute in place) every file starts with room for the header, which is checked and left out.
\<close>

record mkimage_args =
  opt_time :: u32
  opt_addr :: u32
  opt_ep :: "u32 option"
  opt_os :: u8
  opt_arch :: u8
  opt_type :: u8
  opt_comp :: u8
  opt_name :: "u8 list"
  opt_xflag :: bool

definition mkimage_ep :: "mkimage_args \<Rightarrow> u32 option" where
  "mkimage_ep opts =
     (let ep = (case opt_ep opts of
                  None \<Rightarrow> opt_addr opts + (if opt_xflag opts then of_nat image_get_header_size else 0)
                | Some ep \<Rightarrow> ep)
      in if opt_xflag opts \<and> ep \<noteq> opt_addr opts + of_nat image_get_header_size then None else Some ep)"

text \<open>
  \<open>None\<close> is every \<open>exit (EXIT_FAILURE)\<close>. \<open>mmap0\<close> says whether the host's \<open>mmap\<close> maps an empty file, which
  current systems refuse. A file is smaller than 2 GiB: its size goes through an \<open>int\<close>.
\<close>

definition copy_file :: "bool \<Rightarrow> bool \<Rightarrow> u8 list \<Rightarrow> bool \<Rightarrow> u8 list option" where
  "copy_file mmap0 xflag data pad4 =
     (if data = [] \<and> \<not> mmap0 then None
      else if xflag \<and> length data < image_get_header_size then None
      else if xflag \<and> (\<exists>b\<in>set (take image_get_header_size data). b \<noteq> 0xff) then None
      else (let d = drop (if xflag then image_get_header_size else 0) data; tail = length d mod 4
            in Some (d @ (if pad4 \<and> tail \<noteq> 0 then replicate (4 - tail) 0 else []))))"

fun copy_files :: "bool \<Rightarrow> bool \<Rightarrow> u8 list list \<Rightarrow> u8 list option" where
  "copy_files mmap0 xflag [] = None"
| "copy_files mmap0 xflag [f] = copy_file mmap0 xflag f False"
| "copy_files mmap0 xflag (f # g # fs) =
     (case copy_file mmap0 xflag f True of None \<Rightarrow> None
      | Some d \<Rightarrow> map_option (\<lambda>ds. d @ ds) (copy_files mmap0 xflag (g # fs)))"

text \<open>Several files are named only for a multi-file image or a script, whose data starts with the table of their sizes.\<close>

definition mkimage_data :: "bool \<Rightarrow> mkimage_args \<Rightarrow> u8 list list \<Rightarrow> u8 list option" where
  "mkimage_data mmap0 opts files =
     (if opt_type opts = IH_TYPE_MULTI \<or> opt_type opts = IH_TYPE_SCRIPT
      then map_option (\<lambda>d. concat (map (\<lambda>f. PUT_UINT32_BE (of_nat (length f))) files) @ PUT_UINT32_BE 0 @ d)
             (copy_files mmap0 (opt_xflag opts) files)
      else (case files of [f] \<Rightarrow> copy_file mmap0 (opt_xflag opts) f False | _ \<Rightarrow> None))"

definition mkimage_header :: "mkimage_args \<Rightarrow> u32 \<Rightarrow> u8 list \<Rightarrow> image_header" where
  "mkimage_header opts ep data =
     (let hdr = \<lparr>ih_magic = IH_MAGIC, ih_hcrc = 0, ih_time = opt_time opts, ih_size = of_nat (length data),
                 ih_load = opt_addr opts, ih_ep = ep, ih_dcrc = crc32 0 data, ih_os = opt_os opts,
                 ih_arch = opt_arch opts, ih_type = opt_type opts, ih_comp = opt_comp opts,
                 ih_name = take IH_NMLEN (opt_name opts @ replicate IH_NMLEN 0)\<rparr>
      in hdr\<lparr>ih_hcrc := crc32 0 (header_bytes hdr)\<rparr>)"

definition mkimage :: "bool \<Rightarrow> mkimage_args \<Rightarrow> u8 list list \<Rightarrow> u8 list option" where
  "mkimage mmap0 opts files =
     (case mkimage_ep opts of None \<Rightarrow> None
      | Some ep \<Rightarrow> map_option (\<lambda>data. header_bytes (mkimage_header opts ep data) @ data) (mkimage_data mmap0 opts files))"


section \<open>Names and messages\<close>

datatype boot_msg = Puts string | Printf string "arg list" | Progress int

text \<open>The tables of \<open>common/image.c\<close> as the board compiles them: id, short and long name.\<close>

type_synonym name_table = "(int \<times> string option \<times> string) list"

definition uimage_arch :: name_table where
  "uimage_arch =
     [(0, None, ''Invalid ARCH''), (1, Some ''alpha'', ''Alpha''), (2, Some ''arm'', ''ARM''), (3, Some ''x86'', ''Intel x86''),
      (4, Some ''ia64'', ''IA64''), (12, Some ''m68k'', ''M68K''), (14, Some ''microblaze'', ''MicroBlaze''),
      (5, Some ''mips'', ''MIPS''), (6, Some ''mips64'', ''MIPS 64 Bit''), (13, Some ''nios'', ''NIOS''),
      (15, Some ''nios2'', ''NIOS II''), (7, Some ''powerpc'', ''PowerPC''), (7, Some ''ppc'', ''PowerPC''),
      (8, Some ''s390'', ''IBM S390''), (9, Some ''sh'', ''SuperH''), (10, Some ''sparc'', ''SPARC''),
      (11, Some ''sparc64'', ''SPARC 64 Bit''), (16, Some ''blackfin'', ''Blackfin''), (17, Some ''avr32'', ''AVR32'')]"

definition uimage_os :: name_table where
  "uimage_os =
     [(0, None, ''Invalid OS''), (5, Some ''linux'', ''Linux''), (2, Some ''netbsd'', ''NetBSD''),
      (18, Some ''rtems'', ''RTEMS''), (17, Some ''u-boot'', ''U-Boot'')]"

definition uimage_type :: name_table where
  "uimage_type =
     [(0, None, ''Invalid Image''), (7, Some ''filesystem'', ''Filesystem Image''), (5, Some ''firmware'', ''Firmware''),
      (2, Some ''kernel'', ''Kernel Image''), (4, Some ''multi'', ''Multi-File Image''), (3, Some ''ramdisk'', ''RAMDisk Image''),
      (6, Some ''script'', ''Script''), (1, Some ''standalone'', ''Standalone Program''), (8, Some ''flat_dt'', ''Flat Device Tree'')]"

definition uimage_comp :: name_table where
  "uimage_comp =
     [(0, Some ''none'', ''uncompressed''), (2, Some ''bzip2'', ''bzip2 compressed''), (1, Some ''gzip'', ''gzip compressed''),
      (3, Some ''lzma'', ''lzma compressed'')]"

text \<open>The loops end at the entry with the negative id, which is the end of the list here.\<close>

fun get_table_entry_name :: "name_table \<Rightarrow> string \<Rightarrow> int \<Rightarrow> string" where
  "get_table_entry_name [] msg i = msg"
| "get_table_entry_name ((n, sname, lname) # table) msg i =
     (if n = i then lname else get_table_entry_name table msg i)"

fun get_table_entry_id :: "name_table \<Rightarrow> string \<Rightarrow> int" where
  "get_table_entry_id [] name = - 1"
| "get_table_entry_id ((n, sname, lname) # table) name =
     (case sname of
        Some s \<Rightarrow> if strcmp s name = 0 then n else get_table_entry_id table name
      | None \<Rightarrow> get_table_entry_id table name)"

definition genimg_get_os_name :: "u8 \<Rightarrow> string" where
  "genimg_get_os_name x = get_table_entry_name uimage_os ''Unknown OS'' (uint x)"
definition genimg_get_arch_name :: "u8 \<Rightarrow> string" where
  "genimg_get_arch_name x = get_table_entry_name uimage_arch ''Unknown Architecture'' (uint x)"
definition genimg_get_type_name :: "u8 \<Rightarrow> string" where
  "genimg_get_type_name x = get_table_entry_name uimage_type ''Unknown Image'' (uint x)"
definition genimg_get_comp_name :: "u8 \<Rightarrow> string" where
  "genimg_get_comp_name x = get_table_entry_name uimage_comp ''Unknown Compression'' (uint x)"

definition genimg_get_os_id :: "string \<Rightarrow> int" where "genimg_get_os_id name = get_table_entry_id uimage_os name"
definition genimg_get_arch_id :: "string \<Rightarrow> int" where "genimg_get_arch_id name = get_table_entry_id uimage_arch name"
definition genimg_get_type_id :: "string \<Rightarrow> int" where "genimg_get_type_id name = get_table_entry_id uimage_type name"
definition genimg_get_comp_id :: "string \<Rightarrow> int" where "genimg_get_comp_id name = get_table_entry_id uimage_comp name"

text \<open>\<open>print_size\<close>: unit, whole units and tenths, in the 32-bit arithmetic of the target.\<close>

definition size_unit :: "u32 \<Rightarrow> u32 \<times> char" where
  "size_unit sz =
     (if sz < 2 ^ 30 then (if sz < 2 ^ 20 then (2 ^ 10, CHR ''k'') else (2 ^ 20, CHR ''M'')) else (2 ^ 30, CHR ''G''))"

definition size_parts :: "u32 \<Rightarrow> u32 \<times> u32 \<times> char" where
  "size_parts sz =
     (let (d, c) = size_unit sz; n = sz div d
      in if sz mod d \<noteq> 0
         then (let m = (10 * (sz - n * d) + d div 2) div d in if m \<ge> 10 then (n + 1, m - 10, c) else (n, m, c))
         else (n, 0, c))"

definition print_size :: "u32 \<Rightarrow> string \<Rightarrow> boot_msg list" where
  "print_size sz s =
     (let (n, m, c) = size_parts sz
      in [Printf ''%2ld'' [A32 n]] @ (if m \<noteq> 0 then [Printf ''.%ld'' [A32 m]] else []) @
         [Printf '' %cB%s'' [A32 (of_char c), AStr (Some s)]])"

definition genimg_print_size :: "u32 \<Rightarrow> boot_msg list" where
  "genimg_print_size sz = Printf ''%d Bytes = '' [A32 sz] # print_size sz [CHR 0x0A]"

definition image_print_type :: "image_header \<Rightarrow> boot_msg list" where
  "image_print_type h =
     [Printf (''%s %s %s (%s)'' @ [CHR 0x0A])
        [AStr (Some (genimg_get_arch_name (ih_arch h))), AStr (Some (genimg_get_os_name (ih_os h))),
         AStr (Some (genimg_get_type_name (ih_type h))), AStr (Some (genimg_get_comp_name (ih_comp h)))]]"

text \<open>The parts of a multi-file image or script, from number \<open>i\<close> on.\<close>

fun print_parts :: "u8 list \<Rightarrow> nat \<Rightarrow> image_header \<Rightarrow> nat \<Rightarrow> nat \<Rightarrow> boot_msg list option" where
  "print_parts m hdr h i 0 = Some []"
| "print_parts m hdr h i (Suc k) =
     (case image_multi_getimg m hdr i of None \<Rightarrow> None
      | Some (data, len) \<Rightarrow>
          map_option (\<lambda>ms. Printf ''%s   Image %d: '' [AStr (Some ''   ''), A32 (of_nat i)] # genimg_print_size len @
              (if image_check_type h IH_TYPE_SCRIPT \<and> i > 0
               then [Printf (''%s    Offset = 0x%08lx'' @ [CHR 0x0A]) [AStr (Some ''   ''), A32 data]] else []) @ ms)
            (print_parts m hdr h (i + 1) k))"

definition image_print_contents :: "u8 list \<Rightarrow> nat \<Rightarrow> image_header \<Rightarrow> boot_msg list option" where
  "image_print_contents m hdr h =
     (let p = AStr (Some ''   ''); nl = [CHR 0x0A];
          ms = [Printf (''%sImage Name:   %.*s'' @ nl) [p, A32 (of_nat IH_NMLEN), AStr (Some (map (\<lambda>b. char_of (unat b)) (ih_name h)))],
                Printf ''%sImage Type:   '' [p]] @ image_print_type h @ [Printf ''%sData Size:    '' [p]] @
               genimg_print_size (image_get_data_size h) @
               [Printf (''%sLoad Address: %08x'' @ nl) [p, A32 (ih_load h)], Printf (''%sEntry Point:  %08x'' @ nl) [p, A32 (ih_ep h)]]
      in if image_check_type h IH_TYPE_MULTI \<or> image_check_type h IH_TYPE_SCRIPT
         then (case image_multi_count m hdr of None \<Rightarrow> None
               | Some count \<Rightarrow> map_option (\<lambda>ps. ms @ [Printf (''%sContents:'' @ nl) [p]] @ ps) (print_parts m hdr h 0 count))
         else Some ms)"

section \<open>The ramdisk\<close>

text \<open>\<open>image_get_ramdisk\<close>: the messages, and the header when the image is good.\<close>

definition image_get_ramdisk ::
  "u8 list \<Rightarrow> nat \<Rightarrow> u8 \<Rightarrow> bool \<Rightarrow> (boot_msg list \<times> image_header option) option"
where
  "image_get_ramdisk m rd_addr arch verify =
     (case read_header m rd_addr of None \<Rightarrow> None
      | Some h \<Rightarrow>
          if \<not> image_check_magic h then Some ([Puts (''Bad Magic Number'' @ [CHR 0x0A]), Progress (- 10)], None)
          else if \<not> image_check_hcrc h then Some ([Puts (''Bad Header Checksum'' @ [CHR 0x0A]), Progress (- 11)], None)
          else (case image_print_contents m rd_addr h of None \<Rightarrow> None
                | Some ms \<Rightarrow>
                    (case (if verify then image_check_dcrc m rd_addr h else Some True) of None \<Rightarrow> None
                     | Some good \<Rightarrow>
                         (let ms = [Progress 10] @ ms @ (if verify then [Puts ''   Verifying Checksum ... ''] else [])
                          in if \<not> good then Some (ms @ [Puts (''Bad Data CRC'' @ [CHR 0x0A]), Progress (- 12)], None)
                             else (let ms = ms @ (if verify then [Puts (''OK'' @ [CHR 0x0A])] else []) @ [Progress 11]
                                   in if \<not> image_check_os h IH_OS_LINUX \<or> \<not> image_check_arch h arch \<or>
                                         \<not> image_check_type h IH_TYPE_RAMDISK
                                      then Some (ms @ [Printf (''No Linux %s Ramdisk Image'' @ [CHR 0x0A])
                                                         [AStr (Some (genimg_get_arch_name arch))], Progress (- 13)], None)
                                      else Some (ms, Some h))))))"

text \<open>\<open>genimg_get_format\<close> without FIT images: whether a legacy image is there.\<close>

definition genimg_get_format :: "u8 list \<Rightarrow> nat \<Rightarrow> bool option" where
  "genimg_get_format m a = map_option image_check_magic (read_header m a)"

text \<open>
  \<open>boot_get_ramdisk\<close>: \<open>os_hdr\<close> is the address and header copy of a legacy kernel image, when there is
  one. The result is the messages, the return code, \<open>rd_start\<close> and \<open>rd_end\<close>.
\<close>

definition boot_get_ramdisk ::
  "u8 list \<Rightarrow> string list \<Rightarrow> (nat \<times> image_header) option \<Rightarrow> bool \<Rightarrow> u8 \<Rightarrow> (boot_msg list \<times> int \<times> u32 \<times> u32) option"
where
  "boot_get_ramdisk m argv os_hdr verify arch =
     (let found = (\<lambda>ms data len. Some (ms, 0, if data = 0 then (0, 0) else (data, data + len)))
      in if length argv \<ge> 3 \<and> strcmp (argv ! 2) ''-'' = 0 then found [] 0 0
         else if length argv \<ge> 3
         then (let rd_addr = unat (fst (simple_strtoul (argv ! 2) 16))
               in case genimg_get_format m rd_addr of None \<Rightarrow> None
                  | Some False \<Rightarrow> Some ([Puts (''Wrong Ramdisk Image Format'' @ [CHR 0x0A])], 1, 0, 0)
                  | Some True \<Rightarrow>
                      (let ms = [Printf (''## Loading init Ramdisk from Legacy Image at %08lx ...'' @ [CHR 0x0A])
                                   [A32 (of_nat rd_addr)], Progress 9]
                       in case image_get_ramdisk m rd_addr arch verify of None \<Rightarrow> None
                          | Some (ms', None) \<Rightarrow> Some (ms @ ms', 1, 0, 0)
                          | Some (ms', Some h) \<Rightarrow>
                              found (ms @ ms') (of_nat (image_get_data rd_addr)) (image_get_data_size h)))
         else (case os_hdr of
                 Some (hdr, h) \<Rightarrow>
                   if image_check_type h IH_TYPE_MULTI
                   then (case image_multi_getimg m hdr 1 of None \<Rightarrow> None
                         | Some (data, len) \<Rightarrow>
                             found [Progress 13, Printf (''## Loading init Ramdisk from multi component Legacy Image at %08lx ...'' @ [CHR 0x0A])
                                      [A32 (of_nat hdr)]] data len)
                   else found [Progress 14] 0 0
               | None \<Rightarrow> found [Progress 14] 0 0))"


text \<open>From 1 GiB on the tenths overflow 32 bits: 1.5 GiB is printed as 1.1 GB.\<close>

lemma print_size_wraps: "size_parts 0x60000000 = (1, 1, CHR ''G'')" "size_parts 0x180000 = (1, 5, CHR ''M'')"
  by code_simp+

section \<open>Reading back what was written\<close>

lemma GET_PUT_BE [simp]: "GET_UINT32_BE (PUT_UINT32_BE w @ bs) 0 = w" "GET_UINT32_BE (PUT_UINT32_BE w) 0 = w"
proof -
  have "push_bit 24 (ucast (ucast (drop_bit 24 w) :: u8)) OR push_bit 16 (ucast (ucast (drop_bit 16 w) :: u8))
     OR push_bit 8 (ucast (ucast (drop_bit 8 w) :: u8)) OR ucast (ucast w :: u8) = (w :: u32)"
  proof (rule bit_word_eqI)
    fix n assume "n < LENGTH(32)"
    then have n: "n < 32" by simp
    consider "n < 8" | "8 \<le> n" "n < 16" | "16 \<le> n" "n < 24" | "24 \<le> n" using n by linarith
    then show "bit (push_bit 24 (ucast (ucast (drop_bit 24 w) :: u8)) OR push_bit 16 (ucast (ucast (drop_bit 16 w) :: u8))
     OR push_bit 8 (ucast (ucast (drop_bit 8 w) :: u8)) OR ucast (ucast w :: u8) :: u32) n = bit w n"
      using n by cases (auto simp: bit_simps)
  qed
  then show "GET_UINT32_BE (PUT_UINT32_BE w @ bs) 0 = w" "GET_UINT32_BE (PUT_UINT32_BE w) 0 = w"
    by (simp_all add: GET_UINT32_BE_def PUT_UINT32_BE_def)
qed

lemma GET_BE_drop: "GET_UINT32_BE bs k = GET_UINT32_BE (drop k bs) 0" if "k + 4 \<le> length bs"
  using that by (simp add: GET_UINT32_BE_def)

lemma GET_BE_take: "k + 4 \<le> n \<Longrightarrow> GET_UINT32_BE (take n bs) k = GET_UINT32_BE bs k"
  by (simp add: GET_UINT32_BE_def)

lemma length_header_bytes: "length (ih_name h) = 32 \<Longrightarrow> length (header_bytes h) = 64"
  by (simp add: header_bytes_def)

lemma read_header_bytes:
  assumes "m = pre @ header_bytes h @ post" and "length (ih_name h) = 32"
  shows "read_header m (length pre) = Some h"
proof -
  have t: "take 64 (drop (length pre) m) = header_bytes h" using assms length_header_bytes by simp
  have g: "GET_UINT32_BE (header_bytes h) 0 = ih_magic h" "GET_UINT32_BE (header_bytes h) 4 = ih_hcrc h"
    "GET_UINT32_BE (header_bytes h) 8 = ih_time h" "GET_UINT32_BE (header_bytes h) 12 = ih_size h"
    "GET_UINT32_BE (header_bytes h) 16 = ih_load h" "GET_UINT32_BE (header_bytes h) 20 = ih_ep h"
    "GET_UINT32_BE (header_bytes h) 24 = ih_dcrc h"
  proof -
    have d: "k + 4 \<le> 64 \<Longrightarrow> GET_UINT32_BE (header_bytes h) k = GET_UINT32_BE (drop k (header_bytes h)) 0" for k
      using GET_BE_drop [of k "header_bytes h"] length_header_bytes [OF assms(2)] by simp
    show "GET_UINT32_BE (header_bytes h) 0 = ih_magic h" "GET_UINT32_BE (header_bytes h) 4 = ih_hcrc h"
      "GET_UINT32_BE (header_bytes h) 8 = ih_time h" "GET_UINT32_BE (header_bytes h) 12 = ih_size h"
      "GET_UINT32_BE (header_bytes h) 16 = ih_load h" "GET_UINT32_BE (header_bytes h) 20 = ih_ep h"
      "GET_UINT32_BE (header_bytes h) 24 = ih_dcrc h"
      using d [of 0] d [of 4] d [of 8] d [of 12] d [of 16] d [of 20] d [of 24] by (simp_all add: header_bytes_def)
  qed
  have b: "header_bytes h ! 28 = ih_os h" "header_bytes h ! 29 = ih_arch h" "header_bytes h ! 30 = ih_type h"
    "header_bytes h ! 31 = ih_comp h" "drop 32 (header_bytes h) = ih_name h"
    by (simp_all add: header_bytes_def nth_append)
  have "length pre + 64 \<le> length m" using assms length_header_bytes by simp
  then show ?thesis by (simp add: read_header_def image_get_header_size_def t g b)
qed

text \<open>Rounding up to a multiple of 4, as the loader computes it and as the tool pads.\<close>

lemma and_not_3: "(w :: u32) AND NOT 3 = push_bit 2 (drop_bit 2 w)"
proof (rule bit_word_eqI)
  fix n assume "n < LENGTH(32)"
  then have "n < 32" by simp
  have m: "(3 :: u32) = mask 2" by (simp add: mask_eq_exp_minus_1)
  show "bit (w AND NOT 3) n = bit (push_bit 2 (drop_bit 2 w)) n"
  proof (cases "n < 2")
    case True
    then show ?thesis unfolding m by (auto simp: bit_simps)
  next
    case False
    then obtain k where "n = 2 + k" by (metis le_add_diff_inverse not_less)
    then show ?thesis unfolding m using \<open>n < 32\<close> by (auto simp: bit_simps)
  qed
qed

lemma round4: "4 * ((a + 3) div 4) = a + (if a mod 4 \<noteq> 0 then 4 - a mod 4 else 0)" for a :: nat
proof -
  obtain q r where a: "a = 4 * q + r" and r: "r < 4" by (metis mod_less_divisor mult_div_mod_eq zero_less_numeral)
  then consider "r = 0" | "r = 1" | "r = 2" | "r = 3" by linarith
  then have d: "(a + 3) div 4 = q + (if r = 0 then 0 else 1)" unfolding a by cases auto
  have "a mod 4 = r" using a r by simp
  then show ?thesis using a r d by simp
qed

lemma unat_of_nat_small: "n < 2 ^ 32 \<Longrightarrow> unat (of_nat n :: u32) = n"
  by (simp add: unat_of_nat)

text \<open>The step from one component to the next, also where the sum of the sizes leaves 32 bits.\<close>

lemma round4_word: "((of_nat n :: u32) + 3) AND NOT 3 = of_nat (4 * ((n + 3) div 4))"
proof -
  have n: "(of_nat n :: u32) + 3 = of_nat (n + 3)" by simp
  have "unat (drop_bit 2 (of_nat (n + 3) :: u32)) = (n + 3) mod 2 ^ 32 div 4"
    unfolding unat_drop_bit_eq unfolding unat_of_nat drop_bit_eq_div by simp
  then have "(drop_bit 2 (of_nat (n + 3) :: u32)) = of_nat ((n + 3) mod 2 ^ 32 div 4)"
    by (metis of_nat_unat ucast_id)
  then have "((of_nat n :: u32) + 3) AND NOT 3 = of_nat ((n + 3) mod 2 ^ 32 div 4) * 4"
    unfolding and_not_3 n push_bit_eq_mult by simp
  also have "\<dots> = of_nat (4 * ((n + 3) mod 2 ^ 32 div 4))" by simp
  also have "\<dots> = (of_nat (4 * ((n + 3) div 4)) :: u32)"
  proof -
    have "4 * (n' mod 4294967296 div 4) mod 4294967296 = 4 * (n' div 4) mod 4294967296" for n' :: nat
    proof -
      have "n' mod 4294967296 div 4 = n' div 4 mod 1073741824"
        using arg_cong [OF mod_mult2_eq [of n' 4 1073741824], of "\<lambda>x. x div 4"] by (simp del: mult_mod_right)
      then show ?thesis using mult_mod_right [of 4 "n' div 4" 1073741824] by simp
    qed
    then show ?thesis unfolding word_of_nat_eq_iff take_bit_eq_mod by simp
  qed
  finally show ?thesis .
qed

text \<open>The size table and the components, read back.\<close>

abbreviation size_table :: "u8 list list \<Rightarrow> u8 list" where
  "size_table fs \<equiv> concat (map (\<lambda>f. PUT_UINT32_BE (of_nat (length f))) fs)"

lemma length_PUT_BE [simp]: "length (PUT_UINT32_BE w) = 4" by (simp add: PUT_UINT32_BE_def)

lemma length_size_table: "length (size_table fs) = 4 * length fs" by (induction fs) auto

lemma drop_size_table:
  "i < length fs \<Longrightarrow> \<exists>t. drop (4 * i) (size_table fs @ r) = PUT_UINT32_BE (of_nat (length (fs ! i))) @ t"
proof (induction fs arbitrary: i)
  case (Cons f fs)
  show ?case
  proof (cases i)
    case 0
    then show ?thesis by simp
  next
    case (Suc k)
    then show ?thesis using Cons.IH [of k] Cons.prems by (simp add: drop_append)
  qed
qed simp

lemma count_size_table:
  assumes "\<forall>f\<in>set fs. length f < 2 ^ 32"
  shows "count_sizes (pre @ size_table fs @ PUT_UINT32_BE 0 @ r) (length pre) = Some (length (takeWhile (\<lambda>f. f \<noteq> []) fs))"
  using assms
proof (induction fs arbitrary: pre)
  case Nil
  then show ?case by (subst count_sizes.simps) (simp add: read_size_def)
next
  case (Cons f fs)
  let ?p = "PUT_UINT32_BE (of_nat (length f))"
  show ?case
  proof (cases "f = []")
    case True
    then show ?thesis by (subst count_sizes.simps) (simp add: read_size_def)
  next
    case False
    then have "0 < length f" "length f < 2 ^ 32" using Cons.prems by simp_all
    then have "(of_nat (length f) :: u32) \<noteq> 0" by (auto simp: word_of_nat_eq_0_iff dest: nat_dvd_not_less)
    moreover have "count_sizes ((pre @ ?p) @ size_table fs @ PUT_UINT32_BE 0 @ r) (length (pre @ ?p))
      = Some (length (takeWhile (\<lambda>f. f \<noteq> []) fs))"
      by (rule Cons.IH) (use Cons.prems in simp)
    ultimately show ?thesis using False by (subst count_sizes.simps) (simp add: read_size_def)
  qed
qed

abbreviation rounded :: "u8 list \<Rightarrow> nat" where
  "rounded f \<equiv> 4 * ((length f + 3) div 4)"

lemma copy_file_Some:
  "copy_file mmap0 xflag f p = Some d \<Longrightarrow>
     d = drop (if xflag then 64 else 0) f @ replicate (if p then rounded (drop (if xflag then 64 else 0) f) - length (drop (if xflag then 64 else 0) f) else 0) 0
     \<and> (xflag \<longrightarrow> 64 \<le> length f)"
  using round4 [of "length (drop (if xflag then 64 else 0) f)"]
  by (auto simp: copy_file_def Let_def image_get_header_size_def split: if_splits)

lemma copy_file_plain:
  "copy_file mmap0 False f p = Some d \<Longrightarrow> d = f @ replicate (if p then rounded f - length f else 0) 0"
  by (drule copy_file_Some) simp

lemma copy_file_length: "copy_file mmap0 xflag f p = Some d \<Longrightarrow> length f \<le> length d + 64"
  by (drule copy_file_Some) auto

lemma copy_files_length: "copy_files mmap0 xflag fs = Some P \<Longrightarrow> f \<in> set fs \<Longrightarrow> length f \<le> length P + 64"
proof (induction mmap0 xflag fs arbitrary: P rule: copy_files.induct)
  case (3 mm x g g' fs)
  then obtain d P' where d: "copy_file mm x g True = Some d" and P': "copy_files mm x (g' # fs) = Some P'" and P: "P = d @ P'"
    by (auto split: option.splits)
  have "length f \<le> length P' + 64" if "f \<in> set (g' # fs)" by (rule "3.IH" [OF d P' that])
  then show ?case using "3.prems"(2) copy_file_length [OF d] P by auto
qed (auto dest: copy_file_length)

lemma component_at:
  assumes "copy_files mmap0 False fs = Some P" and "i < length fs"
  shows "(\<Sum>f\<leftarrow>take i fs. rounded f) + length (fs ! i) \<le> length P
    \<and> take (length (fs ! i)) (drop (\<Sum>f\<leftarrow>take i fs. rounded f) (P @ r)) = fs ! i"
  using assms
proof (induction mmap0 False fs arbitrary: i P rule: copy_files.induct)
  case (2 mm f)
  then show ?case by (auto dest: copy_file_plain)
next
  case (3 mm f g fs)
  then obtain d P' where d: "copy_file mm False f True = Some d" and P': "copy_files mm False (g # fs) = Some P'"
    and P: "P = d @ P'" by (auto split: option.splits)
  note dd = copy_file_plain [OF d]
  have l: "length d = rounded f" using dd round4 [of "length f"] by simp
  show ?case
  proof (cases i)
    case 0
    then show ?thesis by (simp add: P dd)
  next
    case (Suc k)
    have "drop (\<Sum>f\<leftarrow>take i (f # g # fs). rounded f) (P @ r) = drop (\<Sum>f\<leftarrow>take k (g # fs). rounded f) (P' @ r)"
      by (simp add: Suc P l [symmetric] drop_append)
    moreover have "k < length (g # fs)" using "3.prems"(2) Suc by simp
    ultimately show ?thesis using "3.hyps" [OF d P', of k] l by (simp add: Suc P del: drop_append take_append)
  qed
qed simp

lemma foldl_offsets:
  "i \<le> length fs \<Longrightarrow> foldl (\<lambda>offset k. offset + ((of_nat (length (fs ! k)) + 3) AND NOT 3)) 0 [0..<i]
    = (of_nat (\<Sum>f\<leftarrow>take i fs. rounded f) :: u32)"
proof (induction i)
  case (Suc i)
  have t: "take (Suc i) fs = take i fs @ [fs ! i]" using Suc.prems by (simp add: take_Suc_conv_app_nth)
  have "foldl (\<lambda>offset k. offset + ((of_nat (length (fs ! k)) + 3) AND NOT 3)) 0 [0..<Suc i]
    = of_nat (\<Sum>f\<leftarrow>take i fs. rounded f) + ((of_nat (length (fs ! i)) + 3) AND NOT 3 :: u32)" using Suc by simp
  also have "\<dots> = of_nat (\<Sum>f\<leftarrow>take (Suc i) fs. rounded f)" unfolding round4_word t by (simp only: map_append sum_list_append of_nat_add) simp
  finally show ?case .
qed simp

abbreviation has_parts :: "u8 \<Rightarrow> bool" where
  "has_parts t \<equiv> t = IH_TYPE_MULTI \<or> t = IH_TYPE_SCRIPT"

text \<open>What \<open>mkimage\<close> accepts.\<close>

lemma copy_files_accepts:
  "(\<exists>d. copy_files mmap0 xflag fs = Some d) \<longleftrightarrow> fs \<noteq> [] \<and> (\<forall>f\<in>set fs. \<exists>d. copy_file mmap0 xflag f True = Some d)"
proof -
  have p: "(\<exists>d. copy_file mmap0 xflag f False = Some d) \<longleftrightarrow> (\<exists>d. copy_file mmap0 xflag f True = Some d)" for f
    by (auto simp: copy_file_def Let_def)
  show ?thesis
  proof (induction mmap0 xflag fs rule: copy_files.induct)
    case (2 mm x f)
    show ?case by (auto simp: copy_file_def Let_def)
  next
    case (3 mm x f g fs)
    then show ?case by (cases "copy_file mm x f True") auto
  qed simp
qed

lemma mkimage_accepts:
  "(\<exists>img. mkimage mmap0 opts files = Some img) \<longleftrightarrow>
     (opt_xflag opts \<longrightarrow> opt_ep opts \<in> {None, Some (opt_addr opts + 64)}) \<and>
     files \<noteq> [] \<and> (has_parts (opt_type opts) \<or> length files = 1) \<and>
     (\<forall>f\<in>set files. (f \<noteq> [] \<or> mmap0) \<and> (opt_xflag opts \<longrightarrow> 64 \<le> length f \<and> take 64 f = replicate 64 0xff))"
proof -
  have f: "(\<exists>d. copy_file mmap0 x f p = Some d) \<longleftrightarrow> (f \<noteq> [] \<or> mmap0) \<and> (x \<longrightarrow> 64 \<le> length f \<and> take 64 f = replicate 64 0xff)" for x f p
  proof -
    have "take 64 f = replicate 64 0xff \<longleftrightarrow> (\<forall>b\<in>set (take 64 f). b = 0xff)" if "64 \<le> length f"
      using that replicate_length_same [of "take 64 f" "0xff"] by (metis in_set_replicate length_take min.absorb2)
    then show ?thesis by (auto simp: copy_file_def Let_def image_get_header_size_def)
  qed
  have e: "(\<exists>ep. mkimage_ep opts = Some ep) \<longleftrightarrow> (opt_xflag opts \<longrightarrow> opt_ep opts \<in> {None, Some (opt_addr opts + 64)})"
    by (auto simp: mkimage_ep_def Let_def image_get_header_size_def split: option.splits)
  have d: "(\<exists>d. mkimage_data mmap0 opts files = Some d) \<longleftrightarrow> files \<noteq> [] \<and> (has_parts (opt_type opts) \<or> length files = 1) \<and>
      (\<forall>f\<in>set files. \<exists>d. copy_file mmap0 (opt_xflag opts) f True = Some d)"
  proof (cases "has_parts (opt_type opts)")
    case True
    then show ?thesis using copy_files_accepts [of mmap0 "opt_xflag opts" files] by (auto simp: mkimage_data_def)
  next
    case False
    then show ?thesis using f by (auto simp: mkimage_data_def length_Suc_conv split: list.splits)
  qed
  have "(\<exists>img. mkimage mmap0 opts files = Some img) \<longleftrightarrow> (\<exists>ep. mkimage_ep opts = Some ep) \<and> (\<exists>d. mkimage_data mmap0 opts files = Some d)"
    by (auto simp: mkimage_def split: option.splits)
  then show ?thesis unfolding e d f by blast
qed

lemma length_mkimage_header [simp]: "length (header_bytes (mkimage_header opts ep d)) = 64"
  by (rule length_header_bytes) (simp add: mkimage_header_def Let_def IH_NMLEN_def)

lemma read_mkimage_header:
  "read_header (pre @ header_bytes (mkimage_header opts ep d) @ post) (length pre) = Some (mkimage_header opts ep d)"
  by (rule read_header_bytes [where post = post]) (simp_all add: mkimage_header_def Let_def IH_NMLEN_def)

lemma mkimage_Some:
  assumes "mkimage mmap0 opts files = Some img"
  obtains ep d where "mkimage_ep opts = Some ep" and "mkimage_data mmap0 opts files = Some d"
    and "img = header_bytes (mkimage_header opts ep d) @ d"
  using assms by (auto simp: mkimage_def split: option.splits)

lemma mkimage_checks:
  fixes d :: "u8 list" and opts :: mkimage_args and ep :: u32
  defines "h \<equiv> mkimage_header opts ep d"
  assumes "length d < 2 ^ 32"
  shows "image_check_magic h" and "image_check_hcrc h"
    and "image_check_dcrc (pre @ header_bytes h @ d @ post) (length pre) h = Some True"
    and "unat (image_get_data_size h) = length d"
proof -
  show u: "unat (image_get_data_size h) = length d"
    using assms by (simp add: mkimage_header_def Let_def image_get_data_size_def unat_of_nat)
  show "image_check_magic h" and "image_check_hcrc h"
    by (simp_all add: h_def mkimage_header_def Let_def image_check_magic_def image_check_hcrc_def)
  have dc: "ih_dcrc h = crc32 0 d" by (simp add: h_def mkimage_header_def Let_def)
  have l: "length (header_bytes h) = 64" by (simp add: h_def)
  have "crc32_wd 0 d CHUNKSZ_CRC32 = Some (crc32 0 d, (length d + CHUNKSZ_CRC32 - 1) div CHUNKSZ_CRC32)"
    by (rule crc32_wd_spec) (simp_all add: CHUNKSZ_CRC32_def)
  then show "image_check_dcrc (pre @ header_bytes h @ d @ post) (length pre) h = Some True"
    by (simp add: image_check_dcrc_def Let_def u image_get_data_def image_get_header_size_def l dc)
qed

lemma mkimage_parts:
  fixes files :: "u8 list list" and pre post H P :: "u8 list"
  defines "m \<equiv> pre @ H @ size_table files @ PUT_UINT32_BE 0 @ P @ post" and "n \<equiv> length (takeWhile (\<lambda>f. f \<noteq> []) files)"
  assumes P: "copy_files mmap0 xflag files = Some P" and H: "length H = 64"
    and small: "length pre + length (H @ size_table files @ PUT_UINT32_BE 0 @ P) + 3 < 2 ^ 32"
  shows "image_multi_count m (length pre) = Some n"
    and "i < n \<Longrightarrow> image_multi_getimg m (length pre) i =
           Some (of_nat (length pre + 64 + 4 * (n + 1) + (\<Sum>f\<leftarrow>take i files. rounded f)), of_nat (length (files ! i)))"
    and "n \<le> i \<Longrightarrow> image_multi_getimg m (length pre) i = Some (0, 0)"
proof -
  have m: "m = (pre @ H) @ size_table files @ PUT_UINT32_BE 0 @ P @ post" by (simp add: m_def)
  have base: "image_get_data (length pre) = length (pre @ H)" by (simp add: image_get_data_def image_get_header_size_def H)
  have part: "length f < 2 ^ 32" if "f \<in> set files" for f
  proof -
    have "0 < length files" using that by auto
    then show ?thesis using copy_files_length [OF P that] small H by (simp add: length_size_table)
  qed
  show count: "image_multi_count m (length pre) = Some n"
    unfolding image_multi_count_def base m n_def by (rule count_size_table) (use part in blast)
  have n: "n \<le> length files" unfolding n_def by (rule length_takeWhile_le)
  let ?sz = "\<lambda>k. GET_UINT32_BE (drop (length (pre @ H) + 4 * k) m) 0"
  have sz: "?sz k = of_nat (length (files ! k))" if "k < length files" for k
    using drop_size_table [OF that, of "PUT_UINT32_BE 0 @ P @ post"] unfolding m by (auto simp: add.commute)
  show "image_multi_getimg m (length pre) i = Some (0, 0)" if "n \<le> i"
    using that by (simp add: image_multi_getimg_def count Let_def)
  assume i: "i < n"
  have "foldl (\<lambda>offset k. offset + ((?sz k + 3) AND NOT 3)) 0 [0..<i]
    = foldl (\<lambda>offset k. offset + ((of_nat (length (files ! k)) + 3) AND NOT 3)) 0 [0..<i]"
    by (rule foldl_cong) (use sz i n in auto)
  also have "\<dots> = of_nat (\<Sum>f\<leftarrow>take i files. rounded f)" by (rule foldl_offsets) (use i n in simp)
  finally have fold: "foldl (\<lambda>offset k. offset + ((?sz k + 3) AND NOT 3)) 0 [0..<i] = of_nat (\<Sum>f\<leftarrow>take i files. rounded f)" .
  have "image_multi_getimg m (length pre) i = Some (of_nat (length (pre @ H)) + (of_nat n + 1) * 4 + of_nat (\<Sum>f\<leftarrow>take i files. rounded f), of_nat (length (files ! i)))"
    using i n sz [of i] by (simp only: image_multi_getimg_def count base option.case Let_def if_True fold)
  then show "image_multi_getimg m (length pre) i =
    Some (of_nat (length pre + 64 + 4 * (n + 1) + (\<Sum>f\<leftarrow>take i files. rounded f)), of_nat (length (files ! i)))"
    by (simp only: length_append H of_nat_add of_nat_mult of_nat_numeral of_nat_1 mult.commute)
qed

lemma mkimage_bytes:
  fixes files :: "u8 list list" and pre post H P :: "u8 list"
  defines "m \<equiv> pre @ H @ size_table files @ PUT_UINT32_BE 0 @ P @ post"
  assumes P: "copy_files mmap0 False files = Some P" and H: "length H = 64" and i: "i < length files"
  shows "take (length (files ! i)) (drop (length pre + 64 + 4 * (length files + 1) + (\<Sum>f\<leftarrow>take i files. rounded f)) m) = files ! i"
proof -
  have "drop (length pre + 64 + 4 * (length files + 1) + (\<Sum>f\<leftarrow>take i files. rounded f)) m
    = drop (\<Sum>f\<leftarrow>take i files. rounded f) (P @ post)"
    unfolding m_def using H by (simp add: length_size_table drop_append)
  then show ?thesis using component_at [OF P i, of post] by (simp only:)
qed

text \<open>
  C7: what \<open>mkimage\<close> writes the boot loader accepts and takes apart again. Wherever the image stands in
  memory its header is read back with the fields asked for, magic number, header checksum and data checksum
  are good, and the data of a single-file image is the file (without its first 64 bytes with \<open>-x\<close>). Of a
  multi-file image or script the loader counts the files before the first empty one, finds each of these with
  its size at the address behind the table it counted, and nothing behind them; without \<open>-x\<close> and when no file
  is empty, the bytes there are exactly the file's.
\<close>

theorem mkimage_read_back:
  assumes "mkimage mmap0 opts files = Some img" and "m = pre @ img @ post" and "length pre + length img + 3 < 2 ^ 32"
    and "n = length (takeWhile (\<lambda>f. f \<noteq> []) files)"
    and "at = (\<lambda>i. length pre + 64 + 4 * (n + 1) + (\<Sum>f\<leftarrow>take i files. 4 * ((length f + 3) div 4)))"
  shows "\<exists>h. read_header m (length pre) = Some h \<and> image_check_magic h \<and> image_check_hcrc h \<and>
    image_check_dcrc m (length pre) h = Some True \<and>
    (ih_type h, ih_os h, ih_arch h, ih_load h) = (opt_type opts, opt_os opts, opt_arch opts, opt_addr opts) \<and>
    ih_ep h = (case opt_ep opts of Some ep \<Rightarrow> ep | None \<Rightarrow> if opt_xflag opts then opt_addr opts + 64 else opt_addr opts) \<and>
    (if opt_type opts = IH_TYPE_MULTI \<or> opt_type opts = IH_TYPE_SCRIPT
     then image_multi_count m (length pre) = Some n \<and>
          (\<forall>i<n. image_multi_getimg m (length pre) i = Some (of_nat (at i), of_nat (length (files ! i)))) \<and>
          (\<forall>i\<ge>n. image_multi_getimg m (length pre) i = Some (0, 0)) \<and>
          (\<not> opt_xflag opts \<and> [] \<notin> set files \<longrightarrow>
             n = length files \<and> (\<forall>i<n. take (length (files ! i)) (drop (at i) m) = files ! i))
     else take (unat (image_get_data_size h)) (drop (image_get_data (length pre)) m)
            = drop (if opt_xflag opts then 64 else 0) (hd files))"
proof -
  obtain ep d where ep: "mkimage_ep opts = Some ep" and d: "mkimage_data mmap0 opts files = Some d"
    and img: "img = header_bytes (mkimage_header opts ep d) @ d" using assms(1) by (rule mkimage_Some)
  define h where "h = mkimage_header opts ep d"
  define H where "H = header_bytes h"
  have H: "length H = 64" by (simp add: H_def h_def)
  have "length d < 2 ^ 32" using assms(3) by (simp add: img)
  note checks = mkimage_checks [OF this, where opts = opts and ep = ep, folded h_def]
  have "read_header m (length pre) = Some h"
    unfolding assms(2) h_def img append_assoc by (rule read_mkimage_header)
  moreover have "image_check_dcrc m (length pre) h = Some True"
    using checks(3) [where pre = pre and post = post] by (simp add: assms(2) img h_def)
  moreover have "(ih_type h, ih_os h, ih_arch h, ih_load h) = (opt_type opts, opt_os opts, opt_arch opts, opt_addr opts)"
    by (simp add: h_def mkimage_header_def Let_def)
  moreover have "ih_ep h = (case opt_ep opts of Some ep \<Rightarrow> ep | None \<Rightarrow> if opt_xflag opts then opt_addr opts + 64 else opt_addr opts)"
    using ep by (auto simp: h_def mkimage_header_def mkimage_ep_def Let_def image_get_header_size_def split: option.splits if_splits)
  moreover have "take (unat (image_get_data_size h)) (drop (image_get_data (length pre)) m)
    = drop (if opt_xflag opts then 64 else 0) (hd files)" if "\<not> has_parts (opt_type opts)"
    using that checks(4) d copy_file_Some [of mmap0 "opt_xflag opts" "hd files" False d]
    by (simp add: assms(2) img image_get_data_def image_get_header_size_def h_def mkimage_data_def split: list.splits)
  moreover have "image_multi_count m (length pre) = Some n \<and>
      (\<forall>i<n. image_multi_getimg m (length pre) i = Some (of_nat (at i), of_nat (length (files ! i)))) \<and>
      (\<forall>i\<ge>n. image_multi_getimg m (length pre) i = Some (0, 0)) \<and>
      (\<not> opt_xflag opts \<and> [] \<notin> set files \<longrightarrow> n = length files \<and> (\<forall>i<n. take (length (files ! i)) (drop (at i) m) = files ! i))"
    if t: "has_parts (opt_type opts)"
  proof -
    obtain P where P: "copy_files mmap0 (opt_xflag opts) files = Some P" and dP: "d = size_table files @ PUT_UINT32_BE 0 @ P"
      using d t by (auto simp: mkimage_data_def)
    have m: "m = pre @ H @ size_table files @ PUT_UINT32_BE 0 @ P @ post" by (simp add: assms(2) img H_def h_def dP)
    have small: "length pre + length (H @ size_table files @ PUT_UINT32_BE 0 @ P) + 3 < 2 ^ 32"
      using assms(3) by (simp add: img H_def h_def dP)
    note parts = mkimage_parts [OF P H small, where post = post, folded m assms(4)]
    have "n = length files" if "[] \<notin> set files"
      unfolding assms(4) using that by (metis (mono_tags, lifting) takeWhile_eq_all_conv)
    moreover have "take (length (files ! i)) (drop (at i) m) = files ! i" if "\<not> opt_xflag opts" "n = length files" "i < n" for i
      using mkimage_bytes [of mmap0 files P H i pre post] P H that unfolding assms(5) m by simp
    ultimately show ?thesis using parts unfolding assms(5) by blast
  qed
  ultimately show ?thesis using checks(1,2) by (intro exI [of _ h]) simp
qed

section \<open>Corrupted images\<close>

lemma take_4: "k + 4 \<le> length bs \<Longrightarrow> take 4 (drop k bs) = [bs ! k, bs ! (k + 1), bs ! (k + 2), bs ! (k + 3)]"
  by (subst take_map_nth) (simp_all add: upt_rec eval_nat_numeral)

lemma PUT_GET_BE: "k + 4 \<le> length bs \<Longrightarrow> PUT_UINT32_BE (GET_UINT32_BE bs k) = take 4 (drop k bs)"
proof -
  assume k: "k + 4 \<le> length bs"
  let ?g = "\<lambda>a b c d. (push_bit 24 (ucast (a :: u8)) OR push_bit 16 (ucast (b :: u8)) OR push_bit 8 (ucast (c :: u8)) OR ucast (d :: u8) :: u32)"
  have no: "\<not> bit b n" if "8 \<le> n" for b :: u8 and n using that bit_imp_le_length [of b n] by auto
  have w: "ucast (drop_bit 24 (?g a b c d)) = a" "ucast (drop_bit 16 (?g a b c d)) = b"
    "ucast (drop_bit 8 (?g a b c d)) = c" "ucast (?g a b c d) = d" for a b c d
    by (rule bit_word_eqI, simp add: bit_simps no)+
  show ?thesis unfolding take_4 [OF k] GET_UINT32_BE_def PUT_UINT32_BE_def w by (rule refl)
qed

lemma header_bytes_no_hcrc:
  "header_bytes (h\<lparr>ih_hcrc := 0\<rparr>) = take 4 (header_bytes h) @ [0, 0, 0, 0] @ drop 8 (header_bytes h)"
  by (simp add: header_bytes_def PUT_UINT32_BE_def)

lemma header_bytes_of:
  assumes "length b = 64"
  shows "header_bytes \<lparr>ih_magic = GET_UINT32_BE b 0, ih_hcrc = GET_UINT32_BE b 4, ih_time = GET_UINT32_BE b 8,
      ih_size = GET_UINT32_BE b 12, ih_load = GET_UINT32_BE b 16, ih_ep = GET_UINT32_BE b 20,
      ih_dcrc = GET_UINT32_BE b 24, ih_os = b ! 28, ih_arch = b ! 29, ih_type = b ! 30,
      ih_comp = b ! 31, ih_name = drop 32 b\<rparr> = b"
proof -
  have p: "PUT_UINT32_BE (GET_UINT32_BE b k) = take 4 (drop k b)" if "k + 4 \<le> 64" for k
    using PUT_GET_BE that assms by simp
  have four: "[b ! 28, b ! 29, b ! 30, b ! 31] = take 4 (drop 28 b)" using take_4 [of 28 b] assms by simp
  have join: "take 4 (drop k b) @ drop (k + 4) b = drop k b" for k
    by (metis add.commute append_take_drop_id drop_drop)
  have s: "take 4 (drop 28 b) @ drop 32 b = drop 28 b" "take 4 (drop 24 b) @ drop 28 b = drop 24 b"
    "take 4 (drop 20 b) @ drop 24 b = drop 20 b" "take 4 (drop 16 b) @ drop 20 b = drop 16 b"
    "take 4 (drop 12 b) @ drop 16 b = drop 12 b" "take 4 (drop 8 b) @ drop 12 b = drop 8 b"
    "take 4 (drop 4 b) @ drop 8 b = drop 4 b" "take 4 (drop 0 b) @ drop 4 b = b"
    using join [of 28] join [of 24] join [of 20] join [of 16] join [of 12] join [of 8] join [of 4] join [of 0] by simp_all
  have q: "PUT_UINT32_BE (GET_UINT32_BE b 0) = take 4 (drop 0 b)" "PUT_UINT32_BE (GET_UINT32_BE b 4) = take 4 (drop 4 b)"
    "PUT_UINT32_BE (GET_UINT32_BE b 8) = take 4 (drop 8 b)" "PUT_UINT32_BE (GET_UINT32_BE b 12) = take 4 (drop 12 b)"
    "PUT_UINT32_BE (GET_UINT32_BE b 16) = take 4 (drop 16 b)" "PUT_UINT32_BE (GET_UINT32_BE b 20) = take 4 (drop 20 b)"
    "PUT_UINT32_BE (GET_UINT32_BE b 24) = take 4 (drop 24 b)"
    by (rule p, simp)+
  show ?thesis
    unfolding header_bytes_def image_header.simps four q s by (rule refl)
qed

lemma read_headerD:
  assumes "read_header m a = Some h"
  shows "a + 64 \<le> length m" and "header_bytes h = take 64 (drop a m)"
    and "ih_hcrc h = GET_UINT32_BE (take 64 (drop a m)) 4" and "ih_size h = GET_UINT32_BE (take 64 (drop a m)) 12"
    and "ih_dcrc h = GET_UINT32_BE (take 64 (drop a m)) 24"
proof -
  define b where "b = take 64 (drop a m)"
  show am: "a + 64 \<le> length m"
    using assms by (simp add: read_header_def image_get_header_size_def split: if_splits)
  then have b: "length b = 64" by (simp add: b_def)
  have h: "h = \<lparr>ih_magic = GET_UINT32_BE b 0, ih_hcrc = GET_UINT32_BE b 4, ih_time = GET_UINT32_BE b 8,
      ih_size = GET_UINT32_BE b 12, ih_load = GET_UINT32_BE b 16, ih_ep = GET_UINT32_BE b 20,
      ih_dcrc = GET_UINT32_BE b 24, ih_os = b ! 28, ih_arch = b ! 29, ih_type = b ! 30,
      ih_comp = b ! 31, ih_name = drop 32 b\<rparr>"
    using assms am unfolding read_header_def image_get_header_size_def b_def [symmetric] Let_def by simp
  show "header_bytes h = take 64 (drop a m)" using header_bytes_of [OF b] unfolding h b_def .
  show "ih_hcrc h = GET_UINT32_BE (take 64 (drop a m)) 4" "ih_size h = GET_UINT32_BE (take 64 (drop a m)) 12"
    "ih_dcrc h = GET_UINT32_BE (take 64 (drop a m)) 24"
    unfolding b_def [symmetric] by (simp_all add: h)
qed

text \<open>An accepted ramdisk has passed both checks.\<close>

lemma image_get_ramdisk_checked:
  assumes "image_get_ramdisk m a arch True = Some (ms, Some h)"
  shows "read_header m a = Some h" and "image_check_hcrc h" and "image_check_dcrc m a h = Some True"
  using assms by (auto simp: image_get_ramdisk_def Let_def split: option.splits if_splits)

lemma header_corruption:
  assumes h: "read_header m a = Some h" and h': "read_header (m[k := b]) a = Some h'"
    and good: "image_check_hcrc h" and k: "a \<le> k" "k < a + 64" "b \<noteq> m ! k"
  shows "\<not> image_check_hcrc h'"
proof
  assume good': "image_check_hcrc h'"
  define j where "j = k - a"
  define B where "B = take 64 (drop a m)"
  note R = read_headerD [OF h, folded B_def]
  have B: "length B = 64" and j: "j < 64" "B ! j \<noteq> b" using R(1) k by (simp_all add: B_def j_def)
  have B': "take 64 (drop a (m[k := b])) = B[j := b]" using k R(1) by (simp add: B_def j_def drop_update_swap take_update_swap)
  note R' = read_headerD [OF h', unfolded B']
  have crc: "crc32 0 (take 4 B @ [0, 0, 0, 0] @ drop 8 B) = GET_UINT32_BE B 4"
    using good by (simp add: image_check_hcrc_def header_bytes_no_hcrc R(2,3))
  have crc': "crc32 0 (take 4 (B[j := b]) @ [0, 0, 0, 0] @ drop 8 (B[j := b])) = GET_UINT32_BE (B[j := b]) 4"
    using good' by (simp add: image_check_hcrc_def header_bytes_no_hcrc R'(2,3))
  show False
  proof (cases "4 \<le> j \<and> j < 8")
    case True
    then have "take 4 (drop 4 (B[j := b])) = take 4 (drop 4 B)"
      using crc crc' PUT_GET_BE [of 4 B] PUT_GET_BE [of 4 "B[j := b]"] B by (simp add: drop_update_cancel)
    then have "take 4 (drop 4 (B[j := b])) ! (j - 4) = take 4 (drop 4 B) ! (j - 4)" by simp
    moreover have "j - 4 < 4" "4 + (j - 4) = j" using True by auto
    ultimately show False using B j by (simp add: nth_take)
  next
    case False
    then have same: "GET_UINT32_BE (B[j := b]) 4 = GET_UINT32_BE B 4" by (auto simp: GET_UINT32_BE_def)
    have "take 4 (B[j := b]) @ [0, 0, 0, 0] @ drop 8 (B[j := b]) = (take 4 B @ [0, 0, 0, 0] @ drop 8 B)[j := b]"
    proof (cases "j < 4")
      case True
      then show ?thesis using B by (simp add: list_update_append take_update_swap drop_update_cancel)
    next
      case ge: False
      have "((take 4 B @ [0, 0, 0, 0]) @ drop 8 B)[j := b] = (take 4 B @ [0, 0, 0, 0]) @ (drop 8 B)[j - 8 := b]"
        using ge False B by (subst list_update_append) simp
      then show ?thesis using ge False by (simp add: drop_update_swap)
    qed
    moreover have "j < length (take 4 B @ [0, 0, 0, 0] @ drop 8 B)" using B j by simp
    moreover have "(take 4 B @ [0, 0, 0, 0] @ drop 8 B) ! j = B ! j" using False B j(1) by (auto simp: nth_append)
    ultimately show False using crc32_update [of j "take 4 B @ [0, 0, 0, 0] @ drop 8 B" b 0] crc crc' same j(2) by simp
  qed
qed

text \<open>
  C8: no corrupted ramdisk is booted: when one byte of an image whose checksums are good is changed,
  in its header or in its data, \<open>image_get_ramdisk\<close> with verification never returns a header.
\<close>

theorem ramdisk_corruption_rejected:
  assumes h: "read_header m a = Some h" and good: "image_check_hcrc h" "image_check_dcrc m a h = Some True"
    and k: "a \<le> k" "k < a + 64 + unat (image_get_data_size h)" "b \<noteq> m ! k"
  shows "image_get_ramdisk (m[k := b]) a arch True \<noteq> Some (ms, Some h')"
proof
  assume "image_get_ramdisk (m[k := b]) a arch True = Some (ms, Some h')"
  note c = image_get_ramdisk_checked [OF this]
  show False
  proof (cases "k < a + 64")
    case True
    then show False using header_corruption [OF h c(1) good(1) k(1) _ k(3)] c(2) by simp
  next
    case False
    then have "take 64 (drop a (m[k := b])) = take 64 (drop a m)"
      using k(1) by (simp add: drop_update_swap take_update_swap list_update_beyond)
    then have "read_header (m[k := b]) a = read_header m a"
      by (simp only: read_header_def image_get_header_size_def length_list_update)
    then have [simp]: "h' = h" using h c(1) by simp
    let ?n = "unat (image_get_data_size h)" and ?D = "take (unat (image_get_data_size h)) (drop (a + 64) m)"
    have wd: "crc32_wd 0 bs CHUNKSZ_CRC32 = Some (crc32 0 bs, (length bs + CHUNKSZ_CRC32 - 1) div CHUNKSZ_CRC32)" for bs
      by (rule crc32_wd_spec) (simp_all add: CHUNKSZ_CRC32_def)
    have n: "a + 64 + ?n \<le> length m" and d: "crc32 0 ?D = ih_dcrc h"
      using good(2) by (simp_all add: image_check_dcrc_def Let_def wd image_get_data_def image_get_header_size_def split: if_splits)
    have "crc32 0 (take ?n (drop (a + 64) (m[k := b]))) = ih_dcrc h"
      using c(3) by (simp add: image_check_dcrc_def Let_def wd image_get_data_def image_get_header_size_def split: if_splits)
    moreover have "take ?n (drop (a + 64) (m[k := b])) = ?D[k - (a + 64) := b]"
      using False by (simp add: drop_update_swap take_update_swap)
    moreover have "crc32 0 (?D[k - (a + 64) := b]) \<noteq> crc32 0 ?D"
      by (rule crc32_update) (use False k n in simp_all)
    ultimately show False using d by simp
  qed
qed


text \<open>A small image: a ramdisk of five bytes for ARM, and a multi-file image of two parts.\<close>

definition sample_args :: "u8 \<Rightarrow> mkimage_args" where
  "sample_args t = \<lparr>opt_time = 0, opt_addr = 0x800000, opt_ep = None, opt_os = 5, opt_arch = 2, opt_type = t,
     opt_comp = 0, opt_name = [0x64], opt_xflag = False\<rparr>"

lemma sample_args_simps [simp]:
  "opt_type (sample_args t) = t" "opt_xflag (sample_args t) = False" "opt_addr (sample_args t) = 0x800000"
  "mkimage_ep (sample_args t) = Some 0x800000"
  by (simp_all add: sample_args_def mkimage_ep_def)

text \<open>Three files, the second of them empty: the loader finds one component, and it is taken from the wrong place.\<close>

theorem mkimage_read_back_witness:
  "\<exists>img h. mkimage True (sample_args 4) [[1, 2, 3, 4, 5], [], [6]] = Some img \<and>
     read_header ([7, 7] @ img @ [9]) 2 = Some h \<and> image_check_magic h \<and> ih_ep h = 0x800000 \<and>
     image_multi_count ([7, 7] @ img @ [9]) 2 = Some 1 \<and> image_multi_getimg ([7, 7] @ img @ [9]) 2 0 = Some (74, 5) \<and>
     image_multi_getimg ([7, 7] @ img @ [9]) 2 2 = Some (0, 0)"
proof -
  obtain img where img: "mkimage True (sample_args 4) [[1, 2, 3, 4, 5], [], [6 :: u8]] = Some img" "length img = 89"
    by (simp add: mkimage_def mkimage_data_def IH_TYPE_MULTI_def copy_file_def)
  define m where "m = [7, 7] @ img @ [9]"
  have "length [7, 7 :: u8] + length img + 3 < 2 ^ 32" by (simp add: img)
  from mkimage_read_back [OF img(1) m_def this refl refl] obtain h where
    h: "read_header m (length [7, 7 :: u8]) = Some h" "image_check_magic h"
       "ih_ep h = (case opt_ep (sample_args 4) of Some ep \<Rightarrow> ep | None \<Rightarrow> if opt_xflag (sample_args 4) then opt_addr (sample_args 4) + 64 else opt_addr (sample_args 4))"
    and c: "image_multi_count m (length [7, 7 :: u8]) = Some (length (takeWhile (\<lambda>f. f \<noteq> []) [[1, 2, 3, 4, 5], [], [6 :: u8]]))"
    and p: "image_multi_getimg m (length [7, 7 :: u8]) 0 = Some (of_nat (length [7, 7 :: u8] + 64 +
              4 * (length (takeWhile (\<lambda>f. f \<noteq> []) [[1, 2, 3, 4, 5], [], [6 :: u8]]) + 1) +
              (\<Sum>f\<leftarrow>take 0 [[1, 2, 3, 4, 5], [], [6 :: u8]]. 4 * ((length f + 3) div 4))), of_nat (length ([[1, 2, 3, 4, 5], [], [6 :: u8]] ! 0)))"
       "image_multi_getimg m (length [7, 7 :: u8]) 2 = Some (0, 0)"
    by (auto simp: IH_TYPE_MULTI_def)
  have "ih_ep h = 0x800000" using h(3) by (simp add: sample_args_def)
  then have "read_header m 2 = Some h \<and> image_check_magic h \<and> ih_ep h = 0x800000 \<and> image_multi_count m 2 = Some 1
    \<and> image_multi_getimg m 2 0 = Some (74, 5) \<and> image_multi_getimg m 2 2 = Some (0, 0)"
    using h(1,2) c p by (simp add: numeral_2_eq_2)
  then show ?thesis using img(1) unfolding m_def by blast
qed

theorem ramdisk_corruption_rejected_witness:
  "\<exists>img. mkimage False (sample_args 3) [[1, 2, 3, 4, 5]] = Some img \<and>
     (\<forall>h. image_get_ramdisk (img[66 := 4]) 0 2 True \<noteq> Some ([], Some h))"
proof -
  define d :: "u8 list" where "d = [1, 2, 3, 4, 5]"
  define img where "img = header_bytes (mkimage_header (sample_args 3) 0x800000 d) @ d"
  have m: "mkimage False (sample_args 3) [[1, 2, 3, 4, 5]] = Some img"
    by (simp add: mkimage_def mkimage_data_def IH_TYPE_MULTI_def IH_TYPE_SCRIPT_def copy_file_def d_def img_def)
  have h: "read_header img 0 = Some (mkimage_header (sample_args 3) 0x800000 d)"
    using read_mkimage_header [of "[]" "sample_args 3" "0x800000" d d] by (simp add: img_def)
  have small: "length d < 2 ^ 32" by (simp add: d_def)
  note c = mkimage_checks(1,2) [OF small, of "sample_args 3"] mkimage_checks(3) [OF small, of "[]" "sample_args 3" "0x800000" "[]"]
    mkimage_checks(4) [OF small, of "sample_args 3"]
  have "image_check_dcrc img 0 (mkimage_header (sample_args 3) 0x800000 d) = Some True"
    using c(3) by (simp add: img_def)
  then have "\<forall>h. image_get_ramdisk (img[66 := 4]) 0 2 True \<noteq> Some ([], Some h)"
    by (intro allI, rule ramdisk_corruption_rejected [OF h c(2)]) (simp_all add: c(4) [unfolded d_def] d_def img_def nth_append)
  then show ?thesis using m by blast
qed

end
