(* ===== verification/Disk.thy ===== *)
theory Disk
  imports CStrings Vsprintf HashStream
begin

text \<open>
  Block devices and DOS partition tables: the device descriptor and the lookup of devices
  (\<^verbatim>\<open>include/part.h\<close>, \<^verbatim>\<open>disk/part.c\<close>), the report about a device, and the primary and logical
  partitions of a disk (\<^verbatim>\<open>disk/part_dos.c\<close>).

  A driver's \<open>block_read\<close> is the function in the descriptor: it gives the blocks it could read, of 512
  bytes each, and their number is the value the C function returns. The walk along the chain of
  extended partition tables need not end; then its value is \<open>None\<close>.
\<close>

section \<open>Little-endian fields\<close>

lemma GET_PUT_LE: "GET_UINT32_LE (PUT_UINT32_LE w @ r) 0 = w"
proof -
  have "push_bit 16 (push_bit 8 (ucast (ucast (drop_bit 24 w) :: u8)) OR ucast (ucast (drop_bit 16 w) :: u8))
     OR (push_bit 8 (ucast (ucast (drop_bit 8 w) :: u8)) OR ucast (ucast w :: u8)) = (w :: u32)"
  proof (rule bit_word_eqI)
    fix n assume "n < LENGTH(32)"
    then have n: "n < 32" by simp
    consider "n < 8" | "8 \<le> n" "n < 16" | "16 \<le> n" "n < 24" | "24 \<le> n" using n by linarith
    then show "bit (push_bit 16 (push_bit 8 (ucast (ucast (drop_bit 24 w) :: u8)) OR ucast (ucast (drop_bit 16 w) :: u8))
     OR (push_bit 8 (ucast (ucast (drop_bit 8 w) :: u8)) OR ucast (ucast w :: u8)) :: u32) n = bit w n"
      using n by cases (auto simp: bit_simps)
  qed
  then show ?thesis by (simp add: GET_UINT32_LE_def PUT_UINT32_LE_def)
qed

lemma GET_LE_append: "length xs = k \<Longrightarrow> GET_UINT32_LE (xs @ ys) k = GET_UINT32_LE ys 0"
  by (simp add: GET_UINT32_LE_def nth_append eval_nat_numeral)

section \<open>Devices\<close>

datatype con_msg = Puts string | Printf string "arg list"

definition IF_TYPE_UNKNOWN :: u8 where "IF_TYPE_UNKNOWN = 0"
definition IF_TYPE_IDE :: u8 where "IF_TYPE_IDE = 1"
definition IF_TYPE_SCSI :: u8 where "IF_TYPE_SCSI = 2"
definition IF_TYPE_ATAPI :: u8 where "IF_TYPE_ATAPI = 3"
definition IF_TYPE_USB :: u8 where "IF_TYPE_USB = 4"
definition IF_TYPE_DOC :: u8 where "IF_TYPE_DOC = 5"
definition IF_TYPE_MMC :: u8 where "IF_TYPE_MMC = 6"
definition IF_TYPE_SD :: u8 where "IF_TYPE_SD = 7"
definition IF_TYPE_SATA :: u8 where "IF_TYPE_SATA = 8"

definition PART_TYPE_UNKNOWN :: u8 where "PART_TYPE_UNKNOWN = 0"
definition PART_TYPE_DOS :: u8 where "PART_TYPE_DOS = 2"

record block_dev_desc =
  if_type :: u8
  dev_num :: u32
  part_type :: u8
  target :: u8
  lun :: u8
  dev_type :: u8
  removable :: u8
  lba :: u32
  blksz :: u32
  vendor :: string
  product :: string
  revision :: string
  block_read :: "(u32 \<Rightarrow> u32 \<Rightarrow> u8 list list) option"

text \<open>The table of drivers: a name and the driver's function from device numbers to descriptors.\<close>

type_synonym block_drvr = "string \<times> (u32 \<Rightarrow> block_dev_desc option)"

fun get_dev :: "block_drvr list \<Rightarrow> string \<Rightarrow> u32 \<Rightarrow> block_dev_desc option" where
  "get_dev [] ifname dev = None"
| "get_dev ((name, drv_get_dev) # drvrs) ifname dev =
     (if strncmp ifname name (strlen name) = 0 then drv_get_dev dev else get_dev drvrs ifname dev)"

definition nl :: string where "nl = [CHR 0x0A]"

definition dev_kind :: "u8 \<Rightarrow> con_msg list" where
  "dev_kind t =
     (let k = t AND 0x1F
      in if k = 0 then [Puts ''Hard Disk''] else if k = 5 then [Puts ''CD ROM''] else if k = 7 then [Puts ''Optical Device'']
         else if k = 1 then [Puts ''Tape''] else [Printf ''# %02X #'' [A32 (ucast k)]])"

text \<open>Megabytes and gigabytes with one decimal, in 32 bits.\<close>

definition capacity :: "u32 \<Rightarrow> u32 \<Rightarrow> u32 \<times> u32 \<times> u32 \<times> u32" where
  "capacity blks bsize =
     (let lba512 = blks * (bsize div 512); mb = (10 * lba512) div 2048; mb_quot = mb div 10; mb_rem = mb - 10 * mb_quot;
          gb = mb div 1024; gb_quot = gb div 10; gb_rem = gb - 10 * gb_quot
      in (mb_quot, mb_rem, gb_quot, gb_rem))"

definition dev_print :: "block_dev_desc \<Rightarrow> con_msg list" where
  "dev_print d =
     (let v = AStr (Some (vendor d)); p = AStr (Some (product d)); r = AStr (Some (revision d)); t = if_type d;
          rest = [Puts ''            Type: ''] @ (if removable d \<noteq> 0 then [Puts ''Removable ''] else []) @
            dev_kind (dev_type d) @ [Puts nl] @
            (if lba d * blksz d > 0
             then (let (mq, mr, gq, gr) = capacity (lba d) (blksz d)
                   in [Printf (''            Capacity: %ld.%ld MB = %ld.%ld GB (%ld x %ld)'' @ nl)
                         [A32 mq, A32 mr, A32 gq, A32 gr, A32 (lba d), A32 (blksz d)]])
             else [Puts (''            Capacity: not available'' @ nl)])
      in if t = IF_TYPE_SCSI
         then Printf (''(%d:%d) Vendor: %s Prod.: %s Rev: %s'' @ nl) [A32 (ucast (target d)), A32 (ucast (lun d)), v, p, r] # rest
         else if t = IF_TYPE_ATAPI \<or> t = IF_TYPE_IDE \<or> t = IF_TYPE_SATA
         then Printf (''Model: %s Firm: %s Ser#: %s'' @ nl) [v, r, p] # rest
         else if t = IF_TYPE_SD \<or> t = IF_TYPE_MMC \<or> t = IF_TYPE_USB
         then Printf (''Vendor: %s Rev: %s Prod: %s'' @ nl) [v, r, p] # rest
         else if t = IF_TYPE_DOC then [Puts (''device type DOC'' @ nl)]
         else if t = IF_TYPE_UNKNOWN then [Puts (''device type unknown'' @ nl)]
         else [Printf (''Unhandled device type: %i'' @ nl) [A32 (ucast t)]])"

text \<open>The product with 10 overflows for disks from 205 GiB on: 465.7 GB are reported as 56.1 GB.\<close>

lemma capacity_wraps: "capacity 976773168 512 = (57509, 6, 56, 1)" "capacity 2097152 512 = (1024, 0, 1, 0)"
  by code_simp+

section \<open>DOS partition tables\<close>

definition DOS_PART_TBL_OFFSET :: nat where "DOS_PART_TBL_OFFSET = 0x1be"
definition DOS_PART_MAGIC_OFFSET :: nat where "DOS_PART_MAGIC_OFFSET = 0x1fe"
definition DOS_PBR_FSTYPE_OFFSET :: nat where "DOS_PBR_FSTYPE_OFFSET = 0x36"
definition DOS_PBR_MEDIA_TYPE_OFFSET :: nat where "DOS_PBR_MEDIA_TYPE_OFFSET = 0x15"

text \<open>The fields of a table entry the code reads.\<close>

record dos_partition =
  boot_ind :: u8
  sys_ind :: u8
  start4 :: "u8 list"
  size4 :: "u8 list"

definition dos_entry :: "u8 list \<Rightarrow> nat \<Rightarrow> dos_partition" where
  "dos_entry buffer i =
     (let p = drop (DOS_PART_TBL_OFFSET + 16 * i) buffer
      in \<lparr>boot_ind = p ! 0, sys_ind = p ! 4, start4 = take 4 (drop 8 p), size4 = take 4 (drop 12 p)\<rparr>)"

definition dos_table :: "u8 list \<Rightarrow> dos_partition list" where
  "dos_table buffer = map (dos_entry buffer) [0..<4]"

definition le32_to_int :: "u8 list \<Rightarrow> u32" where
  "le32_to_int le32 = push_bit 24 (ucast (le32 ! 3)) + push_bit 16 (ucast (le32 ! 2)) + push_bit 8 (ucast (le32 ! 1)) + ucast (le32 ! 0)"

definition is_extended :: "u8 \<Rightarrow> bool" where
  "is_extended t \<longleftrightarrow> t = 0x5 \<or> t = 0xf \<or> t = 0x85"

definition has_magic :: "u8 list \<Rightarrow> bool" where
  "has_magic buffer \<longleftrightarrow> buffer ! DOS_PART_MAGIC_OFFSET = 0x55 \<and> buffer ! (DOS_PART_MAGIC_OFFSET + 1) = 0xaa"

datatype block_type = DOS_MBR | DOS_PBR

definition test_block_type :: "u8 list \<Rightarrow> block_type option" where
  "test_block_type buffer =
     (if \<not> has_magic buffer then None
      else if strncmp (map (\<lambda>b. char_of (unat b)) (drop DOS_PBR_FSTYPE_OFFSET buffer)) ''FAT'' 3 = 0 then Some DOS_PBR
      else Some DOS_MBR)"

text \<open>One sector, when the driver returns 1. A descriptor without a driver function is never used here.\<close>

definition read_sector :: "block_dev_desc \<Rightarrow> u32 \<Rightarrow> u8 list option" where
  "read_sector d s =
     (case block_read d of None \<Rightarrow> None
      | Some rd \<Rightarrow> (case rd s 1 of [b] \<Rightarrow> Some b | _ \<Rightarrow> None))"

definition test_part_dos :: "block_dev_desc \<Rightarrow> int" where
  "test_part_dos d =
     (case read_sector d 0 of None \<Rightarrow> - 1 | Some buffer \<Rightarrow> if has_magic buffer then 0 else - 1)"

definition bad_sector :: "block_dev_desc \<Rightarrow> u32 \<Rightarrow> con_msg" where
  "bad_sector d s = Printf (''** Can't read partition table on %d:%d **'' @ nl) [A32 (dev_num d), A32 s]"

definition bad_magic :: "u8 list \<Rightarrow> con_msg" where
  "bad_magic b = Printf (''bad MBR sector signature 0x%02x%02x'' @ nl)
     [A32 (ucast (b ! DOS_PART_MAGIC_OFFSET)), A32 (ucast (b ! (DOS_PART_MAGIC_OFFSET + 1)))]"

subsection \<open>Listing\<close>

definition print_one_part :: "dos_partition \<Rightarrow> u32 \<Rightarrow> u32 \<Rightarrow> con_msg" where
  "print_one_part p ext_part_sector part_num =
     Printf (''%5d'' @ [CHR 0x09, CHR 0x09] @ ''%10d'' @ [CHR 0x09] @ ''%10d'' @ [CHR 0x09] @ ''%2x%s'' @ nl)
       [A32 part_num, A32 (ext_part_sector + le32_to_int (start4 p)), A32 (le32_to_int (size4 p)), A32 (ucast (sys_ind p)),
        AStr (Some (if is_extended (sys_ind p) then '' Extd'' else ''''))]"

text \<open>The number of the entry behind this one.\<close>

definition next_num :: "u32 \<Rightarrow> dos_partition \<Rightarrow> u32 \<Rightarrow> u32" where
  "next_num ext_part_sector pt part_num =
     (if ext_part_sector = 0 \<or> (sys_ind pt \<noteq> 0 \<and> \<not> is_extended (sys_ind pt)) then part_num + 1 else part_num)"

fun print_table :: "u32 \<Rightarrow> u32 \<Rightarrow> dos_partition list \<Rightarrow> con_msg list \<times> u32" where
  "print_table ext_part_sector part_num [] = ([], part_num)"
| "print_table ext_part_sector part_num (pt # pts) =
     (let (ms, n) = print_table ext_part_sector (next_num ext_part_sector pt part_num) pts
      in ((if sys_ind pt \<noteq> 0 \<and> (ext_part_sector = 0 \<or> \<not> is_extended (sys_ind pt))
           then [print_one_part pt ext_part_sector part_num] else []) @ ms, n))"

text \<open>What one sector prints, and its table with the next number when it has one.\<close>

definition print_sector :: "block_dev_desc \<Rightarrow> u32 \<Rightarrow> u32 \<Rightarrow> con_msg list \<times> (dos_partition list \<times> u32) option" where
  "print_sector d ext_part_sector part_num =
     (case read_sector d ext_part_sector of
        None \<Rightarrow> ([bad_sector d ext_part_sector], None)
      | Some buffer \<Rightarrow>
          (case test_block_type buffer of
             None \<Rightarrow> ([bad_magic buffer], None)
           | Some DOS_PBR \<Rightarrow>
               ([Printf (''    1'' @ [CHR 0x09, CHR 0x09] @ ''         0'' @ [CHR 0x09] @ ''%10ld'' @ [CHR 0x09] @ ''%2x'' @ nl)
                   [A32 (lba d), A32 (ucast (buffer ! DOS_PBR_MEDIA_TYPE_OFFSET))]], None)
           | Some DOS_MBR \<Rightarrow>
               (let (ms, n) = print_table ext_part_sector part_num (dos_table buffer) in (ms, Some (dos_table buffer, n)))))"

text \<open>The second loop: the extended partitions of the table are followed.\<close>

partial_function (option) print_follow ::
  "block_dev_desc \<Rightarrow> u32 \<Rightarrow> u32 \<Rightarrow> u32 \<Rightarrow> dos_partition list \<Rightarrow> con_msg list option"
where
  "print_follow d ext_part_sector relative part_num pts =
     (case pts of
        [] \<Rightarrow> Some []
      | pt # pts' \<Rightarrow>
          if is_extended (sys_ind pt)
          then (let lba_start = le32_to_int (start4 pt) + relative;
                    (ms, table) = print_sector d lba_start part_num
                in Option.bind
                     (case table of None \<Rightarrow> Some []
                      | Some (pts2, n) \<Rightarrow>
                          print_follow d lba_start (if ext_part_sector = 0 then lba_start else relative) n pts2)
                     (\<lambda>ms2. Option.bind (print_follow d ext_part_sector relative part_num pts') (\<lambda>ms3. Some (ms @ ms2 @ ms3))))
          else print_follow d ext_part_sector relative part_num pts')"

definition print_partition_extended :: "block_dev_desc \<Rightarrow> u32 \<Rightarrow> u32 \<Rightarrow> u32 \<Rightarrow> con_msg list option" where
  "print_partition_extended d ext_part_sector relative part_num =
     (case print_sector d ext_part_sector part_num of
        (ms, None) \<Rightarrow> Some ms
      | (ms, Some (pts, n)) \<Rightarrow> map_option (\<lambda>ms2. ms @ ms2) (print_follow d ext_part_sector relative n pts))"

definition print_part_dos :: "block_dev_desc \<Rightarrow> con_msg list option" where
  "print_part_dos d =
     map_option (\<lambda>ms. Printf (''Partition     Start Sector     Num Sectors     Type'' @ nl) [] # ms) (print_partition_extended d 0 0 1)"

subsection \<open>Looking up a partition\<close>

record disk_partition =
  dp_start :: u32
  dp_size :: u32
  dp_blksz :: u32
  dp_name :: "string option"
  dp_type :: "string option"

definition part_name :: "block_dev_desc \<Rightarrow> u32 \<Rightarrow> string option" where
  "part_name d part_num =
     (let t = if_type d;
          fmt = (if t = IF_TYPE_IDE \<or> t = IF_TYPE_SATA \<or> t = IF_TYPE_ATAPI then ''hd%c%d'' else if t = IF_TYPE_SCSI then ''sd%c%d''
                 else if t = IF_TYPE_USB then ''usbd%c%d'' else if t = IF_TYPE_DOC then ''docd%c%d'' else ''xx%c%d'')
      in map_option fst (vsprintf (fmt @ nl) [A32 (of_char (CHR ''a'') + dev_num d), A32 part_num]))"

text \<open>The first loop: the entry with the number, or the number behind the table.\<close>

fun find_part :: "u32 \<Rightarrow> u32 \<Rightarrow> u32 \<Rightarrow> dos_partition list \<Rightarrow> dos_partition option \<times> u32" where
  "find_part ext_part_sector part_num which_part [] = (None, part_num)"
| "find_part ext_part_sector part_num which_part (pt # pts) =
     (if sys_ind pt \<noteq> 0 \<and> part_num = which_part \<and> \<not> is_extended (sys_ind pt) then (Some pt, part_num)
      else find_part ext_part_sector (next_num ext_part_sector pt part_num) which_part pts)"

partial_function (option) get_partition_info_extended ::
  "block_dev_desc \<Rightarrow> u32 \<Rightarrow> u32 \<Rightarrow> u32 \<Rightarrow> u32 \<Rightarrow> (con_msg list \<times> disk_partition option) option"
where
  "get_partition_info_extended d ext_part_sector relative part_num which_part =
     (case read_sector d ext_part_sector of
        None \<Rightarrow> Some ([bad_sector d ext_part_sector], None)
      | Some buffer \<Rightarrow>
          if \<not> has_magic buffer then Some ([bad_magic buffer], None)
          else (case find_part ext_part_sector part_num which_part (dos_table buffer) of
                  (Some pt, n) \<Rightarrow>
                    Some ([], Some \<lparr>dp_start = ext_part_sector + le32_to_int (start4 pt), dp_size = le32_to_int (size4 pt),
                                dp_blksz = 512, dp_name = part_name d n, dp_type = map_option fst (vsprintf ''U-Boot'' [])\<rparr>)
                | (None, n) \<Rightarrow>
                    (case filter (\<lambda>pt. is_extended (sys_ind pt)) (dos_table buffer) of
                       [] \<Rightarrow> Some ([], None)
                     | pt # _ \<Rightarrow>
                         (let lba_start = le32_to_int (start4 pt) + relative
                          in get_partition_info_extended d lba_start (if ext_part_sector = 0 then lba_start else relative) n which_part))))"

definition get_partition_info_dos :: "block_dev_desc \<Rightarrow> u32 \<Rightarrow> (con_msg list \<times> disk_partition option) option" where
  "get_partition_info_dos d part = get_partition_info_extended d 0 0 1 part"

section \<open>Partitions of any kind\<close>

definition init_part :: "block_dev_desc \<Rightarrow> block_dev_desc" where
  "init_part d = (if test_part_dos d = 0 then d\<lparr>part_type := PART_TYPE_DOS\<rparr> else d)"

definition get_partition_info :: "block_dev_desc \<Rightarrow> u32 \<Rightarrow> (con_msg list \<times> disk_partition option) option" where
  "get_partition_info d part =
     (if part_type d = PART_TYPE_DOS then get_partition_info_dos d part else Some ([], None))"

definition if_name :: "u8 \<Rightarrow> string" where
  "if_name t =
     (if t = IF_TYPE_IDE then ''IDE'' else if t = IF_TYPE_SATA then ''SATA'' else if t = IF_TYPE_SCSI then ''SCSI''
      else if t = IF_TYPE_ATAPI then ''ATAPI'' else if t = IF_TYPE_USB then ''USB'' else if t = IF_TYPE_DOC then ''DOC'' else ''UNKNOWN'')"

definition print_part_header :: "string \<Rightarrow> block_dev_desc \<Rightarrow> con_msg list" where
  "print_part_header type d =
     [Puts (nl @ ''Partition Map for ''), Puts (if_name (if_type d)),
      Printf ('' device %d  --   Partition Type: %s'' @ nl @ nl) [A32 (dev_num d), AStr (Some type)]]"

definition print_part :: "block_dev_desc \<Rightarrow> con_msg list option" where
  "print_part d =
     (if part_type d = PART_TYPE_DOS
      then map_option (\<lambda>ms. print_part_header ''DOS'' d @ ms) (print_part_dos d)
      else Some [Puts (''## Unknown partition table'' @ nl)])"

section \<open>The partitions of a disk\<close>

text \<open>
  The layout partitioning tools write: each extended table holds one logical partition and, while there are
  more, the way to the next table, counted from the extended partition of the first sector.
\<close>

type_synonym part = "u32 \<times> u32 \<times> u8"

definition entry_part :: "u32 \<Rightarrow> dos_partition \<Rightarrow> part" where
  "entry_part base pt = (base + le32_to_int (start4 pt), le32_to_int (size4 pt), sys_ind pt)"

definition plain :: "dos_partition \<Rightarrow> bool" where
  "plain pt \<longleftrightarrow> sys_ind pt \<noteq> 0 \<and> \<not> is_extended (sys_ind pt)"

fun ebr_chain :: "block_dev_desc \<Rightarrow> u32 \<Rightarrow> u32 \<Rightarrow> part list \<Rightarrow> bool" where
  "ebr_chain d ext s [] \<longleftrightarrow> False"
| "ebr_chain d ext s (lg # lgs) \<longleftrightarrow>
     s \<noteq> 0 \<and>
     (case read_sector d s of None \<Rightarrow> False
      | Some b \<Rightarrow>
          test_block_type b = Some DOS_MBR \<and>
          (case dos_table b of [l, n, y, z] \<Rightarrow>
             plain l \<and> lg = entry_part s l \<and> sys_ind y = 0 \<and> sys_ind z = 0 \<and>
             (if lgs = [] then sys_ind n = 0 else is_extended (sys_ind n) \<and> ebr_chain d ext (le32_to_int (start4 n) + ext) lgs)
           | _ \<Rightarrow> False))"

definition dos_disk :: "block_dev_desc \<Rightarrow> dos_partition list \<Rightarrow> part list \<Rightarrow> bool" where
  "dos_disk d pts lgs \<longleftrightarrow>
     (case read_sector d 0 of None \<Rightarrow> False
      | Some b \<Rightarrow>
          test_block_type b = Some DOS_MBR \<and> dos_table b = pts \<and>
          (case filter (\<lambda>pt. is_extended (sys_ind pt)) pts of
             [] \<Rightarrow> lgs = []
           | [e] \<Rightarrow> (let ext = le32_to_int (start4 e) in ebr_chain d ext ext lgs)
           | _ \<Rightarrow> False))"

text \<open>Numbers of the partitions: 1 to 4 for the entries of the first sector, then 5, 6 and so on.\<close>

definition numbered :: "dos_partition list \<Rightarrow> part list \<Rightarrow> (u32 \<times> part) list" where
  "numbered pts lgs =
     map (\<lambda>(n, pt). (n, entry_part 0 pt)) (filter (\<lambda>(n, pt). plain pt) (zip [1, 2, 3, 4] pts)) @
     zip (map of_nat [5..<5 + length lgs]) lgs"

definition part_info :: "block_dev_desc \<Rightarrow> u32 \<Rightarrow> part \<Rightarrow> disk_partition" where
  "part_info d n p = \<lparr>dp_start = fst p, dp_size = fst (snd p), dp_blksz = 512, dp_name = part_name d n,
     dp_type = map_option fst (vsprintf ''U-Boot'' [])\<rparr>"

definition part_line :: "u32 \<Rightarrow> part \<Rightarrow> con_msg" where
  "part_line n p =
     Printf (''%5d'' @ [CHR 0x09, CHR 0x09] @ ''%10d'' @ [CHR 0x09] @ ''%10d'' @ [CHR 0x09] @ ''%2x%s'' @ nl)
       [A32 n, A32 (fst p), A32 (fst (snd p)), A32 (ucast (snd (snd p))),
        AStr (Some (if is_extended (snd (snd p)) then '' Extd'' else ''''))]"

lemma length_dos_table [simp]: "length (dos_table b) = 4" by (simp add: dos_table_def)

lemma dos_table_four: obtains p q r s where "dos_table b = [p, q, r, s]"
proof -
  have "dos_table b = [dos_entry b 0, dos_entry b 1, dos_entry b 2, dos_entry b 3]" by (simp add: dos_table_def upt_rec eval_nat_numeral)
  then show thesis by (rule that)
qed

lemma test_block_MBR: "test_block_type b = Some DOS_MBR \<Longrightarrow> has_magic b"
  by (simp add: test_block_type_def split: if_splits)

lemma plainD: "plain pt \<Longrightarrow> sys_ind pt \<noteq> 0" "plain pt \<Longrightarrow> \<not> is_extended (sys_ind pt)"
  by (simp_all add: plain_def)

lemma not_extended_0 [simp]: "\<not> is_extended 0" by (simp add: is_extended_def)

lemma is_extended_nonzero: "is_extended t \<Longrightarrow> t \<noteq> 0" by (auto simp: is_extended_def)

lemma print_one_part_line: "print_one_part pt base n = part_line n (entry_part base pt)"
  by (simp add: print_one_part_def part_line_def entry_part_def)

subsection \<open>The chain of extended tables\<close>

lemma ebr_chainE:
  assumes "ebr_chain d ext s lgs"
  obtains b l n y z lgs' where "s \<noteq> 0" "read_sector d s = Some b" "test_block_type b = Some DOS_MBR" "dos_table b = [l, n, y, z]"
    "plain l" "lgs = entry_part s l # lgs'" "sys_ind y = 0" "sys_ind z = 0"
    "lgs' = [] \<Longrightarrow> sys_ind n = 0"
    "lgs' \<noteq> [] \<Longrightarrow> is_extended (sys_ind n) \<and> ebr_chain d ext (le32_to_int (start4 n) + ext) lgs'"
  using assms by (cases lgs) (auto split: option.splits list.splits if_splits)

lemma info_chain:
  assumes "ebr_chain d ext s lgs" and "k + length lgs < 2 ^ 32"
  shows "get_partition_info_extended d s ext (of_nat k) w =
    Some ([], map_option (part_info d w) (map_of (zip (map of_nat [k..<k + length lgs]) lgs) w))"
  using assms
proof (induction lgs arbitrary: s k)
  case (Cons lg lgs)
  from Cons.prems(1) obtain b l n y z where c: "s \<noteq> 0" "read_sector d s = Some b" "test_block_type b = Some DOS_MBR"
    "dos_table b = [l, n, y, z]" "plain l" "lg = entry_part s l" "sys_ind y = 0" "sys_ind z = 0"
    "lgs = [] \<Longrightarrow> sys_ind n = 0"
    "lgs \<noteq> [] \<Longrightarrow> is_extended (sys_ind n) \<and> ebr_chain d ext (le32_to_int (start4 n) + ext) lgs"
    by (elim ebr_chainE) auto
  note m = test_block_MBR [OF c(3)] plainD [OF c(5)]
  have upt: "[k..<k + length (lg # lgs)] = k # [Suc k..<Suc k + length lgs]" by (simp add: upt_rec)
  show ?case
  proof (cases "lgs = []")
    case True
    then show ?thesis using c m
      by (subst get_partition_info_extended.simps) (simp add: next_num_def part_info_def entry_part_def)
  next
    case False
    note e = c(10) [OF False]
    have IH: "get_partition_info_extended d (le32_to_int (start4 n) + ext) ext (of_nat (Suc k)) w =
      Some ([], map_option (part_info d w) (map_of (zip (map of_nat [Suc k..<Suc k + length lgs]) lgs) w))"
      by (rule Cons.IH) (use e Cons.prems in auto)
    show ?thesis
      unfolding upt using c(1-8) m e IH is_extended_nonzero [of "sys_ind n"]
      by (subst get_partition_info_extended.simps)
        (simp add: next_num_def part_info_def entry_part_def add.commute del: upt_Suc upt_conv_Cons)
  qed
qed simp

lemma follow_none: "filter (\<lambda>pt. is_extended (sys_ind pt)) pts = [] \<Longrightarrow> print_follow d x rel n pts = Some []"
  by (induction pts) (subst print_follow.simps, simp split: if_splits)+

lemma follow_one:
  assumes "filter (\<lambda>pt. is_extended (sys_ind pt)) pts = [e]"
  shows "print_follow d x rel n pts =
    (let s = le32_to_int (start4 e) + rel; (ms, table) = print_sector d s n
     in map_option (\<lambda>ms2. ms @ ms2)
          (case table of None \<Rightarrow> Some [] | Some (pts2, n2) \<Rightarrow> print_follow d s (if x = 0 then s else rel) n2 pts2))"
  using assms
proof (induction pts)
  case (Cons pt pts)
  show ?case
  proof (cases "is_extended (sys_ind pt)")
    case True
    then have "pt = e" and rest: "print_follow d x rel n pts = Some []" using Cons.prems by (auto intro: follow_none)
    then show ?thesis using True
      by (subst print_follow.simps) (simp add: Let_def split_beta map_conv_bind_option comp_def)
  next
    case False
    then show ?thesis using Cons by (subst print_follow.simps) simp
  qed
qed simp

lemma follow_chain:
  assumes "ebr_chain d ext s lgs" and "filter (\<lambda>pt. is_extended (sys_ind pt)) pts = [e]"
    and "le32_to_int (start4 e) + rel = s" and "(if x = 0 then s else rel) = ext"
  shows "print_follow d x rel (of_nat k) pts = Some (map (\<lambda>(n, p). part_line n p) (zip (map of_nat [k..<k + length lgs]) lgs))"
  using assms
proof (induction lgs arbitrary: s k pts e rel x)
  case (Cons lg lgs)
  from Cons.prems(1) obtain b l n y z where c: "s \<noteq> 0" "read_sector d s = Some b" "test_block_type b = Some DOS_MBR"
    "dos_table b = [l, n, y, z]" "plain l" "lg = entry_part s l" "sys_ind y = 0" "sys_ind z = 0"
    "lgs = [] \<Longrightarrow> sys_ind n = 0"
    "lgs \<noteq> [] \<Longrightarrow> is_extended (sys_ind n) \<and> ebr_chain d ext (le32_to_int (start4 n) + ext) lgs"
    by (elim ebr_chainE) auto
  note m = plainD [OF c(5)]
  have upt: "[k..<k + length (lg # lgs)] = k # [Suc k..<Suc k + length lgs]" by (simp add: upt_rec)
  have n: "sys_ind n = 0 \<or> is_extended (sys_ind n)" using c(9,10) by (cases "lgs = []") auto
  have sector: "print_sector d s (of_nat k) = ([part_line (of_nat k) lg], Some ([l, n, y, z], of_nat (Suc k)))"
    using c(1-8) m n by (auto simp: print_sector_def next_num_def print_one_part_line add.commute)
  have "print_follow d s ext (of_nat (Suc k)) [l, n, y, z]
    = Some (map (\<lambda>(n, p). part_line n p) (zip (map of_nat [Suc k..<Suc k + length lgs]) lgs))"
  proof (cases "lgs = []")
    case True
    then show ?thesis using c m by (simp add: follow_none)
  next
    case False
    show ?thesis by (rule Cons.IH [where e = n]) (use c False m in auto)
  qed
  then show ?case unfolding upt using sector Cons.prems(3,4) follow_one [OF Cons.prems(2), of d x rel "of_nat k"]
    by (simp add: Let_def del: upt_Suc upt_conv_Cons of_nat_Suc)
qed simp

lemma find_primary:
  assumes "length pts = 4"
  shows "find_part 0 1 w pts =
    (case map_of (filter (\<lambda>(n, pt). plain pt) (zip [1, 2, 3, 4] pts)) w of None \<Rightarrow> (None, 5) | Some pt \<Rightarrow> (Some pt, w))"
proof -
  obtain p q r s where "pts = [p, q, r, s]" using assms by (auto simp: numeral_eq_Suc length_Suc_conv)
  then show ?thesis by (auto simp: next_num_def plain_def)
qed

lemma map_of_entry: "map_of (map (\<lambda>(n, pt). (n, f pt)) xs) w = map_option f (map_of xs w)"
  by (induction xs) auto

lemma dos_diskE:
  assumes "dos_disk d pts lgs"
  obtains b where "read_sector d 0 = Some b" "test_block_type b = Some DOS_MBR" "dos_table b = pts" "length pts = 4"
    "filter (\<lambda>pt. is_extended (sys_ind pt)) pts = [] \<and> lgs = [] \<or>
     (\<exists>e. filter (\<lambda>pt. is_extended (sys_ind pt)) pts = [e] \<and> ebr_chain d (le32_to_int (start4 e)) (le32_to_int (start4 e)) lgs)"
  using assms by (auto simp: dos_disk_def Let_def split: option.splits list.splits)

text \<open>
  C30: on a disk with a partition table and a chain of logical partitions the lookup always returns, and
  finds under every number exactly the partition with that number: entries of the first sector under 1 to
  4, the logical partitions in the order of the chain from 5 on, with their absolute start sectors; every other
  number is refused.
\<close>

theorem get_partition_info_dos_correct:
  assumes "dos_disk d pts lgs" and "length lgs < 2 ^ 31"
  shows "get_partition_info_dos d n = Some ([], map_option (part_info d n) (map_of (numbered pts lgs) n))"
proof -
  from assms(1) obtain b where b: "read_sector d 0 = Some b" "test_block_type b = Some DOS_MBR" "dos_table b = pts" "length pts = 4"
    and ext: "filter (\<lambda>pt. is_extended (sys_ind pt)) pts = [] \<and> lgs = [] \<or>
     (\<exists>e. filter (\<lambda>pt. is_extended (sys_ind pt)) pts = [e] \<and> ebr_chain d (le32_to_int (start4 e)) (le32_to_int (start4 e)) lgs)"
    by (rule dos_diskE)
  note find = find_primary [OF b(4), of n]
  show ?thesis
  proof (cases "map_of (filter (\<lambda>(n, pt). plain pt) (zip [1, 2, 3, 4] pts)) n")
    case (Some pt)
    then show ?thesis using b find test_block_MBR [OF b(2)] unfolding get_partition_info_dos_def
      by (subst get_partition_info_extended.simps)
        (simp add: numbered_def map_of_entry part_info_def entry_part_def)
  next
    case None
    have chain: "ebr_chain d e e lgs \<Longrightarrow> get_partition_info_extended d e e 5 n =
        Some ([], map_option (part_info d n) (map_of (zip (map of_nat [5..<5 + length lgs]) lgs) n))" for e
      using info_chain [of d e e lgs 5 n] assms(2) by simp
    have "map_of (numbered pts lgs) n = map_of (zip (map of_nat [5..<5 + length lgs]) lgs) n"
      using None by (simp add: numbered_def map_of_entry map_add_def split: option.splits)
    then show ?thesis using b find None test_block_MBR [OF b(2)] ext chain unfolding get_partition_info_dos_def
      by (subst get_partition_info_extended.simps) (auto simp: Let_def)
  qed
qed

text \<open>
  the listing of such a disk names the same partitions under the same numbers: the used
  entries of the first sector, the extended one included, and then the logical partitions.
\<close>

lemma print_part_dos_correct:
  assumes "dos_disk d pts lgs"
  shows "\<exists>header. print_part_dos d = Some (header #
    map (\<lambda>(n, p). part_line n p)
      (map (\<lambda>(n, pt). (n, entry_part 0 pt)) (filter (\<lambda>(n, pt). sys_ind pt \<noteq> 0) (zip [1, 2, 3, 4] pts)) @
       zip (map of_nat [5..<5 + length lgs]) lgs))"
proof -
  from assms(1) obtain b where b: "read_sector d 0 = Some b" "test_block_type b = Some DOS_MBR" "dos_table b = pts" "length pts = 4"
    and ext: "filter (\<lambda>pt. is_extended (sys_ind pt)) pts = [] \<and> lgs = [] \<or>
     (\<exists>e. filter (\<lambda>pt. is_extended (sys_ind pt)) pts = [e] \<and> ebr_chain d (le32_to_int (start4 e)) (le32_to_int (start4 e)) lgs)"
    by (rule dos_diskE)
  obtain p q r s where pts: "pts = [p, q, r, s]" using b(4) by (auto simp: numeral_eq_Suc length_Suc_conv)
  have table: "print_table 0 1 pts =
      (map (\<lambda>(n, p). part_line n p) (map (\<lambda>(n, pt). (n, entry_part 0 pt)) (filter (\<lambda>(n, pt). sys_ind pt \<noteq> 0) (zip [1, 2, 3, 4] pts))), 5)"
    by (simp add: pts next_num_def print_one_part_line)
  have "print_follow d 0 0 5 pts = Some (map (\<lambda>(n, p). part_line n p) (zip (map of_nat [5..<5 + length lgs]) lgs))"
    using ext
  proof
    assume "\<exists>e. filter (\<lambda>pt. is_extended (sys_ind pt)) pts = [e] \<and> ebr_chain d (le32_to_int (start4 e)) (le32_to_int (start4 e)) lgs"
    then obtain e where e: "filter (\<lambda>pt. is_extended (sys_ind pt)) pts = [e]"
      "ebr_chain d (le32_to_int (start4 e)) (le32_to_int (start4 e)) lgs" by blast
    show ?thesis using follow_chain [OF e(2,1), of 0 0 5] by simp
  qed (simp add: follow_none)
  then show ?thesis using b(1-3) table
    by (simp add: print_part_dos_def print_partition_extended_def print_sector_def)
qed

text \<open>A disk of five blocks: a primary partition and two logical ones in an extended partition at 2.\<close>

definition sample_sector :: "u8 list \<Rightarrow> u8 list" where
  "sample_sector table = replicate 0x1be 0 @ table @ replicate (64 - length table) 0 @ [0x55, 0xaa]"

definition sample_entry :: "u8 \<Rightarrow> u8 \<Rightarrow> u8 \<Rightarrow> u8 list" where
  "sample_entry t s n = [0, 0, 0, 0, t, 0, 0, 0, s, 0, 0, 0, n, 0, 0, 0]"

definition sample_read :: "u32 \<Rightarrow> u32 \<Rightarrow> u8 list list" where
  "sample_read s n =
     (if n = 1 \<and> s = 0 then [sample_sector (sample_entry 0x83 1 1 @ sample_entry 5 2 4)]
      else if n = 1 \<and> s = 2 then [sample_sector (sample_entry 0x83 1 1 @ sample_entry 5 2 2)]
      else if n = 1 \<and> s = 4 then [sample_sector (sample_entry 0x0c 1 1)]
      else [])"

definition sample_disk :: block_dev_desc where
  "sample_disk = \<lparr>if_type = IF_TYPE_MMC, dev_num = 0, part_type = 0, target = 0, lun = 0, dev_type = 0, removable = 1,
     lba = 6, blksz = 512, vendor = ''v'', product = ''p'', revision = ''r'', block_read = Some sample_read\<rparr>"

definition sample_mbr :: "dos_partition list" where
  "sample_mbr = dos_table (sample_sector (sample_entry 0x83 1 1 @ sample_entry 5 2 4))"

lemma sample_is_dos_disk: "dos_disk sample_disk sample_mbr [(3, 1, 0x83), (5, 1, 0x0c)]"
  by code_simp

theorem get_partition_info_dos_correct_witness:
  "get_partition_info_dos sample_disk 6 = Some ([], Some (part_info sample_disk 6 (5, 1, 0x0c)))"
proof -
  have "map_of (numbered sample_mbr [(3, 1, 0x83), (5, 1, 0x0c)]) 6 = Some (5, 1, 0x0c)" by code_simp
  then show ?thesis using get_partition_info_dos_correct [OF sample_is_dos_disk, of 6] by simp
qed

theorem print_part_dos_correct_witness:
  "\<exists>header. print_part_dos sample_disk = Some [header, part_line 1 (1, 1, 0x83), part_line 2 (2, 4, 5),
     part_line 5 (3, 1, 0x83), part_line 6 (5, 1, 0x0c)]"
proof -
  have "map (\<lambda>(n, pt). (n, entry_part 0 pt)) (filter (\<lambda>(n, pt). sys_ind pt \<noteq> 0) (zip [1, 2, 3, 4] sample_mbr)) @
       zip (map of_nat [5..<5 + length [(3, 1, 0x83), (5, 1, 0x0c) :: part]]) [(3, 1, 0x83), (5, 1, 0x0c)]
    = [(1, 1, 1, 0x83), (2, 2, 4, 5), (5, 3, 1, 0x83), (6 :: u32, 5, 1, 0x0c)]" by code_simp
  then show ?thesis using print_part_dos_correct [OF sample_is_dos_disk] by simp
qed

text \<open>
  Nothing breaks a cycle: when an extended table without a partition leads back to itself, the lookup of a
  partition behind it never returns.
\<close>

lemma extended_cycle_diverges:
  assumes sector: "read_sector d s = Some b" "has_magic b" and cycle: "dos_table b = [pt, y, z, u]" "is_extended (sys_ind pt)"
    "le32_to_int (start4 pt) + rel = s" "sys_ind y = 0" "sys_ind z = 0" "sys_ind u = 0" and "s \<noteq> 0"
  shows "get_partition_info_extended d s rel n w = None"
proof -
  have "d' = d \<and> s' = s \<and> rel' = rel \<longrightarrow> False" if "get_partition_info_extended d' s' rel' n' w' = Some r" for d' s' rel' n' w' r
  proof (rule get_partition_info_extended.raw_induct [where P = "\<lambda>d' s' rel' n' w' r. d' = d \<and> s' = s \<and> rel' = rel \<longrightarrow> False"])
    show "get_partition_info_extended d' s' rel' n' w' = Some r" by (rule that)
    fix f d' s' rel' n' w' r
    assume IH: "\<And>d' s' rel' n' w' r. f d' s' rel' n' w' = Some r \<Longrightarrow> d' = d \<and> s' = s \<and> rel' = rel \<longrightarrow> False"
      and step: "(case read_sector d' s' of None \<Rightarrow> Some ([bad_sector d' s'], None)
      | Some buffer \<Rightarrow>
          if \<not> has_magic buffer then Some ([bad_magic buffer], None)
          else (case find_part s' n' w' (dos_table buffer) of
                  (Some pt, n) \<Rightarrow>
                    Some ([], Some \<lparr>dp_start = s' + le32_to_int (start4 pt), dp_size = le32_to_int (size4 pt),
                                dp_blksz = 512, dp_name = part_name d' n, dp_type = map_option fst (vsprintf ''U-Boot'' [])\<rparr>)
                | (None, n) \<Rightarrow>
                    (case filter (\<lambda>pt. is_extended (sys_ind pt)) (dos_table buffer) of
                       [] \<Rightarrow> Some ([], None)
                     | pt # _ \<Rightarrow>
                         (let lba_start = le32_to_int (start4 pt) + rel'
                          in f d' lba_start (if s' = 0 then lba_start else rel') n w')))) = Some r"
    show "d' = d \<and> s' = s \<and> rel' = rel \<longrightarrow> False"
      using step assms IH [of d s rel _ _ r] is_extended_nonzero [OF cycle(2)]
      by (auto simp: next_num_def simp del: split_paired_All split_paired_Ex)
  qed
  then have "get_partition_info_extended d s rel n w \<noteq> Some r" for r by blast
  then show ?thesis by (cases "get_partition_info_extended d s rel n w") auto
qed

end
