(* ===== verification/Cconfig.thy ===== *)
theory Cconfig
  imports Disk
begin

text \<open>
  The configuration area of the Chumby boards: its layout on the card (\<^verbatim>\<open>include/cconfig.h\<close>), the search for
  the blocks it lists (\<^verbatim>\<open>fs/cconfig/cconfig.c\<close>), the commands on it, and the brand read from the EEPROM
  (\<^verbatim>\<open>common/cmd_cconfig.c\<close>).

  What the code does to the world is a list of events in their order: messages, variables set, and blocks
  stored at an address. The outer option is \<open>None\<close> when a local variable would be read
  that nothing has written.
\<close>

section \<open>The configuration area\<close>

datatype cc_event = Say con_msg | Setenv string string | Load u32 "u8 list"

record block_def =
  bd_offset :: u32
  bd_length :: u32
  block_ver :: "u8 list"
  bd_name :: "u8 list"

record config_area =
  ca_sig :: "u8 list"
  area_version :: "u8 list"
  active_index :: u8
  updating :: u8
  p1_offset :: u32
  block_table :: "block_def list"

definition config_area_size :: nat where "config_area_size = 2048"

definition read_block_def :: "u8 list \<Rightarrow> block_def" where
  "read_block_def b = \<lparr>bd_offset = GET_UINT32_LE b 0, bd_length = GET_UINT32_LE b 4, block_ver = take 4 (drop 8 b),
     bd_name = take 4 (drop 12 b)\<rparr>"

definition read_config_area :: "u8 list \<Rightarrow> config_area option" where
  "read_config_area b =
     (if length b < config_area_size then None
      else Some \<lparr>ca_sig = take 4 b, area_version = take 4 (drop 4 b), active_index = b ! 8, updating = b ! 12,
             p1_offset = GET_UINT32_LE b 32, block_table = map (\<lambda>i. read_block_def (drop (1024 + 16 * i) b)) [0..<64]\<rparr>)"

text \<open>The four blocks from number 100 on; the value the driver returns is not looked at.\<close>

definition read_area :: "block_dev_desc \<Rightarrow> config_area option" where
  "read_area d =
     (case block_read d of None \<Rightarrow> None
      | Some rd \<Rightarrow> read_config_area (concat (rd 100 (of_nat (config_area_size div 512)))))"

text \<open>The name as a C string in a buffer of five bytes.\<close>

definition c_name :: "u8 list \<Rightarrow> string" where
  "c_name b = takeWhile ((\<noteq>) NUL) (map (\<lambda>x. char_of (unat x)) b)"

definition cconfig_register_device :: "block_dev_desc option \<Rightarrow> cc_event list \<times> int \<times> block_dev_desc option" where
  "cconfig_register_device dev_desc =
     (case dev_desc of
        None \<Rightarrow> ([Say (Printf (''Called cconfig_register_device with a NULL dev_desc'' @ nl) [])], - 1, None)
      | Some d \<Rightarrow>
          (case block_read d of
             None \<Rightarrow> ([Say (Printf (''No block_read function found'' @ nl) [])], - 1, None)
           | Some rd \<Rightarrow>
               (case read_sector d 0 of
                  None \<Rightarrow> ([Say (Printf (''** Can't read from device %d **'' @ nl) [A32 (dev_num d)])], - 1, Some d)
                | Some buffer \<Rightarrow> ([], if has_magic buffer then 0 else - 1, Some d))))"

definition file_cconfig_detectfs :: "block_dev_desc option \<Rightarrow> (cc_event list \<times> int \<times> config_area option) option" where
  "file_cconfig_detectfs cur_dev =
     (case cur_dev of
        None \<Rightarrow> Some ([Say (Printf (''No current device'' @ nl) [])], 1, None)
      | Some d \<Rightarrow>
          (case block_read d of
             None \<Rightarrow> Some ([Say (Printf (''No block reader'' @ nl) [])], 1, None)
           | Some rd \<Rightarrow>
               (case read_area d of None \<Rightarrow> None
                | Some ca \<Rightarrow>
                    if ca_sig ca = [0x43, 0x66, 0x67, 0x2a] then Some ([], 0, Some ca)
                    else Some ([Say (Printf (''No valid block found'' @ nl) [])], 1, Some ca))))"

text \<open>The listing: the entries up to the one with offset 0xffffffff, and at most 64.\<close>

fun ls_loop :: "nat \<Rightarrow> block_def list \<Rightarrow> cc_event list" where
  "ls_loop block_count [] = []"
| "ls_loop block_count (bd # bds) =
     (if bd_offset bd = 0xffffffff then []
      else Say (Printf (''    %2d   %8d  %8d   v%4s  %4s'' @ nl)
             [A32 (of_nat block_count), A32 (bd_length bd), A32 (bd_offset bd), AStr (Some (c_name (block_ver bd))),
              AStr (Some (c_name (bd_name bd)))]) # ls_loop (block_count + 1) bds)"

definition file_cconfig_ls :: "block_dev_desc option \<Rightarrow> (cc_event list \<times> int) option" where
  "file_cconfig_ls cur_dev =
     (case cur_dev of
        None \<Rightarrow> Some ([Say (Printf (''No current device'' @ nl) [])], - 1)
      | Some d \<Rightarrow>
          map_option (\<lambda>ca. (Say (Printf (''  Part       Size    Offset Vers    Name'' @ nl) []) # ls_loop 0 (block_table ca), 0))
            (read_area d))"

fun find_block :: "string \<Rightarrow> block_def list \<Rightarrow> block_def option" where
  "find_block filename [] = None"
| "find_block filename (bd # bds) =
     (if bd_offset bd = 0xffffffff then None
      else if strcmp (c_name (bd_name bd)) filename = 0 then Some bd
      else find_block filename bds)"

text \<open>The result is the size; \<open>- 1\<close> is the size 0xffffffff.\<close>

definition file_cconfig_read :: "block_dev_desc option \<Rightarrow> string \<Rightarrow> u32 \<Rightarrow> u32 \<Rightarrow> (cc_event list \<times> u32) option" where
  "file_cconfig_read cur_dev filename buffer maxsize =
     (case cur_dev of
        None \<Rightarrow> Some ([Say (Printf (''No current device'' @ nl) [])], - 1)
      | Some d \<Rightarrow>
          (case read_area d of None \<Rightarrow> None
           | Some ca \<Rightarrow>
               (case find_block filename (block_table ca) of
                  None \<Rightarrow> Some ([Say (Printf (''File '' @ [CHR 0x22] @ ''%s'' @ [CHR 0x22] @ '' not found.'' @ nl) [AStr (Some filename)])], 0)
                | Some bd \<Rightarrow>
                    (let len = (if maxsize \<noteq> 0 \<and> maxsize < bd_length bd then maxsize else bd_length bd);
                         offset = bd_offset bd + 2048
                     in case block_read d of None \<Rightarrow> None
                        | Some rd \<Rightarrow>
                            Some ([Say (Printf (''Found file of length %d at position %d'' @ nl) [A32 (bd_length bd), A32 (bd_offset bd)]),
                                   Load buffer (concat (rd (offset div 512) (len div 512)))], len)))))"

section \<open>The commands\<close>

text \<open>The device argument: a number, and behind a colon a partition that is not used.\<close>

definition select_device :: "block_drvr list \<Rightarrow> string list \<Rightarrow> string \<Rightarrow> cc_event list + cc_event list \<times> block_dev_desc" where
  "select_device drvrs argv cmd =
     (let (dev, ep) = simple_strtoul (argv ! 2) 16
      in case get_dev drvrs (argv ! 1) dev of
           None \<Rightarrow> Inl [Say (Puts (nl @ ''** Invalid boot device **'' @ nl))]
         | Some d \<Rightarrow>
             if deref ep \<noteq> NUL \<and> deref ep \<noteq> CHR '':''
             then Inl [Say (Puts (nl @ ''** Invalid boot device, use `dev' **'' @ nl))]
             else (let part = (if deref ep = CHR '':'' then fst (simple_strtoul (tl ep) 16) else 1);
                       (es, r, cur_dev) = cconfig_register_device (Some d)
                   in if r \<noteq> 0
                      then Inl (es @ [Say (Printf (nl @ ''** Unable to use %s %d:%d for '' @ cmd @ '' **'' @ nl)
                                  [AStr (Some (argv ! 1)), A32 dev, A32 part])])
                      else Inr (es, d)))"

definition hex_string :: "string \<Rightarrow> u32 \<Rightarrow> string option" where
  "hex_string fmt v = map_option fst (vsprintf fmt [A32 v])"

definition do_cconfig_fsload :: "block_drvr list \<Rightarrow> string list \<Rightarrow> (cc_event list \<times> u32) option" where
  "do_cconfig_fsload drvrs argv =
     (if length argv < 5
      then Some ([Say (Printf (''usage: cconfigload <interface> <dev> <addr> <filename> [bytes]'' @ nl) [])], 1)
      else (case select_device drvrs argv ''cconfigload'' of
              Inl es \<Rightarrow> Some (es, 1)
            | Inr (es, d) \<Rightarrow>
                (let offset = fst (simple_strtoul (argv ! 3) 16);
                     count = (if length argv = 6 then fst (simple_strtoul (argv ! 5) 16) else 0)
                 in case file_cconfig_read (Some d) (argv ! 4) offset count of None \<Rightarrow> None
                    | Some (es2, sz) \<Rightarrow>
                        if sz = - 1
                        then Some (es @ es2 @ [Say (Printf (nl @ ''** Unable to read '' @ [CHR 0x22] @ ''%s'' @ [CHR 0x22] @ '' from %s %d:%d **'' @ nl)
                               [AStr (Some (argv ! 4)), AStr (Some (argv ! 1)), A32 (fst (simple_strtoul (argv ! 2) 16)),
                                A32 (let ep = snd (simple_strtoul (argv ! 2) 16)
                                     in if deref ep = CHR '':'' then fst (simple_strtoul (tl ep) 16) else 1)])], 1)
                        else map_option (\<lambda>buf. (es @ es2 @ [Say (Printf (nl @ ''%ld bytes read'' @ nl) [A32 sz]), Setenv ''filesize'' buf], 0))
                               (hex_string ''%lX'' sz))))"

definition do_cconfig_ls :: "block_drvr list \<Rightarrow> string list \<Rightarrow> (cc_event list \<times> int) option" where
  "do_cconfig_ls drvrs argv =
     (if length argv < 3 then Some ([Say (Printf (''usage: cconfigls <interface> <dev>'' @ nl) [])], 0)
      else (case select_device drvrs argv ''cconfigls'' of
              Inl es \<Rightarrow> Some (es, 1)
            | Inr (es, d) \<Rightarrow>
                (case file_cconfig_ls (Some d) of None \<Rightarrow> None
                 | Some (es2, ret) \<Rightarrow>
                     Some (es @ es2 @ (if ret \<noteq> 0 then [Say (Printf (''No Chumby config FS detected'' @ nl) [])] else []), ret))))"

definition cc_info :: "config_area \<Rightarrow> string \<Rightarrow> cc_event \<times> u32" where
  "cc_info ca info =
     (let v = (\<lambda>i. ucast (area_version ca ! i) :: u32)
      in if strcmp info ''active'' = 0 then (Say (Printf (''Active partition: %d'' @ nl) [A32 (ucast (active_index ca))]), ucast (active_index ca))
         else if strcmp info ''updating'' = 0 then (Say (Printf (''Updating? %d'' @ nl) [A32 (ucast (updating ca))]), ucast (updating ca))
         else if strcmp info ''offset'' = 0 then (Say (Printf (''Partition 1 offset: %d'' @ nl) [A32 (p1_offset ca)]), p1_offset ca)
         else if strcmp info ''version'' = 0
         then (Say (Printf (''Config version %d.%d.%d.%d'' @ nl) [A32 (v 0), A32 (v 1), A32 (v 2), A32 (v 3)]),
               push_bit 24 (v 0) OR push_bit 16 (v 1) OR push_bit 8 (v 2) OR v 3)
         else (Say (Printf (''Unrecognized info type '' @ [CHR 0x27] @ ''%s'' @ [CHR 0x27] @ nl) [AStr (Some info)]), 0))"

definition do_cconfig_fsinfo :: "block_drvr list \<Rightarrow> string list \<Rightarrow> (cc_event list \<times> u32) option" where
  "do_cconfig_fsinfo drvrs argv =
     (if length argv < 4 then Some ([Say (Printf (''usage: cconfiginfo <interface> <dev> <info>'' @ nl) [])], 0)
      else (case select_device drvrs argv ''cconfiginfo'' of
              Inl es \<Rightarrow> Some (es, 1)
            | Inr (es, d) \<Rightarrow>
                (case file_cconfig_detectfs (Some d) of
                   None \<Rightarrow> None
                 | Some (es2, r, area) \<Rightarrow>
                     if r \<noteq> 0 then Some (es @ es2 @ [Say (Printf (''No cconfig partition found'' @ nl) [])], 1)
                     else (case area of None \<Rightarrow> None
                           | Some ca \<Rightarrow> (let (e, r) = cc_info ca (argv ! 3) in Some (es @ es2 @ [e], r))))))"

section \<open>The brand\<close>

text \<open>
  \<open>i2c_readb\<close> is the EEPROM: slave and register give the byte, or \<open>None\<close> when the transfer fails.
  The tags are read from position \<open>pos\<close> on; \<open>cmp\<close> is the buffer of four bytes. The loop is written
  as an iteration that need not end; that it always does is proved below.
\<close>

type_synonym eeprom = "u32 \<Rightarrow> u8 \<Rightarrow> u8 option"

datatype brand_result = Uninit | Ret "cc_event list" u32

definition read_error :: "cc_event list \<Rightarrow> brand_result" where
  "read_error es = Ret (es @ [Say (Printf (''I2C read error'' @ nl) [])]) 1"

text \<open>A byte of the EEPROM, at the device address the loop computes.\<close>

definition tag_byte :: "eeprom \<Rightarrow> nat \<Rightarrow> u8 option" where
  "tag_byte i2c_readb pos = i2c_readb (0x50 + (drop_bit 8 (of_nat pos) AND 3)) (of_nat (pos mod 256))"

definition data_byte :: "eeprom \<Rightarrow> nat \<Rightarrow> u8 option" where
  "data_byte i2c_readb pos = i2c_readb (0x50 + drop_bit 8 (of_nat pos)) (of_nat (pos mod 256))"

text \<open>The bytes of a header, as far as position 768 allows; what is not read keeps its old value.\<close>

fun read_header4 :: "eeprom \<Rightarrow> nat \<Rightarrow> u8 list \<Rightarrow> nat \<Rightarrow> nat \<Rightarrow> (u8 list \<times> nat) option" where
  "read_header4 i2c_readb pos cmp blk_pos 0 = Some (cmp, pos)"
| "read_header4 i2c_readb pos cmp blk_pos (Suc k) =
     (if pos < 768
      then (case tag_byte i2c_readb pos of None \<Rightarrow> None
            | Some b \<Rightarrow> read_header4 i2c_readb (pos + 1) (cmp[blk_pos := b]) (blk_pos + 1) k)
      else Some (cmp, pos))"

text \<open>The payload: failed transfers and bytes behind position 768 leave the array unwritten.\<close>

fun read_payload :: "eeprom \<Rightarrow> nat \<Rightarrow> nat \<Rightarrow> u8 option list \<times> nat" where
  "read_payload i2c_readb pos 0 = ([], pos)"
| "read_payload i2c_readb pos (Suc k) =
     (if pos < 768
      then (let (bs, p) = read_payload i2c_readb (pos + 1) k in (data_byte i2c_readb pos # bs, p))
      else (replicate (Suc k) None, pos))"

definition part_found :: "cc_event list \<Rightarrow> u8 option list \<Rightarrow> brand_result" where
  "part_found es data =
     (case data of
        Some d0 # Some d1 # _ \<Rightarrow>
          (let partnum = ucast d0 OR push_bit 8 (ucast d1) :: u16
           in case map_option fst (vsprintf ''%02X%02X'' [A32 (ucast d0), A32 (ucast d1)]) of
                None \<Rightarrow> Uninit
              | Some partnum_s \<Rightarrow>
                  Ret (es @ (if partnum = 272 then [Setenv ''brand'' ''insignia''] else []) @ [Setenv ''brandnum'' partnum_s]) (ucast partnum))
      | _ \<Rightarrow> Uninit)"

partial_function (option) cbrand_loop :: "eeprom \<Rightarrow> cc_event list \<Rightarrow> nat \<Rightarrow> u8 list \<Rightarrow> brand_result option" where
  "cbrand_loop i2c_readb es pos cmp =
     (if pos < 768
      then (case read_header4 i2c_readb pos cmp 0 4 of
              None \<Rightarrow> Some (read_error es)
            | Some (cmp, pos) \<Rightarrow>
                if cmp = [0x70, 0x75, 0x73, 0x21] then Some (Ret es 0)
                else (let container = cmp ! 1 AND 0x80;
                          sz = (push_bit 8 (ucast (cmp ! 0)) OR ucast (cmp ! 1 AND 0x7f) :: u16) - 6
                      in case (data_byte i2c_readb pos, data_byte i2c_readb (pos + 1)) of
                           (Some b2, Some b3) \<Rightarrow>
                             (let cmp = [cmp ! 2, cmp ! 3, b2, b3]
                              in if container = 0
                                 then (let (bs, pos) = read_payload i2c_readb (pos + 2) (unat sz); data = bs @ [Some 0]
                                       in if cmp = [0x70, 0x61, 0x72, 0x74] then Some (part_found es data)
                                          else cbrand_loop i2c_readb es pos cmp)
                                 else cbrand_loop i2c_readb es (pos + 2) cmp)
                         | _ \<Rightarrow> Some (read_error es)))
      else Some (Ret es 0))"

definition do_cbrand :: "eeprom \<Rightarrow> brand_result option" where
  "do_cbrand i2c_readb =
     (let es = [Setenv ''brand'' ''chumby'']
      in case (i2c_readb 0x50 0, i2c_readb 0x50 1, i2c_readb 0x50 2, i2c_readb 0x50 3) of
           (Some a, Some b, Some c, Some d) \<Rightarrow>
             if [a, b, c, d] \<noteq> [0x73, 0x65, 0x78, 0x69]
             then Some (Ret (es @ [Say (Printf (''DCID is uninitialized'' @ nl) [])]) 1)
             else cbrand_loop i2c_readb es 4 [a, b, c, d]
         | _ \<Rightarrow> Some (read_error es))"

section \<open>The brand: the loop ends, and finds the part number\<close>

lemma read_header4_pos: "read_header4 i pos cmp k n = Some (cmp', pos') \<Longrightarrow> pos \<le> pos' \<and> (0 < n \<and> pos < 768 \<longrightarrow> pos < pos')"
proof (induction i pos cmp k n rule: read_header4.induct)
  case (2 i pos cmp k n)
  then show ?case by (fastforce split: if_splits option.splits)
qed simp

lemma read_payload_pos: "pos \<le> snd (read_payload i pos n)"
  by (induction i pos n rule: read_payload.induct) (auto simp: split_beta intro: order_trans [rotated])

lemma cbrand_loop_ends: "\<exists>r. cbrand_loop i es pos cmp = Some r"
proof (induction "768 - pos" arbitrary: pos cmp rule: less_induct)
  case less
  show ?case
  proof (cases "pos < 768")
    case False
    then show ?thesis by (subst cbrand_loop.simps) simp
  next
    case True
    have rec: "\<exists>r. cbrand_loop i es p c = Some r" if "pos < p" for p c
      using less [of p] True that by simp
    show ?thesis
    proof (cases "read_header4 i pos cmp 0 4")
      case None
      then show ?thesis using True by (subst cbrand_loop.simps) simp
    next
      case (Some x)
      obtain c p where x: "x = (c, p)" by (cases x)
      have p: "pos < p" using read_header4_pos [OF Some [unfolded x]] True by simp
      have q: "pos < snd (read_payload i (p + 2) n)" for n using read_payload_pos [of "p + 2" i n] p by linarith
      show ?thesis using True Some x rec [of "p + 2"] rec [OF q] p
        by (subst cbrand_loop.simps) (auto simp: Let_def split_beta split: option.splits if_splits)
    qed
  qed
qed

text \<open>
  C29: the search for the brand always ends, whatever the EEPROM holds and however its transfers fail: every
  round of the loop moves the position forward.
\<close>

theorem do_cbrand_terminates: "\<exists>r. do_cbrand i2c_readb = Some r"
  using cbrand_loop_ends by (auto simp: do_cbrand_def Let_def split: option.splits)

text \<open>The tags as the EEPROM holds them: the head of a container, and a tag with its data.\<close>

datatype dcid_tag = Container u8 u8 "u8 list" | Leaf "u8 list" "u8 list"

fun encode_tag :: "dcid_tag \<Rightarrow> u8 list" where
  "encode_tag (Container hi lo name) = [hi, lo OR 0x80] @ name"
| "encode_tag (Leaf name payload) =
     (let n = length payload + 6 in [of_nat (n div 256), of_nat (n mod 256)] @ name @ payload)"

fun tag_ok :: "dcid_tag \<Rightarrow> bool" where
  "tag_ok (Container hi lo name) \<longleftrightarrow> length name = 4"
| "tag_ok (Leaf name payload) \<longleftrightarrow> length name = 4 \<and> (length payload + 6) mod 256 < 128"

fun first_part :: "dcid_tag list \<Rightarrow> u8 list option" where
  "first_part [] = None"
| "first_part (Leaf name payload # tags) = (if name = [0x70, 0x61, 0x72, 0x74] then Some payload else first_part tags)"
| "first_part (Container hi lo name # tags) = first_part tags"

definition eeprom_holds :: "eeprom \<Rightarrow> u8 list \<Rightarrow> bool" where
  "eeprom_holds i2c_readb img \<longleftrightarrow>
     length img \<le> 768 \<and> (\<forall>pos<length img. i2c_readb (0x50 + of_nat (pos div 256)) (of_nat (pos mod 256)) = Some (img ! pos))"

lemma eeprom_bytes:
  assumes "eeprom_holds i img" and "pos < length img"
  shows "data_byte i pos = Some (img ! pos)" and "tag_byte i pos = Some (img ! pos)"
proof -
  have p: "pos < 768" using assms by (simp add: eeprom_holds_def)
  then have d: "drop_bit 8 (of_nat pos :: u32) = of_nat (pos div 256)"
    by (intro word_unat_eq_iff [THEN iffD2], simp only: unat_drop_bit_eq, simp add: drop_bit_eq_div unat_of_nat)
  have "pos div 256 \<in> {0, 1, 2}" using p by auto
  then have "(of_nat (pos div 256) :: u32) AND 3 = of_nat (pos div 256)" by auto
  then show "data_byte i pos = Some (img ! pos)" "tag_byte i pos = Some (img ! pos)"
    using assms by (simp_all add: data_byte_def tag_byte_def d eeprom_holds_def)
qed

lemma read_header4_eq:
  assumes "eeprom_holds i img" and "pos + n \<le> length img" and "k + n \<le> length cmp"
  shows "read_header4 i pos cmp k n = Some (take k cmp @ take n (drop pos img) @ drop (k + n) cmp, pos + n)"
  using assms(2,3)
proof (induction n arbitrary: pos cmp k)
  case (Suc n)
  have "pos < 768" using Suc.prems assms(1) by (simp add: eeprom_holds_def)
  then show ?case using Suc eeprom_bytes(2) [OF assms(1), of pos]
    by (simp add: take_Suc_conv_app_nth [symmetric] Cons_nth_drop_Suc [symmetric] take_update_swap upd_conv_take_nth_drop add.commute)
qed simp

lemma read_payload_eq:
  assumes "eeprom_holds i img" and "pos + n \<le> length img"
  shows "read_payload i pos n = (map Some (take n (drop pos img)), pos + n)"
  using assms(2)
proof (induction n arbitrary: pos)
  case (Suc n)
  have "pos < 768" using Suc.prems assms(1) by (simp add: eeprom_holds_def)
  then show ?case using Suc eeprom_bytes(1) [OF assms(1), of pos]
    by (simp add: Cons_nth_drop_Suc [symmetric])
qed simp

abbreviation footer :: "u8 list" where "footer \<equiv> [0x70, 0x75, 0x73, 0x21]"

text \<open>The size field holds the size plus 6, in a byte and 7 bits.\<close>

lemma leaf_size:
  fixes n :: nat
  assumes "6 \<le> n" and "n \<le> 768" and "n mod 256 < 128"
  defines "h0 \<equiv> of_nat (n div 256) :: u8" and "h1 \<equiv> of_nat (n mod 256) :: u8"
  shows "h1 AND 0x80 = 0" and "unat ((push_bit 8 (ucast h0) OR ucast (h1 AND 0x7f) :: u16) - 6) = n - 6" and "h0 \<noteq> 0x70"
proof -
  have r: "take_bit 7 (n mod 256) = n mod 256" using assms(3) by (simp add: take_bit_nat_eq_self_iff)
  have h1: "h1 = take_bit 7 h1" unfolding h1_def by (simp only: take_bit_of_nat r)
  have m: "(0x7f :: u8) = mask 7" by (simp add: mask_eq_exp_minus_1)
  have h17: "h1 AND 0x7f = h1" unfolding m using h1 by (simp flip: take_bit_eq_mask)
  show "h1 AND 0x80 = 0"
  proof (rule bit_word_eqI)
    fix k assume "k < LENGTH(8)"
    have m8: "(0x80 :: u8) = push_bit 7 1" by simp
    have "bit h1 k \<Longrightarrow> k < 7" using h1 by (metis bit_take_bit_iff)
    then show "bit (h1 AND 0x80) k = bit (0 :: u8) k" unfolding m8 by (auto simp: bit_simps simp del: push_bit_of_1)
  qed
  have q: "n div 256 < 256" using assms(2) by simp
  have u: "ucast h0 = (of_nat (drop_bit 8 n) :: u16)" "ucast h1 = (of_nat (take_bit 8 n) :: u16)"
    by (rule word_unat_eq_iff [THEN iffD2], use q assms(2) in \<open>simp add: h0_def h1_def unat_of_nat drop_bit_eq_div take_bit_eq_mod unsigned_ucast_eq\<close>)+
  have "push_bit 8 (drop_bit 8 n) OR take_bit 8 n = n" by (rule bit_eqI) (auto simp: bit_simps)
  then have "push_bit 8 (ucast h0) OR ucast h1 = (of_nat n :: u16)"
    unfolding u by (simp only: push_bit_of_nat of_nat_or_eq [symmetric])
  then have "(push_bit 8 (ucast h0) OR ucast h1) - 6 = (of_nat (n - 6) :: u16)" using assms(1) by (simp add: of_nat_diff)
  then show "unat ((push_bit 8 (ucast h0) OR ucast (h1 AND 0x7f) :: u16) - 6) = n - 6"
    unfolding h17 using assms(2) by (simp add: unat_of_nat)
  have "n div 256 \<in> {0, 1, 2, 3}" using assms(2) by auto
  then show "h0 \<noteq> 0x70" by (auto simp: h0_def)
qed

lemma list_4E:
  assumes "length xs = 4"
  obtains a b c d where "xs = [a, b, c, d]"
  using assms by (auto simp: numeral_eq_Suc length_Suc_conv)

lemma tag_parts:
  assumes "tag_ok t" and "length (encode_tag t) \<le> 768"
  obtains h0 h1 n0 n1 n2 n3 rest where "encode_tag t = [h0, h1, n0, n1, n2, n3] @ rest"
    and "case t of Container _ _ name \<Rightarrow> name = [n0, n1, n2, n3] \<and> h1 AND 0x80 \<noteq> 0 \<and> rest = []
       | Leaf name payload \<Rightarrow> name = [n0, n1, n2, n3] \<and> payload = rest \<and> h1 AND 0x80 = 0 \<and>
           unat ((push_bit 8 (ucast h0) OR ucast (h1 AND 0x7f) :: u16) - 6) = length rest"
    and "[h0, h1, n0, n1] \<noteq> footer"
proof (cases t)
  case (Container hi lo name)
  then obtain a b c d where name: "name = [a, b, c, d]" using assms(1) by (auto elim: list_4E)
  have m: "(0x80 :: u8) = push_bit 7 1" by simp
  have b7: "bit (lo OR 0x80) 7" unfolding m by (simp add: bit_simps del: push_bit_of_1)
  have "bit ((lo OR 0x80) AND 0x80) 7" using b7 unfolding m by (simp add: bit_simps del: push_bit_of_1)
  then have "(lo OR 0x80) AND 0x80 \<noteq> 0" by (metis bit_0_eq bot_apply bot_bool_def)
  moreover have "\<not> bit (0x75 :: u8) 7" by simp
  then have "lo OR 0x80 \<noteq> 0x75" using b7 by metis
  ultimately show thesis using that [of hi "lo OR 0x80" a b c d "[]"] by (simp add: Container name)
next
  case (Leaf name payload)
  then obtain a b c d where name: "name = [a, b, c, d]" using assms(1) by (auto elim: list_4E)
  have l: "length payload + 6 \<le> 768" "(length payload + 6) mod 256 < 128" using assms Leaf name by (simp_all add: Let_def)
  note s = leaf_size [OF _ l]
  show thesis
    using that [of "of_nat ((length payload + 6) div 256)" "of_nat ((length payload + 6) mod 256)" a b c d payload] s
    by (simp add: Leaf name Let_def)
qed

lemma cbrand_step:
  assumes e: "eeprom_holds i (pre @ encode_tag t @ post)" and t: "tag_ok t" and "length cmp = 4"
  shows "\<exists>cmp'. length cmp' = 4 \<and> cbrand_loop i es (length pre) cmp =
    (case t of Leaf name payload \<Rightarrow>
       if name = [0x70, 0x61, 0x72, 0x74] then Some (part_found es (map Some payload @ [Some 0]))
       else cbrand_loop i es (length pre + length (encode_tag t)) cmp'
     | _ \<Rightarrow> cbrand_loop i es (length pre + length (encode_tag t)) cmp')"
proof -
  define img where "img = pre @ encode_tag t @ post"
  note e = e [folded img_def]
  let ?p = "length pre"
  obtain h0 h1 n0 n1 n2 n3 rest where enc: "encode_tag t = [h0, h1, n0, n1, n2, n3] @ rest"
    and kind: "case t of Container _ _ name \<Rightarrow> name = [n0, n1, n2, n3] \<and> h1 AND 0x80 \<noteq> 0 \<and> rest = []
       | Leaf name payload \<Rightarrow> name = [n0, n1, n2, n3] \<and> payload = rest \<and> h1 AND 0x80 = 0 \<and>
           unat ((push_bit 8 (ucast h0) OR ucast (h1 AND 0x7f) :: u16) - 6) = length rest"
    and no_footer: "[h0, h1, n0, n1] \<noteq> footer"
    by (rule tag_parts [OF t]) (use e in \<open>simp_all add: img_def eeprom_holds_def\<close>)
  have len: "?p + 6 + length rest \<le> length img" by (simp add: img_def enc)
  have head: "read_header4 i ?p cmp 0 4 = Some ([h0, h1, n0, n1], ?p + 4)"
    using read_header4_eq [OF e, of ?p 4 0 cmp] len assms(3) by (simp add: img_def enc)
  have b: "data_byte i (?p + 4) = Some n2" "data_byte i (?p + 4 + 1) = Some n3"
    using eeprom_bytes(1) [OF e, of "?p + 4"] eeprom_bytes(1) [OF e, of "?p + 4 + 1"] len
    by (simp_all add: img_def enc nth_append)
  have pay: "read_payload i (?p + 4 + 2) (length rest) = (map Some rest, ?p + 6 + length rest)"
    using read_payload_eq [OF e, of "?p + 4 + 2" "length rest"] len by (simp add: img_def enc)
  have lt: "?p < 768" using e len by (simp add: eeprom_holds_def)
  have nf: "([h0, h1, n0, n1] = footer) = False" using no_footer by simp
  have nth: "[h0, h1, n0, n1] ! 0 = h0" "[h0, h1, n0, n1] ! 1 = h1" "[h0, h1, n0, n1] ! 2 = n0" "[h0, h1, n0, n1] ! 3 = n1"
    by simp_all
  have step: "cbrand_loop i es ?p cmp =
      (if h1 AND 0x80 = 0
       then (let (bs, pos) = read_payload i (?p + 4 + 2) (unat ((push_bit 8 (ucast h0) OR ucast (h1 AND 0x7f) :: u16) - 6))
             in if [n0, n1, n2, n3] = [0x70, 0x61, 0x72, 0x74] then Some (part_found es (bs @ [Some 0]))
                else cbrand_loop i es pos [n0, n1, n2, n3])
       else cbrand_loop i es (?p + 4 + 2) [n0, n1, n2, n3])"
    by (subst cbrand_loop.simps) (simp only: lt if_True head option.case prod.case nf if_False Let_def b nth)
  have el: "?p + length (encode_tag t) = 6 + ?p + length rest" by (simp add: enc)
  show ?thesis unfolding el
  proof (cases t)
    case (Container hi lo name)
    then show "\<exists>cmp'. length cmp' = 4 \<and> cbrand_loop i es ?p cmp =
      (case t of Leaf name payload \<Rightarrow>
         if name = [0x70, 0x61, 0x72, 0x74] then Some (part_found es (map Some payload @ [Some 0]))
         else cbrand_loop i es (6 + ?p + length rest) cmp'
       | _ \<Rightarrow> cbrand_loop i es (6 + ?p + length rest) cmp')"
      using kind step by (intro exI [of _ "[n0, n1, n2, n3]"]) simp
  next
    case (Leaf name payload)
    then show "\<exists>cmp'. length cmp' = 4 \<and> cbrand_loop i es ?p cmp =
      (case t of Leaf name payload \<Rightarrow>
         if name = [0x70, 0x61, 0x72, 0x74] then Some (part_found es (map Some payload @ [Some 0]))
         else cbrand_loop i es (6 + ?p + length rest) cmp'
       | _ \<Rightarrow> cbrand_loop i es (6 + ?p + length rest) cmp')"
      using kind step pay by (intro exI [of _ "[n0, n1, n2, n3]"]) (simp add: add.commute)
  qed
qed

lemma cbrand_tags:
  assumes "eeprom_holds i (pre @ concat (map encode_tag tags) @ footer @ rest)" and "\<forall>t\<in>set tags. tag_ok t" and "length cmp = 4"
  shows "cbrand_loop i es (length pre) cmp =
    Some (case first_part tags of None \<Rightarrow> Ret es 0 | Some payload \<Rightarrow> part_found es (map Some payload @ [Some 0]))"
  using assms
proof (induction tags arbitrary: pre cmp)
  case Nil
  have "length pre < 768" using Nil.prems(1) by (simp add: eeprom_holds_def)
  then show ?case using read_header4_eq [OF Nil.prems(1), of "length pre" 4 0 cmp] Nil.prems(3)
    by (subst cbrand_loop.simps) simp
next
  case (Cons t tags)
  let ?post = "concat (map encode_tag tags) @ footer @ rest"
  have e: "eeprom_holds i (pre @ encode_tag t @ ?post)" using Cons.prems(1) by simp
  from cbrand_step [OF e, of cmp es] Cons.prems(2,3) obtain cmp' where c: "length cmp' = 4" "cbrand_loop i es (length pre) cmp =
    (case t of Leaf name payload \<Rightarrow>
       if name = [0x70, 0x61, 0x72, 0x74] then Some (part_found es (map Some payload @ [Some 0]))
       else cbrand_loop i es (length pre + length (encode_tag t)) cmp'
     | _ \<Rightarrow> cbrand_loop i es (length pre + length (encode_tag t)) cmp')" by auto
  have "cbrand_loop i es (length (pre @ encode_tag t)) cmp' =
      Some (case first_part tags of None \<Rightarrow> Ret es 0 | Some payload \<Rightarrow> part_found es (map Some payload @ [Some 0]))"
    by (rule Cons.IH) (use e Cons.prems c in simp_all)
  then show ?case using c(2) by (cases t) simp_all
qed

text \<open>
  C28: on an EEPROM that holds a header, a list of tags and the footer, the search returns the number of
  the first \<open>part\<close> tag, little-endian, and sets \<open>brandnum\<close> to its bytes in hexadecimal and \<open>brand\<close> for the
  known number; without such a tag it sets only the default brand and returns 0. Containers are entered,
  other tags are skipped by their size.
\<close>

theorem do_cbrand_correct:
  assumes e: "eeprom_holds i2c ([0x73, 0x65, 0x78, 0x69] @ concat (map encode_tag tags) @ [0x70, 0x75, 0x73, 0x21] @ rest)"
    and "\<forall>t\<in>set tags. tag_ok t"
  shows "do_cbrand i2c =
    Some (case first_part tags of
        None \<Rightarrow> Ret [Setenv ''brand'' ''chumby''] 0
      | Some (d0 # d1 # _) \<Rightarrow> part_found [Setenv ''brand'' ''chumby''] [Some d0, Some d1]
      | Some [d0] \<Rightarrow> part_found [Setenv ''brand'' ''chumby''] [Some d0, Some 0]
      | Some [] \<Rightarrow> Uninit)"
proof -
  let ?h = "[0x73, 0x65, 0x78, 0x69] :: u8 list"
  have h: "i2c 0x50 0 = Some 0x73" "i2c 0x50 1 = Some 0x65" "i2c 0x50 2 = Some 0x78" "i2c 0x50 3 = Some 0x69"
    using eeprom_bytes(1) [OF e, of 0] eeprom_bytes(1) [OF e, of 1] eeprom_bytes(1) [OF e, of 2] eeprom_bytes(1) [OF e, of 3]
    by (simp_all add: data_byte_def)
  have "cbrand_loop i2c es 4 ?h =
      Some (case first_part tags of None \<Rightarrow> Ret es 0 | Some payload \<Rightarrow> part_found es (map Some payload @ [Some 0]))" for es
    using cbrand_tags [OF e assms(2), of ?h es] by (simp add: eval_nat_numeral)
  then show ?thesis by (simp add: do_cbrand_def h part_found_def split: option.splits list.splits)
qed

definition sample_eeprom :: "u8 list" where
  "sample_eeprom = [0x73, 0x65, 0x78, 0x69, 0, 0x94, 0x61, 0x62, 0x63, 0x64, 0, 7, 0x76, 0x65, 0x72, 0x73, 1,
     0, 8, 0x70, 0x61, 0x72, 0x74, 0x10, 0x01, 0x70, 0x75, 0x73, 0x21]"

definition sample_i2c :: eeprom where
  "sample_i2c s r = (let p = 256 * unat (s - 0x50) + unat r in if p < length sample_eeprom then Some (sample_eeprom ! p) else None)"

lemma sample_i2c_holds: "eeprom_holds sample_i2c sample_eeprom"
proof -
  have "sample_i2c (0x50 + of_nat (pos div 256)) (of_nat (pos mod 256)) = Some (sample_eeprom ! pos)" if p: "pos < length sample_eeprom" for pos
  proof -
    have "pos < 256" using p by (simp add: sample_eeprom_def)
    then show ?thesis using p by (simp add: sample_i2c_def unat_of_nat)
  qed
  then show ?thesis by (simp add: eeprom_holds_def sample_eeprom_def)
qed

theorem do_cbrand_correct_witness:
  "do_cbrand sample_i2c = Some (Ret [Setenv ''brand'' ''chumby'', Setenv ''brand'' ''insignia'', Setenv ''brandnum'' ''1001''] 272)"
proof -
  let ?tags = "[Container 0 0x14 [0x61, 0x62, 0x63, 0x64], Leaf [0x76, 0x65, 0x72, 0x73] [1], Leaf [0x70, 0x61, 0x72, 0x74] [0x10, 0x01]]"
  have "sample_eeprom = [0x73, 0x65, 0x78, 0x69] @ concat (map encode_tag ?tags) @ [0x70, 0x75, 0x73, 0x21] @ []"
    by (simp add: sample_eeprom_def)
  then have e: "eeprom_holds sample_i2c ([0x73, 0x65, 0x78, 0x69] @ concat (map encode_tag ?tags) @ [0x70, 0x75, 0x73, 0x21] @ [])"
    using sample_i2c_holds by simp
  have "part_found [Setenv ''brand'' ''chumby''] [Some 0x10, Some 1] =
      Ret [Setenv ''brand'' ''chumby'', Setenv ''brand'' ''insignia'', Setenv ''brandnum'' ''1001''] 272" by code_simp
  then show ?thesis using do_cbrand_correct [OF e] by simp
qed

section \<open>The blocks of a card\<close>

text \<open>A card as the list of its bytes, and the driver that reads whole blocks of it.\<close>

definition card_read :: "u8 list \<Rightarrow> u32 \<Rightarrow> u32 \<Rightarrow> u8 list list" where
  "card_read D s n =
     (if (unat s + unat n) * 512 \<le> length D then map (\<lambda>i. take 512 (drop (512 * (unat s + i)) D)) [0..<unat n] else [])"

definition block_def_bytes :: "block_def \<Rightarrow> u8 list" where
  "block_def_bytes bd = PUT_UINT32_LE (bd_offset bd) @ PUT_UINT32_LE (bd_length bd) @ block_ver bd @ bd_name bd"

definition block_def_ok :: "block_def \<Rightarrow> bool" where
  "block_def_ok bd \<longleftrightarrow> bd_offset bd \<noteq> 0xffffffff \<and> length (block_ver bd) = 4 \<and> length (bd_name bd) = 4"

text \<open>The area with a table of blocks: 1024 bytes, the entries, and the entry that ends the table.\<close>

definition area_with :: "u8 list \<Rightarrow> block_def list \<Rightarrow> u8 list \<Rightarrow> bool" where
  "area_with area bds fill \<longleftrightarrow>
     length area = 2048 \<and>
     (\<exists>h. length h = 1024 \<and> area = h @ concat (map block_def_bytes bds) @ (if length bds < 64 then PUT_UINT32_LE 0xffffffff else []) @ fill)"

lemma read_block_def_bytes:
  assumes "block_def_ok bd"
  shows "read_block_def (block_def_bytes bd @ r) = bd"
  using assms
  by (cases bd) (simp add: read_block_def_def block_def_bytes_def block_def_ok_def GET_PUT_LE GET_LE_append)

lemma length_block_def_bytes: "block_def_ok bd \<Longrightarrow> length (block_def_bytes bd) = 16"
  by (simp add: block_def_bytes_def block_def_ok_def)

lemma length_table: "\<forall>bd\<in>set bds. block_def_ok bd \<Longrightarrow> length (concat (map block_def_bytes bds)) = 16 * length bds"
  by (induction bds) (auto simp: length_block_def_bytes)

lemma drop_table:
  assumes "\<forall>bd\<in>set bds. block_def_ok bd" and "i < length bds"
  shows "\<exists>t. drop (16 * i) (concat (map block_def_bytes bds) @ r) = block_def_bytes (bds ! i) @ t"
  using assms
proof (induction bds arbitrary: i)
  case (Cons bd bds)
  then show ?case
  proof (cases i)
    case (Suc k)
    then show ?thesis using Cons.IH [of k] Cons.prems length_block_def_bytes [of bd] by (simp add: drop_append)
  qed simp
qed simp

lemma concat_card_read:
  assumes "(unat s + unat n) * 512 \<le> length D"
  shows "concat (card_read D s n) = take (512 * unat n) (drop (512 * unat s) D)"
proof -
  have "concat (map (\<lambda>i. take 512 (drop (512 * (a + i)) D)) [0..<k]) = take (512 * k) (drop (512 * a) D)" for a k
  proof (induction k)
    case (Suc k)
    have "take (512 * Suc k) (drop (512 * a) D) = take (512 * k) (drop (512 * a) D) @ take 512 (drop (512 * k) (drop (512 * a) D))"
      using take_add [of "512 * k" 512 "drop (512 * a) D"] by (simp add: add.commute)
    then show ?case using Suc by (simp add: algebra_simps)
  qed simp
  then show ?thesis using assms by (simp add: card_read_def)
qed

lemma find_block_first:
  assumes "\<forall>bd\<in>set bds. bd_offset bd \<noteq> 0xffffffff" and "distinct (map (\<lambda>bd. c_name (bd_name bd)) bds)" and "bd \<in> set bds"
  shows "find_block (c_name (bd_name bd)) (bds @ rest) = Some bd"
proof -
  have nf: "nul_free (c_name b)" for b by (auto simp: c_name_def nul_free_def dest: set_takeWhileD)
  show ?thesis using assms by (induction bds) (auto simp: strcmp_eq_0 nf)
qed

lemma find_block_none:
  assumes "\<forall>bd\<in>set bds. c_name (bd_name bd) \<noteq> filename" and "nul_free filename" and "rest = [] \<or> bd_offset (hd rest) = 0xffffffff"
  shows "find_block filename (bds @ rest) = None"
proof -
  have nf: "nul_free (c_name b)" for b by (auto simp: c_name_def nul_free_def dest: set_takeWhileD)
  have "find_block filename rest = None" using assms(3) by (cases rest) auto
  then show ?thesis using assms(1,2) by (induction bds) (auto simp: strcmp_eq_0 nf)
qed

lemma read_area_table:
  assumes area: "area_with area bds fill" and ok: "\<forall>bd\<in>set bds. block_def_ok bd" and n: "length bds \<le> 64"
  obtains ca rest where "read_config_area area = Some ca" and "block_table ca = bds @ rest"
    and "rest = [] \<or> bd_offset (List.hd rest) = 0xffffffff"
proof -
  from area obtain h where h: "length h = 1024" "length area = 2048"
    and a: "area = h @ concat (map block_def_bytes bds) @ (if length bds < 64 then PUT_UINT32_LE 0xffffffff else []) @ fill"
    by (auto simp: area_with_def)
  let ?t = "map (\<lambda>i. read_block_def (drop (1024 + 16 * i) area)) [0..<64]"
  have nth: "read_block_def (drop (1024 + 16 * i) area) = bds ! i" if i: "i < length bds" for i
  proof -
    obtain t where "drop (16 * i) (concat (map block_def_bytes bds) @ (if length bds < 64 then PUT_UINT32_LE 0xffffffff else []) @ fill)
      = block_def_bytes (bds ! i) @ t" using drop_table [OF ok i] by blast
    then show ?thesis using ok i h(1) by (simp add: a drop_append read_block_def_bytes)
  qed
  have "take (length bds) ?t = bds" by (rule nth_equalityI) (use n nth in \<open>auto simp: less_le_trans\<close>)
  then have t: "?t = bds @ drop (length bds) ?t" by (metis append_take_drop_id)
  have "drop (length bds) ?t = [] \<or> bd_offset (List.hd (drop (length bds) ?t)) = 0xffffffff"
  proof (cases "length bds < 64")
    case True
    then have "drop (1024 + 16 * length bds) area = PUT_UINT32_LE 0xffffffff @ fill"
      using h(1) length_table [OF ok] by (simp add: a drop_append)
    then show ?thesis using True by (simp add: hd_drop_conv_nth read_block_def_def GET_PUT_LE)
  qed (use n in simp)
  with t h(2) that show thesis by (auto simp: read_config_area_def config_area_size_def)
qed

lemma find_block_table:
  assumes "\<forall>bd\<in>set bds. block_def_ok bd" and "distinct (map (\<lambda>bd. c_name (bd_name bd)) bds)" and "nul_free filename"
    and "rest = [] \<or> bd_offset (hd rest) = 0xffffffff"
  shows "find_block filename (bds @ rest) = find (\<lambda>bd. c_name (bd_name bd) = filename) bds"
proof (cases "find (\<lambda>bd. c_name (bd_name bd) = filename) bds")
  case None
  then have "\<forall>bd\<in>set bds. c_name (bd_name bd) \<noteq> filename" by (auto simp: find_None_iff)
  then show ?thesis unfolding None by (rule find_block_none [OF _ assms(3,4)])
next
  case (Some bd)
  then have "bd \<in> set bds" "c_name (bd_name bd) = filename" by (auto simp: find_Some_iff)
  moreover have "\<forall>bd\<in>set bds. bd_offset bd \<noteq> 0xffffffff" using assms(1) by (simp add: block_def_ok_def)
  ultimately show ?thesis using find_block_first [OF _ assms(2)] Some by auto
qed

text \<open>
  C27: from a card whose configuration area lists blocks, \<open>file_cconfig_read\<close> loads the block with the
  given name: its bytes from its offset behind the 2048 bytes in front of the first partition, in whole
  sectors. A rest of less than a sector is counted in the result but not loaded; an unknown name loads
  nothing and returns 0.
\<close>

theorem file_cconfig_read_correct:
  assumes rd: "block_read d = Some (card_read D)" and D: "length D < 2 ^ 32"
    and area: "area_with (take 2048 (drop 51200 D)) bds fill" "\<forall>bd\<in>set bds. block_def_ok bd" "length bds \<le> 64"
    and names: "distinct (map (\<lambda>bd. c_name (bd_name bd)) bds)" "nul_free filename"
    and inside: "\<forall>bd\<in>set bds. 512 dvd unat (bd_offset bd) \<and> 2048 + unat (bd_offset bd) + unat (bd_length bd) \<le> length D"
  shows "\<exists>msg. file_cconfig_read (Some d) filename addr maxsize =
    (case find (\<lambda>bd. c_name (bd_name bd) = filename) bds of
       None \<Rightarrow> Some ([Say msg], 0)
     | Some bd \<Rightarrow>
         (let sz = (if maxsize = 0 then bd_length bd else min maxsize (bd_length bd))
          in Some ([Say msg, Load addr (take (512 * (unat sz div 512)) (drop (2048 + unat (bd_offset bd)) D))], sz)))"
proof -
  have "length (take 2048 (drop 51200 D)) = 2048" using area(1) unfolding area_with_def by blast
  then have len: "51200 + 2048 \<le> length D" by (simp add: min_def split: if_splits)
  have "concat (card_read D 100 4) = take 2048 (drop 51200 D)"
    using concat_card_read [of 100 4 D] len by simp
  moreover obtain ca rest where ca: "read_config_area (take 2048 (drop 51200 D)) = Some ca" "block_table ca = bds @ rest"
    "rest = [] \<or> bd_offset (hd rest) = 0xffffffff" by (rule read_area_table [OF area])
  ultimately have read: "read_area d = Some ca" by (simp add: read_area_def rd config_area_size_def)
  have find: "find_block filename (block_table ca) = find (\<lambda>bd. c_name (bd_name bd) = filename) bds"
    unfolding ca(2) by (rule find_block_table [OF area(2) names ca(3)])
  show ?thesis
  proof (cases "find (\<lambda>bd. c_name (bd_name bd) = filename) bds")
    case None
    then show ?thesis by (simp add: file_cconfig_read_def read find)
  next
    case (Some bd)
    define sz where "sz = (if maxsize = 0 then bd_length bd else min maxsize (bd_length bd))"
    have sz': "(if maxsize \<noteq> 0 \<and> maxsize < bd_length bd then maxsize else bd_length bd) = sz"
      by (auto simp: sz_def min_def)
    have "sz \<le> bd_length bd" by (simp add: sz_def)
    then have le: "unat sz \<le> unat (bd_length bd)" by (simp add: word_le_nat_alt)
    have bd: "bd \<in> set bds" using Some by (auto simp: find_Some_iff)
    then obtain q where q: "unat (bd_offset bd) = 512 * q" using inside by (auto simp: dvd_def)
    have fit: "2048 + 512 * q + unat sz \<le> length D" using inside bd le q by fastforce
    have "unat (bd_offset bd + 2048) = 512 * q + 2048" using q fit D by (subst unat_add_lem [THEN iffD1]) simp_all
    then have s: "unat ((bd_offset bd + 2048) div 512) = q + 4" by (simp add: unat_div)
    have n: "unat (sz div 512) = unat sz div 512" by (simp add: unat_div)
    have "unat sz div 512 * 512 \<le> unat sz" by (rule div_times_less_eq_dividend)
    then have "(unat ((bd_offset bd + 2048) div 512) + unat (sz div 512)) * 512 \<le> length D" using fit unfolding s n by simp
    from concat_card_read [OF this]
    have "concat (card_read D ((bd_offset bd + 2048) div 512) (sz div 512)) = take (512 * (unat sz div 512)) (drop (2048 + unat (bd_offset bd)) D)"
      unfolding s n q by (simp add: algebra_simps)
    then show ?thesis by (simp add: file_cconfig_read_def read find Some Let_def sz' rd flip: sz_def)
  qed
qed

text \<open>A card with one block of 700 bytes, of which one sector is loaded.\<close>

definition sample_block :: block_def where
  "sample_block = \<lparr>bd_offset = 51200, bd_length = 700, block_ver = [1, 0, 0, 0], bd_name = [0x6b, 0x72, 0x6e, 0x41]\<rparr>"

definition sample_area :: "u8 list" where
  "sample_area = replicate 1024 0 @ block_def_bytes sample_block @ PUT_UINT32_LE 0xffffffff @ replicate 1004 0"

definition sample_card :: "u8 list" where
  "sample_card = replicate 51200 0 @ sample_area @ replicate 1024 7"

theorem file_cconfig_read_correct_witness:
  "\<exists>msg. file_cconfig_read (Some (sample_disk\<lparr>block_read := Some (card_read sample_card)\<rparr>)) ''krnA'' 0x8000 0 =
     Some ([Say msg, Load 0x8000 (replicate 512 7)], 700)"
proof -
  have ok: "block_def_ok sample_block" by (simp add: block_def_ok_def sample_block_def)
  have len: "length sample_area = 2048" "length sample_card = 54272"
    using length_block_def_bytes [OF ok] by (simp_all add: sample_area_def sample_card_def)
  have area: "take 2048 (drop 51200 sample_card) = sample_area" using len(1) by (simp add: sample_card_def)
  have a: "area_with (take 2048 (drop 51200 sample_card)) [sample_block] (replicate 1004 0)"
    unfolding area area_with_def using len(1) by (intro conjI exI [of _ "replicate 1024 0"]) (simp_all add: sample_area_def)
  have name: "c_name (bd_name sample_block) = ''krnA''" by code_simp
  have data: "take 512 (drop (2048 + 51200) sample_card) = replicate 512 7"
    using len(1) by (simp add: sample_card_def)
  have off: "unat (bd_offset sample_block) = 51200" "unat (bd_length sample_block) = 700" "bd_length sample_block = 700"
    by (simp_all add: sample_block_def)
  have nf: "nul_free ''krnA''" by code_simp
  let ?d = "sample_disk\<lparr>block_read := Some (card_read sample_card)\<rparr>"
  have "block_read ?d = Some (card_read sample_card)" by simp
  from file_cconfig_read_correct [OF this _ a _ _ _ nf, where addr = "0x8000" and maxsize = 0] ok len name off data
  show ?thesis by simp
qed

end
