(* ===== verification/Net.thy ===== *)
theory Net
  imports Env Disk
begin

text \<open>
  The packet layer of \<^verbatim>\<open>net/net.c\<close> and \<^verbatim>\<open>include/net.h\<close>: checksums, the Ethernet, IP, UDP and ARP
  headers, sending with address resolution, the receive routine, restarts of the loop, and IP addresses as
  text.

  Addresses are kept in network order as the code keeps them: the bytes in memory are the bytes of the
  address, and the 32-bit variable is their little-endian value. \<open>eth_send\<close> is the list of frames sent, the
  console the list of messages. The installed packet handler is a parameter of the receive routine, the
  timer is the argument \<open>now\<close>. A receive buffer is the whole buffer, of which the driver
  has filled \<open>len\<close> bytes; an outer \<open>None\<close> is an access behind its end.
\<close>

section \<open>State\<close>

datatype net_state = NETLOOP_CONTINUE | NETLOOP_RESTART | NETLOOP_SUCCESS | NETLOOP_FAIL

text \<open>The storage a pointer to an Ethernet address can point to.\<close>

datatype mac_ptr = NetServerEther | PingMac

datatype thand = startAgainTimeout | PingTimeout | TftpTimeout
datatype rxhand = startAgainHandler | PingHandler | TftpHandler

record net =
  NetOurIP :: u32
  NetOurSubnetMask :: u32
  NetOurGatewayIP :: u32
  NetServerIP :: u32
  NetPingIP :: u32
  NetOurEther :: "u8 list"
  server_ether :: "u8 list"
  ping_mac :: "u8 list"
  NetOurVLAN :: u16
  NetOurNativeVLAN :: u16
  NetIPID :: u32
  PingSeqNo :: u16
  NetArpWaitPacketIP :: u32
  NetArpWaitReplyIP :: u32
  NetArpWaitPacketMAC :: "mac_ptr option"
  NetArpWaitTxPacket :: "u8 list"
  NetArpWaitTimerStart :: u32
  NetArpWaitTry :: nat
  NetState :: net_state
  NetBootFileXferSize :: u32
  timeHandler :: "thand option"
  timeStart :: u32
  timeDelta :: u32
  packetHandler :: rxhand
  NetRestartWrap :: bool
  NetRestarted :: bool
  NetDevExists :: bool
  eth_devs :: nat
  eth_current :: nat
  first_failed :: "nat option"
  sent :: "u8 list list"
  console :: "con_msg list"

definition ETHER_HDR_SIZE :: nat where "ETHER_HDR_SIZE = 14"
definition E802_HDR_SIZE :: nat where "E802_HDR_SIZE = 22"
definition VLAN_ETHER_HDR_SIZE :: nat where "VLAN_ETHER_HDR_SIZE = 18"
definition ARP_HDR_SIZE :: nat where "ARP_HDR_SIZE = 28"
definition IP_HDR_SIZE :: nat where "IP_HDR_SIZE = 28"
definition IP_HDR_SIZE_NO_UDP :: nat where "IP_HDR_SIZE_NO_UDP = 20"
definition PROT_IP :: u16 where "PROT_IP = 0x0800"
definition PROT_ARP :: u16 where "PROT_ARP = 0x0806"
definition PROT_RARP :: u16 where "PROT_RARP = 0x8035"
definition PROT_VLAN :: u16 where "PROT_VLAN = 0x8100"
definition VLAN_NONE :: u16 where "VLAN_NONE = 4095"
definition VLAN_IDMASK :: u16 where "VLAN_IDMASK = 0x0fff"
definition NetBcastAddr :: "u8 list" where "NetBcastAddr = replicate 6 0xff"
definition NetEtherNullAddr :: "u8 list" where "NetEtherNullAddr = replicate 6 0"
definition ARP_TIMEOUT :: u32 where "ARP_TIMEOUT = 5000"
definition ARP_TIMEOUT_COUNT :: nat where "ARP_TIMEOUT_COUNT = 5"

definition say :: "con_msg list \<Rightarrow> 'a net_scheme \<Rightarrow> 'a net_scheme" where "say ms n = n\<lparr>console := console n @ ms\<rparr>"

definition eth_send :: "u8 list \<Rightarrow> 'a net_scheme \<Rightarrow> 'a net_scheme" where
  "eth_send frame n = (if eth_devs n = 0 then n else n\<lparr>sent := sent n @ [frame]\<rparr>)"

section \<open>Words in network order\<close>

definition htons :: "u16 \<Rightarrow> u16" where "htons w = push_bit 8 w OR drop_bit 8 w"
abbreviation ntohs :: "u16 \<Rightarrow> u16" where "ntohs \<equiv> htons"

text \<open>The bytes of a 16-bit field in network order, and the field read back.\<close>

definition put16 :: "u16 \<Rightarrow> u8 list" where "put16 w = [ucast (drop_bit 8 w), ucast w]"
definition get16 :: "u8 list \<Rightarrow> nat \<Rightarrow> u16" where "get16 b i = push_bit 8 (ucast (b ! i)) OR ucast (b ! (i + 1))"

abbreviation NetReadIP :: "u8 list \<Rightarrow> nat \<Rightarrow> u32" where "NetReadIP \<equiv> GET_UINT32_LE"
abbreviation NetWriteIP :: "u32 \<Rightarrow> u8 list" where "NetWriteIP \<equiv> PUT_UINT32_LE"

section \<open>Checksums\<close>

text \<open>The sum of \<open>len\<close> native 16-bit words, with the carries added back twice.\<close>

fun cksum_words :: "u8 list \<Rightarrow> nat \<Rightarrow> u32" where
  "cksum_words p 0 = 0"
| "cksum_words p (Suc k) = cksum_words p k + (ucast (p ! (2 * k)) + push_bit 8 (ucast (p ! (2 * k + 1))))"

definition fold_carry :: "u32 \<Rightarrow> u32" where "fold_carry x = (x AND 0xffff) + drop_bit 16 x"

definition NetCksum :: "u8 list \<Rightarrow> nat \<Rightarrow> u32 option" where
  "NetCksum p n = (if 2 * n \<le> length p then Some (fold_carry (fold_carry (cksum_words p n)) AND 0xffff) else None)"

definition NetCksumOk :: "u8 list \<Rightarrow> nat \<Rightarrow> bool option" where
  "NetCksumOk p n = map_option (\<lambda>x. (x + 1) AND 0xfffe = 0) (NetCksum p n)"

text \<open>The complement of a checksum as the two bytes of the field it is stored in.\<close>

definition cksum_bytes :: "u32 \<Rightarrow> u8 list" where
  "cksum_bytes x = [ucast (NOT x), ucast (drop_bit 8 (NOT x))]"

section \<open>Headers\<close>

definition our_vlan :: "u16 \<Rightarrow> u16" where
  "our_vlan v = (if ntohs v = 0xffff then VLAN_NONE else ntohs v)"

definition NetEthHdrSize :: "'a net_scheme \<Rightarrow> nat" where
  "NetEthHdrSize n = (if our_vlan (NetOurVLAN n) AND VLAN_IDMASK = VLAN_NONE then ETHER_HDR_SIZE else VLAN_ETHER_HDR_SIZE)"

definition NetSetEther :: "'a net_scheme \<Rightarrow> u8 list \<Rightarrow> u16 \<Rightarrow> u8 list" where
  "NetSetEther n addr prot =
     (let myvlanid = our_vlan (NetOurVLAN n)
      in addr @ NetOurEther n @
         (if myvlanid AND VLAN_IDMASK = VLAN_NONE then put16 prot
          else put16 PROT_VLAN @ put16 (myvlanid AND VLAN_IDMASK) @ put16 prot))"

text \<open>The IP and UDP header in front of \<open>len\<close> bytes; the counter of packets moves on.\<close>

definition ip_header :: "u16 \<Rightarrow> u16 \<Rightarrow> u8 \<Rightarrow> u32 \<Rightarrow> u32 \<Rightarrow> u8 list \<Rightarrow> u8 list" where
  "ip_header tot ident proto src dst csum =
     [0x45, 0] @ put16 tot @ put16 ident @ put16 0x4000 @ [255, proto] @ csum @ NetWriteIP src @ NetWriteIP dst"

definition NetSetIP :: "'a net_scheme \<Rightarrow> u32 \<Rightarrow> u32 \<Rightarrow> u32 \<Rightarrow> nat \<Rightarrow> (u8 list \<times> 'a net_scheme) option" where
  "NetSetIP n dest dport sport len =
     (let hdr = ip_header (of_nat (IP_HDR_SIZE + len)) (ucast (NetIPID n)) 17 (NetOurIP n) dest
      in map_option (\<lambda>x. (hdr (cksum_bytes x) @ put16 (ucast sport) @ put16 (ucast dport) @ put16 (of_nat (8 + len)) @ [0, 0],
              n\<lparr>NetIPID := NetIPID n + 1\<rparr>))
           (NetCksum (hdr [0, 0]) (IP_HDR_SIZE_NO_UDP div 2)))"

section \<open>Address resolution and sending\<close>

definition ArpRequest :: "'a net_scheme \<Rightarrow> 'a net_scheme" where
  "ArpRequest n =
     (let local = (NetArpWaitPacketIP n AND NetOurSubnetMask n = NetOurIP n AND NetOurSubnetMask n);
          reply = (if \<not> local \<and> NetOurGatewayIP n \<noteq> 0 then NetOurGatewayIP n else NetArpWaitPacketIP n);
          ms = (if \<not> local \<and> NetOurGatewayIP n = 0 then [Puts (''## Warning: gatewayip needed but not set'' @ nl)] else [])
      in eth_send (NetSetEther n NetBcastAddr PROT_ARP @ put16 1 @ put16 PROT_IP @ [6, 4] @ put16 1 @ NetOurEther n @
            NetWriteIP (NetOurIP n) @ replicate 6 0 @ NetWriteIP reply)
           (say ms (n\<lparr>NetArpWaitReplyIP := reply\<rparr>)))"

definition mac_of :: "'a net_scheme \<Rightarrow> mac_ptr \<Rightarrow> u8 list" where
  "mac_of n p = (case p of NetServerEther \<Rightarrow> server_ether n | PingMac \<Rightarrow> ping_mac n)"

definition set_mac :: "mac_ptr \<Rightarrow> u8 list \<Rightarrow> 'a net_scheme \<Rightarrow> 'a net_scheme" where
  "set_mac p m n = (case p of NetServerEther \<Rightarrow> n\<lparr>server_ether := m\<rparr> | PingMac \<Rightarrow> n\<lparr>ping_mac := m\<rparr>)"

text \<open>
  \<open>data\<close> is what the caller has put behind the headers of the transmit packet. A packet for an unknown
  Ethernet address waits until the ARP reply comes. The result is 1 then, and 0 when it was sent.
\<close>

definition NetSendUDPPacket :: "'a net_scheme \<Rightarrow> u32 \<Rightarrow> mac_ptr \<Rightarrow> u32 \<Rightarrow> u32 \<Rightarrow> u32 \<Rightarrow> u8 list \<Rightarrow> ('a net_scheme \<times> nat) option" where
  "NetSendUDPPacket n now ether dest dport sport data =
     (let dest = (if dest = 0 then 0xffffffff else dest);
          mac = (if dest = 0xffffffff then NetBcastAddr else mac_of n ether)
      in case NetSetIP n dest dport sport (length data) of None \<Rightarrow> None
         | Some (ip, n') \<Rightarrow>
             if mac = NetEtherNullAddr
             then Some (ArpRequest (n'\<lparr>NetArpWaitPacketIP := dest, NetArpWaitPacketMAC := Some ether,
                          NetArpWaitTxPacket := NetSetEther n mac PROT_IP @ ip @ data, NetArpWaitTry := 1, NetArpWaitTimerStart := now\<rparr>), 1)
             else Some (eth_send (NetSetEther n mac PROT_IP @ ip @ data) n', 0))"

section \<open>Restarting\<close>

definition NetSetHandler :: "rxhand \<Rightarrow> 'a net_scheme \<Rightarrow> 'a net_scheme" where "NetSetHandler f n = n\<lparr>packetHandler := f\<rparr>"

definition NetSetTimeout :: "u32 \<Rightarrow> thand \<Rightarrow> u32 \<Rightarrow> 'a net_scheme \<Rightarrow> 'a net_scheme" where
  "NetSetTimeout iv f now n =
     (if iv = 0 then n\<lparr>timeHandler := None\<rparr> else n\<lparr>timeHandler := Some f, timeStart := now, timeDelta := iv\<rparr>)"

text \<open>The devices are a ring; \<open>ethrotate\<close> is the variable of that name.\<close>

definition eth_try_another :: "string option \<Rightarrow> bool \<Rightarrow> 'a net_scheme \<Rightarrow> 'a net_scheme" where
  "eth_try_another ethrotate first_restart n =
     (if (case ethrotate of Some v \<Rightarrow> strcmp v ''no'' = 0 | None \<Rightarrow> False) \<or> eth_devs n = 0 then n
      else (let failed = (if first_restart then Some (eth_current n) else first_failed n);
                cur = (eth_current n + 1) mod eth_devs n
            in n\<lparr>first_failed := failed, eth_current := cur, NetRestartWrap := (failed = Some cur \<or> NetRestartWrap n)\<rparr>))"

definition NetStartAgain :: "(string \<Rightarrow> string option) \<Rightarrow> u32 \<Rightarrow> 'a net_scheme \<Rightarrow> 'a net_scheme" where
  "NetStartAgain env now n =
     (let nretry = env ''netretry'';
          noretry = (case nretry of Some v \<Rightarrow> strcmp v ''no'' = 0 | None \<Rightarrow> False);
          once = (case nretry of Some v \<Rightarrow> strcmp v ''once'' = 0 | None \<Rightarrow> False)
      in if noretry then n\<lparr>NetState := NETLOOP_FAIL\<rparr>
         else (let n = eth_try_another (env ''ethrotate'') (\<not> NetRestarted n) n
               in if NetRestartWrap n
                  then (let n = n\<lparr>NetRestartWrap := False\<rparr>
                        in if NetDevExists n \<and> \<not> once
                           then NetSetHandler startAgainHandler (NetSetTimeout 10000 startAgainTimeout now n)
                           else n\<lparr>NetState := NETLOOP_FAIL\<rparr>)
                  else n\<lparr>NetState := NETLOOP_RESTART\<rparr>))"

definition ArpTimeoutCheck :: "(string \<Rightarrow> string option) \<Rightarrow> u32 \<Rightarrow> 'a net_scheme \<Rightarrow> 'a net_scheme" where
  "ArpTimeoutCheck env now n =
     (if NetArpWaitPacketIP n = 0 then n
      else if now - NetArpWaitTimerStart n > ARP_TIMEOUT
      then (let n = n\<lparr>NetArpWaitTry := NetArpWaitTry n + 1\<rparr>
            in if NetArpWaitTry n \<ge> ARP_TIMEOUT_COUNT
               then NetStartAgain env now
                      (say [Puts (nl @ ''ARP Retry count exceeded; starting again'' @ nl)] (n\<lparr>NetArpWaitTry := 0\<rparr>))
               else ArpRequest (n\<lparr>NetArpWaitTimerStart := now\<rparr>))
      else n)"

section \<open>Addresses as text\<close>

definition ip_to_string :: "u32 \<Rightarrow> string option" where
  "ip_to_string x =
     (let x = htonl x
      in map_option fst (vsprintf ''%d.%d.%d.%d''
           [A32 (drop_bit 24 x AND 0xff), A32 (drop_bit 16 x AND 0xff), A32 (drop_bit 8 x AND 0xff), A32 (x AND 0xff)]))"

text \<open>Four numbers; a character between them is skipped, whatever it is.\<close>

fun string_to_ip_loop :: "nat \<Rightarrow> u32 \<Rightarrow> string \<Rightarrow> u32" where
  "string_to_ip_loop 0 addr s = addr"
| "string_to_ip_loop (Suc k) addr s =
     (let (val, e) = simple_strtoul s 10
      in string_to_ip_loop k (push_bit 8 addr OR (val AND 0xFF)) (if deref e \<noteq> NUL then tl e else e))"

definition string_to_ip :: "string option \<Rightarrow> u32" where
  "string_to_ip s = (case s of None \<Rightarrow> 0 | Some s \<Rightarrow> htonl (string_to_ip_loop 4 0 s))"

definition VLAN_to_string :: "u16 \<Rightarrow> string option" where
  "VLAN_to_string x =
     (let x = our_vlan x
      in if x = VLAN_NONE then Some ''none'' else map_option fst (vsprintf ''%d'' [A32 (ucast (x AND VLAN_IDMASK))]))"

definition string_to_VLAN :: "string option \<Rightarrow> u16" where
  "string_to_VLAN s =
     (case s of None \<Rightarrow> htons VLAN_NONE
      | Some s \<Rightarrow>
          if (of_char (deref s) :: nat) < of_char (CHR ''0'') \<or> (of_char (deref s) :: nat) > of_char (CHR ''9'') then htons VLAN_NONE
          else htons (ucast (fst (simple_strtoul s 10))))"

definition getenv_IPaddr :: "(string \<Rightarrow> string option) \<Rightarrow> string \<Rightarrow> u32" where
  "getenv_IPaddr env var = string_to_ip (env var)"

definition getenv_VLAN :: "(string \<Rightarrow> string option) \<Rightarrow> string \<Rightarrow> u16" where
  "getenv_VLAN env var = string_to_VLAN (env var)"

definition print_IPaddr :: "u32 \<Rightarrow> con_msg list" where
  "print_IPaddr x = (case ip_to_string x of None \<Rightarrow> [] | Some s \<Rightarrow> [Puts s])"

section \<open>Receiving\<close>

type_synonym 'a handler = "rxhand \<Rightarrow> u8 list \<Rightarrow> u32 \<Rightarrow> u32 \<Rightarrow> u32 \<Rightarrow> 'a net_scheme \<Rightarrow> 'a net_scheme option"

text \<open>The protocol, where its header starts, and how many bytes remain; \<open>None\<close> drops the frame.\<close>

definition link_layer :: "'a net_scheme \<Rightarrow> u8 list \<Rightarrow> int \<Rightarrow> (u16 \<times> nat \<times> int) option" where
  "link_layer n inpkt len =
     (if len < int ETHER_HDR_SIZE then None
      else (let myvlanid = our_vlan (NetOurVLAN n); mynvlanid = our_vlan (NetOurNativeVLAN n); x = get16 inpkt 12;
                matched = (\<lambda>vlanid. myvlanid AND VLAN_IDMASK = VLAN_NONE \<or>
                  (if vlanid = VLAN_NONE then mynvlanid AND VLAN_IDMASK else vlanid) = myvlanid AND VLAN_IDMASK)
            in if x < 1514
               then (if matched VLAN_NONE then Some (get16 inpkt 20, E802_HDR_SIZE, len - int E802_HDR_SIZE) else None)
               else if x \<noteq> PROT_VLAN
               then (if matched VLAN_NONE then Some (x, ETHER_HDR_SIZE, len - int ETHER_HDR_SIZE) else None)
               else if len < int VLAN_ETHER_HDR_SIZE then None
               else if ntohs (NetOurVLAN n) AND VLAN_IDMASK = VLAN_NONE then None
               else if matched (get16 inpkt 14 AND VLAN_IDMASK)
               then Some (get16 inpkt 16, VLAN_ETHER_HDR_SIZE, len - int VLAN_ETHER_HDR_SIZE) else None))"

definition bad_length :: "int \<Rightarrow> 'a net_scheme \<Rightarrow> 'a net_scheme" where
  "bad_length len = say [Printf (''bad length %d < %d'' @ nl) [A32 (of_int len), A32 (of_nat ARP_HDR_SIZE)]]"

text \<open>A request is answered in the buffer it came in, step by step.\<close>

definition arp_answer :: "'a net_scheme \<Rightarrow> u8 list \<Rightarrow> nat \<Rightarrow> u8 list" where
  "arp_answer n inpkt arp =
     (let hdr = NetSetEther n (take 6 (drop 6 inpkt)) PROT_ARP;
          b = buf_write inpkt 0 hdr;
          b = buf_write b (arp + 6) (put16 2);
          b = buf_write b (arp + 18) (take 6 (drop (arp + 8) b));
          b = buf_write b (arp + 24) (take 4 (drop (arp + 14) b));
          b = buf_write b (arp + 8) (NetOurEther n);
          b = buf_write b (arp + 14) (NetWriteIP (NetOurIP n))
      in take (length hdr + ARP_HDR_SIZE) b)"

definition arp_input :: "'a net_scheme \<Rightarrow> u8 list \<Rightarrow> nat \<Rightarrow> int \<Rightarrow> 'a net_scheme" where
  "arp_input n inpkt arp len =
     (if len < int ARP_HDR_SIZE then bad_length len n
      else if get16 inpkt arp \<noteq> 1 \<or> get16 inpkt (arp + 2) \<noteq> PROT_IP \<or> inpkt ! (arp + 4) \<noteq> 6 \<or> inpkt ! (arp + 5) \<noteq> 4 then n
      else if NetOurIP n = 0 \<or> NetReadIP inpkt (arp + 24) \<noteq> NetOurIP n then n
      else if get16 inpkt (arp + 6) = 1 then eth_send (arp_answer n inpkt arp) n
      else if get16 inpkt (arp + 6) = 2
      then (case NetArpWaitPacketMAC n of None \<Rightarrow> n
            | Some p \<Rightarrow>
                if NetArpWaitPacketIP n = 0 then n
                else if NetReadIP inpkt (arp + 14) = NetArpWaitReplyIP n
                then (let mac = take 6 (drop (arp + 8) inpkt); n = set_mac p mac n
                      in (eth_send (mac @ drop 6 (NetArpWaitTxPacket n)) n)
                           \<lparr>NetArpWaitPacketIP := 0, NetArpWaitTxPacket := [], NetArpWaitPacketMAC := None\<rparr>)
                else n)
      else n)"

definition rarp_input :: "'a handler \<Rightarrow> 'a net_scheme \<Rightarrow> u8 list \<Rightarrow> nat \<Rightarrow> int \<Rightarrow> 'a net_scheme option" where
  "rarp_input handler n inpkt arp len =
     (if len < int ARP_HDR_SIZE then Some (bad_length len n)
      else if get16 inpkt (arp + 6) \<noteq> 4 \<or> get16 inpkt arp \<noteq> 1 \<or> get16 inpkt (arp + 2) \<noteq> PROT_IP \<or>
              inpkt ! (arp + 4) \<noteq> 6 \<or> inpkt ! (arp + 5) \<noteq> 4
      then Some (say [Puts (''invalid RARP header'' @ nl)] n)
      else handler (packetHandler n) [] 0 0 0
             (n\<lparr>NetOurIP := NetReadIP inpkt (arp + 24),
                NetServerIP := (if NetServerIP n = 0 then NetReadIP inpkt (arp + 14) else NetServerIP n),
                server_ether := take 6 (drop (arp + 8) inpkt)\<rparr>))"

text \<open>The echo reply, in the buffer of the request; \<open>len\<close> is the length the IP header states.\<close>

definition echo_reply :: "'a net_scheme \<Rightarrow> u8 list \<Rightarrow> nat \<Rightarrow> u16 \<Rightarrow> u8 list option" where
  "echo_reply n inpkt ip len =
     (let b = buf_write inpkt 0 (take 6 (drop 6 inpkt));
          b = buf_write b 6 (NetOurEther n);
          b = buf_write b (ip + 10) [0, 0];
          b = buf_write b (ip + 6) [0, 0];
          b = buf_write b (ip + 16) (take 4 (drop (ip + 12) b));
          b = buf_write b (ip + 12) (NetWriteIP (NetOurIP n))
      in case NetCksum (drop ip b) (IP_HDR_SIZE_NO_UDP div 2) of None \<Rightarrow> None
         | Some x \<Rightarrow>
             (let b = buf_write b (ip + 10) (cksum_bytes x);
                  b = b[ip + 20 := 0];
                  b = buf_write b (ip + 22) [0, 0]
              in case NetCksum (drop (ip + 20) b) (unat (drop_bit 1 (ucast len - of_nat IP_HDR_SIZE_NO_UDP :: u32))) of None \<Rightarrow> None
                 | Some y \<Rightarrow> Some (take (ETHER_HDR_SIZE + unat len) (buf_write b (ip + 22) (cksum_bytes y)))))"

definition icmp_input :: "'a handler \<Rightarrow> 'a net_scheme \<Rightarrow> u8 list \<Rightarrow> nat \<Rightarrow> u16 \<Rightarrow> 'a net_scheme option" where
  "icmp_input handler n inpkt ip len =
     (if inpkt ! (ip + 20) = 5
      then Some (if inpkt ! (ip + 21) \<noteq> 1 then n
                 else say ([Puts '' ICMP Host Redirect to ''] @ print_IPaddr (NetReadIP inpkt (ip + 24)) @ [Puts '' '']) n)
      else if inpkt ! (ip + 20) = 0 then handler (packetHandler n) (drop ip inpkt) 0 0 0 n
      else if inpkt ! (ip + 20) = 8 then map_option (\<lambda>f. eth_send f n) (echo_reply n inpkt ip len)
      else Some n)"

definition ip_input :: "'a handler \<Rightarrow> 'a net_scheme \<Rightarrow> u8 list \<Rightarrow> nat \<Rightarrow> int \<Rightarrow> 'a net_scheme option" where
  "ip_input handler n inpkt ip len =
     (if (of_int len :: u32) < of_nat IP_HDR_SIZE then Some n
      else if len < uint (get16 inpkt (ip + 2))
      then Some (say [Printf (''len bad %d < %d'' @ nl) [A32 (of_int len), A32 (ucast (get16 inpkt (ip + 2)))]] n)
      else if inpkt ! ip AND 0xf0 \<noteq> 0x40 \<or> get16 inpkt (ip + 6) AND 0x3fff \<noteq> 0 \<or> inpkt ! ip AND 0x0f > 5 then Some n
      else (case NetCksumOk (drop ip inpkt) (IP_HDR_SIZE_NO_UDP div 2) of None \<Rightarrow> None
            | Some ok \<Rightarrow>
                if \<not> ok then Some (say [Puts (''checksum bad'' @ nl)] n)
                else (let dst = NetReadIP inpkt (ip + 16)
                      in if NetOurIP n \<noteq> 0 \<and> dst \<noteq> NetOurIP n \<and> dst \<noteq> 0xFFFFFFFF then Some n
                         else if inpkt ! (ip + 9) = 1 then icmp_input handler n inpkt ip (get16 inpkt (ip + 2))
                         else if inpkt ! (ip + 9) \<noteq> 17 then Some n
                         else handler (packetHandler n) (drop (ip + IP_HDR_SIZE) inpkt)
                                      (ucast (get16 inpkt (ip + 22))) (ucast (get16 inpkt (ip + 20)))
                                      (ucast (get16 inpkt (ip + 24)) - 8) n)))"

definition NetReceive :: "'a handler \<Rightarrow> 'a net_scheme \<Rightarrow> u8 list \<Rightarrow> int \<Rightarrow> 'a net_scheme option" where
  "NetReceive handler n inpkt len =
     (case link_layer n inpkt len of
        None \<Rightarrow> Some n
      | Some (x, off, len) \<Rightarrow>
          if x = PROT_ARP then Some (arp_input n inpkt off len)
          else if x = PROT_RARP then rarp_input handler n inpkt off len
          else if x = PROT_IP then ip_input handler n inpkt off len
          else Some n)"

section \<open>Ping\<close>

definition ping_packet :: "u16 \<Rightarrow> u8 list \<Rightarrow> u8 list" where
  "ping_packet seq csum = put16 0x0800 @ csum @ [0, 0] @ put16 seq"

definition PingSend :: "u32 \<Rightarrow> 'a net_scheme \<Rightarrow> 'a net_scheme option" where
  "PingSend now n =
     (let hdr = ip_header (of_nat (IP_HDR_SIZE_NO_UDP + 8)) (ucast (NetIPID n)) 1 (NetOurIP n) (NetPingIP n)
      in case (NetCksum (hdr [0, 0]) (IP_HDR_SIZE_NO_UDP div 2), NetCksum (ping_packet (PingSeqNo n) [0, 0]) (8 div 2)) of
           (Some x, Some y) \<Rightarrow>
             Some (ArpRequest (n\<lparr>ping_mac := NetEtherNullAddr, NetArpWaitPacketIP := NetPingIP n, NetArpWaitPacketMAC := Some PingMac,
               NetIPID := NetIPID n + 1, PingSeqNo := PingSeqNo n + 1,
               NetArpWaitTxPacket := NetSetEther n NetEtherNullAddr PROT_IP @ hdr (cksum_bytes x) @ ping_packet (PingSeqNo n) (cksum_bytes y),
               NetArpWaitTry := 1, NetArpWaitTimerStart := now\<rparr>))
         | _ \<Rightarrow> None)"

definition ping_timeout :: "'a net_scheme \<Rightarrow> 'a net_scheme" where "ping_timeout n = n\<lparr>NetState := NETLOOP_FAIL\<rparr>"

definition ping_handler :: "u8 list \<Rightarrow> 'a net_scheme \<Rightarrow> 'a net_scheme" where
  "ping_handler pkt n = (if NetReadIP pkt 12 \<noteq> NetPingIP n then n else n\<lparr>NetState := NETLOOP_SUCCESS\<rparr>)"

definition PingStart :: "string \<Rightarrow> u32 \<Rightarrow> 'a net_scheme \<Rightarrow> 'a net_scheme option" where
  "PingStart eth_name now n =
     PingSend now (NetSetHandler PingHandler (NetSetTimeout 10000 PingTimeout now
       (say [Printf (''Using %s device'' @ nl) [AStr (Some eth_name)]] n)))"

section \<open>The checksum of a header\<close>

lemma get_put16 [simp]: "get16 (put16 w @ r) 0 = w" "get16 (put16 w) 0 = w"
proof -
  have "push_bit 8 (ucast (ucast (drop_bit 8 w) :: u8)) OR ucast (ucast w :: u8) = (w :: u16)"
  proof (rule bit_word_eqI)
    fix n assume "n < LENGTH(16)"
    then have n: "n < 16" by simp
    consider "n < 8" | "8 \<le> n" using n by linarith
    then show "bit (push_bit 8 (ucast (ucast (drop_bit 8 w) :: u8)) OR ucast (ucast w :: u8) :: u16) n = bit w n"
      using n by cases (auto simp: bit_simps)
  qed
  then show "get16 (put16 w @ r) 0 = w" "get16 (put16 w) 0 = w" by (simp_all add: get16_def put16_def)
qed

lemma length_put16 [simp]: "length (put16 w) = 2" by (simp add: put16_def)

lemma get16_append: "length xs \<le> i \<Longrightarrow> get16 (xs @ ys) i = get16 ys (i - length xs)"
  by (simp add: get16_def nth_append Suc_diff_le)

lemma get16_Cons: "0 < i \<Longrightarrow> get16 (a # xs) i = get16 xs (i - 1)"
  by (simp add: get16_def nth_Cons')

lemma get16_append1: "i + 1 < length xs \<Longrightarrow> get16 (xs @ ys) i = get16 xs i"
  by (simp add: get16_def nth_append)

text \<open>The sum as a natural number, and its ones' complement reduction.\<close>

fun cksum_nat :: "u8 list \<Rightarrow> nat \<Rightarrow> nat" where
  "cksum_nat p 0 = 0"
| "cksum_nat p (Suc k) = cksum_nat p k + (unat (p ! (2 * k)) + 256 * unat (p ! (2 * k + 1)))"

lemma unat_word_pair: "unat (ucast (a :: u8) + push_bit 8 (ucast (b :: u8)) :: u32) = unat a + 256 * unat b"
proof -
  have a: "unat a < 256" and b: "unat b < 256" by simp_all
  have u: "unat (ucast c :: u32) = unat c" for c :: u8
    by (simp add: unsigned_ucast_eq take_bit_nat_eq_self_iff less_trans [OF unat_u8_less])
  have p: "unat (push_bit 8 (ucast b) :: u32) = 256 * unat b"
    unfolding push_bit_eq_mult using less_trans [OF b, of 16777216] u [of b] by (subst unat_mult_lem [THEN iffD1]) simp_all
  have "unat a + 256 * unat b < 65536" using a b by linarith
  then have "unat a + 256 * unat b < 2 ^ 32" by simp
  then show ?thesis using u [of a] p by (subst unat_add_lem [THEN iffD1]) simp_all
qed

lemma cksum_nat_bound: "cksum_nat p n \<le> n * 65535"
proof (induction n)
  case (Suc k)
  have "unat (p ! (2 * k)) \<le> 255" "unat (p ! (2 * k + 1)) \<le> 255"
    using unat_u8_less [of "p ! (2 * k)"] unat_u8_less [of "p ! (2 * k + 1)"] by linarith+
  then show ?case using Suc by simp
qed simp

lemma unat_cksum_words: "n \<le> 65536 \<Longrightarrow> unat (cksum_words p n) = cksum_nat p n"
proof (induction n)
  case (Suc k)
  have "cksum_nat p (Suc k) \<le> Suc k * 65535" by (rule cksum_nat_bound)
  also have "\<dots> < 2 ^ 32" using Suc.prems by simp
  finally have "cksum_nat p (Suc k) < 2 ^ 32" .
  then show ?case using Suc by (simp only: cksum_words.simps cksum_nat.simps) (subst unat_add_lem [THEN iffD1], simp_all add: unat_word_pair)
qed simp

definition carry_nat :: "nat \<Rightarrow> nat" where "carry_nat s = s mod 65536 + s div 65536"

lemma carry_nat_less: "s < 2 ^ 32 \<Longrightarrow> carry_nat s < 131072"
proof -
  assume "s < 2 ^ 32"
  then have "s div 65536 < 65536" by (simp add: less_mult_imp_div_less)
  moreover have "s mod 65536 < 65536" by simp
  ultimately show ?thesis unfolding carry_nat_def by linarith
qed

lemma unat_fold_carry: "unat (fold_carry x) = carry_nat (unat x)"
proof -
  have m: "(0xffff :: u32) = mask 16" by (simp add: mask_eq_exp_minus_1)
  have l: "unat (x AND 0xffff) = unat x mod 65536"
    unfolding m take_bit_eq_mask [symmetric] unsigned_take_bit_eq by (simp add: take_bit_eq_mod)
  have h: "unat (drop_bit 16 x) = unat x div 65536" unfolding unat_drop_bit_eq by (simp add: drop_bit_eq_div)
  have "carry_nat (unat x) < 2 ^ 32" using carry_nat_less [of "unat x"] unat_u32_less [of x] by simp
  then show ?thesis unfolding fold_carry_def using l h by (subst unat_add_lem [THEN iffD1]) (simp_all add: carry_nat_def)
qed

lemma carry_nat_mod: "carry_nat s mod 65535 = s mod 65535"
proof -
  have "s = carry_nat s + 65535 * (s div 65536)" by (simp add: carry_nat_def)
  then show ?thesis by (metis mod_mult_self2)
qed

definition ones_sum :: "nat \<Rightarrow> nat" where "ones_sum s = carry_nat (carry_nat s)"

lemma ones_sum: "s < 2 ^ 32 \<Longrightarrow> ones_sum s < 65536" "ones_sum s mod 65535 = s mod 65535"
proof -
  show "ones_sum s mod 65535 = s mod 65535" by (simp add: ones_sum_def carry_nat_mod)
  assume "s < 2 ^ 32"
  then have f: "carry_nat s \<le> 131070"
    using less_mult_imp_div_less [of s 65536 65536] mod_less_divisor [of 65536 s] unfolding carry_nat_def by simp
  show "ones_sum s < 65536"
  proof (cases "carry_nat s < 65536")
    case True
    then show ?thesis by (simp add: ones_sum_def carry_nat_def [of "carry_nat s"])
  next
    case False
    then have "carry_nat s div 65536 = 1" "carry_nat s mod 65536 = carry_nat s - 65536"
      using f by (auto simp: div_nat_eqI le_mod_geq)
    then show ?thesis using f False by (simp add: ones_sum_def carry_nat_def [of "carry_nat s"])
  qed
qed

lemma carry_diff: "\<exists>k. s = carry_nat s + 65535 * k"
  by (rule exI [of _ "s div 65536"]) (simp add: carry_nat_def)

lemma ones_sum_diff: "\<exists>k. s = ones_sum s + 65535 * k"
proof -
  obtain j where j: "s = carry_nat s + 65535 * j" using carry_diff by blast
  obtain k where k: "carry_nat s = ones_sum s + 65535 * k" unfolding ones_sum_def using carry_diff by blast
  have "a = b + 65535 * j \<Longrightarrow> b = c + 65535 * k \<Longrightarrow> a = c + 65535 * (j + k)" for a b c :: nat by simp
  from this [OF j k] show ?thesis by blast
qed

lemma NetCksum_eq:
  assumes "2 * n \<le> length p" and "n \<le> 65536"
  shows "NetCksum p n = Some (of_nat (ones_sum (cksum_nat p n)))"
proof -
  let ?x = "fold_carry (fold_carry (cksum_words p n))"
  have s: "cksum_nat p n < 2 ^ 32" using cksum_nat_bound [of p n] assms(2) by simp
  have u: "unat ?x = ones_sum (cksum_nat p n)" using assms(2) by (simp add: unat_fold_carry unat_cksum_words ones_sum_def)
  have m: "(0xffff :: u32) = mask 16" by (simp add: mask_eq_exp_minus_1)
  have "?x AND 0xffff = ?x" unfolding m take_bit_eq_mask [symmetric]
    unfolding word_unat_eq_iff unsigned_take_bit_eq u using ones_sum(1) [OF s] by (simp add: take_bit_nat_eq_self_iff)
  moreover have "?x = of_nat (unat ?x)" by simp
  ultimately show ?thesis using assms(1) unfolding u by (simp add: NetCksum_def)
qed

lemma length_ip_header [simp]: "length csum = 2 \<Longrightarrow> length (ip_header tot ident proto src dst csum) = 20"
  by (simp add: ip_header_def)

text \<open>The sum of the header depends on the two bytes of the checksum only by their value.\<close>

text \<open>The same sum along the list.\<close>

fun pair_sum :: "u8 list \<Rightarrow> nat" where
  "pair_sum (a # b # r) = unat a + 256 * unat b + pair_sum r"
| "pair_sum _ = 0"

lemma pair_sum_append: "even (length xs) \<Longrightarrow> pair_sum (xs @ ys) = pair_sum xs + pair_sum ys"
  by (induction xs rule: pair_sum.induct) auto

lemma pair_sum_bound: "pair_sum xs \<le> length xs div 2 * 65535"
proof (induction xs rule: pair_sum.induct)
  case (1 a b r)
  have "unat a < 256" "unat b < 256" by simp_all
  then have "unat a + 256 * unat b \<le> 65535" by linarith
  then show ?case using 1 by simp
qed simp_all

lemma cksum_nat_pairs: "2 * n \<le> length p \<Longrightarrow> cksum_nat p n = pair_sum (take (2 * n) p)"
proof (induction n)
  case (Suc k)
  have "take (2 * Suc k) p = take (2 * k) p @ [p ! (2 * k), p ! (2 * k + 1)]"
    using Suc.prems by (simp add: take_Suc_conv_app_nth)
  then show ?case using Suc by (simp add: pair_sum_append)
qed simp

lemma cksum_ip_header:
  "\<exists>s \<le> 9 * 65535. \<forall>csum r. length csum = 2 \<longrightarrow>
     cksum_nat (ip_header tot ident proto src dst csum @ r) 10 = s + pair_sum csum"
proof -
  let ?A = "[0x45, 0] @ put16 tot @ put16 ident @ put16 0x4000 @ [255, proto]"
  let ?B = "NetWriteIP src @ NetWriteIP dst"
  have "cksum_nat (ip_header tot ident proto src dst csum @ r) 10 = (pair_sum ?A + pair_sum ?B) + pair_sum csum"
    if c: "length csum = 2" for csum r
  proof -
    have "ip_header tot ident proto src dst csum = ?A @ csum @ ?B" by (simp add: ip_header_def)
    then have "take (2 * 10) (ip_header tot ident proto src dst csum @ r) = ?A @ csum @ ?B" using c by simp
    moreover have "pair_sum (?A @ csum @ ?B) = pair_sum ?A + (pair_sum csum + pair_sum ?B)"
      using c by (subst pair_sum_append, simp)+ simp
    ultimately show ?thesis using c by (subst cksum_nat_pairs) simp_all
  qed
  moreover have "pair_sum ?A + pair_sum ?B \<le> 9 * 65535" using pair_sum_bound [of ?A] pair_sum_bound [of ?B] by simp
  ultimately show ?thesis by blast
qed

lemma unat_numeral_u8: "unat (255 :: u8) = 255" by simp

lemma unat_not_u8: "unat (NOT w) = 255 - unat (w :: u8)"
proof -
  have n: "NOT w = - 1 - w" by (simp add: not_eq_complement)
  have "unat (- 1 - w) = unat (- 1 :: u8) - unat w" by (rule unat_sub) simp
  moreover have "(- 1 :: u8) = 255" by simp
  ultimately show ?thesis unfolding n by (metis unat_numeral_u8)
qed

lemma cksum_bytes_value:
  assumes "s < 65536"
  shows "length (cksum_bytes (of_nat s)) = 2" and "pair_sum (cksum_bytes (of_nat s)) = 65535 - s"
proof -
  let ?x = "of_nat s :: u32"
  show "length (cksum_bytes ?x) = 2" by (simp add: cksum_bytes_def)
  have lo: "(ucast (NOT ?x) :: u8) = NOT (ucast ?x)" and hi: "(ucast (drop_bit 8 (NOT ?x)) :: u8) = NOT (ucast (drop_bit 8 ?x))"
    by (rule bit_word_eqI, auto simp: bit_simps)+
  have "unat ?x = s" using assms by (simp add: unat_of_nat)
  then have u: "unat (ucast ?x :: u8) = s mod 256" "unat (ucast (drop_bit 8 ?x) :: u8) = s div 256 mod 256"
    unfolding unsigned_ucast_eq unsigned_take_bit_eq unat_drop_bit_eq by (simp_all add: take_bit_eq_mod drop_bit_eq_div)
  have s: "s = 256 * (s div 256) + s mod 256" "s div 256 \<le> 255" "s mod 256 \<le> 255" using assms by auto
  have "pair_sum (cksum_bytes ?x) = (255 - s mod 256) + 256 * (255 - s div 256)"
    using s(2) by (simp add: cksum_bytes_def lo hi unat_not_u8 u)
  then show "pair_sum (cksum_bytes ?x) = 65535 - s" using s by linarith
qed

text \<open>A header with the checksum put in passes the test of the receiver.\<close>

lemma header_cksum_ok:
  assumes "NetCksum (ip_header tot ident proto src dst [0, 0]) 10 = Some x"
  shows "NetCksumOk (ip_header tot ident proto src dst (cksum_bytes x) @ r) 10 = Some True"
proof -
  obtain s where s: "s \<le> 9 * 65535" "\<And>csum r. length csum = 2 \<Longrightarrow> cksum_nat (ip_header tot ident proto src dst csum @ r) 10 = s + pair_sum csum"
    using cksum_ip_header by blast
  have x: "x = of_nat (ones_sum s)" using assms s(2) [of "[0, 0]" "[]"] by (simp add: NetCksum_eq)
  have o: "ones_sum s < 65536" "ones_sum s mod 65535 = s mod 65535" using ones_sum [of s] s(1) by simp_all
  note c = cksum_bytes_value [OF o(1)]
  define t where "t = s + (65535 - ones_sum s)"
  obtain k where "s = ones_sum s + 65535 * k" using ones_sum_diff by blast
  then have "t = 65535 * (k + 1)" using o(1) unfolding t_def by simp
  then have "ones_sum t mod 65535 = 0" by (simp add: ones_sum(2))
  moreover have "ones_sum t < 65536" by (rule ones_sum) (use s(1) in \<open>simp add: t_def\<close>)
  ultimately have "ones_sum t = 0 \<or> ones_sum t = 65535" by (cases "ones_sum t < 65535") auto
  moreover have "NetCksum (ip_header tot ident proto src dst (cksum_bytes x) @ r) 10 = Some (of_nat (ones_sum t))"
    using s(2) [OF c(1), of r] c by (subst NetCksum_eq) (simp_all add: x t_def)
  ultimately show ?thesis by (auto simp: NetCksumOk_def)
qed

section \<open>Delivery\<close>

text \<open>The frame of a datagram, and what the receiver reads in it.\<close>

definition untagged :: "'a net_scheme \<Rightarrow> bool" where
  "untagged n \<longleftrightarrow> our_vlan (NetOurVLAN n) AND VLAN_IDMASK = VLAN_NONE"

definition wf_macs :: "'a net_scheme \<Rightarrow> bool" where
  "wf_macs n \<longleftrightarrow> length (NetOurEther n) = 6 \<and> length (server_ether n) = 6 \<and> length (ping_mac n) = 6"

lemma ether_untagged: "untagged n \<Longrightarrow> NetSetEther n addr prot = addr @ NetOurEther n @ put16 prot"
  by (simp add: NetSetEther_def untagged_def)

lemma link_untagged:
  assumes "untagged n" and "length dst = 6" and "length src = 6" and "1514 \<le> x" and "x \<noteq> PROT_VLAN" and "14 \<le> len"
  shows "link_layer n (dst @ src @ put16 x @ rest) len = Some (x, 14, len - 14)"
proof -
  have g: "get16 (dst @ src @ put16 x @ rest) 12 = x" using assms(2,3) by (simp add: get16_append)
  have "\<not> x < 1514" using assms(4) by simp
  then show ?thesis unfolding link_layer_def g Let_def using assms(1,5,6) by (simp add: untagged_def ETHER_HDR_SIZE_def)
qed

lemma NetSetIP_eq:
  obtains x where "NetCksum (ip_header (of_nat (28 + len)) (ucast (NetIPID n)) 17 (NetOurIP n) dest [0, 0]) 10 = Some x"
    and "NetSetIP n dest dport sport len =
      Some (ip_header (of_nat (28 + len)) (ucast (NetIPID n)) 17 (NetOurIP n) dest (cksum_bytes x) @
            put16 (ucast sport) @ put16 (ucast dport) @ put16 (of_nat (8 + len)) @ [0, 0], n\<lparr>NetIPID := NetIPID n + 1\<rparr>)"
proof -
  obtain x where "NetCksum (ip_header (of_nat (28 + len)) (ucast (NetIPID n)) 17 (NetOurIP n) dest [0, 0]) 10 = Some x"
    by (simp add: NetCksum_def)
  then show thesis by (intro that [of x]) (simp_all add: NetSetIP_def Let_def IP_HDR_SIZE_def IP_HDR_SIZE_NO_UDP_def)
qed

lemma GET_PUT_LE_at: "length xs = k \<Longrightarrow> NetReadIP (xs @ NetWriteIP w @ r) k = w"
  by (simp add: GET_LE_append GET_PUT_LE)

text \<open>A received IP header with its fields, in front of a UDP header.\<close>

lemma ip_input_udp:
  assumes hdr: "NetCksum (ip_header tot ident 17 src dst [0, 0]) 10 = Some x"
    and tot: "uint tot \<le> len" "28 \<le> uint tot"
    and us: "NetOurIP n = 0 \<or> dst = NetOurIP n \<or> dst = 0xffffffff"
    and pkt: "inpkt = eth @ ip_header tot ident 17 src dst (cksum_bytes x) @ put16 sport @ put16 dport @ put16 ulen @ [0, 0] @ rest"
    and "length eth = 14" and "len < 2 ^ 31"
  shows "ip_input handler n inpkt 14 len = handler (packetHandler n) rest (ucast dport) (ucast sport) (ucast ulen - 8) n"
proof -
  define h where "h = ip_header tot ident 17 src dst (cksum_bytes x)"
  have lc: "length (cksum_bytes x) = 2" by (simp add: cksum_bytes_def)
  have lh: "length h = 20" unfolding h_def using lc by simp
  have inpkt: "inpkt = eth @ h @ put16 sport @ put16 dport @ put16 ulen @ [0, 0] @ rest" using pkt by (simp add: h_def)
  let ?A = "[0x45, 0] @ put16 tot @ put16 ident @ put16 0x4000 @ [255, 17] @ cksum_bytes x @ NetWriteIP src"
  have h: "h ! 0 = 0x45" "get16 h 2 = tot" "get16 h 6 = 0x4000" "h ! 9 = 17" "NetReadIP h 16 = dst"
  proof -
    have "h = ?A @ NetWriteIP dst @ []" by (simp add: h_def ip_header_def)
    moreover have "length ?A = 16" by (simp add: lc)
    ultimately show "NetReadIP h 16 = dst" by (simp only: GET_LE_append GET_PUT_LE)
    show "h ! 0 = 0x45" "get16 h 2 = tot" "get16 h 6 = 0x4000" "h ! 9 = 17"
      by (simp_all add: h_def ip_header_def get16_Cons get16_append nth_append)
  qed
  have drop: "drop 14 inpkt = h @ put16 sport @ put16 dport @ put16 ulen @ [0, 0] @ rest" using inpkt \<open>length eth = 14\<close> by simp
  have f: "inpkt ! 14 = 0x45" "inpkt ! (14 + 9) = 17" "get16 inpkt (14 + 2) = tot" "get16 inpkt (14 + 6) = 0x4000"
    using h lh \<open>length eth = 14\<close> unfolding inpkt by (simp_all add: nth_append get16_append get16_append1)
  have "NetReadIP inpkt (14 + 16) = dst"
    using h(5) lh \<open>length eth = 14\<close> unfolding inpkt by (simp add: GET_UINT32_LE_def nth_append)
  moreover have "get16 inpkt (14 + 22) = dport" "get16 inpkt (14 + 20) = sport" "get16 inpkt (14 + 24) = ulen" "drop (14 + 28) inpkt = rest"
    using lh \<open>length eth = 14\<close> unfolding inpkt by (simp_all add: get16_append)
  moreover have "NetCksumOk (drop 14 inpkt) 10 = Some True"
    unfolding drop unfolding h_def by (rule header_cksum_ok) (rule hdr)
  moreover have "\<not> (of_int len :: u32) < of_nat IP_HDR_SIZE"
  proof -
    have "uint (of_int len :: u32) = len" using tot \<open>len < 2 ^ 31\<close> by (simp add: uint_word_of_int)
    then show ?thesis using tot by (simp add: word_less_def IP_HDR_SIZE_def)
  qed
  ultimately show ?thesis using f tot us unfolding ip_input_def
    by (auto simp: IP_HDR_SIZE_NO_UDP_def IP_HDR_SIZE_def)
qed

text \<open>A datagram sent to a known Ethernet address, as one frame.\<close>

definition udp_frame :: "'a net_scheme \<Rightarrow> u8 list \<Rightarrow> u32 \<Rightarrow> u32 \<Rightarrow> u32 \<Rightarrow> u8 list \<Rightarrow> u8 list \<Rightarrow> bool" where
  "udp_frame n mac dest dport sport data frame \<longleftrightarrow>
     (\<exists>ip n'. NetSetIP n dest dport sport (length data) = Some (ip, n') \<and> frame = NetSetEther n mac PROT_IP @ ip @ data)"

lemma NetSendUDP_known:
  assumes "dest \<noteq> 0" and "dest \<noteq> 0xffffffff" and "mac_of n p \<noteq> NetEtherNullAddr" and "0 < eth_devs n"
  obtains frame where "udp_frame n (mac_of n p) dest dport sport data frame"
    and "NetSendUDPPacket n now p dest dport sport data = Some (n\<lparr>NetIPID := NetIPID n + 1, sent := sent n @ [frame]\<rparr>, 0)"
proof -
  obtain x where x: "NetSetIP n dest dport sport (length data) =
      Some (ip_header (of_nat (28 + length data)) (ucast (NetIPID n)) 17 (NetOurIP n) dest (cksum_bytes x) @
            put16 (ucast sport) @ put16 (ucast dport) @ put16 (of_nat (8 + length data)) @ [0, 0], n\<lparr>NetIPID := NetIPID n + 1\<rparr>)"
    by (rule NetSetIP_eq [of "length data" n dest])
  then show thesis using assms by (intro that) (auto simp: udp_frame_def NetSendUDPPacket_def Let_def eth_send_def)
qed

lemma ucast_u16_of_nat: "n < 65536 \<Longrightarrow> (ucast (of_nat n :: u16) :: u32) = of_nat n"
  unfolding word_unat_eq_iff by (simp add: unsigned_ucast_eq unat_of_nat take_bit_nat_eq_self_iff)

lemma udp_frame_received:
  assumes f: "udp_frame a mac dest dport sport data frame" and len: "length data \<le> 65507"
    and eth: "untagged a" "length mac = 6" "length (NetOurEther a) = 6" and b: "untagged b"
    and us: "NetOurIP b = 0 \<or> dest = NetOurIP b \<or> dest = 0xffffffff" and ports: "dport < 65536" "sport < 65536"
  shows "NetReceive handler b (frame @ stale) (int (length frame)) =
    handler (packetHandler b) (data @ stale) dport sport (of_nat (length data)) b"
proof -
  obtain x where x: "NetCksum (ip_header (of_nat (28 + length data)) (ucast (NetIPID a)) 17 (NetOurIP a) dest [0, 0]) 10 = Some x"
    and ip: "NetSetIP a dest dport sport (length data) =
      Some (ip_header (of_nat (28 + length data)) (ucast (NetIPID a)) 17 (NetOurIP a) dest (cksum_bytes x) @
            put16 (ucast sport) @ put16 (ucast dport) @ put16 (of_nat (8 + length data)) @ [0, 0], a\<lparr>NetIPID := NetIPID a + 1\<rparr>)"
    by (rule NetSetIP_eq)
  let ?ip = "ip_header (of_nat (28 + length data)) (ucast (NetIPID a)) 17 (NetOurIP a) dest (cksum_bytes x)"
  let ?udp = "put16 (ucast sport) @ put16 (ucast dport) @ put16 (of_nat (8 + length data)) @ [0, 0]"
  have frame: "frame = (mac @ NetOurEther a @ put16 PROT_IP) @ ?ip @ ?udp @ data"
    using f ip by (simp add: udp_frame_def ether_untagged [OF eth(1)])
  have l: "length (cksum_bytes x) = 2" by (simp add: cksum_bytes_def)
  have flen: "int (length frame) = 42 + int (length data)" using eth l by (simp add: frame)
  have link: "link_layer b (frame @ stale) (int (length frame)) = Some (PROT_IP, 14, 28 + int (length data))"
    unfolding flen using link_untagged [OF b eth(2,3), of PROT_IP "42 + int (length data)" "?ip @ ?udp @ data @ stale"]
    by (simp add: frame PROT_IP_def PROT_VLAN_def)
  have tot: "uint (of_nat (28 + length data) :: u16) = 28 + int (length data)"
    using len by (simp only: uint_nat unat_of_nat) simp
  have dl: "(ucast (of_nat (8 + length data) :: u16) :: u32) - 8 = of_nat (length data)"
    using ucast_u16_of_nat [of "8 + length data"] len by simp
  have pt: "(ucast (ucast p :: u16) :: u32) = p" if "p < 65536" for p :: u32
  proof -
    have "unat p < 65536" using that by (simp add: word_less_nat_alt)
    then show ?thesis unfolding word_unat_eq_iff by (simp add: unsigned_ucast_eq unsigned_take_bit_eq take_bit_nat_eq_self_iff)
  qed
  have "ip_input handler b (frame @ stale) 14 (28 + int (length data)) =
      handler (packetHandler b) (data @ stale) (ucast (ucast dport :: u16)) (ucast (ucast sport :: u16)) (ucast (of_nat (8 + length data) :: u16) - 8) b"
    by (rule ip_input_udp [OF x, where eth = "mac @ NetOurEther a @ put16 PROT_IP"]) (use tot us eth len in \<open>simp_all add: frame\<close>)
  then show ?thesis unfolding NetReceive_def link dl pt [OF ports(1)] pt [OF ports(2)]
    by (simp add: PROT_IP_def PROT_ARP_def PROT_RARP_def)
qed

text \<open>
  C11: a datagram reaches the program on the other side unchanged: the frame that \<open>NetSendUDPPacket\<close>
  transmits, received by a host with the destination address, passes every check of \<open>NetReceive\<close>, the
  header checksum included, and the installed handler is called with exactly the bytes, the ports
  and the length the sender gave.
\<close>

theorem udp_delivery:
  assumes "wf_macs a" "untagged a" "0 < eth_devs a" and "server_ether a \<noteq> NetEtherNullAddr"
    and "dest \<noteq> 0" "dest \<noteq> 0xffffffff" and "untagged b" and "NetOurIP b = 0 \<or> NetOurIP b = dest"
    and "length data \<le> 65507" and "dport < 65536" "sport < 65536"
  shows "\<exists>a' frame. NetSendUDPPacket a now NetServerEther dest dport sport data = Some (a', 0) \<and> sent a' = sent a @ [frame] \<and>
    NetReceive handler b (frame @ stale) (int (length frame)) =
      handler (packetHandler b) (data @ stale) dport sport (of_nat (length data)) b"
proof -
  have "mac_of a NetServerEther \<noteq> NetEtherNullAddr" using assms(4) by (simp add: mac_of_def)
  from NetSendUDP_known [OF assms(5,6) this assms(3), of dport sport data now] obtain frame where
    f: "udp_frame a (mac_of a NetServerEther) dest dport sport data frame" and
    s: "NetSendUDPPacket a now NetServerEther dest dport sport data = Some (a\<lparr>NetIPID := NetIPID a + 1, sent := sent a @ [frame]\<rparr>, 0)" .
  have "NetReceive handler b (frame @ stale) (int (length frame)) =
      handler (packetHandler b) (data @ stale) dport sport (of_nat (length data)) b"
    by (rule udp_frame_received [OF f]) (use assms in \<open>auto simp: wf_macs_def mac_of_def\<close>)
  with s show ?thesis by auto
qed

definition net0 :: net where
  "net0 = \<lparr>NetOurIP = 0x0100A8C0, NetOurSubnetMask = 0x00FFFFFF, NetOurGatewayIP = 0x0101A8C0, NetServerIP = 0x0200A8C0, NetPingIP = 0,
     NetOurEther = [2, 0, 0, 0, 0, 1], server_ether = replicate 6 0, ping_mac = replicate 6 0,
     NetOurVLAN = 0xFFFF, NetOurNativeVLAN = 0xFFFF, NetIPID = 0, PingSeqNo = 0,
     NetArpWaitPacketIP = 0, NetArpWaitReplyIP = 0, NetArpWaitPacketMAC = None, NetArpWaitTxPacket = [], NetArpWaitTimerStart = 0, NetArpWaitTry = 0,
     NetState = NETLOOP_CONTINUE, NetBootFileXferSize = 0, timeHandler = None, timeStart = 0, timeDelta = 0, packetHandler = PingHandler,
     NetRestartWrap = False, NetRestarted = False, NetDevExists = True, eth_devs = 1, eth_current = 0, first_failed = None, sent = [], console = []\<rparr>"

lemma net0_ok: "wf_macs net0" "untagged net0" "0 < eth_devs net0" "NetOurIP net0 \<noteq> 0" "server_ether net0 = NetEtherNullAddr"
  by (simp_all add: wf_macs_def untagged_def net0_def our_vlan_def htons_def VLAN_NONE_def VLAN_IDMASK_def NetEtherNullAddr_def)

lemma mac2_ok: "[2, 0, 0, 0, 0, 2] \<noteq> NetEtherNullAddr" by (simp add: NetEtherNullAddr_def eval_nat_numeral)

text \<open>A host that keeps the datagrams it receives, with their ports.\<close>

record host = net + got :: "(u32 \<times> u32 \<times> u8 list) list"

definition listen :: "rxhand \<Rightarrow> u8 list \<Rightarrow> u32 \<Rightarrow> u32 \<Rightarrow> u32 \<Rightarrow> host \<Rightarrow> host option" where
  "listen f pkt dest src len h = Some (h\<lparr>got := got h @ [(dest, src, take (unat len) pkt)]\<rparr>)"

definition host0 :: host where "host0 = net.extend (net0\<lparr>NetOurIP := 0x0200A8C0\<rparr>) \<lparr>got = []\<rparr>"

theorem udp_delivery_witness:
  "\<exists>a' frame. NetSendUDPPacket (net0\<lparr>server_ether := [2, 0, 0, 0, 0, 2]\<rparr>) 0 NetServerEther 0x0200A8C0 69 1024 [0, 1, 97] = Some (a', 0) \<and>
    sent a' = sent (net0\<lparr>server_ether := [2, 0, 0, 0, 0, 2]\<rparr>) @ [frame] \<and>
    NetReceive listen host0 (frame @ [1, 2]) (int (length frame)) =
      listen (packetHandler host0) ([0, 1, 97] @ [1, 2]) 69 1024 (of_nat (length [0, 1, 97 :: u8])) host0"
  by (rule udp_delivery) (use net0_ok mac2_ok in \<open>simp_all add: wf_macs_def untagged_def host0_def net.defs\<close>)

text \<open>
  A divergence: the length in the UDP header is compared with nothing. A datagram whose header states
  length 0 is handed to the program with a length of almost 4 GiB.
\<close>

lemma udp_len_unchecked:
  assumes hdr: "NetCksum (ip_header 28 ident 17 src dst [0, 0]) 10 = Some x"
    and "NetOurIP n = 0 \<or> dst = NetOurIP n \<or> dst = 0xffffffff" and "length eth = 14"
  shows "ip_input handler n (eth @ ip_header 28 ident 17 src dst (cksum_bytes x) @ put16 sport @ put16 dport @ put16 0 @ [0, 0] @ rest) 14 28 =
    handler (packetHandler n) rest (ucast dport) (ucast sport) (- 8) n"
proof -
  note ip_input_udp [OF hdr, where ulen = 0 and sport = sport and dport = dport and rest = rest and eth = eth and len = 28 and handler = handler]
  then show ?thesis using assms by simp
qed

text \<open>
  A divergence: the echo reply sums the length the IP header states less 20 bytes. With a smaller length the
  difference wraps around, and the loop runs through 2 GiB words, behind the end of every buffer.
\<close>

lemma echo_length_wraps:
  assumes "len < 20" and "length inpkt \<le> 2 ^ 31" and "length (NetOurEther n) = 6"
  shows "echo_reply n inpkt ip len = None"
proof -
  have l: "unat len < 20" using assms(1) by (simp add: word_less_nat_alt)
  define w where "w = drop_bit 1 (ucast len - of_nat IP_HDR_SIZE_NO_UDP :: u32)"
  have "unat (ucast len - 20 :: u32) = 2 ^ 32 + unat len - 20"
  proof -
    have "unat (ucast len :: u32) = unat len" using l by (simp add: unsigned_ucast_eq take_bit_nat_eq_self_iff)
    then show ?thesis using l by (simp add: unat_sub_if_size word_size)
  qed
  moreover have "unat w = unat (ucast len - 20 :: u32) div 2"
    unfolding w_def unat_drop_bit_eq by (simp add: drop_bit_eq_div IP_HDR_SIZE_NO_UDP_def)
  ultimately have w: "2 ^ 32 - 22 \<le> 2 * unat w" by simp
  have buf: "length (buf_write b i xs) \<le> length b + length xs" for b xs :: "u8 list" and i
    by (simp add: buf_write_def)
  have ck: "NetCksum p (unat w) = None" if "length p < 2 ^ 32 - 22" for p using that w by (simp add: NetCksum_def)
  have step: "length (buf_write b i xs) \<le> k + j" if "length b \<le> k" "length xs \<le> j" for b xs :: "u8 list" and i k j
    using buf [of b i xs] that by linarith
  let ?b = "buf_write (buf_write (buf_write (buf_write (buf_write (buf_write inpkt 0 (take 6 (drop 6 inpkt))) 6 (NetOurEther n)) (ip + 10) [0, 0]) (ip + 6) [0, 0])
      (ip + 16) (take 4 (drop (ip + 12) (buf_write (buf_write (buf_write (buf_write inpkt 0 (take 6 (drop 6 inpkt))) 6 (NetOurEther n)) (ip + 10) [0, 0]) (ip + 6) [0, 0]))))
      (ip + 12) (NetWriteIP (NetOurIP n))"
  have b: "length ?b \<le> length inpkt + 6 + 6 + 2 + 2 + 4 + 4" by (intro step) (simp_all add: assms(3))
  have "NetCksum (drop (ip + 20) (buf_write ((buf_write ?b (ip + 10) (cksum_bytes x))[ip + 20 := 0]) (ip + 22) [0, 0])) (unat w) = None" for x
  proof (rule ck)
    have "length (cksum_bytes x) \<le> 2" by (simp add: cksum_bytes_def)
    then have "length ((buf_write ?b (ip + 10) (cksum_bytes x))[ip + 20 := 0]) \<le> length inpkt + 6 + 6 + 2 + 2 + 4 + 4 + 2"
      unfolding length_list_update by (rule step [OF b])
    then have "length (buf_write ((buf_write ?b (ip + 10) (cksum_bytes x))[ip + 20 := 0]) (ip + 22) [0, 0])
        \<le> length inpkt + 6 + 6 + 2 + 2 + 4 + 4 + 2 + 2"
      by (rule step) simp
    then show "length (drop (ip + 20) (buf_write ((buf_write ?b (ip + 10) (cksum_bytes x))[ip + 20 := 0]) (ip + 22) [0, 0])) < 2 ^ 32 - 22"
      using assms(2) by simp
  qed
  then show ?thesis unfolding echo_reply_def Let_def w_def [symmetric] by (simp split: option.split)
qed

text \<open>The reply another host sends to an ARP request of ours.\<close>

definition arp_reply_frame :: "'a net_scheme \<Rightarrow> u8 list \<Rightarrow> u32 \<Rightarrow> u8 list" where
  "arp_reply_frame n mac ip =
     NetOurEther n @ mac @ put16 PROT_ARP @ put16 1 @ put16 PROT_IP @ [6, 4] @ put16 2 @ mac @ NetWriteIP ip @
     NetOurEther n @ NetWriteIP (NetOurIP n)"

lemma set_mac_wait [simp]: "NetArpWaitTxPacket (set_mac p m n) = NetArpWaitTxPacket n"
  by (cases p) (simp_all add: set_mac_def)

lemma arp_reply_received:
  assumes n: "wf_macs n" "untagged n" "NetOurIP n \<noteq> 0" and mac: "length mac = 6" and ip: "ip = NetArpWaitReplyIP n"
    and wait: "NetArpWaitPacketIP n \<noteq> 0" "NetArpWaitPacketMAC n = Some p"
  shows "NetReceive handler n (arp_reply_frame n mac ip @ stale) (int (length (arp_reply_frame n mac ip))) =
    Some ((eth_send (mac @ drop 6 (NetArpWaitTxPacket n)) (set_mac p mac n))
       \<lparr>NetArpWaitPacketIP := 0, NetArpWaitTxPacket := [], NetArpWaitPacketMAC := None\<rparr>)"
proof -
  let ?o = "NetOurEther n"
  have o: "length ?o = 6" using n(1) by (simp add: wf_macs_def)
  have len: "int (length (arp_reply_frame n mac ip)) = 42" using o mac by (simp add: arp_reply_frame_def)
  let ?r = "put16 1 @ put16 PROT_IP @ [6, 4] @ put16 2 @ mac @ NetWriteIP ip @ ?o @ NetWriteIP (NetOurIP n) @ stale"
  define b where "b = arp_reply_frame n mac ip @ stale"
  have b: "b = (?o @ mac @ put16 PROT_ARP) @ ?r" by (simp add: b_def arp_reply_frame_def)
  have "link_layer n b 42 = Some (PROT_ARP, 14, 28)"
    using link_untagged [OF n(2) o mac, of PROT_ARP 42 ?r] by (simp add: b PROT_ARP_def PROT_VLAN_def)
  moreover have "get16 b 14 = 1" "get16 b (14 + 2) = PROT_IP" "b ! (14 + 4) = 6" "b ! (14 + 5) = 4" "get16 b (14 + 6) = 2"
    using o mac by (simp_all add: b get16_append get16_Cons nth_append)
  moreover have "take 6 (drop (14 + 8) b) = mac"
  proof -
    have "b = (?o @ mac @ put16 PROT_ARP @ put16 1 @ put16 PROT_IP @ [6, 4] @ put16 2) @ mac @ NetWriteIP ip @ ?o @ NetWriteIP (NetOurIP n) @ stale"
      by (simp add: b)
    then show ?thesis using o mac by (simp only: drop_append take_append) simp
  qed
  moreover have "NetReadIP b (14 + 14) = ip"
  proof -
    have "b = (?o @ mac @ put16 PROT_ARP @ put16 1 @ put16 PROT_IP @ [6, 4] @ put16 2 @ mac) @ NetWriteIP ip @ ?o @ NetWriteIP (NetOurIP n) @ stale"
      by (simp add: b)
    moreover have "length (?o @ mac @ put16 PROT_ARP @ put16 1 @ put16 PROT_IP @ [6, 4] @ put16 2 @ mac) = 14 + 14" using o mac by simp
    ultimately show ?thesis by (simp only: GET_LE_append GET_PUT_LE)
  qed
  moreover have "NetReadIP b (14 + 24) = NetOurIP n"
  proof -
    have "b = (?o @ mac @ put16 PROT_ARP @ put16 1 @ put16 PROT_IP @ [6, 4] @ put16 2 @ mac @ NetWriteIP ip @ ?o) @ NetWriteIP (NetOurIP n) @ stale"
      by (simp add: b)
    moreover have "length (?o @ mac @ put16 PROT_ARP @ put16 1 @ put16 PROT_IP @ [6, 4] @ put16 2 @ mac @ NetWriteIP ip @ ?o) = 14 + 24"
      using o mac by simp
    ultimately show ?thesis by (simp only: GET_LE_append GET_PUT_LE)
  qed
  ultimately show ?thesis unfolding len b_def [symmetric] NetReceive_def
    using n(3) wait ip by (simp add: arp_input_def ARP_HDR_SIZE_def Let_def)
qed

text \<open>The bytes of an address request.\<close>

lemma arp_request_sent:
  assumes "untagged n" and "0 < eth_devs n"
  shows "sent (ArpRequest n) = sent n @ [replicate 6 0xff @ NetOurEther n @ [8, 6, 0, 1, 8, 0, 6, 4, 0, 1] @ NetOurEther n @
      NetWriteIP (NetOurIP n) @ replicate 6 0 @ NetWriteIP (NetArpWaitReplyIP (ArpRequest n))]"
proof -
  have "put16 PROT_ARP = [8, 6]" "put16 1 = [0, 1]" "put16 PROT_IP = [8, 0]" by code_simp+
  then show ?thesis using assms ether_untagged [OF assms(1), of NetBcastAddr PROT_ARP]
    by (simp add: ArpRequest_def Let_def eth_send_def say_def NetBcastAddr_def)
qed

text \<open>
  C12: a datagram for an unknown Ethernet address is not lost: \<open>NetSendUDPPacket\<close> broadcasts an ARP request for
  the next hop, which is the destination itself when it is in our subnet or no gateway is set, and the gateway
  otherwise, and keeps the datagram; when the reply of that hop comes, its address is stored, and the frame
  transmitted is exactly the one that would have been sent at once, had the address been known.
\<close>

theorem arp_resolves:
  assumes n: "wf_macs n" "untagged n" "0 < eth_devs n" "server_ether n = NetEtherNullAddr" "NetOurIP n \<noteq> 0"
    and dest: "dest \<noteq> 0" "dest \<noteq> 0xffffffff" and mac: "length mac = 6"
    and hop: "hop = (if dest AND NetOurSubnetMask n = NetOurIP n AND NetOurSubnetMask n \<or> NetOurGatewayIP n = 0
                     then dest else NetOurGatewayIP n)"
  shows "\<exists>n1 req. NetSendUDPPacket n now NetServerEther dest dport sport data = Some (n1, 1) \<and> sent n1 = sent n @ [req] \<and>
    req = replicate 6 0xff @ NetOurEther n @ [8, 6, 0, 1, 8, 0, 6, 4, 0, 1] @ NetOurEther n @ NetWriteIP (NetOurIP n) @
          replicate 6 0 @ NetWriteIP hop \<and>
    (\<exists>n2 frame. NetReceive handler n1 (arp_reply_frame n mac hop @ stale) (int (length (arp_reply_frame n mac hop))) = Some n2 \<and>
        server_ether n2 = mac \<and> NetArpWaitPacketIP n2 = 0 \<and> sent n2 = sent n1 @ [frame] \<and>
        udp_frame n mac dest dport sport data frame)"
proof -
  obtain x where ip: "NetSetIP n dest dport sport (length data) =
      Some (ip_header (of_nat (28 + length data)) (ucast (NetIPID n)) 17 (NetOurIP n) dest (cksum_bytes x) @
            put16 (ucast sport) @ put16 (ucast dport) @ put16 (of_nat (8 + length data)) @ [0, 0], n\<lparr>NetIPID := NetIPID n + 1\<rparr>)"
    by (rule NetSetIP_eq [of "length data" n dest])
  let ?ip = "ip_header (of_nat (28 + length data)) (ucast (NetIPID n)) 17 (NetOurIP n) dest (cksum_bytes x) @
            put16 (ucast sport) @ put16 (ucast dport) @ put16 (of_nat (8 + length data)) @ [0, 0]"
  define w where "w = n\<lparr>NetIPID := NetIPID n + 1, NetArpWaitPacketIP := dest, NetArpWaitPacketMAC := Some NetServerEther,
     NetArpWaitTxPacket := NetSetEther n NetEtherNullAddr PROT_IP @ ?ip @ data, NetArpWaitTry := 1, NetArpWaitTimerStart := now\<rparr>"
  have send: "NetSendUDPPacket n now NetServerEther dest dport sport data = Some (ArpRequest w, 1)"
    using dest n(4) by (simp add: NetSendUDPPacket_def Let_def ip mac_of_def w_def)
  have o: "length (NetOurEther n) = 6" using n(1) by (simp add: wf_macs_def)
  have w: "untagged w" "0 < eth_devs w" "NetOurEther w = NetOurEther n" using n(2,3) by (simp_all add: w_def untagged_def)
  have "NetArpWaitReplyIP (ArpRequest w) = hop"
    unfolding hop by (auto simp: ArpRequest_def Let_def eth_send_def say_def w_def)
  note arp = arp_request_sent [OF w(1,2)] this
  have req: "sent (ArpRequest w) = sent n @ [replicate 6 0xff @ NetOurEther n @ [8, 6, 0, 1, 8, 0, 6, 4, 0, 1] @ NetOurEther n @
      NetWriteIP (NetOurIP n) @ replicate 6 0 @ NetWriteIP hop]"
    unfolding arp by (simp add: w_def)
  define n1 where "n1 = ArpRequest w"
  have n1: "NetOurEther n1 = NetOurEther n" "NetOurIP n1 = NetOurIP n" "untagged n1" "wf_macs n1" "NetArpWaitPacketIP n1 = dest"
    "NetArpWaitPacketMAC n1 = Some NetServerEther" "eth_devs n1 = eth_devs n"
    "NetArpWaitTxPacket n1 = NetSetEther n NetEtherNullAddr PROT_IP @ ?ip @ data"
    using n(1,2) by (simp_all add: n1_def ArpRequest_def Let_def eth_send_def say_def w_def untagged_def wf_macs_def)
  have frame: "arp_reply_frame n1 mac i = arp_reply_frame n mac i" for i by (simp add: arp_reply_frame_def n1)
  note r = arp_reply_received [OF n1(4,3) _ mac refl _ n1(6), of handler stale, unfolded frame n1(2,5), OF n(5) dest(1)]
  let ?f = "mac @ drop 6 (NetArpWaitTxPacket n1)"
  have "?f = NetSetEther n mac PROT_IP @ ?ip @ data"
    unfolding n1 ether_untagged [OF n(2)] by (simp add: NetEtherNullAddr_def)
  then have "udp_frame n mac dest dport sport data ?f" using ip by (simp add: udp_frame_def)
  then show ?thesis using send req r n(3) n1(7) arp(2) unfolding n1_def [symmetric]
    by (auto simp: eth_send_def set_mac_def)
qed

text \<open>The server 10.2.0.5 is behind the gateway 192.168.1.1 of the host 192.168.0.2.\<close>

theorem arp_resolves_witness:
  "\<exists>n1 req. NetSendUDPPacket host0 0 NetServerEther 0x0500020A 69 1024 [0, 1, 97] = Some (n1, 1) \<and> sent n1 = sent host0 @ [req] \<and>
    req = replicate 6 0xff @ NetOurEther host0 @ [8, 6, 0, 1, 8, 0, 6, 4, 0, 1] @ NetOurEther host0 @ NetWriteIP (NetOurIP host0) @
          replicate 6 0 @ NetWriteIP 0x0101A8C0 \<and>
    (\<exists>n2 frame. NetReceive listen n1 (arp_reply_frame host0 [2, 0, 0, 0, 0, 3] 0x0101A8C0 @ replicate 18 0)
          (int (length (arp_reply_frame host0 [2, 0, 0, 0, 0, 3] 0x0101A8C0))) = Some n2 \<and>
        server_ether n2 = [2, 0, 0, 0, 0, 3] \<and> NetArpWaitPacketIP n2 = 0 \<and> sent n2 = sent n1 @ [frame] \<and>
        udp_frame host0 [2, 0, 0, 0, 0, 3] 0x0500020A 69 1024 [0, 1, 97] frame)"
proof (rule arp_resolves)
  show "0x0101A8C0 = (if 0x0500020A AND NetOurSubnetMask host0 = NetOurIP host0 AND NetOurSubnetMask host0 \<or> NetOurGatewayIP host0 = 0
      then 0x0500020A else NetOurGatewayIP host0)"
    by (simp add: host0_def net0_def net.defs)
qed (use net0_ok in \<open>simp_all add: wf_macs_def untagged_def host0_def net.defs\<close>)

section \<open>Addresses as text and back\<close>

lemma digit_count: "2 \<le> base \<Longrightarrow> base \<le> 16 \<Longrightarrow> unat num < unat base ^ k \<Longrightarrow> length (digit_loop digits num base) \<le> k"
proof (induction k arbitrary: num)
  case 0
  then have "num = 0" by (simp add: unat_eq_zero)
  then show ?case by simp
next
  case (Suc k)
  show ?case
  proof (cases "num = 0")
    case False
    obtain q r where qr: "do_div num base = (q, r)" by (cases "do_div num base")
    have b: "base \<noteq> 0" "0 < unat base" using Suc.prems(1) by (auto simp: unat_gt_0)
    have "unat num = unat q * unat base + unat r" using do_div_spec [OF b(1), of num] qr by simp
    then have "unat q * unat base \<le> unat num" by linarith
    also have "\<dots> < unat base ^ k * unat base" using Suc.prems(3) by (simp only: power_Suc mult.commute)
    finally have "unat q < unat base ^ k" using b(2) by simp
    from Suc.IH [OF Suc.prems(1,2) this] show ?thesis by (simp add: digit_loop_step(1) [OF False Suc.prems(1,2) qr])
  qed simp
qed

lemma length_dec:
  assumes "v \<le> 255"
  shows "length (dec v) \<le> 3"
proof -
  have "unat (ucast v :: u64) < unat (10 :: u32) ^ 3" using assms by (simp add: word_le_nat_alt)
  from digit_count [OF _ _ this] show ?thesis by (simp add: number_digits_alt)
qed

definition octet :: "u32 \<Rightarrow> nat \<Rightarrow> u32" where "octet x i = drop_bit (24 - 8 * i) x AND 0xff"

lemma octet_le: "octet x i \<le> 255" unfolding octet_def by (rule word_and_le1)

lemma octet_cases:
  assumes "n < LENGTH(32)"
  obtains "n < 8" | k where "n = 8 + k" "k < 8" | k where "n = 16 + k" "k < 8" | k where "n = 24 + k" "k < 8"
proof -
  consider "n < 8" | "8 \<le> n" "n < 16" | "16 \<le> n" "n < 24" | "24 \<le> n" "n < 32" using assms by force
  then show thesis
  proof cases
    case 2 then show thesis by (intro that(2) [of "n - 8"]) auto
  next
    case 3 then show thesis by (intro that(3) [of "n - 16"]) auto
  next
    case 4 then show thesis by (intro that(4) [of "n - 24"]) auto
  qed (rule that(1))
qed

lemma octets_join: "push_bit 8 (push_bit 8 (push_bit 8 (octet x 0) OR octet x 1) OR octet x 2) OR octet x 3 = (x :: u32)"
proof -
  have m: "(255 :: u32) = mask 8" by (simp add: mask_eq_exp_minus_1)
  show ?thesis unfolding octet_def m
  proof (rule bit_word_eqI)
    fix n assume "n < LENGTH(32)"
    then consider "n < 8" | k where "n = 8 + k" "k < 8" | k where "n = 16 + k" "k < 8" | k where "n = 24 + k" "k < 8"
      by (rule octet_cases)
    then show "bit (push_bit 8 (push_bit 8 (push_bit 8 (drop_bit (24 - 8 * 0) x AND mask 8) OR drop_bit (24 - 8 * 1) x AND mask 8) OR
        drop_bit (24 - 8 * 2) x AND mask 8) OR drop_bit (24 - 8 * 3) x AND mask 8) n = bit x n"
      by cases (simp_all add: bit_simps)
  qed
qed

lemma htonl_htonl [simp]: "htonl (htonl x) = x"
proof -
  have m: "(255 :: u32) = mask 8" "(0xFF00 :: u32) = push_bit 8 (mask 8)" "(0xFF0000 :: u32) = push_bit 16 (mask 8)"
    by (simp_all add: mask_eq_exp_minus_1 push_bit_eq_mult)
  have z: "\<not> bit x (32 + k)" for k by (rule impossible_bit) simp
  show ?thesis
  proof (rule bit_word_eqI)
    fix n assume "n < LENGTH(32)"
    then consider "n < 8" | k where "n = 8 + k" "k < 8" | k where "n = 16 + k" "k < 8" | k where "n = 24 + k" "k < 8"
      by (rule octet_cases)
    then show "bit (htonl (htonl x)) n = bit x n"
      unfolding htonl_def m by cases (simp_all add: bit_simps z)
  qed
qed

lemma ip_to_string_spec:
  "ip_to_string x = Some (dec (octet (htonl x) 0) @ ''.'' @ dec (octet (htonl x) 1) @ ''.'' @ dec (octet (htonl x) 2) @ ''.'' @ dec (octet (htonl x) 3))"
proof -
  have d: "vsprintf_loop (CHR ''%'' # CHR ''d'' # fmt) (A32 (octet y i) # args) len =
      map_option (\<lambda>(s', st'). (dec (octet y i) @ s', st')) (vsprintf_loop fmt args (len + length (dec (octet y i))))" for y i fmt args len
  proof -
    have "octet y i < 2 ^ 31" using octet_le [of y i] by (rule le_less_trans) simp
    then show ?thesis by (simp add: directive_d NUL_def)
  qed
  have "ip_to_string x = map_option fst (vsprintf ''%d.%d.%d.%d''
      [A32 (octet (htonl x) 0), A32 (octet (htonl x) 1), A32 (octet (htonl x) 2), A32 (octet (htonl x) 3)])"
    by (simp add: ip_to_string_def octet_def Let_def)
  also have "\<dots> = Some (dec (octet (htonl x) 0) @ ''.'' @ dec (octet (htonl x) 1) @ ''.'' @ dec (octet (htonl x) 2) @ ''.'' @ dec (octet (htonl x) 3))"
  proof -
    have s: "vsprintf_loop (CHR ''.'' # fmt) args len = map_option (\<lambda>(s', st'). (CHR ''.'' # s', st')) (vsprintf_loop fmt args (len + 1))"
      for fmt args len by (simp add: NUL_def)
    show ?thesis unfolding vsprintf_def d s vsprintf_loop.simps(1) by simp
  qed
  finally show ?thesis .
qed

lemma string_to_ip_step:
  assumes "v \<le> 255" and "\<not> isxdigit (deref s)" and "deref s \<noteq> CHR ''x''"
  shows "string_to_ip_loop (Suc k) addr (dec v @ s) =
    string_to_ip_loop k (push_bit 8 addr OR v) (if deref s \<noteq> NUL then tl s else s)"
proof -
  have "unat v < 256" using assms(1) by (simp add: word_le_nat_alt)
  then have "v AND mask 8 = v"
    unfolding take_bit_eq_mask [symmetric] word_unat_eq_iff by (simp only: unsigned_take_bit_eq take_bit_nat_eq_self_iff) simp
  moreover have "simple_strtoul (dec v @ s) 10 = (v, s)"
    using strtoul_digits [where z = 0, OF _ _ assms(2,3), of 10 v SIGN] by simp
  ultimately show ?thesis by (simp add: mask_eq_exp_minus_1)
qed

text \<open>
  addresses survive being printed and read: for every address \<open>string_to_ip\<close> reads back what
  \<open>ip_to_string\<close> writes, whatever follows it that is no hexadecimal digit, and the text with its NUL fits
  the 16 characters of the callers' buffers.
\<close>

lemma string_to_ip_roundtrip:
  assumes "\<not> isxdigit (deref r)" and "deref r \<noteq> CHR ''x''"
  shows "\<exists>s. ip_to_string x = Some s \<and> length s < 16 \<and> string_to_ip (Some (s @ r)) = x"
proof -
  let ?o = "octet (htonl x)"
  let ?s = "dec (?o 0) @ ''.'' @ dec (?o 1) @ ''.'' @ dec (?o 2) @ ''.'' @ dec (?o 3)"
  have four: "4 = Suc (Suc (Suc (Suc 0)))" by simp
  have dot: "\<not> isxdigit CHR ''.''" by (simp add: isxdigit_iff isdigit_iff)
  have st: "string_to_ip_loop (Suc k) a (dec (?o i) @ ''.'' @ u) = string_to_ip_loop k (push_bit 8 a OR ?o i) u" for k a i u
    using string_to_ip_step [OF octet_le, of "''.'' @ u"] dot by (simp add: NUL_def)
  have "string_to_ip_loop (Suc 0) a (dec (?o 3) @ r) = push_bit 8 a OR ?o 3" for a
    using string_to_ip_step [OF octet_le assms, of 0] by (simp only: string_to_ip_loop.simps(1))
  then have "string_to_ip_loop (Suc (Suc (Suc (Suc 0)))) 0 (?s @ r) = htonl x"
    unfolding append_assoc st using octets_join [of "htonl x"] by (simp only: push_bit_of_0 or.left_neutral)
  then have "string_to_ip (Some (?s @ r)) = x"
    by (simp only: string_to_ip_def option.case four htonl_htonl)
  moreover have "length ?s < 16"
    using length_dec [OF octet_le, of "htonl x" 0] length_dec [OF octet_le, of "htonl x" 1]
      length_dec [OF octet_le, of "htonl x" 2] length_dec [OF octet_le, of "htonl x" 3] by simp
  ultimately show ?thesis using ip_to_string_spec by blast
qed

theorem string_to_ip_roundtrip_witness:
  "\<exists>s. ip_to_string 0x0200A8C0 = Some s \<and> length s < 16 \<and> string_to_ip (Some (s @ '':8080'')) = 0x0200A8C0"
  by (rule string_to_ip_roundtrip) (simp_all add: isxdigit_iff isdigit_iff)

end
