(* ===== verification/Eth.thy ===== *)
theory Eth
  imports Net
begin

text \<open>
  The Ethernet devices of \<^verbatim>\<open>net/eth.c\<close>: the ring of registered devices, their addresses, and which of them is
  the current one. A device is a \<open>struct eth_device\<close> in memory, the ring goes through its pointer \<open>next\<close>; pointers
  are natural numbers and NULL is \<open>None\<close>. The packet layer (theory Net) knows of the ring only the number of devices
  and the index of the current one; that this is enough is a simulation proved here.

  What a driver does in \<open>init\<close> is a parameter, and so is which devices the board and the processor register. Loops along the ring
  need not end when it is damaged, and are \<open>None\<close> then.
\<close>

section \<open>Devices\<close>

datatype eth_state_t = ETH_STATE_INIT | ETH_STATE_PASSIVE | ETH_STATE_ACTIVE

record eth_device =
  dev_name :: string
  dev_enetaddr :: "u8 list"
  dev_state :: eth_state_t
  dev_next :: nat

text \<open>
  \<open>dev_list\<close> is \<open>eth_devices\<close>, \<open>dev_current\<close> is \<open>eth_current\<close>, \<open>dev_failed\<close> and \<open>dev_wrap\<close> are \<open>first_failed\<close> and
  \<open>NetRestartWrap\<close>; \<open>vars\<close> is the environment.
\<close>

record eth =
  dev :: "nat \<Rightarrow> eth_device"
  dev_list :: "nat option"
  dev_current :: "nat option"
  dev_failed :: "nat option"
  dev_wrap :: bool
  vars :: "string \<Rightarrow> string option"
  eth_out :: "con_msg list"

definition upd :: "nat \<Rightarrow> (eth_device \<Rightarrow> eth_device) \<Rightarrow> eth \<Rightarrow> eth" where "upd d f s = s\<lparr>dev := (dev s)(d := f (dev s d))\<rparr>"

text \<open>\<open>setenv\<close> with a value; an empty one deletes.\<close>

definition put_var :: "string \<Rightarrow> string \<Rightarrow> eth \<Rightarrow> eth" where
  "put_var k v s = s\<lparr>vars := (vars s)(k := if v = [] then None else Some v)\<rparr>"

definition set_ethact :: "nat \<Rightarrow> eth \<Rightarrow> eth" where
  "set_ethact d s =
     (case vars s ''ethact'' of
        Some act \<Rightarrow> if strcmp act (dev_name (dev s d)) \<noteq> 0 then put_var ''ethact'' (dev_name (dev s d)) s else s
      | None \<Rightarrow> put_var ''ethact'' (dev_name (dev s d)) s)"

section \<open>The ring\<close>

partial_function (option) last_dev :: "(nat \<Rightarrow> eth_device) \<Rightarrow> nat \<Rightarrow> nat \<Rightarrow> nat option" where
  "last_dev m h d = (if dev_next (m d) = h then Some d else last_dev m h (dev_next (m d)))"

definition eth_register :: "nat \<Rightarrow> eth \<Rightarrow> eth option" where
  "eth_register d s =
     (case dev_list s of
        None \<Rightarrow> Some (upd d (\<lambda>e. e\<lparr>dev_state := ETH_STATE_INIT, dev_next := d\<rparr>)
                       (set_ethact d (s\<lparr>dev_current := Some d, dev_list := Some d\<rparr>)))
      | Some h \<Rightarrow>
          map_option (\<lambda>e. upd d (\<lambda>e. e\<lparr>dev_state := ETH_STATE_INIT, dev_next := h\<rparr>) (upd e (\<lambda>e. e\<lparr>dev_next := d\<rparr>) s))
            (last_dev (dev s) h h))"

partial_function (option) name_loop :: "(nat \<Rightarrow> eth_device) \<Rightarrow> string \<Rightarrow> nat \<Rightarrow> nat \<Rightarrow> nat option option" where
  "name_loop m devname h d =
     (if strcmp devname (dev_name (m d)) = 0 then Some (Some d)
      else if dev_next (m d) = h then Some None else name_loop m devname h (dev_next (m d)))"

definition eth_get_dev_by_name :: "string \<Rightarrow> eth \<Rightarrow> nat option option" where
  "eth_get_dev_by_name devname s = (case dev_list s of None \<Rightarrow> Some None | Some h \<Rightarrow> name_loop (dev s) devname h h)"

partial_function (option) index_loop :: "(nat \<Rightarrow> eth_device) \<Rightarrow> nat option \<Rightarrow> int \<Rightarrow> nat \<Rightarrow> int option" where
  "index_loop m cur i d = (if Some d = cur then Some i else index_loop m cur (i + 1) (dev_next (m d)))"

definition eth_get_dev_index :: "eth \<Rightarrow> int option" where
  "eth_get_dev_index s = (case dev_list s of None \<Rightarrow> Some (- 1) | Some h \<Rightarrow> index_loop (dev s) (dev_current s) 0 h)"

fun step_dev :: "(nat \<Rightarrow> eth_device) \<Rightarrow> nat \<Rightarrow> nat \<Rightarrow> nat \<Rightarrow> nat option" where
  "step_dev m h d 0 = Some d"
| "step_dev m h d (Suc i) = (if dev_next (m d) = h then None else step_dev m h (dev_next (m d)) i)"

definition set_enetaddr :: "int \<Rightarrow> string option \<Rightarrow> eth \<Rightarrow> eth" where
  "set_enetaddr num addr s =
     (case dev_list s of None \<Rightarrow> s
      | Some h \<Rightarrow>
          (let enetaddr = map ucast (addr_parts 6 16 addr)
           in case step_dev (dev s) h h (nat num) of None \<Rightarrow> s | Some d \<Rightarrow> upd d (\<lambda>e. e\<lparr>dev_enetaddr := enetaddr\<rparr>) s))"

section \<open>The current device\<close>

definition try_another :: "bool \<Rightarrow> eth \<Rightarrow> eth" where
  "try_another first_restart s =
     (if (case vars s ''ethrotate'' of Some v \<Rightarrow> strcmp v ''no'' = 0 | None \<Rightarrow> False) then s
      else (case dev_current s of None \<Rightarrow> s
            | Some c \<Rightarrow>
                (let s = (if first_restart then s\<lparr>dev_failed := Some c\<rparr> else s);
                     c = dev_next (dev s c);
                     s = set_ethact c (s\<lparr>dev_current := Some c\<rparr>)
                 in if dev_failed s = Some c then s\<lparr>dev_wrap := True\<rparr> else s)))"

partial_function (option) init_loop :: "(nat \<Rightarrow> int) \<Rightarrow> nat option \<Rightarrow> eth \<Rightarrow> (int \<times> eth) option" where
  "init_loop init old s =
     (case dev_current s of None \<Rightarrow> None
      | Some c \<Rightarrow>
          if init c \<ge> 0 then Some (0, upd c (\<lambda>e. e\<lparr>dev_state := ETH_STATE_ACTIVE\<rparr>) s)
          else if dev_current (try_another False s) = old then Some (- 1, try_another False s)
          else init_loop init old (try_another False s))"

definition eth_init :: "(nat \<Rightarrow> int) \<Rightarrow> eth \<Rightarrow> (int \<times> eth) option" where
  "eth_init init s =
     (if dev_current s = None then Some (- 1, s\<lparr>eth_out := eth_out s @ [Puts (''No ethernet found.'' @ nl)]\<rparr>)
      else init_loop init (dev_current s) s)"

definition eth_halt :: "eth \<Rightarrow> eth" where
  "eth_halt s = (case dev_current s of None \<Rightarrow> s | Some c \<Rightarrow> upd c (\<lambda>e. e\<lparr>dev_state := ETH_STATE_PASSIVE\<rparr>) s)"

text \<open>The loop of \<open>eth_set_current\<close>: whether the name was found, and the device it stands at.\<close>

partial_function (option) act_loop :: "(nat \<Rightarrow> eth_device) \<Rightarrow> string \<Rightarrow> nat \<Rightarrow> nat \<Rightarrow> (bool \<times> nat) option" where
  "act_loop m act old c =
     (if strcmp (dev_name (m c)) act = 0 then Some (True, c)
      else if dev_next (m c) = old then Some (False, old) else act_loop m act old (dev_next (m c)))"

definition eth_set_current :: "eth \<Rightarrow> eth option" where
  "eth_set_current s =
     (case dev_current s of None \<Rightarrow> Some s
      | Some c \<Rightarrow>
          (case vars s ''ethact'' of
             None \<Rightarrow> Some (put_var ''ethact'' (dev_name (dev s c)) s)
           | Some act \<Rightarrow>
               map_option (\<lambda>(found, c). if found then s\<lparr>dev_current := Some c\<rparr>
                   else put_var ''ethact'' (dev_name (dev s c)) (s\<lparr>dev_current := Some c\<rparr>))
                 (act_loop (dev s) act c c)))"

definition eth_get_name :: "eth \<Rightarrow> string" where
  "eth_get_name s = (case dev_current s of Some c \<Rightarrow> dev_name (dev s c) | None \<Rightarrow> ''unknown'')"

section \<open>Initialisation\<close>

definition print_mac :: "string \<Rightarrow> u8 list \<Rightarrow> con_msg" where
  "print_mac title mac = Printf (title @ ''%02X:%02X:%02X:%02X:%02X:%02X'' @ nl) (map (\<lambda>b. A32 (ucast b)) mac)"

text \<open>One device of the loop of \<open>eth_initialize\<close>.\<close>

definition setup_dev :: "nat \<Rightarrow> nat \<Rightarrow> eth \<Rightarrow> eth option" where
  "setup_dev eth_number d s =
     (let e = dev s d;
          prime = (case vars s ''ethprime'' of Some p \<Rightarrow> strcmp (dev_name e) p = 0 | None \<Rightarrow> False)
      in case vsprintf (if eth_number \<noteq> 0 then ''eth%daddr'' else ''ethaddr'') [A32 (of_nat eth_number)] of None \<Rightarrow> None
         | Some (enetvar, _) \<Rightarrow>
             (let env_enetaddr = map ucast (addr_parts 6 16 (vars s enetvar));
                  ms = (if eth_number \<noteq> 0 then [Puts '', ''] else []) @ [Printf ''%s'' [AStr (Some (dev_name e))]] @
                       (if prime then [Puts '' [PRIME]''] else []);
                  warn = [Printf (nl @ ''Warning: %s MAC addresses don'' @ [CHR 0x27] @ ''t match:'' @ nl) [AStr (Some (dev_name e))],
                          print_mac ''Address in SROM is         '' (dev_enetaddr e), print_mac ''Address in environment is  '' env_enetaddr];
                  s = (if prime then s\<lparr>dev_current := Some d\<rparr> else s)
              in Some (if env_enetaddr = replicate 6 0 then s\<lparr>eth_out := eth_out s @ ms\<rparr>
                   else upd d (\<lambda>e. e\<lparr>dev_enetaddr := env_enetaddr\<rparr>)
                     (s\<lparr>eth_out := eth_out s @ ms @
                        (if dev_enetaddr e \<noteq> replicate 6 0 \<and> dev_enetaddr e \<noteq> env_enetaddr then warn else [])\<rparr>))))"

partial_function (option) setup_loop :: "nat \<Rightarrow> nat \<Rightarrow> nat \<Rightarrow> eth \<Rightarrow> (nat \<times> eth) option" where
  "setup_loop h eth_number d s =
     (case setup_dev eth_number d s of None \<Rightarrow> None
      | Some s \<Rightarrow> if dev_next (dev s d) = h then Some (eth_number + 1, s)
                  else setup_loop h (eth_number + 1) (dev_next (dev s d)) s)"

text \<open>\<open>board_init\<close> and \<open>cpu_init\<close> register the devices.\<close>

definition eth_initialize :: "(eth \<Rightarrow> (int \<times> eth) option) \<Rightarrow> (eth \<Rightarrow> (int \<times> eth) option) \<Rightarrow> eth \<Rightarrow> (nat \<times> eth) option" where
  "eth_initialize board_init cpu_init s =
     (case board_init (s\<lparr>dev_list := None, dev_current := None\<rparr>) of None \<Rightarrow> None
      | Some (rc, s) \<Rightarrow>
          (case (if rc < 0 then map_option snd (cpu_init s) else Some s) of None \<Rightarrow> None
           | Some s \<Rightarrow>
               (case dev_list s of
                  None \<Rightarrow> Some (0, s\<lparr>eth_out := eth_out s @ [Puts (''No ethernet found.'' @ nl)]\<rparr>)
                | Some h \<Rightarrow>
                    map_option (\<lambda>(n, s).
                        (n, (case dev_current s of Some c \<Rightarrow> set_ethact c s | None \<Rightarrow> s\<lparr>vars := (vars s)(''ethact'' := None)\<rparr>)
                              \<lparr>eth_out := eth_out s @ [Puts nl]\<rparr>))
                      (setup_loop h 0 h s))))"

section \<open>Walks along the ring\<close>

text \<open>\<open>along f x ds y\<close>: from \<open>x\<close> the pointers lead over \<open>ds\<close> to \<open>y\<close>.\<close>

fun along :: "(nat \<Rightarrow> nat) \<Rightarrow> nat \<Rightarrow> nat list \<Rightarrow> nat \<Rightarrow> bool" where
  "along f x [] y \<longleftrightarrow> x = y"
| "along f x (d # ds) y \<longleftrightarrow> x = d \<and> along f (f d) ds y"

lemma along_append: "along f x (as @ bs) y \<longleftrightarrow> (\<exists>z. along f x as z \<and> along f z bs y)"
  by (induction as arbitrary: x) auto

lemma along_cong: "(\<And>d. d \<in> set ds \<Longrightarrow> f d = g d) \<Longrightarrow> along f x ds y \<longleftrightarrow> along g x ds y"
  by (induction ds arbitrary: x) auto

lemma along_nth: "along f x ds y \<Longrightarrow> i < length ds \<Longrightarrow> f (ds ! i) = (if Suc i < length ds then ds ! Suc i else y)"
proof (induction ds arbitrary: x i)
  case (Cons d ds)
  then show ?case by (cases i; cases ds) auto
qed simp

abbreviation nexts :: "(nat \<Rightarrow> eth_device) \<Rightarrow> nat \<Rightarrow> nat" where "nexts m d \<equiv> dev_next (m d)"

definition ring :: "(nat \<Rightarrow> eth_device) \<Rightarrow> nat list \<Rightarrow> bool" where
  "ring m xs \<longleftrightarrow> xs \<noteq> [] \<and> distinct xs \<and> along (nexts m) (hd xs) xs (hd xs)"

definition ring_of :: "eth \<Rightarrow> nat list \<Rightarrow> bool" where
  "ring_of s xs \<longleftrightarrow> (if xs = [] then dev_list s = None \<and> dev_current s = None
     else dev_list s = Some (hd xs) \<and> ring (dev s) xs \<and> (\<exists>c \<in> set xs. dev_current s = Some c))"

lemma ring_cong: "(\<And>d. d \<in> set xs \<Longrightarrow> nexts m d = nexts m' d) \<Longrightarrow> ring m xs \<longleftrightarrow> ring m' xs"
  using along_cong [of xs "nexts m" "nexts m'"] by (auto simp: ring_def)

lemma ring_upd [simp]: "dev_next e = dev_next (m d) \<Longrightarrow> ring (m(d := e)) xs \<longleftrightarrow> ring m xs"
  by (rule ring_cong) simp

lemma ring_rotate1: "ring m xs \<Longrightarrow> ring m (rotate1 xs)"
proof (cases xs)
  case (Cons d ds)
  assume "ring m xs"
  then have r: "distinct (d # ds)" "along (nexts m) (nexts m d) ds d" by (auto simp: ring_def Cons)
  have "hd (ds @ [d]) = nexts m d" using r(2) by (cases ds) auto
  then show ?thesis using r by (auto simp: ring_def Cons along_append)
qed (simp add: ring_def)

lemma ring_rotate: "ring m xs \<Longrightarrow> ring m (rotate k xs)"
  by (induction k) (simp_all add: ring_rotate1)

lemma ring_next: "ring m xs \<Longrightarrow> k < length xs \<Longrightarrow> nexts m (xs ! k) = xs ! ((k + 1) mod length xs)"
  using along_nth [of "nexts m" "hd xs" xs "hd xs" k]
  by (cases "Suc k = length xs") (auto simp: ring_def hd_conv_nth)

lemma ring_at: "ring m xs \<Longrightarrow> k < length xs \<Longrightarrow> along (nexts m) (xs ! k) (rotate k xs) (xs ! k) \<and> distinct (rotate k xs)"
  using ring_rotate [of m xs k] by (simp add: ring_def hd_rotate_conv_nth)

text \<open>The loops that only look, from \<open>d\<close> over \<open>ys\<close> back to \<open>h\<close>.\<close>

lemma last_dev_eq: "along (nexts m) d ys h \<Longrightarrow> ys \<noteq> [] \<Longrightarrow> h \<notin> set (tl ys) \<Longrightarrow> last_dev m h d = Some (last ys)"
proof (induction ys arbitrary: d)
  case (Cons y ys)
  then show ?case by (cases ys) (auto simp: last_dev.simps [of m h y])
qed simp

lemma name_loop_eq:
  "along (nexts m) d ys h \<Longrightarrow> ys \<noteq> [] \<Longrightarrow> h \<notin> set (tl ys) \<Longrightarrow>
    name_loop m devname h d = Some (find (\<lambda>d. strcmp devname (dev_name (m d)) = 0) ys)"
proof (induction ys arbitrary: d)
  case (Cons y ys)
  then show ?case by (cases ys) (auto simp: name_loop.simps [of m devname h y])
qed simp

lemma index_loop_eq:
  "along (nexts m) d ys h \<Longrightarrow> distinct ys \<Longrightarrow> k < length ys \<Longrightarrow> index_loop m (Some (ys ! k)) i d = Some (i + int k)"
proof (induction ys arbitrary: d k i)
  case (Cons y ys)
  show ?case
  proof (cases k)
    case (Suc j)
    then have "y \<noteq> ys ! j" using Cons.prems by auto
    then show ?thesis using Cons Suc by (simp add: index_loop.simps [of m _ i y])
  qed (use Cons.prems in \<open>simp add: index_loop.simps\<close>)
qed simp

lemma act_loop_eq:
  "along (nexts m) d ys h \<Longrightarrow> ys \<noteq> [] \<Longrightarrow> h \<notin> set (tl ys) \<Longrightarrow>
    act_loop m act h d = Some (case find (\<lambda>d. strcmp (dev_name (m d)) act = 0) ys of Some c \<Rightarrow> (True, c) | None \<Rightarrow> (False, h))"
proof (induction ys arbitrary: d)
  case (Cons y ys)
  then show ?case by (cases ys) (auto simp: act_loop.simps [of m act h y])
qed simp

lemma step_dev_eq:
  "along (nexts m) d ys h \<Longrightarrow> ys \<noteq> [] \<Longrightarrow> h \<notin> set (tl ys) \<Longrightarrow> step_dev m h d i = (if i < length ys then Some (ys ! i) else None)"
proof (induction ys arbitrary: d i)
  case (Cons y ys)
  then show ?case by (cases i; cases ys) auto
qed simp

section \<open>The operations on a ring\<close>

lemma upd_dev [simp]: "dev (upd d f s) = (dev s)(d := f (dev s d))" by (simp add: upd_def)

lemma upd_same [simp]:
  "dev_list (upd d f s) = dev_list s" "dev_current (upd d f s) = dev_current s" "dev_failed (upd d f s) = dev_failed s"
  "dev_wrap (upd d f s) = dev_wrap s" "vars (upd d f s) = vars s" "eth_out (upd d f s) = eth_out s"
  by (simp_all add: upd_def)

lemma set_ethact_same [simp]:
  "dev (set_ethact d s) = dev s" "dev_list (set_ethact d s) = dev_list s" "dev_current (set_ethact d s) = dev_current s"
  "dev_failed (set_ethact d s) = dev_failed s" "dev_wrap (set_ethact d s) = dev_wrap s" "eth_out (set_ethact d s) = eth_out s"
  by (simp_all add: set_ethact_def put_var_def split: option.split)

lemma set_ethact_vars [simp]: "k \<noteq> ''ethact'' \<Longrightarrow> vars (set_ethact d s) k = vars s k"
  by (simp add: set_ethact_def put_var_def split: option.split)

lemma ring_of_ring: "ring_of s xs \<Longrightarrow> dev_list s = Some h \<Longrightarrow> ring (dev s) xs \<and> h = hd xs \<and> xs \<noteq> []"
  by (auto simp: ring_of_def split: if_splits)

lemma ring_head: "ring m xs \<Longrightarrow> along (nexts m) (hd xs) xs (hd xs) \<and> xs \<noteq> [] \<and> hd xs \<notin> set (tl xs)"
  by (cases xs) (auto simp: ring_def)

text \<open>
  Registering a device appends it to the ring: when the ring holds the devices \<open>xs\<close> and \<open>d\<close> is another one, the
  call ends, the ring holds \<open>xs\<close> and then \<open>d\<close>, the first device ever registered becomes the current one, and no
  name and no address changes.
\<close>

lemma eth_register_ring:
  assumes "ring_of s xs" and "d \<notin> set xs"
  shows "\<exists>s'. eth_register d s = Some s' \<and> ring_of s' (xs @ [d]) \<and> dev_current s' = (if xs = [] then Some d else dev_current s) \<and>
    dev_state (dev s' d) = ETH_STATE_INIT \<and>
    (\<forall>e. dev_name (dev s' e) = dev_name (dev s e) \<and> dev_enetaddr (dev s' e) = dev_enetaddr (dev s e))"
proof (cases xs)
  case Nil
  then show ?thesis using assms(1) by (simp add: eth_register_def ring_of_def ring_def)
next
  case (Cons h ds)
  have r: "ring (dev s) xs" and h: "dev_list s = Some h" and c: "\<exists>c \<in> set xs. dev_current s = Some c"
    using assms(1) by (simp_all add: ring_of_def Cons)
  have l: "last_dev (dev s) h h = Some (last xs)"
    by (rule last_dev_eq) (use ring_head [OF r] in \<open>simp_all add: Cons\<close>)
  obtain ys e where ye: "xs = ys @ [e]" using Cons by (metis rev_exhaust list.distinct(1))
  have a: "along (nexts (dev s)) h (ys @ [e]) h" "distinct (ys @ [e])" using r by (auto simp: ring_def ye Cons [unfolded ye])
  define s' where "s' = upd d (\<lambda>e. e\<lparr>dev_state := ETH_STATE_INIT, dev_next := h\<rparr>) (upd e (\<lambda>e. e\<lparr>dev_next := d\<rparr>) s)"
  have s': "eth_register d s = Some s'" by (simp add: eth_register_def h l s'_def ye)
  have "along (nexts (dev s')) h ys e"
  proof -
    have "along (nexts (dev s)) h ys e" using a(1) by (auto simp: along_append)
    moreover have "nexts (dev s') x = nexts (dev s) x" if "x \<in> set ys" for x
      using that a(2) assms(2) by (auto simp: s'_def ye)
    ultimately show ?thesis using along_cong [of ys "nexts (dev s')" "nexts (dev s)"] by simp
  qed
  moreover have "nexts (dev s') e = d" "nexts (dev s') d = h" using assms(2) by (auto simp: s'_def ye)
  ultimately have "along (nexts (dev s')) h ((ys @ [e]) @ [d]) h" by (auto simp: along_append)
  then have "ring (dev s') (xs @ [d])" using r assms(2) Cons by (auto simp: ring_def ye [symmetric])
  then have "ring_of s' (xs @ [d])" using c h by (auto simp: ring_of_def s'_def Cons)
  then show ?thesis using s' Cons by (auto simp: s'_def)
qed

text \<open>Lookups by name and the index of the current device.\<close>

lemma eth_lookup:
  assumes "ring_of s xs"
  shows "eth_get_dev_by_name devname s = Some (find (\<lambda>d. strcmp devname (dev_name (dev s d)) = 0) xs)"
    and "xs = [] \<Longrightarrow> eth_get_dev_index s = Some (- 1)"
    and "k < length xs \<Longrightarrow> dev_current s = Some (xs ! k) \<Longrightarrow> eth_get_dev_index s = Some (int k)"
proof -
  show "xs = [] \<Longrightarrow> eth_get_dev_index s = Some (- 1)" using assms by (simp add: ring_of_def eth_get_dev_index_def)
  show "eth_get_dev_by_name devname s = Some (find (\<lambda>d. strcmp devname (dev_name (dev s d)) = 0) xs)"
  proof (cases "dev_list s")
    case None
    then show ?thesis using assms by (auto simp: ring_of_def eth_get_dev_by_name_def split: if_splits)
  next
    case (Some h)
    then have "ring (dev s) xs" "h = hd xs" using ring_of_ring [OF assms] by auto
    then show ?thesis using ring_head [of "dev s" xs] by (simp add: eth_get_dev_by_name_def Some name_loop_eq)
  qed
next
  assume k: "k < length xs" "dev_current s = Some (xs ! k)"
  then have "dev_list s = Some (hd xs)" "ring (dev s) xs" using assms by (auto simp: ring_of_def split: if_splits)
  then show "eth_get_dev_index s = Some (int k)"
    using index_loop_eq [of "dev s" "hd xs" xs "hd xs" k 0] k unfolding eth_get_dev_index_def ring_def by simp
qed

text \<open>What theory Env says of \<open>eth_set_enetaddr\<close>, on the list of the addresses, is what happens on the ring.\<close>

lemma set_enetaddr_refines:
  assumes "ring_of s xs"
  shows "map (\<lambda>d. dev_enetaddr (dev (set_enetaddr num addr s) d)) xs = eth_set_enetaddr num addr (map (\<lambda>d. dev_enetaddr (dev s d)) xs)"
    and "ring_of (set_enetaddr num addr s) xs"
proof -
  let ?mac = "map ucast (addr_parts 6 16 addr) :: u8 list"
  have "map (\<lambda>d. dev_enetaddr (dev (set_enetaddr num addr s) d)) xs = eth_set_enetaddr num addr (map (\<lambda>d. dev_enetaddr (dev s d)) xs) \<and>
    ring_of (set_enetaddr num addr s) xs"
  proof (cases "dev_list s")
    case None
    then show ?thesis using assms by (auto simp: ring_of_def set_enetaddr_def eth_set_enetaddr_def split: if_splits)
  next
    case (Some h)
    then have r: "ring (dev s) xs" "h = hd xs" "xs \<noteq> []" using ring_of_ring [OF assms] by auto
    note st = step_dev_eq [of "dev s" h xs h "nat num"]
    have st: "step_dev (dev s) h h (nat num) = (if nat num < length xs then Some (xs ! nat num) else None)"
      using ring_head [OF r(1)] r(2) by (intro st) auto
    show ?thesis
    proof (cases "nat num < length xs")
      case True
      then have e: "set_enetaddr num addr s = upd (xs ! nat num) (\<lambda>e. e\<lparr>dev_enetaddr := ?mac\<rparr>) s"
        by (simp add: set_enetaddr_def Some st Let_def)
      have "ring_of (set_enetaddr num addr s) xs"
        unfolding ring_of_def if_not_P [OF r(3)]
      proof (intro conjI)
        show "ring (dev (set_enetaddr num addr s)) xs" unfolding e upd_dev by (rule ring_upd [THEN iffD2, OF _ r(1)]) simp
      qed (use assms r(3) in \<open>simp_all add: e ring_of_def\<close>)
      moreover have "map (\<lambda>d. dev_enetaddr (dev (set_enetaddr num addr s) d)) xs = (map (\<lambda>d. dev_enetaddr (dev s d)) xs)[nat num := ?mac]"
      proof (rule nth_equalityI)
        fix i assume "i < length (map (\<lambda>d. dev_enetaddr (dev (set_enetaddr num addr s) d)) xs)"
        then have i: "i < length xs" by simp
        have "xs ! i = xs ! nat num \<longleftrightarrow> i = nat num" using nth_eq_iff_index_eq [of xs i "nat num"] i True r(1) by (simp add: ring_def)
        then show "map (\<lambda>d. dev_enetaddr (dev (set_enetaddr num addr s) d)) xs ! i = (map (\<lambda>d. dev_enetaddr (dev s d)) xs)[nat num := ?mac] ! i"
          using i True unfolding e by (simp add: nth_list_update)
      qed simp
      ultimately show ?thesis using r(3) True by (simp add: eth_set_enetaddr_def Let_def)
    next
      case False
      then show ?thesis using assms r(3) by (simp add: set_enetaddr_def Some st eth_set_enetaddr_def)
    qed
  qed
  then show "map (\<lambda>d. dev_enetaddr (dev (set_enetaddr num addr s) d)) xs = eth_set_enetaddr num addr (map (\<lambda>d. dev_enetaddr (dev s d)) xs)"
    and "ring_of (set_enetaddr num addr s) xs" by blast+
qed

section \<open>Rotation\<close>

definition rotates :: "eth \<Rightarrow> bool" where
  "rotates s \<longleftrightarrow> (case vars s ''ethrotate'' of Some v \<Rightarrow> strcmp v ''no'' \<noteq> 0 | None \<Rightarrow> True)"

lemma try_another_stays: "\<not> rotates s \<Longrightarrow> try_another b s = s"
  by (simp add: try_another_def rotates_def split: option.splits)

lemma try_another_moves:
  assumes "rotates s" and "dev_current s = Some c"
  shows "dev (try_another b s) = dev s" "dev_list (try_another b s) = dev_list s" "dev_current (try_another b s) = Some (nexts (dev s) c)"
    "rotates (try_another b s)" "eth_out (try_another b s) = eth_out s" "dev_failed (try_another b s) = (if b then Some c else dev_failed s)"
    "dev_wrap (try_another b s) = (dev_wrap s \<or> (if b then Some c else dev_failed s) = Some (nexts (dev s) c))"
proof -
  define u where "u = (if b then s\<lparr>dev_failed := Some c\<rparr> else s)"
  have u: "dev u = dev s" "dev_list u = dev_list s" "vars u = vars s" "eth_out u = eth_out s"
    "dev_failed u = (if b then Some c else dev_failed s)" "dev_wrap u = dev_wrap s" by (simp_all add: u_def)
  have "\<not> (case vars s ''ethrotate'' of Some v \<Rightarrow> strcmp v ''no'' = 0 | None \<Rightarrow> False)"
    using assms(1) by (simp add: rotates_def split: option.splits)
  then have e: "try_another b s =
      (let c = nexts (dev s) c; t = set_ethact c (u\<lparr>dev_current := Some c\<rparr>) in if dev_failed t = Some c then t\<lparr>dev_wrap := True\<rparr> else t)"
    by (simp only: try_another_def assms(2) option.case if_False Let_def u_def [symmetric] u(1))
  show "dev (try_another b s) = dev s" "dev_list (try_another b s) = dev_list s" "dev_current (try_another b s) = Some (nexts (dev s) c)"
    "rotates (try_another b s)" "eth_out (try_another b s) = eth_out s" "dev_failed (try_another b s) = (if b then Some c else dev_failed s)"
    "dev_wrap (try_another b s) = (dev_wrap s \<or> (if b then Some c else dev_failed s) = Some (nexts (dev s) c))"
    using assms(1) by (simp_all add: e Let_def u rotates_def)
qed

text \<open>The view of the packet layer: the number of devices, and indices for the current one and the one that failed first.\<close>

definition net_ring :: "nat list \<Rightarrow> eth \<Rightarrow> 'a net_scheme \<Rightarrow> bool" where
  "net_ring xs s n \<longleftrightarrow> ring_of s xs \<and> eth_devs n = length xs \<and> NetRestartWrap n = dev_wrap s \<and>
     (xs \<noteq> [] \<longrightarrow> eth_current n < length xs \<and> dev_current s = Some (xs ! eth_current n)) \<and>
     dev_failed s = map_option (nth xs) (first_failed n) \<and> (\<forall>i. first_failed n = Some i \<longrightarrow> i < length xs)"

text \<open>
  C17: the ring of pointers implements the ring of indices the packet layer works with: in related states
  \<open>eth_try_another\<close> on the pointers and on the indices leads to related states, for every value of \<open>ethrotate\<close>,
  and so does the restart of the network loop, which depends on \<open>NetRestartWrap\<close>.
\<close>

theorem try_another_refines:
  assumes "net_ring xs s n"
  shows "net_ring xs (try_another b s) (eth_try_another (vars s ''ethrotate'') b n)"
proof (cases "rotates s \<and> xs \<noteq> []")
  case False
  then have "try_another b s = s"
    using assms try_another_stays [of s b] by (auto simp: try_another_def net_ring_def ring_of_def split: option.split)
  moreover have "eth_try_another (vars s ''ethrotate'') b n = n"
    using False assms by (auto simp: eth_try_another_def rotates_def net_ring_def split: option.splits)
  ultimately show ?thesis using assms by simp
next
  case True
  let ?k = "eth_current n" and ?l = "(eth_current n + 1) mod length xs"
  have r: "ring (dev s) xs" "?k < length xs" "dev_current s = Some (xs ! ?k)" "dev_list s = Some (hd xs)" "distinct xs" "eth_devs n = length xs"
    using assms True by (auto simp: net_ring_def ring_of_def ring_def)
  note m = try_another_moves [OF conjunct1 [OF True] r(3), of b, unfolded ring_next [OF r(1,2)]]
  have l: "?l < length xs" using True by simp
  let ?f = "if b then Some ?k else first_failed n"
  have f: "(if b then Some (xs ! ?k) else dev_failed s) = map_option (nth xs) ?f" "\<forall>i. ?f = Some i \<longrightarrow> i < length xs"
    using assms r(2) by (auto simp: net_ring_def)
  have "map_option (nth xs) ?f = Some (xs ! ?l) \<longleftrightarrow> ?f = Some ?l"
    using f(2) l r(5) by (auto simp: nth_eq_iff_index_eq)
  moreover have "eth_try_another (vars s ''ethrotate'') b n =
      n\<lparr>first_failed := ?f, eth_current := ?l, NetRestartWrap := (?f = Some ?l \<or> NetRestartWrap n)\<rparr>"
    using True r(6) by (simp add: eth_try_another_def rotates_def Let_def split: option.splits)
  ultimately show ?thesis using m f l r(1,4) True assms by (auto simp: net_ring_def ring_of_def)
qed

section \<open>Starting a device\<close>

lemma init_loop_walk:
  "along (nexts (dev s)) c ys h \<Longrightarrow> ys \<noteq> [] \<Longrightarrow> h \<notin> set (tl ys) \<Longrightarrow> dev_current s = Some c \<Longrightarrow> rotates s \<Longrightarrow>
    \<exists>s1. dev s1 = dev s \<and> dev_list s1 = dev_list s \<and>
      (case find (\<lambda>d. 0 \<le> init d) ys of
         Some d \<Rightarrow> dev_current s1 = Some d \<and> init_loop init (Some h) s = Some (0, upd d (\<lambda>e. e\<lparr>dev_state := ETH_STATE_ACTIVE\<rparr>) s1)
       | None \<Rightarrow> dev_current s1 = Some h \<and> init_loop init (Some h) s = Some (- 1, s1))"
proof (induction ys arbitrary: c s)
  case (Cons y ys)
  have c: "c = y" "along (nexts (dev s)) (nexts (dev s) y) ys h" using Cons.prems(1) by auto
  show ?case
  proof (cases "0 \<le> init y")
    case True
    then show ?thesis using Cons.prems(4) by (intro exI [of _ s]) (simp add: c(1) init_loop.simps [of init _ s])
  next
    case False
    let ?t = "try_another False s"
    note t = try_another_moves [OF Cons.prems(5,4), of False, unfolded c(1)]
    have e: "init_loop init (Some h) s = (if nexts (dev s) y = h then Some (- 1, ?t) else init_loop init (Some h) ?t)"
      using False Cons.prems(4) t(3) by (simp add: c(1) init_loop.simps [of init _ s])
    show ?thesis
    proof (cases ys)
      case Nil
      then have "nexts (dev s) y = h" using c(2) by simp
      then show ?thesis using False t by (intro exI [of _ ?t]) (simp add: e Nil)
    next
      case (Cons z zs)
      then have "nexts (dev s) y \<noteq> h" using c(2) Cons.prems(3) by auto
      then have e': "init_loop init (Some h) s = init_loop init (Some h) ?t" by (simp add: e)
      have f: "find (\<lambda>d. 0 \<le> init d) (y # ys) = find (\<lambda>d. 0 \<le> init d) ys" using False by simp
      have "h \<notin> set (tl ys)" using Cons.prems(3) Cons by auto
      then show ?thesis
        using Cons.IH [of ?t "nexts (dev s) y", unfolded t(1,2)] c(2) t(3,4) Cons(1) unfolding e' f by (simp only: list.distinct simp_thms)
    qed
  qed
qed simp

text \<open>The devices \<open>eth_init\<close> tries, in the order it tries them.\<close>

definition candidates :: "eth \<Rightarrow> nat list \<Rightarrow> nat \<Rightarrow> nat list" where
  "candidates s xs k = (if rotates s then rotate k xs else [xs ! k])"

text \<open>
  C15: \<open>eth_init\<close> starts the first device that can be started, beginning with the current one and going round the
  ring once, or tries the current one only when \<open>ethrotate\<close> is \<open>no\<close>. It always ends; with 0 the device it
  started is current and active, with -1 no candidate could be started and the current device is the one it was. The
  ring is intact, and no name, no address and no other device's state has changed.
\<close>

theorem eth_init_first:
  assumes "ring_of s xs" and "k < length xs" and "dev_current s = Some (xs ! k)"
  shows "\<exists>r s'. eth_init init s = Some (r, s') \<and> ring_of s' xs \<and>
    (case find (\<lambda>d. 0 \<le> init d) (candidates s xs k) of
       Some d \<Rightarrow> r = 0 \<and> dev_current s' = Some d \<and> dev s' = (dev s)(d := (dev s d)\<lparr>dev_state := ETH_STATE_ACTIVE\<rparr>)
     | None \<Rightarrow> r = - 1 \<and> dev_current s' = dev_current s \<and> dev s' = dev s)"
proof -
  have r: "ring (dev s) xs" "dev_list s = Some (hd xs)" "xs \<noteq> []" using assms(1,2) by (auto simp: ring_of_def split: if_splits)
  have i: "eth_init init s = init_loop init (Some (xs ! k)) s" by (simp add: eth_init_def assms(3))
  show ?thesis
  proof (cases "rotates s")
    case False
    then have t: "dev_current (try_another False s) = Some (xs ! k)" "try_another False s = s" using try_another_stays [of s False] assms(3) by auto
    have "init_loop init (Some (xs ! k)) s =
        (if 0 \<le> init (xs ! k) then Some (0, upd (xs ! k) (\<lambda>e. e\<lparr>dev_state := ETH_STATE_ACTIVE\<rparr>) s) else Some (- 1, s))"
      by (subst init_loop.simps) (simp add: assms(3) t)
    then show ?thesis using assms r False by (simp add: i candidates_def ring_of_def)
  next
    case True
    let ?ys = "rotate k xs"
    have a: "along (nexts (dev s)) (xs ! k) ?ys (xs ! k)" "distinct ?ys" using ring_at [OF r(1) assms(2)] by blast+
    have y: "?ys = xs ! k # tl ?ys" using r(3) assms(2) by (metis hd_rotate_conv_nth list.collapse mod_less rotate_is_Nil_conv)
    then have h: "xs ! k \<notin> set (tl ?ys)" using a(2) by (metis distinct.simps(2))
    have n: "?ys \<noteq> []" using r(3) by simp
    obtain s1 where s1: "dev s1 = dev s" "dev_list s1 = dev_list s" "case find (\<lambda>d. 0 \<le> init d) ?ys of
         Some d \<Rightarrow> dev_current s1 = Some d \<and> init_loop init (Some (xs ! k)) s = Some (0, upd d (\<lambda>e. e\<lparr>dev_state := ETH_STATE_ACTIVE\<rparr>) s1)
       | None \<Rightarrow> dev_current s1 = Some (xs ! k) \<and> init_loop init (Some (xs ! k)) s = Some (- 1, s1)"
      using init_loop_walk [OF a(1) n h assms(3) True] by blast
    show ?thesis
    proof (cases "find (\<lambda>d. 0 \<le> init d) ?ys")
      case None
      then show ?thesis using s1 r assms True by (simp add: i candidates_def ring_of_def)
    next
      case (Some d)
      then have "d \<in> set xs" by (metis find_Some_iff nth_mem set_rotate)
      then show ?thesis using Some s1 r assms True by (simp add: i candidates_def ring_of_def)
    qed
  qed
qed

text \<open>The device the variable \<open>ethact\<close> names becomes the current one; when there is none of that name, the variable follows.\<close>

lemma eth_set_current_eq:
  assumes "ring_of s xs" and "k < length xs" and "dev_current s = Some (xs ! k)" and "vars s ''ethact'' = Some act"
  shows "eth_set_current s = Some (case find (\<lambda>d. strcmp (dev_name (dev s d)) act = 0) (rotate k xs) of
      Some d \<Rightarrow> s\<lparr>dev_current := Some d\<rparr> | None \<Rightarrow> put_var ''ethact'' (dev_name (dev s (xs ! k))) s)"
proof -
  have r: "ring (dev s) xs" "xs \<noteq> []" using assms(1,2) by (auto simp: ring_of_def split: if_splits)
  let ?ys = "rotate k xs"
  have a: "along (nexts (dev s)) (xs ! k) ?ys (xs ! k)" "distinct ?ys" using ring_at [OF r(1) assms(2)] by blast+
  have "?ys = xs ! k # tl ?ys" using r(2) assms(2) by (metis hd_rotate_conv_nth list.collapse mod_less rotate_is_Nil_conv)
  then have "xs ! k \<notin> set (tl ?ys)" "?ys \<noteq> []" using a(2) r(2) by (metis distinct.simps(2), simp)
  moreover have "s\<lparr>dev_current := Some (xs ! k)\<rparr> = s" using assms(3) by (cases s) simp
  then have "put_var n v (s\<lparr>dev_current := Some (xs ! k)\<rparr>) = put_var n v s" for n v by metis
  ultimately show ?thesis using act_loop_eq [OF a(1), of act] assms(3,4) unfolding eth_set_current_def
    by (simp split: option.split)
qed

section \<open>Addresses from the environment\<close>

definition eth_var :: "nat \<Rightarrow> string" where
  "eth_var i = (if i = 0 then ''ethaddr'' else ''eth'' @ dec (of_nat i) @ ''addr'')"

lemma vsprintf_ethaddr:
  assumes "i < 2 ^ 31"
  shows "vsprintf (if i \<noteq> 0 then ''eth%daddr'' else ''ethaddr'') [A32 (of_nat i)] = Some (eth_var i, [])"
proof -
  have "(of_nat i :: u32) < 2 ^ 31" using assms by (simp add: word_less_nat_alt unat_of_nat)
  note d = directive_d [OF this, of "''addr''" "[]"]
  have t: "vsprintf_loop ''addr'' [] l = Some (''addr'', [])" for l by (simp add: NUL_def)
  have "vsprintf ''eth%daddr'' [A32 (of_nat i)] = Some (''eth'' @ dec (of_nat i) @ ''addr'', [])"
    by (simp add: vsprintf_def NUL_def d t)
  moreover have "vsprintf ''ethaddr'' as = Some (''ethaddr'', [])" for as by (simp add: vsprintf_def NUL_def)
  ultimately show ?thesis by (simp add: eth_var_def)
qed

text \<open>The address a device has after the start, when it had \<open>mac\<close> and \<open>v\<close> is the value of its variable.\<close>

definition env_mac :: "string option \<Rightarrow> u8 list \<Rightarrow> u8 list" where
  "env_mac v mac = (let m = map ucast (addr_parts 6 16 v) in if m = replicate 6 0 then mac else m)"

lemma setup_dev_eq:
  assumes "i < 2 ^ 31"
  obtains s' where "setup_dev i d s = Some s'" and "vars s' = vars s" and "dev_list s' = dev_list s"
    and "dev s' = (dev s)(d := (dev s d)\<lparr>dev_enetaddr := env_mac (vars s (eth_var i)) (dev_enetaddr (dev s d))\<rparr>)"
    and "dev_current s' = dev_current s \<or> dev_current s' = Some d"
proof -
  have "\<exists>s'. setup_dev i d s = Some s' \<and> vars s' = vars s \<and> dev_list s' = dev_list s \<and>
      dev s' = (dev s)(d := (dev s d)\<lparr>dev_enetaddr := env_mac (vars s (eth_var i)) (dev_enetaddr (dev s d))\<rparr>) \<and>
      (dev_current s' = dev_current s \<or> dev_current s' = Some d)"
    unfolding setup_dev_def Let_def vsprintf_ethaddr [OF assms] option.case prod.case env_mac_def by simp
  then show thesis using that by blast
qed

lemma setup_loop_walk:
  assumes "along (nexts (dev s)) d ys h" and "ys \<noteq> []" and "h \<notin> set (tl ys)" and "distinct ys" and "i + length ys < 2 ^ 31"
  shows "\<exists>s'. setup_loop h i d s = Some (i + length ys, s') \<and> vars s' = vars s \<and> dev_list s' = dev_list s \<and>
    (dev_current s' = dev_current s \<or> (\<exists>c \<in> set ys. dev_current s' = Some c)) \<and>
    (\<forall>e. e \<notin> set ys \<longrightarrow> dev s' e = dev s e) \<and>
    (\<forall>j < length ys. dev s' (ys ! j) = (dev s (ys ! j))\<lparr>dev_enetaddr := env_mac (vars s (eth_var (i + j))) (dev_enetaddr (dev s (ys ! j)))\<rparr>)"
  using assms
proof (induction ys arbitrary: d i s)
  case (Cons y ys)
  have y: "d = y" "along (nexts (dev s)) (nexts (dev s) y) ys h" using Cons.prems(1) by auto
  obtain s1 where s1: "setup_dev i y s = Some s1" "vars s1 = vars s" "dev_list s1 = dev_list s"
    "dev s1 = (dev s)(y := (dev s y)\<lparr>dev_enetaddr := env_mac (vars s (eth_var i)) (dev_enetaddr (dev s y))\<rparr>)"
    "dev_current s1 = dev_current s \<or> dev_current s1 = Some y"
    by (rule setup_dev_eq [of i y s]) (use Cons.prems(5) in simp)
  have n: "nexts (dev s1) e = nexts (dev s) e" for e by (simp add: s1(4))
  have e: "setup_loop h i d s = (if nexts (dev s) y = h then Some (i + 1, s1) else setup_loop h (i + 1) (nexts (dev s) y) s1)"
    by (simp add: y(1) setup_loop.simps [of h i y] s1(1) n)
  show ?case
  proof (cases ys)
    case Nil
    then have "nexts (dev s) y = h" using y(2) by simp
    then have "setup_loop h i d s = Some (i + 1, s1)" by (simp add: e)
    then show ?thesis using s1(2-5) by (intro exI [of _ s1]) (auto simp: Nil)
  next
    case (Cons z zs)
    then have "nexts (dev s) y \<noteq> h" using y(2) Cons.prems(3) by auto
    then have e': "setup_loop h i d s = setup_loop h (i + 1) (nexts (dev s) y) s1" by (simp add: e)
    have "h \<notin> set (tl ys)" "distinct ys" "ys \<noteq> []" "i + 1 + length ys < 2 ^ 31" using Cons.prems(3-5) Cons by auto
    moreover have "along (nexts (dev s1)) (nexts (dev s) y) ys h" using y(2) by (simp add: n)
    ultimately obtain s' where s': "setup_loop h (i + 1) (nexts (dev s) y) s1 = Some (i + 1 + length ys, s')" "vars s' = vars s1"
      "dev_list s' = dev_list s1" "dev_current s' = dev_current s1 \<or> (\<exists>c \<in> set ys. dev_current s' = Some c)"
      "\<forall>e. e \<notin> set ys \<longrightarrow> dev s' e = dev s1 e"
      "\<forall>j < length ys. dev s' (ys ! j) = (dev s1 (ys ! j))\<lparr>dev_enetaddr := env_mac (vars s1 (eth_var (i + 1 + j))) (dev_enetaddr (dev s1 (ys ! j)))\<rparr>"
      using Cons.IH [of s1 "nexts (dev s) y" "i + 1"] by blast
    have ny: "y \<notin> set ys" using Cons.prems(4) by simp
    have "dev s' ((y # ys) ! j) = (dev s ((y # ys) ! j))\<lparr>dev_enetaddr := env_mac (vars s (eth_var (i + j))) (dev_enetaddr (dev s ((y # ys) ! j)))\<rparr>"
      if "j < length (y # ys)" for j
    proof (cases j)
      case 0
      then show ?thesis using s'(5) ny s1(4) by simp
    next
      case (Suc l)
      then have l: "l < length ys" "ys ! l \<noteq> y" using that ny by auto
      then show ?thesis using s'(6) s1(2,4) Suc by simp
    qed
    moreover have "\<forall>e. e \<notin> set (y # ys) \<longrightarrow> dev s' e = dev s e" using s'(5) s1(4) by simp
    moreover have "dev_current s' = dev_current s \<or> (\<exists>c \<in> set (y # ys). dev_current s' = Some c)" using s'(4) s1(5) by auto
    ultimately show ?thesis using s'(1-3) s1(2,3) unfolding e' by (intro exI [of _ s']) simp
  qed
qed simp

text \<open>How an Ethernet address is written in a variable: two hexadecimal digits for each byte, and colons.\<close>

definition hex2 :: "u8 \<Rightarrow> string" where
  "hex2 b = replicate (if b < 16 then 1 else 0) (CHR ''0'') @ number_digits (ucast (ucast b :: u32)) 16 LARGE"

fun mac_text :: "u8 list \<Rightarrow> string" where
  "mac_text [] = []"
| "mac_text [b] = hex2 b"
| "mac_text (b # bs) = hex2 b @ '':'' @ mac_text bs"

lemma strtoul_hex2: "\<not> isxdigit (deref s) \<Longrightarrow> deref s \<noteq> CHR ''x'' \<Longrightarrow> simple_strtoul (hex2 b @ s) 16 = (ucast b, s)"
  unfolding hex2_def by (rule strtoul_digits) simp_all

lemma addr_parts_mac: "bs \<noteq> [] \<Longrightarrow> addr_parts (length bs) 16 (Some (mac_text bs)) = map ucast bs"
proof (induction bs rule: mac_text.induct)
  case (2 b)
  have "simple_strtoul (hex2 b) 16 = (ucast b, [])" using strtoul_hex2 [of "[]" b] by (simp add: isxdigit_iff isdigit_iff NUL_def)
  then show ?case by (simp add: addr_part_def)
next
  case (3 b c bs)
  have "simple_strtoul (hex2 b @ '':'' @ mac_text (c # bs)) 16 = (ucast b, '':'' @ mac_text (c # bs))"
    by (rule strtoul_hex2) (simp_all add: isxdigit_iff isdigit_iff)
  then show ?case using 3 by (simp add: addr_part_def NUL_def)
qed simp

lemma env_mac_text:
  assumes "length m = 6" and "m \<noteq> replicate 6 0"
  shows "env_mac (Some (mac_text m)) mac = m"
proof -
  have "m \<noteq> []" using assms(1) by auto
  then have "addr_parts 6 16 (Some (mac_text m)) = map ucast m" using addr_parts_mac [of m] assms(1) by simp
  moreover have "map ucast (map ucast m :: u32 list) = m"
  proof -
    have "ucast (ucast b :: u32) = b" for b :: u8 by (rule ucast_up_ucast_id) (simp add: is_up)
    then show ?thesis by (simp only: map_map comp_def list.map_ident)
  qed
  ultimately show ?thesis using assms(2) by (simp add: env_mac_def Let_def)
qed

lemma env_mac_None: "env_mac None mac = mac"
proof -
  have "addr_parts n 16 None = replicate n 0" for n by (induction n) (simp_all add: addr_part_def)
  then have "map ucast (addr_parts 6 16 None) = (replicate 6 0 :: u8 list)" by (simp only: map_replicate ucast_0)
  then show ?thesis by (simp add: env_mac_def Let_def)
qed

text \<open>
  C16: after \<open>eth_initialize\<close> every device that the board has registered has its address: the one its variable
  \<open>ethaddr\<close>, \<open>eth1addr\<close>, \<open>eth2addr\<close>, \<open>...\<close> holds, or, when the variable is not set, the one it came with. The ring is
  intact, one of its devices is current, and the number of devices is returned.
\<close>

theorem eth_initialize_macs:
  assumes "board_init (s\<lparr>dev_list := None, dev_current := None\<rparr>) = Some (rc, s1)" and "0 \<le> rc" and "ring_of s1 xs" and "length xs < 2 ^ 31"
  shows "\<exists>s'. eth_initialize board_init cpu_init s = Some (length xs, s') \<and> ring_of s' xs \<and>
    (\<forall>i < length xs. (vars s1 (eth_var i) = None \<longrightarrow> dev_enetaddr (dev s' (xs ! i)) = dev_enetaddr (dev s1 (xs ! i))) \<and>
       (\<forall>m. length m = 6 \<and> m \<noteq> replicate 6 0 \<and> vars s1 (eth_var i) = Some (mac_text m) \<longrightarrow> dev_enetaddr (dev s' (xs ! i)) = m))"
proof (cases "xs = []")
  case True
  then show ?thesis using assms(1-3) by (simp add: eth_initialize_def ring_of_def)
next
  case False
  then have r: "dev_list s1 = Some (hd xs)" "ring (dev s1) xs" "\<exists>c \<in> set xs. dev_current s1 = Some c" using assms(3) by (auto simp: ring_of_def)
  note w = ring_head [OF r(2)]
  obtain s2 where s2: "setup_loop (hd xs) 0 (hd xs) s1 = Some (0 + length xs, s2)" "vars s2 = vars s1" "dev_list s2 = dev_list s1"
    "dev_current s2 = dev_current s1 \<or> (\<exists>c \<in> set xs. dev_current s2 = Some c)"
    "\<forall>i < length xs. dev s2 (xs ! i) = (dev s1 (xs ! i))\<lparr>dev_enetaddr := env_mac (vars s1 (eth_var (0 + i))) (dev_enetaddr (dev s1 (xs ! i)))\<rparr>"
    using setup_loop_walk [of s1 "hd xs" xs "hd xs" 0] w conjunct1 [OF conjunct2 [OF r(2) [unfolded ring_def]]] assms(4)
    unfolding add_0 by blast
  obtain c where c: "c \<in> set xs" "dev_current s2 = Some c" using s2(4) r(3) by metis
  define s' where "s' = (set_ethact c s2)\<lparr>eth_out := eth_out s2 @ [Puts nl]\<rparr>"
  have e: "eth_initialize board_init cpu_init s = Some (length xs, s')"
    using assms(1,2) by (simp add: eth_initialize_def r(1) s2(1) c(2) s'_def)
  have "nexts (dev s2) d = nexts (dev s1) d" if d: "d \<in> set xs" for d
  proof -
    obtain i where "i < length xs" "d = xs ! i" using d by (metis in_set_conv_nth)
    then show ?thesis using s2(5) by simp
  qed
  then have "ring (dev s2) xs" using ring_cong [of xs "dev s2" "dev s1"] r(2) by blast
  then have "ring_of s' xs" using c False r(1) s2(3) by (auto simp: ring_of_def s'_def)
  moreover have "dev_enetaddr (dev s' (xs ! i)) = env_mac (vars s1 (eth_var i)) (dev_enetaddr (dev s1 (xs ! i)))" if "i < length xs" for i
    using that s2(5) by (simp add: s'_def)
  ultimately show ?thesis using e env_mac_None env_mac_text by auto
qed

section \<open>Two devices\<close>

definition eth0 :: eth where
  "eth0 = \<lparr>dev = (\<lambda>d. if d = 1 then \<lparr>dev_name = ''mii0'', dev_enetaddr = [2, 0, 0, 0, 0, 1], dev_state = ETH_STATE_INIT, dev_next = 2\<rparr>
                       else \<lparr>dev_name = ''mii1'', dev_enetaddr = replicate 6 0, dev_state = ETH_STATE_INIT, dev_next = 1\<rparr>),
     dev_list = Some 1, dev_current = Some 1, dev_failed = None, dev_wrap = False,
     vars = [''ethact'' \<mapsto> ''mii0'', eth_var 1 \<mapsto> mac_text [2, 0, 0, 0, 0, 9]], eth_out = []\<rparr>"

lemma eth_var_1: "eth_var 1 = ''eth'' @ dec 1 @ ''addr''" by (simp add: eth_var_def)

lemma eth_var_ne: "''ethrotate'' \<noteq> eth_var 1" "eth_var 0 \<noteq> eth_var 1" "eth_var 0 \<noteq> ''ethact''"
proof -
  have "dec 1 = ''1''" by code_simp
  then show "''ethrotate'' \<noteq> eth_var 1" "eth_var 0 \<noteq> eth_var 1" "eth_var 0 \<noteq> ''ethact''"
    unfolding eth_var_1 by (simp_all add: eth_var_def)
qed

lemma eth0_fields:
  "ring_of eth0 [1, 2]" "dev_current eth0 = Some 1" "rotates eth0" "vars eth0 (eth_var 0) = None"
  "vars eth0 (eth_var 1) = Some (mac_text [2, 0, 0, 0, 0, 9])" "dev_enetaddr (dev eth0 1) = [2, 0, 0, 0, 0, 1]"
  using eth_var_ne by (simp_all add: eth0_def ring_of_def ring_def rotates_def)

lemma eth_register_ring_witness: "\<exists>s'. eth_register 3 eth0 = Some s' \<and> ring_of s' [1, 2, 3] \<and> dev_current s' = Some 1"
  using eth_register_ring [OF eth0_fields(1), of 3] by (auto simp: eth0_fields(2))

theorem try_another_refines_witness:
  "net_ring [1, 2] (try_another True eth0) (eth_try_another None True (net0\<lparr>eth_devs := 2\<rparr>))"
proof -
  have "vars eth0 ''ethrotate'' = None" using eth_var_ne by (simp add: eth0_def)
  moreover have "net_ring [1, 2] eth0 (net0\<lparr>eth_devs := 2\<rparr>)"
    using eth0_fields(1) by (simp add: net_ring_def net0_def) (simp add: eth0_def)
  ultimately show ?thesis using try_another_refines [of "[1, 2]" eth0 "net0\<lparr>eth_devs := 2\<rparr>" True] by simp
qed

theorem eth_init_first_witness:
  "\<exists>s'. eth_init (\<lambda>d. if d = 2 then 0 else - 1) eth0 = Some (0, s') \<and> dev_current s' = Some 2 \<and> dev_state (dev s' 2) = ETH_STATE_ACTIVE"
proof -
  have "find (\<lambda>d. 0 \<le> (if d = 2 then 0 else - 1 :: int)) (candidates eth0 [1, 2] 0) = Some 2"
    by (simp add: candidates_def eth0_fields(3))
  then show ?thesis using eth_init_first [OF eth0_fields(1), of 0 "\<lambda>d. if d = 2 then 0 else - 1"] eth0_fields(2) by auto
qed

theorem eth_initialize_macs_witness:
  "\<exists>s'. eth_initialize (\<lambda>s. Some (0, eth0)) (\<lambda>s. None) eth0 = Some (2, s') \<and>
    dev_enetaddr (dev s' 1) = [2, 0, 0, 0, 0, 1] \<and> dev_enetaddr (dev s' 2) = [2, 0, 0, 0, 0, 9]"
proof -
  obtain s' where s': "eth_initialize (\<lambda>s. Some (0, eth0)) (\<lambda>s. None) eth0 = Some (length [1 :: nat, 2], s')"
    "\<forall>i < length [1 :: nat, 2]. (vars eth0 (eth_var i) = None \<longrightarrow> dev_enetaddr (dev s' ([1, 2] ! i)) = dev_enetaddr (dev eth0 ([1, 2] ! i))) \<and>
       (\<forall>m. length m = 6 \<and> m \<noteq> replicate 6 0 \<and> vars eth0 (eth_var i) = Some (mac_text m) \<longrightarrow> dev_enetaddr (dev s' ([1, 2] ! i)) = m)"
    using eth_initialize_macs [where board_init = "\<lambda>s. Some (0, eth0)" and cpu_init = "\<lambda>s. None" and s = eth0 and rc = 0 and xs = "[1, 2]",
      OF refl _ eth0_fields(1)] by fastforce
  have "dev_enetaddr (dev s' 1) = [2, 0, 0, 0, 0, 1]" using s'(2) [rule_format, of 0] eth0_fields(4,6) by simp
  moreover have "[2, 0, 0, 0, 0, 9 :: u8] \<noteq> replicate 6 0" by (simp add: numeral_eq_Suc)
  then have "dev_enetaddr (dev s' 2) = [2, 0, 0, 0, 0, 9]"
    using s'(2) [rule_format, of 1, THEN conjunct2, rule_format, of "[2, 0, 0, 0, 0, 9]"] eth0_fields(5) by (simp del: mac_text.simps)
  ultimately show ?thesis using s'(1) by (simp add: numeral_2_eq_2)
qed

end
