(* ===== verification/Tftp.thy ===== *)
theory Tftp
  imports Image Net
begin

text \<open>
  The TFTP client of \<^verbatim>\<open>net/tftp.c\<close>, on top of the packet layer: its variables extend the record of the
  packet layer, and it calls \<open>NetSendUDPPacket\<close>, \<open>NetSetTimeout\<close> and \<open>NetStartAgain\<close> as the code does. The
  file is stored in \<open>memory\<close> from \<open>load_addr\<close> on. Multicast is not compiled in.


  The second half says what \<open>TftpSend\<close> puts on the wire: which datagram a host at the server's address
  reads from the frames the client has sent. Theory TftpSystem joins client and server.
\<close>

section \<open>State\<close>

datatype tftp_state = STATE_RRQ | STATE_DATA | STATE_TOO_LARGE | STATE_BAD_MAGIC | STATE_OACK

record tftp = net +
  BootFile :: string
  NetBootFileSize :: u16
  load_addr :: u32
  memory :: "u32 \<Rightarrow> u8"
  TftpTimeoutMSecs :: u32
  TftpTimeoutCountMax :: int
  TftpRRQTimeoutMSecs :: u32
  TftpRRQTimeoutCountMax :: int
  TftpServerIP :: u32
  TftpServerPort :: u32
  TftpOurPort :: u32
  TftpTimeoutCount :: int
  TftpBlock :: u32
  TftpLastBlock :: u32
  TftpBlockWrap :: u32
  TftpBlockWrapOffset :: u32
  TftpState :: tftp_state
  tftp_filename :: string
  TftpBlkSize :: u16

definition WELL_KNOWN_PORT :: u32 where "WELL_KNOWN_PORT = 69"
definition TIMEOUT :: u32 where "TIMEOUT = 5000"
definition TIMEOUT_COUNT :: int where "TIMEOUT_COUNT = 10"
definition HASHES_PER_LINE :: u32 where "HASHES_PER_LINE = 65"
definition TFTP_RRQ :: u16 where "TFTP_RRQ = 1"
definition TFTP_DATA :: u16 where "TFTP_DATA = 3"
definition TFTP_ACK :: u16 where "TFTP_ACK = 4"
definition TFTP_ERROR :: u16 where "TFTP_ERROR = 5"
definition TFTP_OACK :: u16 where "TFTP_OACK = 6"
definition TFTP_BLOCK_SIZE :: u16 where "TFTP_BLOCK_SIZE = 512"
definition TFTP_SEQUENCE_SIZE :: u32 where "TFTP_SEQUENCE_SIZE = push_bit 16 1"
definition MAX_LEN :: nat where "MAX_LEN = 128"
definition TftpBlkSizeOption :: u16 where "TftpBlkSizeOption = 1468"

text \<open>A string with its NUL as bytes, and the text at a place of a packet.\<close>

definition asciz :: "string \<Rightarrow> u8 list" where "asciz s = map of_char s @ [0]"
definition chars :: "u8 list \<Rightarrow> string" where "chars b = map (\<lambda>x. char_of (unat x)) b"
definition cut_nul :: "string \<Rightarrow> string" where "cut_nul s = takeWhile (\<lambda>c. c \<noteq> NUL) s"

lemma char_byte [simp]: "char_of (unat (of_char c :: u8)) = c"
proof -
  have "unat (of_char c :: u8) = of_char c mod 2 ^ 8"
    by (simp only: of_nat_of_char [symmetric, where 'a = "8 word"] unat_of_nat) simp
  then show ?thesis by simp
qed

lemma chars_asciz [simp]: "chars (asciz s) = s @ [NUL]"
proof -
  have "char_of (0 :: nat) = CHR 0x00" by (simp add: char_of_def)
  then show ?thesis by (simp add: chars_def asciz_def NUL_def o_def)
qed

lemma chars_append [simp]: "chars (a @ b) = chars a @ chars b" by (simp add: chars_def)

section \<open>Memory\<close>

definition mem_write :: "(u32 \<Rightarrow> u8) \<Rightarrow> u32 \<Rightarrow> u8 list \<Rightarrow> u32 \<Rightarrow> u8" where
  "mem_write m a src x = (if unat (x - a) < length src then src ! unat (x - a) else m x)"

text \<open>\<open>src\<close> is the rest of the receive buffer.\<close>

definition store_block :: "u32 \<Rightarrow> u8 list \<Rightarrow> u32 \<Rightarrow> 'a tftp_scheme \<Rightarrow> 'a tftp_scheme option" where
  "store_block block src len t =
     (let offset = block * ucast (TftpBlkSize t) + TftpBlockWrapOffset t; newsize = offset + len
      in if length src < unat len then None
         else Some (t\<lparr>memory := mem_write (memory t) (load_addr t + offset) (take (unat len) src),
                      NetBootFileXferSize := (if NetBootFileXferSize t < newsize then newsize else NetBootFileXferSize t)\<rparr>))"

section \<open>Sending\<close>

definition rrq_packet :: "'a tftp_scheme \<Rightarrow> u8 list option" where
  "rrq_packet t =
     (case (vsprintf ''%lu'' [A32 (TIMEOUT div 1000)], vsprintf ''blksize%c%d%c'' [A32 0, A32 (ucast TftpBlkSizeOption), A32 0]) of
        (Some (secs, _), Some (blksize, _)) \<Rightarrow>
          Some (put16 TFTP_RRQ @ asciz (tftp_filename t) @ asciz ''octet'' @ asciz ''timeout'' @ asciz secs @ map of_char blksize)
      | _ \<Rightarrow> None)"

definition ack_packet :: "u32 \<Rightarrow> u8 list" where "ack_packet b = put16 TFTP_ACK @ put16 (ucast b)"

definition tftp_packet :: "'a tftp_scheme \<Rightarrow> u8 list option" where
  "tftp_packet t =
     (case TftpState t of
        STATE_RRQ \<Rightarrow> rrq_packet t
      | STATE_OACK \<Rightarrow> Some (ack_packet (TftpBlock t))
      | STATE_DATA \<Rightarrow> Some (ack_packet (TftpBlock t))
      | STATE_TOO_LARGE \<Rightarrow> Some (put16 TFTP_ERROR @ put16 3 @ asciz ''File too large'')
      | STATE_BAD_MAGIC \<Rightarrow> Some (put16 TFTP_ERROR @ put16 2 @ asciz ''File has bad magic''))"

definition TftpSend :: "u32 \<Rightarrow> 'a tftp_scheme \<Rightarrow> 'a tftp_scheme option" where
  "TftpSend now t =
     (case tftp_packet t of None \<Rightarrow> None
      | Some pkt \<Rightarrow> map_option fst (NetSendUDPPacket t now NetServerEther (TftpServerIP t) (TftpServerPort t) (TftpOurPort t) pkt))"

section \<open>Receiving\<close>

text \<open>
  The search for the option \<open>blksize\<close>: \<open>Some None\<close> when it is not there, \<open>None\<close> for a read behind the end of
  the buffer.
\<close>

function find_blksize :: "string \<Rightarrow> nat \<Rightarrow> u16 option option" where
  "find_blksize pkt len =
     (if \<not> 8 < len then Some None
      else if pkt = [] then None
      else if strcmp pkt ''blksize'' = 0 then Some (Some (ucast (fst (simple_strtoul (drop 8 pkt) 10))))
      else find_blksize (tl pkt) (len - 1))"
  by pat_completeness auto

termination by (relation "measure snd") auto

declare find_blksize.simps [simp del]

definition tftp_oack :: "u32 \<Rightarrow> u8 list \<Rightarrow> u32 \<Rightarrow> nat \<Rightarrow> 'a tftp_scheme \<Rightarrow> 'a tftp_scheme option" where
  "tftp_oack now pkt src len t =
     (let t = t\<lparr>TftpState := STATE_OACK, TftpServerPort := src\<rparr>
      in case find_blksize (chars pkt) len of None \<Rightarrow> None
         | Some None \<Rightarrow> TftpSend now t
         | Some (Some b) \<Rightarrow> TftpSend now (t\<lparr>TftpBlkSize := b\<rparr>))"

text \<open>What a new block number does before the block itself is looked at.\<close>

definition tftp_progress :: "'a tftp_scheme \<Rightarrow> 'a tftp_scheme" where
  "tftp_progress t =
     (if TftpBlock t = 0
      then (let off = TftpBlockWrapOffset t + ucast (TftpBlkSize t) * TFTP_SEQUENCE_SIZE
            in say [Printf (nl @ [CHR 0x09] @ '' %lu MB received'' @ nl @ [CHR 0x09] @ '' '') [A32 (drop_bit 20 off)]]
                 (t\<lparr>TftpBlockWrap := TftpBlockWrap t + 1, TftpBlockWrapOffset := off\<rparr>))
      else if (TftpBlock t - 1) mod 10 = 0 then say [Puts ''#''] t
      else if TftpBlock t mod (10 * HASHES_PER_LINE) = 0 then say [Puts (nl @ [CHR 0x09] @ '' '')] t
      else t)"

text \<open>A block that is not the last one again: stored and acknowledged; a short one ends the transfer.\<close>

definition tftp_store :: "u32 \<Rightarrow> u8 list \<Rightarrow> u32 \<Rightarrow> 'a tftp_scheme \<Rightarrow> 'a tftp_scheme option" where
  "tftp_store now src len t =
     (let t = t\<lparr>TftpLastBlock := TftpBlock t, TftpTimeoutMSecs := TIMEOUT, TftpTimeoutCountMax := TIMEOUT_COUNT\<rparr>;
          t = NetSetTimeout (TftpTimeoutMSecs t) TftpTimeout now t
      in case store_block (TftpBlock t - 1) src len t of None \<Rightarrow> None
         | Some t \<Rightarrow>
             (case TftpSend now t of None \<Rightarrow> None
              | Some t \<Rightarrow>
                  Some (if len < ucast (TftpBlkSize t)
                        then (say [Puts (nl @ ''done'' @ nl)] t)\<lparr>NetState := NETLOOP_SUCCESS\<rparr> else t)))"

definition tftp_data :: "(string \<Rightarrow> string option) \<Rightarrow> u32 \<Rightarrow> u8 list \<Rightarrow> u32 \<Rightarrow> u32 \<Rightarrow> 'a tftp_scheme \<Rightarrow> 'a tftp_scheme option" where
  "tftp_data env now pkt src len t =
     (if len < 2 then Some t
      else (let len = len - 2;
                t = tftp_progress (t\<lparr>TftpBlock := ucast (get16 pkt 0)\<rparr>);
                first = (TftpState t = STATE_RRQ \<or> TftpState t = STATE_OACK);
                t = (if first then t\<lparr>TftpState := STATE_DATA, TftpServerPort := src, TftpLastBlock := 0, TftpBlockWrap := 0,
                                     TftpBlockWrapOffset := 0\<rparr> else t)
            in if first \<and> TftpBlock t \<noteq> 1
               then Some (NetStartAgain env now
                      (say [Printf (nl @ ''TFTP error: First block is not block 1 (%ld)'' @ nl @ ''Starting again'' @ nl @ nl) [A32 (TftpBlock t)]] t))
               else if TftpBlock t = TftpLastBlock t then Some t
               else tftp_store now (drop 2 pkt) len t))"

definition tftp_error :: "(string \<Rightarrow> string option) \<Rightarrow> u32 \<Rightarrow> u8 list \<Rightarrow> 'a tftp_scheme \<Rightarrow> 'a tftp_scheme" where
  "tftp_error env now pkt t =
     NetStartAgain env now
       (say [Printf (nl @ ''TFTP error: '' @ [CHR 0x27] @ ''%s'' @ [CHR 0x27] @ '' (%d)'' @ nl)
               [AStr (Some (cut_nul (chars (drop 2 pkt)))), A32 (ucast (get16 pkt 0))],
             Puts (''Starting again'' @ nl @ nl)] t)"

definition TftpHandler :: "(string \<Rightarrow> string option) \<Rightarrow> u32 \<Rightarrow> u8 list \<Rightarrow> u32 \<Rightarrow> u32 \<Rightarrow> u32 \<Rightarrow> 'a tftp_scheme \<Rightarrow> 'a tftp_scheme option" where
  "TftpHandler env now pkt dest src len t =
     (if dest \<noteq> TftpOurPort t then Some t
      else if TftpState t \<noteq> STATE_RRQ \<and> src \<noteq> TftpServerPort t then Some t
      else if len < 2 then Some t
      else (let len = len - 2; proto = get16 pkt 0; pkt = drop 2 pkt
            in if proto = TFTP_OACK then tftp_oack now pkt src (unat len) t
               else if proto = TFTP_DATA then tftp_data env now pkt src len t
               else if proto = TFTP_ERROR then Some (tftp_error env now pkt t)
               else Some t))"

section \<open>Timeouts and start\<close>

definition tftp_timeout :: "(string \<Rightarrow> string option) \<Rightarrow> u32 \<Rightarrow> 'a tftp_scheme \<Rightarrow> 'a tftp_scheme option" where
  "tftp_timeout env now t =
     (let t = t\<lparr>TftpTimeoutCount := TftpTimeoutCount t + 1\<rparr>
      in if TftpTimeoutCount t > TftpTimeoutCountMax t
         then Some (NetStartAgain env now (say [Puts (nl @ ''Retry count exceeded; starting again'' @ nl)] t))
         else TftpSend now (NetSetTimeout (TftpTimeoutMSecs t) TftpTimeout now (say [Puts ''T ''] t)))"

text \<open>The server and the name of the file, with a warning when there is none.\<close>

definition tftp_names :: "'a tftp_scheme \<Rightarrow> 'a tftp_scheme option" where
  "tftp_names t =
     (if deref (BootFile t) = NUL
      then (case vsprintf ''%02lX%02lX%02lX%02lX.img'' [A32 (NetOurIP t AND 0xFF), A32 (drop_bit 8 (NetOurIP t) AND 0xFF),
                A32 (drop_bit 16 (NetOurIP t) AND 0xFF), A32 (drop_bit 24 (NetOurIP t) AND 0xFF)] of None \<Rightarrow> None
            | Some (name, _) \<Rightarrow>
                Some (say [Printf (''*** Warning: no boot file name; using '' @ [CHR 0x27] @ ''%s'' @ [CHR 0x27] @ nl) [AStr (Some (take (MAX_LEN - 1) name))]]
                  (t\<lparr>TftpServerIP := NetServerIP t, tftp_filename := take (MAX_LEN - 1) name\<rparr>)))
      else (case strchr (BootFile t) (of_char CHR '':'') of
              None \<Rightarrow> Some (t\<lparr>TftpServerIP := NetServerIP t, tftp_filename := take (MAX_LEN - 1) (cut_nul (BootFile t))\<rparr>)
            | Some p \<Rightarrow> Some (t\<lparr>TftpServerIP := string_to_ip (Some (BootFile t)), tftp_filename := take (MAX_LEN - 1) (cut_nul (tl p))\<rparr>)))"

fun con_of :: "boot_msg \<Rightarrow> con_msg list" where
  "con_of (boot_msg.Puts s) = [Puts s]"
| "con_of (boot_msg.Printf f args) = [Printf f args]"
| "con_of (Progress i) = []"

definition tftp_banner :: "string \<Rightarrow> 'a tftp_scheme \<Rightarrow> con_msg list" where
  "tftp_banner eth_name t =
     [Printf (''Using %s device'' @ nl) [AStr (Some eth_name)], Puts ''TFTP from server ''] @ print_IPaddr (TftpServerIP t) @
     [Puts ''; our IP address is ''] @ print_IPaddr (NetOurIP t) @
     (if NetOurGatewayIP t \<noteq> 0 \<and> NetOurSubnetMask t \<noteq> 0 \<and>
         NetOurIP t AND NetOurSubnetMask t \<noteq> TftpServerIP t AND NetOurSubnetMask t
      then Puts ''; sending through gateway '' # print_IPaddr (NetOurGatewayIP t) else []) @
     [Puts nl, Printf (''Filename '' @ [CHR 0x27] @ ''%s'' @ [CHR 0x27] @ ''.'') [AStr (Some (tftp_filename t))]] @
     (if NetBootFileSize t \<noteq> 0
      then (let sz = push_bit 9 (ucast (NetBootFileSize t))
            in Printf '' Size is 0x%x Bytes = '' [A32 sz] # concat (map con_of (print_size sz []))) else []) @
     [Puts nl, Printf (''Load address: 0x%lx'' @ nl) [A32 (load_addr t)], Puts (''Loading: *'' @ [CHR 0x08])]"

definition TftpStart :: "string \<Rightarrow> u32 \<Rightarrow> 'a tftp_scheme \<Rightarrow> 'a tftp_scheme option" where
  "TftpStart eth_name now t =
     (case tftp_names t of None \<Rightarrow> None
      | Some t \<Rightarrow>
          (let t = say (tftp_banner eth_name t) t;
               t = t\<lparr>TftpTimeoutMSecs := TftpRRQTimeoutMSecs t, TftpTimeoutCountMax := TftpRRQTimeoutCountMax t\<rparr>;
               t = NetSetHandler rxhand.TftpHandler (NetSetTimeout (TftpTimeoutMSecs t) TftpTimeout now t);
               t = t\<lparr>TftpServerPort := WELL_KNOWN_PORT, TftpTimeoutCount := 0, TftpState := STATE_RRQ,
                     TftpOurPort := 1024 + now mod 3072, TftpBlock := 0, server_ether := replicate 6 0, TftpBlkSize := TFTP_BLOCK_SIZE\<rparr>
           in TftpSend now t))"

section \<open>The loop's view of the handlers\<close>

definition run_handler :: "(string \<Rightarrow> string option) \<Rightarrow> u32 \<Rightarrow> rxhand \<Rightarrow> u8 list \<Rightarrow> u32 \<Rightarrow> u32 \<Rightarrow> u32 \<Rightarrow> 'a tftp_scheme \<Rightarrow> 'a tftp_scheme option" where
  "run_handler env now f pkt dest src len t =
     (case f of rxhand.TftpHandler \<Rightarrow> TftpHandler env now pkt dest src len t
      | PingHandler \<Rightarrow> Some (ping_handler pkt t)
      | startAgainHandler \<Rightarrow> Some t)"

definition run_timeout :: "(string \<Rightarrow> string option) \<Rightarrow> u32 \<Rightarrow> thand \<Rightarrow> 'a tftp_scheme \<Rightarrow> 'a tftp_scheme option" where
  "run_timeout env now f t =
     (case f of TftpTimeout \<Rightarrow> tftp_timeout env now t
      | PingTimeout \<Rightarrow> Some (ping_timeout t)
      | startAgainTimeout \<Rightarrow> Some (t\<lparr>NetState := NETLOOP_RESTART\<rparr>))"

section \<open>Basic facts\<close>

definition running :: "'a tftp_scheme \<Rightarrow> bool" where
  "running t \<longleftrightarrow> NetState t = NETLOOP_CONTINUE \<and> packetHandler t = rxhand.TftpHandler"

lemma say_tftp [simp]:
  "TftpBlock (say ms t) = TftpBlock t" "TftpState (say ms t) = TftpState t" "TftpBlkSize (say ms t) = TftpBlkSize t"
  "TftpLastBlock (say ms t) = TftpLastBlock t" "TftpServerPort (say ms t) = TftpServerPort t" "TftpOurPort (say ms t) = TftpOurPort t"
  "TftpServerIP (say ms t) = TftpServerIP t" "TftpBlockWrapOffset (say ms t) = TftpBlockWrapOffset t"
  "memory (say ms t) = memory t" "load_addr (say ms t) = load_addr t" "tftp_filename (say ms t) = tftp_filename t"
  for t :: "'a tftp_scheme" by (simp_all add: say_def)

lemma say_net [simp]:
  "sent (say ms n) = sent n" "timeHandler (say ms n) = timeHandler n" "NetBootFileXferSize (say ms n) = NetBootFileXferSize n" "NetState (say ms n) = NetState n"
  "packetHandler (say ms n) = packetHandler n" "NetOurEther (say ms n) = NetOurEther n" "server_ether (say ms n) = server_ether n"
  "ping_mac (say ms n) = ping_mac n" "NetOurVLAN (say ms n) = NetOurVLAN n" "NetOurIP (say ms n) = NetOurIP n" "NetArpWaitPacketIP (say ms n) = NetArpWaitPacketIP n" "eth_devs (say ms n) = eth_devs n"
  by (simp_all add: say_def)

lemma again_tftp [simp]:
  "TftpBlock (NetStartAgain env now t) = TftpBlock t" "TftpState (NetStartAgain env now t) = TftpState t" "TftpBlkSize (NetStartAgain env now t) = TftpBlkSize t"
  "TftpServerPort (NetStartAgain env now t) = TftpServerPort t" "TftpOurPort (NetStartAgain env now t) = TftpOurPort t"
  "TftpServerIP (NetStartAgain env now t) = TftpServerIP t"
  "memory (NetStartAgain env now t) = memory t" "tftp_filename (NetStartAgain env now t) = tftp_filename t" "load_addr (NetStartAgain env now t) = load_addr t"
  for t :: "'a tftp_scheme"
  by (simp_all add: NetStartAgain_def eth_try_another_def NetSetHandler_def NetSetTimeout_def Let_def)

lemma again_net [simp]:
  "sent (NetStartAgain env now n) = sent n" "NetBootFileXferSize (NetStartAgain env now n) = NetBootFileXferSize n"
  "NetOurEther (NetStartAgain env now n) = NetOurEther n" "server_ether (NetStartAgain env now n) = server_ether n"
  "ping_mac (NetStartAgain env now n) = ping_mac n" "NetOurVLAN (NetStartAgain env now n) = NetOurVLAN n"
  "NetArpWaitPacketIP (NetStartAgain env now n) = NetArpWaitPacketIP n" "NetOurIP (NetStartAgain env now n) = NetOurIP n" "eth_devs (NetStartAgain env now n) = eth_devs n"
  by (simp_all add: NetStartAgain_def eth_try_another_def NetSetHandler_def NetSetTimeout_def Let_def)

lemma again_stops [simp]: "\<not> running (NetStartAgain env now t)"
  by (simp add: running_def NetStartAgain_def eth_try_another_def NetSetHandler_def NetSetTimeout_def Let_def)

lemma again_not_success: "NetState n \<noteq> NETLOOP_SUCCESS \<Longrightarrow> NetState (NetStartAgain env now n) \<noteq> NETLOOP_SUCCESS"
  by (simp add: NetStartAgain_def eth_try_another_def NetSetHandler_def NetSetTimeout_def Let_def)

text \<open>A host that can send to the server directly, and the server's host.\<close>

definition linked :: "host \<Rightarrow> 'a tftp_scheme \<Rightarrow> bool" where
  "linked srv t \<longleftrightarrow> wf_macs t \<and> untagged t \<and> 0 < eth_devs t \<and> server_ether t \<noteq> NetEtherNullAddr \<and>
     TftpServerIP t \<noteq> 0 \<and> TftpServerIP t \<noteq> 0xffffffff \<and> NetOurIP srv = TftpServerIP t \<and> untagged srv \<and>
     TftpServerPort t < 65536 \<and> TftpOurPort t < 65536"

lemma TftpSend_linked:
  assumes "linked srv t" and "tftp_packet t = Some pkt"
  obtains frame where "udp_frame t (server_ether t) (TftpServerIP t) (TftpServerPort t) (TftpOurPort t) pkt frame"
    and "TftpSend now t = Some (t\<lparr>NetIPID := NetIPID t + 1, sent := sent t @ [frame]\<rparr>)"
proof -
  have "mac_of t NetServerEther \<noteq> NetEtherNullAddr" "TftpServerIP t \<noteq> 0" "TftpServerIP t \<noteq> 0xffffffff" "0 < eth_devs t"
    using assms(1) by (simp_all add: linked_def mac_of_def)
  from NetSendUDP_known [OF this(2,3,1,4), of "TftpServerPort t" "TftpOurPort t" pkt now] obtain frame where
    "udp_frame t (mac_of t NetServerEther) (TftpServerIP t) (TftpServerPort t) (TftpOurPort t) pkt frame"
    "NetSendUDPPacket t now NetServerEther (TftpServerIP t) (TftpServerPort t) (TftpOurPort t) pkt =
      Some (t\<lparr>NetIPID := NetIPID t + 1, sent := sent t @ [frame]\<rparr>, 0)" .
  then show thesis using that assms(2) by (simp add: TftpSend_def mac_of_def)
qed

text \<open>What the server's host makes of a frame, and the datagrams it gets from the client.\<close>

definition datagram :: "host \<Rightarrow> u8 list \<Rightarrow> (u32 \<times> u32 \<times> u8 list) option" where
  "datagram srv frame =
     (case NetReceive listen (srv\<lparr>got := []\<rparr>) frame (int (length frame)) of
        Some h \<Rightarrow> (case got h of [x] \<Rightarrow> Some x | _ \<Rightarrow> None) | None \<Rightarrow> None)"

definition heard :: "host \<Rightarrow> 'a tftp_scheme \<Rightarrow> u32 \<Rightarrow> u8 list \<Rightarrow> bool" where
  "heard srv t port d \<longleftrightarrow> (\<exists>frame \<in> set (sent t). \<exists>src. datagram srv frame = Some (port, src, d))"

lemma heard_cong: "sent t' = sent t \<Longrightarrow> heard srv t' p d = heard srv t p d" by (simp add: heard_def)

lemma datagram_udp:
  assumes "udp_frame t (server_ether t) (TftpServerIP t) (TftpServerPort t) (TftpOurPort t) pkt frame"
    and "linked srv t" and "length pkt \<le> 65507"
  shows "datagram srv frame = Some (TftpServerPort t, TftpOurPort t, pkt)"
proof -
  have "NetReceive listen (srv\<lparr>got := []\<rparr>) (frame @ []) (int (length frame)) =
      listen (packetHandler (srv\<lparr>got := []\<rparr>)) (pkt @ []) (TftpServerPort t) (TftpOurPort t) (of_nat (length pkt)) (srv\<lparr>got := []\<rparr>)"
    by (rule udp_frame_received [OF assms(1,3)]) (use assms(2) in \<open>auto simp: linked_def wf_macs_def untagged_def\<close>)
  moreover have "unat (of_nat (length pkt) :: u32) = length pkt" using assms(3) by (simp add: unat_of_nat)
  ultimately show ?thesis by (simp add: datagram_def listen_def)
qed

text \<open>Sending adds exactly one datagram to what the server hears, and changes nothing else.\<close>

lemma TftpSend_heard:
  assumes "linked srv t" and "tftp_packet t = Some pkt" and "length pkt \<le> 65507"
  obtains t' where "TftpSend now t = Some t'" and "\<And>p d. heard srv t' p d \<longleftrightarrow> heard srv t p d \<or> p = TftpServerPort t \<and> d = pkt"
    and "\<exists>i fs. t' = t\<lparr>NetIPID := i, sent := fs\<rparr>"
proof -
  from TftpSend_linked [OF assms(1,2)] obtain frame where
    f: "udp_frame t (server_ether t) (TftpServerIP t) (TftpServerPort t) (TftpOurPort t) pkt frame" and
    s: "TftpSend now t = Some (t\<lparr>NetIPID := NetIPID t + 1, sent := sent t @ [frame]\<rparr>)" .
  show thesis by (rule that [OF s]) (auto simp: heard_def datagram_udp [OF f assms(1,3)])
qed

section \<open>Well-formed addresses\<close>

text \<open>Every operation keeps the three Ethernet addresses six bytes long.\<close>

lemma wf_macs_simps [simp]:
  "wf_macs (say ms n) = wf_macs n" "wf_macs (eth_send f n) = wf_macs n" "wf_macs (ArpRequest n) = wf_macs n"
  "wf_macs (NetStartAgain env now n) = wf_macs n" "wf_macs (NetSetTimeout iv h now n) = wf_macs n" "wf_macs (NetSetHandler g n) = wf_macs n"
  by (simp_all add: wf_macs_def eth_send_def say_def ArpRequest_def Let_def NetSetTimeout_def NetSetHandler_def NetStartAgain_def eth_try_another_def)

lemma wf_macs_update [simp]:
  "wf_macs (t\<lparr>TftpState := a\<rparr>) = wf_macs t" "wf_macs (t\<lparr>TftpServerPort := b\<rparr>) = wf_macs t" "wf_macs (t\<lparr>TftpBlkSize := c\<rparr>) = wf_macs t"
  "wf_macs (t\<lparr>TftpBlock := d\<rparr>) = wf_macs t" "wf_macs (t\<lparr>TftpLastBlock := d\<rparr>) = wf_macs t" "wf_macs (t\<lparr>TftpBlockWrap := d\<rparr>) = wf_macs t"
  "wf_macs (t\<lparr>TftpBlockWrapOffset := d\<rparr>) = wf_macs t" "wf_macs (t\<lparr>TftpTimeoutMSecs := d\<rparr>) = wf_macs t" "wf_macs (t\<lparr>TftpTimeoutCountMax := e\<rparr>) = wf_macs t"
  "wf_macs (t\<lparr>NetState := g\<rparr>) = wf_macs t" "wf_macs (t\<lparr>NetBootFileXferSize := d\<rparr>) = wf_macs t" "wf_macs (t\<lparr>memory := m\<rparr>) = wf_macs t"
  for t :: "'a tftp_scheme" by (simp_all add: wf_macs_def)

lemma wf_macs_send: "NetSendUDPPacket n now p dest dport sport d = Some (n', r) \<Longrightarrow> wf_macs n' = wf_macs n"
  by (auto simp: NetSendUDPPacket_def NetSetIP_def Let_def split: option.splits if_splits) (simp_all add: wf_macs_def)

lemma wf_macs_TftpSend: "TftpSend now t = Some t' \<Longrightarrow> wf_macs t' = wf_macs t"
  by (auto simp: TftpSend_def wf_macs_send split: option.splits)

lemma wf_macs_store: "tftp_store now src len t = Some t' \<Longrightarrow> wf_macs t' = wf_macs t"
  by (auto simp: tftp_store_def store_block_def Let_def dest!: wf_macs_TftpSend split: option.splits if_splits)

lemma wf_macs_progress [simp]: "wf_macs (tftp_progress t) = wf_macs t"
  by (simp add: tftp_progress_def Let_def)

lemma wf_macs_handler: "run_handler env now f pkt dest src len t = Some t' \<Longrightarrow> wf_macs t' = wf_macs t"
  by (auto simp: run_handler_def ping_handler_def TftpHandler_def tftp_oack_def tftp_data_def tftp_error_def Let_def
      dest!: wf_macs_TftpSend wf_macs_store split: rxhand.splits option.splits if_splits)

end
