(* ===== verification/TftpSystem.thy ===== *)
theory TftpSystem
  imports Tftp
begin

text \<open>
  The TFTP client of \<^verbatim>\<open>net/tftp.c\<close> together with a server. The two exchange Ethernet frames: what the client
  sends is read from the frames it has transmitted, and a datagram of the server reaches the client in a frame
  that \<open>NetReceive\<close> examines. A datagram once sent may be delivered at any later time and any number of times,
  or never; timeouts may happen at any time.
\<close>

section \<open>The server\<close>

text \<open>
  A transfer: the file, the size of its blocks, and the options the server acknowledges; a server that
  knows no options answers a request with the first block.
\<close>

record transfer =
  tfile :: "u8 list"
  blk :: nat
  oack :: "u8 list option"

definition block :: "transfer \<Rightarrow> nat \<Rightarrow> u8 list" where "block x n = take (blk x) (drop ((n - 1) * blk x) (tfile x))"
definition last_block :: "transfer \<Rightarrow> nat" where "last_block x = length (tfile x) div blk x + 1"
definition data_packet :: "transfer \<Rightarrow> nat \<Rightarrow> u8 list" where
  "data_packet x n = put16 TFTP_DATA @ put16 (of_nat n) @ block x n"
definition oack_packet :: "u8 list \<Rightarrow> u8 list" where "oack_packet b = put16 TFTP_OACK @ b"

text \<open>What the server sends first, and the sizes for which the numbers of the blocks fit 16 bits.\<close>

definition first_reply :: "transfer \<Rightarrow> u8 list" where
  "first_reply x = (case oack x of None \<Rightarrow> data_packet x 1 | Some b \<Rightarrow> oack_packet b)"

definition ok_oack :: "transfer \<Rightarrow> bool" where
  "ok_oack x \<longleftrightarrow> (case oack x of None \<Rightarrow> blk x = 512
     | Some b \<Rightarrow> length b \<le> 1468 \<and>
         ((\<forall>stale. find_blksize (chars (b @ stale)) (length b) = Some (Some (of_nat (blk x)))) \<or>
          blk x = 512 \<and> (\<forall>stale. find_blksize (chars (b @ stale)) (length b) = Some None)))"

definition ok_transfer :: "transfer \<Rightarrow> bool" where
  "ok_transfer x \<longleftrightarrow> 0 < blk x \<and> blk x \<le> 65464 \<and> length (tfile x) < 65535 * blk x \<and> ok_oack x"

section \<open>The system\<close>

type_synonym sys = "tftp \<times> (u32 \<times> u8 list) set"

inductive tftp_step :: "host \<Rightarrow> transfer \<Rightarrow> sys \<Rightarrow> sys \<Rightarrow> bool" for srv x where
  receive: "running t \<Longrightarrow> (p, d) \<in> D \<Longrightarrow> untagged a \<Longrightarrow> length (NetOurEther a) = 6 \<Longrightarrow>
    udp_frame (a :: host) (NetOurEther t) (NetOurIP t) (TftpOurPort t) p d frame \<Longrightarrow>
    NetReceive (run_handler env now) t (frame @ stale) (int (length frame)) = Some t' \<Longrightarrow>
    tftp_step srv x (t, D) (t', D)"
| timeout: "running t \<Longrightarrow> timeHandler t = Some h \<Longrightarrow> run_timeout env now h (t\<lparr>timeHandler := None\<rparr>) = Some t' \<Longrightarrow>
    tftp_step srv x (t, D) (t', D)"
| request: "heard srv t WELL_KNOWN_PORT d \<Longrightarrow> get16 d 0 = TFTP_RRQ \<Longrightarrow> p < 65536 \<Longrightarrow>
    tftp_step srv x (t, D) (t, insert (p, first_reply x) D)"
| ack: "heard srv t p (ack_packet (of_nat n)) \<Longrightarrow> (p, first_reply x) \<in> D \<Longrightarrow> n < last_block x \<Longrightarrow>
    tftp_step srv x (t, D) (t, insert (p, data_packet x (n + 1)) D)"

definition tftp_init :: "host \<Rightarrow> tftp \<Rightarrow> bool" where
  "tftp_init srv t \<longleftrightarrow> running t \<and> linked srv t \<and> NetOurIP t \<noteq> 0 \<and> timeHandler t = Some TftpTimeout \<and> TftpState t = STATE_RRQ \<and> TftpBlkSize t = TFTP_BLOCK_SIZE \<and>
     TftpServerPort t = WELL_KNOWN_PORT \<and> TftpBlock t = 0 \<and> NetBootFileXferSize t = 0 \<and> length (tftp_filename t) < MAX_LEN \<and>
     (\<forall>p d. heard srv t p d \<longrightarrow> p = WELL_KNOWN_PORT \<and> get16 d 0 = TFTP_RRQ) \<and>
     (\<exists>d. heard srv t WELL_KNOWN_PORT d)"

definition tftp_reach :: "host \<Rightarrow> transfer \<Rightarrow> tftp \<Rightarrow> sys \<Rightarrow> bool" where
  "tftp_reach srv x t0 s \<longleftrightarrow> (tftp_step srv x)\<^sup>*\<^sup>* (t0, {}) s"

section \<open>Blocks and memory\<close>

definition ok_at :: "transfer \<Rightarrow> tftp \<Rightarrow> nat \<Rightarrow> bool" where
  "ok_at x t i \<longleftrightarrow> memory t (load_addr t + of_nat i) = tfile x ! i"

definition have_upto :: "transfer \<Rightarrow> tftp \<Rightarrow> nat \<Rightarrow> bool" where
  "have_upto x t k \<longleftrightarrow> (\<forall>i < length (tfile x). i < k * blk x \<longrightarrow> ok_at x t i)"

lemma block_length:
  assumes "0 < blk x" and "1 \<le> n" and "n \<le> last_block x"
  shows "length (block x n) = (if n = last_block x then length (tfile x) - (n - 1) * blk x else blk x)"
    and "length (block x n) < blk x \<longleftrightarrow> n = last_block x"
    and "(n - 1) * blk x + length (block x n) \<le> length (tfile x)"
proof -
  let ?l = "length (tfile x)" and ?b = "blk x"
  have d: "?l = ?l div ?b * ?b + ?l mod ?b" "?l mod ?b < ?b" using assms(1) by simp_all
  have le: "n - 1 \<le> ?l div ?b" using assms(3) by (simp add: last_block_def)
  show 1: "length (block x n) = (if n = last_block x then ?l - (n - 1) * ?b else ?b)"
  proof (cases "n = last_block x")
    case True
    then have "?l - (n - 1) * ?b = ?l mod ?b" by (simp add: last_block_def minus_div_mult_eq_mod)
    then show ?thesis using d(2) True by (simp add: block_def)
  next
    case False
    then have "n \<le> ?l div ?b" using assms(3) by (simp add: last_block_def)
    then have "n * ?b \<le> ?l" using d(1) by (metis le_add1 mult_le_mono1 order_trans)
    moreover have "n * ?b = (n - 1) * ?b + ?b" using assms(2) by (cases n) simp_all
    ultimately show ?thesis using False by (simp add: block_def)
  qed
  show "length (block x n) < ?b \<longleftrightarrow> n = last_block x"
    unfolding 1 using d by (simp add: last_block_def minus_div_mult_eq_mod)
  have "(n - 1) * ?b \<le> ?l" using mult_le_mono1 [OF le, of ?b] d(1) by linarith
  then show "(n - 1) * ?b + length (block x n) \<le> ?l" by (simp add: block_def)
qed

lemma ok_sizes:
  assumes "ok_transfer x"
  shows "last_block x \<le> 65535" and "length (tfile x) < 2 ^ 32"
proof -
  have "length (tfile x) div blk x < 65535" using assms by (simp add: ok_transfer_def div_less_iff_less_mult)
  then show "last_block x \<le> 65535" by (simp add: last_block_def)
  have "65535 * blk x \<le> 65535 * 65464" using assms by (simp add: ok_transfer_def)
  then show "length (tfile x) < 2 ^ 32" using assms by (simp add: ok_transfer_def)
qed

lemma unat_off: "a < 2 ^ 32 \<Longrightarrow> b < 2 ^ 32 \<Longrightarrow> unat (of_nat a - of_nat b :: u32) = (if b \<le> a then a - b else 2 ^ 32 + a - b)"
  by (simp add: unat_sub_if_size unat_of_nat word_size) arith

text \<open>Writing a block of the file at its place makes its bytes right and leaves the others.\<close>

lemma block_written:
  assumes x: "ok_transfer x" and n: "1 \<le> n" "n \<le> last_block x"
    and t': "memory t' = mem_write (memory t) (load_addr t + of_nat ((n - 1) * blk x)) (block x n)" "load_addr t' = load_addr t"
    and i: "i < length (tfile x)"
  shows "ok_at x t' i \<longleftrightarrow> (n - 1) * blk x \<le> i \<and> i < n * blk x \<or> ok_at x t i"
proof -
  let ?o = "(n - 1) * blk x"
  have b: "0 < blk x" using x by (simp add: ok_transfer_def)
  have end_le: "?o + length (block x n) \<le> length (tfile x)" by (rule block_length(3) [OF b n])
  have i32: "i < 2 ^ 32" "?o < 2 ^ 32" using ok_sizes(2) [OF x] i end_le by simp_all
  have u: "unat (load_addr t' + of_nat i - (load_addr t + of_nat ?o)) = (if ?o \<le> i then i - ?o else 2 ^ 32 + i - ?o)"
    using unat_off [OF i32] by (simp add: t'(2))
  have nb: "n * blk x = ?o + blk x" using n(1) by (cases n) simp_all
  have inside: "unat (load_addr t' + of_nat i - (load_addr t + of_nat ?o)) < length (block x n) \<longleftrightarrow> ?o \<le> i \<and> i < n * blk x"
  proof -
    define oo where "oo = ?o"
    have len: "length (block x n) = min (length (tfile x) - oo) (blk x)" by (simp add: block_def oo_def)
    show ?thesis unfolding u nb len unfolding oo_def [symmetric] using end_le [unfolded len oo_def [symmetric]] ok_sizes(2) [OF x] i by auto
  qed
  show ?thesis
  proof (cases "?o \<le> i \<and> i < n * blk x")
    case True
    then have "i - ?o < blk x" "?o + (i - ?o) = i" unfolding nb by linarith+
    then have "block x n ! (i - ?o) = tfile x ! i" using i True by (simp add: block_def del: One_nat_def)
    then show ?thesis using True inside u by (simp add: ok_at_def t'(1) mem_write_def)
  next
    case False
    then have "memory t' (load_addr t' + of_nat i) = memory t (load_addr t' + of_nat i)"
      using inside by (simp only: t'(1) mem_write_def if_False)
    then show ?thesis using False by (auto simp: ok_at_def t'(2))
  qed
qed

lemma block_outside:
  assumes x: "ok_transfer x" and n: "1 \<le> n" "n \<le> last_block x" and a: "length (tfile x) \<le> unat (a - l)"
  shows "mem_write m (l + of_nat ((n - 1) * blk x)) (block x n) a = m a"
proof -
  let ?o = "(n - 1) * blk x"
  have b: "0 < blk x" using x by (simp add: ok_transfer_def)
  have end_le: "?o + length (block x n) \<le> length (tfile x)" by (rule block_length(3) [OF b n])
  have o32: "?o < 2 ^ 32" using end_le ok_sizes(2) [OF x] by simp
  have u: "unat (of_nat ?o :: u32) = ?o" using o32 by (simp only: unat_of_nat) simp
  have "unat (a - (l + of_nat ?o)) = unat ((a - l) - of_nat ?o)" by (simp only: diff_diff_eq)
  also have "\<dots> = unat (a - l) - ?o"
  proof -
    have le: "(of_nat ?o :: u32) \<le> a - l" unfolding word_le_nat_alt u using end_le a by linarith
    show ?thesis unfolding unat_sub [OF le] u ..
  qed
  finally have "\<not> unat (a - (l + of_nat ?o)) < length (block x n)" using end_le a by linarith
  then show ?thesis by (simp add: mem_write_def)
qed

lemma have_upto_written:
  assumes x: "ok_transfer x" and n: "1 \<le> n" "n \<le> last_block x"
    and t': "memory t' = mem_write (memory t) (load_addr t + of_nat ((n - 1) * blk x)) (block x n)" "load_addr t' = load_addr t"
  shows "have_upto x t k \<Longrightarrow> have_upto x t' k" and "have_upto x t (n - 1) \<Longrightarrow> have_upto x t' n"
  using block_written [OF x n t'] by (auto simp: have_upto_def not_le)

lemma have_upto_last: "0 < blk x \<Longrightarrow> have_upto x t (last_block x) \<Longrightarrow> i < length (tfile x) \<Longrightarrow> ok_at x t i"
  using dividend_less_div_times [of "blk x" "length (tfile x)"] by (simp add: have_upto_def last_block_def add.commute)

lemma have_upto_cong: "memory t' = memory t \<Longrightarrow> load_addr t' = load_addr t \<Longrightarrow> have_upto x t' k = have_upto x t k"
  by (simp add: have_upto_def ok_at_def)

section \<open>One datagram\<close>

lemma rrq_texts:
  "vsprintf ''%lu'' [A32 (TIMEOUT div 1000)] = Some (''5'', [])"
  "vsprintf ''blksize%c%d%c'' [A32 0, A32 (ucast TftpBlkSizeOption), A32 0] = Some (''blksize'' @ [NUL] @ ''1468'' @ [NUL], [])"
  by code_simp+

lemma rrq_packet_eq:
  "rrq_packet t = Some (put16 TFTP_RRQ @ asciz (tftp_filename t) @ asciz ''octet'' @ asciz ''timeout'' @ asciz ''5'' @ asciz ''blksize'' @ asciz ''1468'')"
  by (simp add: rrq_packet_def rrq_texts asciz_def NUL_def)

lemma ack_get16 [simp]: "get16 (ack_packet b) 0 = TFTP_ACK" by (simp add: ack_packet_def)

lemma ack_length [simp]: "length (ack_packet b) = 4" by (simp add: ack_packet_def)

lemma put16_eq [simp]: "put16 a = put16 b \<longleftrightarrow> a = b" using get_put16(2) by metis

lemma ack_packet_eq:
  assumes "m \<le> 65535" and "n \<le> 65535"
  shows "ack_packet (of_nat m) = ack_packet (of_nat n) \<longleftrightarrow> m = n"
proof -
  have "(ucast (of_nat k :: u32) :: u16) = of_nat k" for k by (simp add: word_unat_eq_iff unsigned_ucast_eq unsigned_take_bit_eq unat_of_nat take_bit_eq_mod mod_mod_cancel)
  moreover have "(of_nat m :: u16) = of_nat n \<longleftrightarrow> m = n" using assms by (simp add: word_unat_eq_iff unat_of_nat)
  ultimately show ?thesis by (simp add: ack_packet_def)
qed

lemma data_packet_fields:
  "get16 (data_packet x n @ stale) 0 = TFTP_DATA" "drop 2 (data_packet x n @ stale) = put16 (of_nat n) @ block x n @ stale"
  "length (data_packet x n) = 4 + length (block x n)"
  by (simp_all add: data_packet_def)

lemma deliver_frame:
  assumes "running t" and "linked srv t" and "untagged (a :: host)" and "length (NetOurEther a) = 6"
    and "udp_frame a (NetOurEther t) (NetOurIP t) (TftpOurPort t) p d frame" and "p < 65536" and "length d \<le> 65507"
  shows "NetReceive (run_handler env now) t (frame @ stale) (int (length frame)) =
    TftpHandler env now (d @ stale) (TftpOurPort t) p (of_nat (length d)) t"
proof -
  have "NetReceive (run_handler env now) t (frame @ stale) (int (length frame)) =
      run_handler env now (packetHandler t) (d @ stale) (TftpOurPort t) p (of_nat (length d)) t"
    by (rule udp_frame_received [OF assms(5,7)]) (use assms in \<open>auto simp: linked_def wf_macs_def\<close>)
  then show ?thesis using assms(1) by (simp add: running_def run_handler_def)
qed

lemma frame_exists:
  obtains a :: host and frame where "untagged a" "length (NetOurEther a) = 6" "udp_frame a mac dest dport sport d frame"
proof -
  have h: "untagged host0" "length (NetOurEther host0) = 6" using net0_ok by (simp_all add: host0_def net.defs untagged_def wf_macs_def)
  obtain ip n' where "NetSetIP host0 dest dport sport (length d) = Some (ip, n')" by (rule NetSetIP_eq [of "length d" host0 dest])
  then show thesis using that [OF h] by (auto simp: udp_frame_def)
qed

text \<open>Every header field that no operation of the client changes.\<close>

definition same_host :: "tftp \<Rightarrow> tftp \<Rightarrow> bool" where
  "same_host t t' \<longleftrightarrow> NetOurEther t' = NetOurEther t \<and> server_ether t' = server_ether t \<and> ping_mac t' = ping_mac t \<and>
     NetOurVLAN t' = NetOurVLAN t \<and> NetOurIP t' = NetOurIP t \<and> eth_devs t' = eth_devs t \<and> TftpServerIP t' = TftpServerIP t \<and>
     TftpOurPort t' = TftpOurPort t \<and> NetArpWaitPacketIP t' = NetArpWaitPacketIP t \<and> load_addr t' = load_addr t \<and> tftp_filename t' = tftp_filename t"

lemma same_linked: "same_host t t' \<Longrightarrow> linked srv t \<Longrightarrow> TftpServerPort t' < 65536 \<Longrightarrow> linked srv t'"
  by (simp add: same_host_def linked_def wf_macs_def untagged_def)

text \<open>The new state after a block that is stored.\<close>

definition stored :: "host \<Rightarrow> transfer \<Rightarrow> nat \<Rightarrow> tftp \<Rightarrow> tftp \<Rightarrow> bool" where
  "stored srv x n t t' \<longleftrightarrow> same_host t t' \<and>
     memory t' = mem_write (memory t) (load_addr t + of_nat ((n - 1) * blk x)) (block x n) \<and>
     unat (NetBootFileXferSize t') = max (unat (NetBootFileXferSize t)) ((n - 1) * blk x + length (block x n)) \<and>
     (\<forall>p d. heard srv t' p d \<longleftrightarrow> heard srv t p d \<or> p = TftpServerPort t \<and> d = ack_packet (of_nat n)) \<and>
     TftpState t' = STATE_DATA \<and> TftpBlock t' = of_nat n \<and> TftpLastBlock t' = of_nat n \<and> TftpBlkSize t' = TftpBlkSize t \<and>
     TftpServerPort t' = TftpServerPort t \<and> TftpBlockWrapOffset t' = 0 \<and> timeHandler t' = Some TftpTimeout \<and>
     packetHandler t' = packetHandler t \<and> NetState t' = (if n = last_block x then NETLOOP_SUCCESS else NetState t)"

lemma store_spec:
  assumes x: "ok_transfer x" and n: "1 \<le> n" "n \<le> last_block x" and t: "linked srv t" "TftpState t = STATE_DATA"
    and f: "TftpBlkSize t = of_nat (blk x)" "TftpBlockWrapOffset t = 0" "TftpBlock t = of_nat n"
  obtains t' where "tftp_store now (block x n @ stale) (of_nat (length (block x n))) t = Some t'" and "stored srv x n t t'"
proof -
  let ?b = "block x n" and ?o = "(n - 1) * blk x"
  have b: "0 < blk x" "blk x \<le> 65464" using x by (simp_all add: ok_transfer_def)
  have end_le: "?o + length ?b \<le> length (tfile x)" by (rule block_length(3) [OF b(1) n])
  have len: "length ?b \<le> 65464" using b(2) by (simp add: block_def)
  have size: "length (tfile x) < 2 ^ 32" "n \<le> 65535" using ok_sizes [OF x] n by simp_all
  define t1 where "t1 = NetSetTimeout TIMEOUT TftpTimeout now
    (t\<lparr>TftpLastBlock := TftpBlock t, TftpTimeoutMSecs := TIMEOUT, TftpTimeoutCountMax := TIMEOUT_COUNT\<rparr>)"
  have step: "tftp_store now src l t = (case store_block (TftpBlock t1 - 1) src l t1 of None \<Rightarrow> None
      | Some t \<Rightarrow> (case TftpSend now t of None \<Rightarrow> None
          | Some t \<Rightarrow> Some (if l < ucast (TftpBlkSize t) then (say [Puts (nl @ ''done'' @ nl)] t)\<lparr>NetState := NETLOOP_SUCCESS\<rparr> else t)))" for src l
  proof -
    have "TftpTimeoutMSecs (t\<lparr>TftpLastBlock := TftpBlock t, TftpTimeoutMSecs := TIMEOUT, TftpTimeoutCountMax := TIMEOUT_COUNT\<rparr>) = TIMEOUT" by simp
    then show ?thesis by (simp only: tftp_store_def Let_def t1_def)
  qed
  have t1: "linked srv t1" "sent t1 = sent t" "TftpState t1 = STATE_DATA" "TftpBlock t1 = of_nat n" "same_host t t1"
    "TftpBlkSize t1 = of_nat (blk x)" "TftpBlockWrapOffset t1 = 0" "memory t1 = memory t" "load_addr t1 = load_addr t"
    "NetBootFileXferSize t1 = NetBootFileXferSize t" "TftpServerPort t1 = TftpServerPort t"
    "TftpLastBlock t1 = of_nat n" "timeHandler t1 = Some TftpTimeout" "packetHandler t1 = packetHandler t" "NetState t1 = NetState t"
    using t f by (simp_all add: t1_def NetSetTimeout_def TIMEOUT_def linked_def wf_macs_def untagged_def same_host_def)
  have off: "(of_nat n - 1) * ucast (of_nat (blk x) :: u16) + 0 = (of_nat ?o :: u32)"
  proof -
    have "(of_nat n - 1 :: u32) = of_nat (n - 1)" using n(1) by simp
    then show ?thesis using b(2) by (simp only: ucast_u16_of_nat of_nat_mult add_0_right)
  qed
  have ulen: "unat (of_nat (length ?b) :: u32) = length ?b" using len by (simp add: unat_of_nat)
  have usize: "unat (of_nat ?o + of_nat (length ?b) :: u32) = ?o + length ?b" using end_le size(1)
    by (simp only: of_nat_add [symmetric] unat_of_nat) simp
  define t2 where "t2 = t1\<lparr>memory := mem_write (memory t1) (load_addr t1 + of_nat ?o) ?b,
    NetBootFileXferSize := (if NetBootFileXferSize t1 < of_nat ?o + of_nat (length ?b) then of_nat ?o + of_nat (length ?b) else NetBootFileXferSize t1)\<rparr>"
  have st: "store_block (of_nat n - 1) (?b @ stale) (of_nat (length ?b)) t1 = Some t2"
    unfolding store_block_def t1(6,7) Let_def off ulen t2_def by simp
  have t2l: "linked srv t2" "tftp_packet t2 = Some (ack_packet (of_nat n))"
    using t1(1,3,4) by (simp_all add: linked_def wf_macs_def untagged_def tftp_packet_def t2_def)
  have al: "length (ack_packet (of_nat n)) \<le> 65507" by simp
  obtain t3 where t3: "TftpSend now t2 = Some t3"
    "\<And>p d. heard srv t3 p d \<longleftrightarrow> heard srv t2 p d \<or> p = TftpServerPort t2 \<and> d = ack_packet (of_nat n)"
    "\<exists>i fs. t3 = t2\<lparr>NetIPID := i, sent := fs\<rparr>" by (rule TftpSend_heard [OF t2l al, of now]) blast
  from t3(3) obtain i fs where t3e: "t3 = t2\<lparr>NetIPID := i, sent := fs\<rparr>" by blast
  let ?t' = "if n = last_block x then (say [Puts (nl @ ''done'' @ nl)] t3)\<lparr>NetState := NETLOOP_SUCCESS\<rparr> else t3"
  have short: "(of_nat (length ?b) :: u32) < ucast (TftpBlkSize t3) \<longleftrightarrow> n = last_block x"
  proof -
    have "ucast (TftpBlkSize t3) = (of_nat (blk x) :: u32)" using b(2) by (simp add: t3e t2_def t1(6) ucast_u16_of_nat)
    moreover have "unat (of_nat (blk x) :: u32) = blk x" using b(2) by (simp add: unat_of_nat)
    ultimately show ?thesis using block_length(2) [OF b(1) n] by (simp add: word_less_nat_alt ulen)
  qed
  show thesis
  proof (rule that)
    show "tftp_store now (?b @ stale) (of_nat (length ?b)) t = Some ?t'"
      unfolding step t1(4) st option.case t3(1) short by simp
    have "heard srv ?t' p d \<longleftrightarrow> heard srv t p d \<or> p = TftpServerPort t \<and> d = ack_packet (of_nat n)" for p d
      using t3(2) [of p d] t1(2,11) by (auto simp: heard_def t2_def)
    moreover have "unat (NetBootFileXferSize ?t') = max (unat (NetBootFileXferSize t)) (?o + length ?b)"
      using usize t1(10) by (auto simp: t3e t2_def word_less_nat_alt)
    ultimately show "stored srv x n t ?t'" using t1(3-15) f(1) unfolding stored_def same_host_def
      by (simp add: t3e t2_def)
  qed
qed

text \<open>States that differ only in messages and in the bookkeeping of the transfer.\<close>

definition quiet :: "tftp \<Rightarrow> tftp \<Rightarrow> bool" where
  "quiet t t' \<longleftrightarrow> same_host t t' \<and> memory t' = memory t \<and> NetBootFileXferSize t' = NetBootFileXferSize t \<and> sent t' = sent t \<and>
     TftpBlkSize t' = TftpBlkSize t"

lemma progress_say: "TftpBlock t \<noteq> 0 \<Longrightarrow> \<exists>ms. tftp_progress t = say ms t"
  unfolding tftp_progress_def by (auto simp: say_def intro: exI [of _ "[]"])

lemma handler_data:
  assumes x: "ok_transfer x" and n: "1 \<le> n" "n \<le> last_block x"
  shows "TftpHandler env now (data_packet x n @ stale) (TftpOurPort t) p (of_nat (length (data_packet x n))) t =
    (if TftpState t \<noteq> STATE_RRQ \<and> p \<noteq> TftpServerPort t then Some t
     else (let t = tftp_progress (t\<lparr>TftpBlock := of_nat n\<rparr>);
               first = (TftpState t = STATE_RRQ \<or> TftpState t = STATE_OACK);
               t = (if first then t\<lparr>TftpState := STATE_DATA, TftpServerPort := p, TftpLastBlock := 0, TftpBlockWrap := 0,
                     TftpBlockWrapOffset := 0\<rparr> else t)
           in if first \<and> TftpBlock t \<noteq> 1
              then Some (NetStartAgain env now
                (say [Printf (nl @ ''TFTP error: First block is not block 1 (%ld)'' @ nl @ ''Starting again'' @ nl @ nl) [A32 (TftpBlock t)]] t))
              else if TftpBlock t = TftpLastBlock t then Some t
              else tftp_store now (block x n @ stale) (of_nat (length (block x n))) t))"
proof -
  have lb: "length (block x n) \<le> 65464" using x by (simp add: block_def ok_transfer_def min.coboundedI2)
  have n16: "(ucast (of_nat n :: u16) :: u32) = of_nat n" using ok_sizes(1) [OF x] n by (intro ucast_u16_of_nat) simp
  have l: "(of_nat (length (data_packet x n)) :: u32) - 2 = of_nat (2 + length (block x n))"
    "(of_nat (2 + length (block x n)) :: u32) - 2 = of_nat (length (block x n))"
    by (simp_all add: data_packet_fields)
  have g: "\<not> (of_nat (length (data_packet x n)) :: u32) < 2" "\<not> (of_nat (2 + length (block x n)) :: u32) < 2"
    using lb by (simp_all only: data_packet_fields word_less_nat_alt unat_of_nat) simp_all
  have ne: "TFTP_DATA \<noteq> TFTP_OACK" by (simp add: TFTP_DATA_def TFTP_OACK_def)
  have pk: "get16 (put16 (of_nat n) @ block x n @ stale) 0 = of_nat n" "drop 2 (put16 (of_nat n) @ block x n @ stale) = block x n @ stale" by simp_all
  show ?thesis unfolding TftpHandler_def tftp_data_def Let_def data_packet_fields(1,2) l pk n16
    by (simp only: g ne l if_False if_True simp_thms not_True_eq_False)
qed

lemma data_spec:
  assumes x: "ok_transfer x" and n: "1 \<le> n" "n \<le> last_block x" and t: "running t" "linked srv t" "p < 65536"
    and s: "TftpState t \<in> {STATE_RRQ, STATE_OACK, STATE_DATA}" "TftpState t = STATE_DATA \<longrightarrow> TftpBlockWrapOffset t = 0"
    and b: "TftpBlkSize t = of_nat (blk x)"
    and H: "TftpHandler env now (data_packet x n @ stale) (TftpOurPort t) p (of_nat (length (data_packet x n))) t = H"
  obtains (filtered) "TftpState t \<noteq> STATE_RRQ" "p \<noteq> TftpServerPort t" "H = Some t"
  | (restart) t' where "TftpState t \<noteq> STATE_DATA" "n \<noteq> 1" "H = Some t'" "quiet t t'" "\<not> running t'" "NetState t' \<noteq> NETLOOP_SUCCESS"
      "TftpServerPort t' = p"
  | (again) t' where "TftpState t = STATE_DATA" "of_nat n = TftpLastBlock t" "H = Some t'" "quiet t t'" "running t'"
      "TftpState t' = STATE_DATA" "TftpBlock t' = of_nat n" "TftpLastBlock t' = TftpLastBlock t" "TftpServerPort t' = TftpServerPort t"
      "TftpBlockWrapOffset t' = 0" "timeHandler t' = timeHandler t"
  | (store) t1 t' where "H = Some t'" "TftpState t = STATE_DATA \<or> n = 1" "TftpState t = STATE_RRQ \<or> p = TftpServerPort t" "quiet t t1" "running t1"
      "TftpServerPort t1 = p" "stored srv x n t1 t'"
proof (cases "TftpState t \<noteq> STATE_RRQ \<and> p \<noteq> TftpServerPort t")
  case True
  then have "H = Some t" unfolding H [symmetric] handler_data [OF x n] by simp
  then show thesis using True by (intro filtered) auto
next
  case False
  have n0: "(of_nat n :: u32) \<noteq> 0" "(of_nat n :: u32) = 1 \<longleftrightarrow> n = 1"
    using n ok_sizes(1) [OF x] by (simp_all add: word_unat_eq_iff unat_of_nat)
  obtain ms where pr: "tftp_progress (t\<lparr>TftpBlock := of_nat n\<rparr>) = say ms (t\<lparr>TftpBlock := of_nat n\<rparr>)"
    using progress_say [of "t\<lparr>TftpBlock := of_nat n\<rparr>"] n0 by auto
  let ?first = "TftpState t = STATE_RRQ \<or> TftpState t = STATE_OACK"
  let ?u = "say ms (t\<lparr>TftpBlock := of_nat n\<rparr>)"
  define t1 where "t1 = (if ?first then ?u\<lparr>TftpState := STATE_DATA, TftpServerPort := p, TftpLastBlock := 0, TftpBlockWrap := 0,
                     TftpBlockWrapOffset := 0\<rparr> else ?u)"
  have t1: "quiet t t1" "running t1" "TftpState t1 = STATE_DATA" "TftpServerPort t1 = p" "TftpBlock t1 = of_nat n"
    "TftpBlockWrapOffset t1 = 0" "timeHandler t1 = timeHandler t" "TftpLastBlock t1 = (if ?first then 0 else TftpLastBlock t)"
    using s t(1) False by (auto simp: t1_def quiet_def same_host_def running_def)
  have eq: "H = (if ?first \<and> n \<noteq> 1 then Some (NetStartAgain env now
          (say [Printf (nl @ ''TFTP error: First block is not block 1 (%ld)'' @ nl @ ''Starting again'' @ nl @ nl) [A32 (TftpBlock t1)]] t1))
      else if of_nat n = TftpLastBlock t1 then Some t1 else tftp_store now (block x n @ stale) (of_nat (length (block x n))) t1)"
    unfolding H [symmetric] handler_data [OF x n] if_not_P [OF False] pr Let_def using n0 by (simp add: t1_def)
  show thesis
  proof (cases "?first \<and> n \<noteq> 1")
    case True
    have r: "quiet t (NetStartAgain env now (say ms t1))" "NetState (NetStartAgain env now (say ms t1)) \<noteq> NETLOOP_SUCCESS"
      "TftpServerPort (NetStartAgain env now (say ms t1)) = p" for ms
      using t1(1,2,4) by (simp_all add: quiet_def same_host_def running_def again_not_success)
    show thesis by (rule restart [OF _ _ _ r(1) again_stops r(2,3)]) (use True eq in auto)
  next
    case nf: False
    show thesis
    proof (cases "of_nat n = TftpLastBlock t1")
      case True
      then have "\<not> ?first" using t1(8) n0 by auto
      then show thesis using True nf eq t1 s False by (intro again [of t1]) auto
    next
      case no: False
      have "same_host t t1" using t1(1) by (simp only: quiet_def)
      moreover have "TftpServerPort t1 < 65536" using t(3) by (simp only: t1(4))
      ultimately have l: "linked srv t1" using t(2) by (intro same_linked [of t t1])
      have bb: "TftpBlkSize t1 = of_nat (blk x)" using t1(1) b by (simp add: quiet_def)
      obtain t' where "tftp_store now (block x n @ stale) (of_nat (length (block x n))) t1 = Some t'" "stored srv x n t1 t'"
        by (rule store_spec [OF x n l t1(3) bb t1(6,5)])
      then have ht: "H = Some t'" "stored srv x n t1 t'" using eq nf no by (simp_all only: if_not_P if_False)
      have "TftpState t = STATE_DATA \<or> n = 1" "TftpState t = STATE_RRQ \<or> p = TftpServerPort t" using nf s(1) False by blast+
      from store [OF ht(1) this t1(1,2,4) ht(2)] show thesis .
    qed
  qed
qed

lemma handler_oack:
  assumes "length b \<le> 1468"
  shows "TftpHandler env now (oack_packet b @ stale) (TftpOurPort t) p (of_nat (length (oack_packet b))) t =
    (if TftpState t \<noteq> STATE_RRQ \<and> p \<noteq> TftpServerPort t then Some t else tftp_oack now (b @ stale) p (length b) t)"
proof -
  have l: "(of_nat (length (oack_packet b)) :: u32) - 2 = of_nat (length b)" by (simp add: oack_packet_def)
  have u: "unat (of_nat (length b) :: u32) = length b" using assms by (simp add: unat_of_nat)
  have g: "\<not> (of_nat (length (oack_packet b)) :: u32) < 2"
    using assms by (simp only: word_less_nat_alt unat_of_nat oack_packet_def) simp
  have pk: "get16 (oack_packet b @ stale) 0 = TFTP_OACK" "drop 2 (oack_packet b @ stale) = b @ stale" by (simp_all add: oack_packet_def)
  show ?thesis unfolding TftpHandler_def Let_def pk l u by (simp only: g if_False if_True simp_thms not_True_eq_False)
qed

text \<open>The new state after a packet that was answered or sent again.\<close>

definition resent :: "host \<Rightarrow> u8 list \<Rightarrow> tftp \<Rightarrow> tftp \<Rightarrow> bool" where
  "resent srv pkt t t' \<longleftrightarrow> same_host t t' \<and> memory t' = memory t \<and> NetBootFileXferSize t' = NetBootFileXferSize t \<and>
     TftpBlkSize t' = TftpBlkSize t \<and> TftpBlock t' = TftpBlock t \<and> TftpLastBlock t' = TftpLastBlock t \<and> TftpState t' = TftpState t \<and>
     TftpServerPort t' = TftpServerPort t \<and> TftpBlockWrapOffset t' = TftpBlockWrapOffset t \<and> timeHandler t' = timeHandler t \<and>
     running t' = running t \<and> NetState t' = NetState t \<and>
     (\<forall>p d. heard srv t' p d \<longleftrightarrow> heard srv t p d \<or> p = TftpServerPort t \<and> d = pkt)"

lemma send_resent:
  assumes "linked srv t" and "tftp_packet t = Some pkt" and "length pkt \<le> 65507"
  obtains t' where "TftpSend now t = Some t'" and "resent srv pkt t t'"
proof -
  obtain t' where t': "TftpSend now t = Some t'"
    "\<And>p d. heard srv t' p d \<longleftrightarrow> heard srv t p d \<or> p = TftpServerPort t \<and> d = pkt"
    "\<exists>i fs. t' = t\<lparr>NetIPID := i, sent := fs\<rparr>" by (rule TftpSend_heard [OF assms, of now]) blast
  have "resent srv pkt t t'" using t'(2,3) by (auto simp: resent_def same_host_def running_def)
  with t'(1) show thesis by (rule that)
qed

lemma oack_spec:
  assumes x: "ok_oack x" "oack x = Some b" and t: "linked srv t" "p < 65536"
    and bs: "TftpBlkSize t = 512 \<or> TftpBlkSize t = of_nat (blk x)"
    and H: "TftpHandler env now (oack_packet b @ stale) (TftpOurPort t) p (of_nat (length (oack_packet b))) t = H"
  obtains (filtered) "TftpState t \<noteq> STATE_RRQ" "p \<noteq> TftpServerPort t" "H = Some t"
  | (acked) t' where "TftpState t = STATE_RRQ \<or> p = TftpServerPort t" "H = Some t'"
      "resent srv (ack_packet (TftpBlock t)) (t\<lparr>TftpState := STATE_OACK, TftpServerPort := p, TftpBlkSize := of_nat (blk x)\<rparr>) t'"
proof (cases "TftpState t \<noteq> STATE_RRQ \<and> p \<noteq> TftpServerPort t")
  case True
  have b: "length b \<le> 1468" using x by (simp add: ok_oack_def)
  have "H = Some t" using True unfolding H [symmetric] handler_oack [OF b] by simp
  then show thesis using True by (intro filtered) auto
next
  case False
  have b: "length b \<le> 1468" using x by (simp add: ok_oack_def)
  let ?u = "t\<lparr>TftpState := STATE_OACK, TftpServerPort := p, TftpBlkSize := of_nat (blk x)\<rparr>"
  have "tftp_oack now (b @ stale) p (length b) t = TftpSend now ?u"
  proof (cases "find_blksize (chars (b @ stale)) (length b) = Some None")
    case True
    then have "blk x = 512" using x by (auto simp: ok_oack_def)
    then have "?u = t\<lparr>TftpState := STATE_OACK, TftpServerPort := p\<rparr>" using bs by simp
    then show ?thesis using True by (simp add: tftp_oack_def)
  next
    case False
    then have "find_blksize (chars (b @ stale)) (length b) = Some (Some (of_nat (blk x)))" using x by (auto simp: ok_oack_def)
    then show ?thesis by (simp add: tftp_oack_def)
  qed
  moreover have "linked srv ?u" "tftp_packet ?u = Some (ack_packet (TftpBlock t))"
    using t by (simp_all add: linked_def wf_macs_def untagged_def tftp_packet_def)
  then obtain t' where "TftpSend now ?u = Some t'" "resent srv (ack_packet (TftpBlock t)) ?u t'"
    by (rule send_resent) simp_all
  moreover from calculation have "H = Some t'" unfolding H [symmetric] handler_oack [OF b] if_not_P [OF False] by simp
  ultimately show thesis using False by (intro acked [of t']) blast+
qed

lemma packet_length:
  assumes "length (tftp_filename t) < MAX_LEN" and "TftpState t \<in> {STATE_RRQ, STATE_OACK, STATE_DATA}"
  obtains pkt where "tftp_packet t = Some pkt" and "length pkt \<le> 65507"
    and "TftpState t = STATE_RRQ \<Longrightarrow> get16 pkt 0 = TFTP_RRQ" and "TftpState t \<noteq> STATE_RRQ \<Longrightarrow> pkt = ack_packet (TftpBlock t)"
  using assms that by (cases "TftpState t") (auto simp: tftp_packet_def rrq_packet_eq asciz_def MAX_LEN_def)

lemma timeout_spec:
  assumes t: "running t" "linked srv t" and s: "length (tftp_filename t) < MAX_LEN" "TftpState t \<in> {STATE_RRQ, STATE_OACK, STATE_DATA}"
    and pkt: "tftp_packet t = Some pkt" "length pkt \<le> 65507" and H: "tftp_timeout env now (t\<lparr>timeHandler := None\<rparr>) = H"
  obtains (giveup) t' where "H = Some t'" "quiet t t'" "\<not> running t'" "NetState t' \<noteq> NETLOOP_SUCCESS" "TftpServerPort t' = TftpServerPort t"
  | (again) u t' where "H = Some t'" "quiet t u" "TftpBlock u = TftpBlock t" "TftpLastBlock u = TftpLastBlock t" "TftpState u = TftpState t"
     "TftpServerPort u = TftpServerPort t" "TftpBlockWrapOffset u = TftpBlockWrapOffset t" "running u"
     "timeHandler u = None \<or> timeHandler u = Some TftpTimeout" "resent srv pkt u t'"
proof -
  let ?c = "t\<lparr>timeHandler := None, TftpTimeoutCount := TftpTimeoutCount t + 1\<rparr>"
  show thesis
  proof (cases "TftpTimeoutCount ?c > TftpTimeoutCountMax ?c")
    case True
    have r: "quiet t (NetStartAgain env now (say ms ?c))" "NetState (NetStartAgain env now (say ms ?c)) \<noteq> NETLOOP_SUCCESS"
      "TftpServerPort (NetStartAgain env now (say ms ?c)) = TftpServerPort t" for ms
      using t by (simp_all add: quiet_def same_host_def running_def again_not_success)
    have "H = Some (NetStartAgain env now (say [Puts (nl @ ''Retry count exceeded; starting again'' @ nl)] ?c))"
      unfolding H [symmetric] tftp_timeout_def using True by simp
    from giveup [OF this r(1) again_stops r(2,3)] show thesis .
  next
    case False
    define u where "u = NetSetTimeout (TftpTimeoutMSecs ?c) TftpTimeout now (say [Puts ''T ''] ?c)"
    have u: "quiet t u" "TftpBlock u = TftpBlock t" "TftpLastBlock u = TftpLastBlock t" "TftpState u = TftpState t"
     "TftpServerPort u = TftpServerPort t" "TftpBlockWrapOffset u = TftpBlockWrapOffset t" "running u"
     "timeHandler u = None \<or> timeHandler u = Some TftpTimeout"
      using t by (simp_all add: u_def NetSetTimeout_def quiet_def same_host_def running_def)
    have "tftp_packet u = tftp_packet t" using u(1,2,4) by (simp add: tftp_packet_def rrq_packet_eq quiet_def same_host_def split: tftp_state.split)
    moreover have "linked srv u" using u(1,5) t(2) by (intro same_linked [of t u]) (simp_all add: quiet_def linked_def)
    ultimately obtain t' where t': "TftpSend now u = Some t'" "resent srv pkt u t'" using send_resent [of srv u pkt] pkt by metis
    have "H = Some t'" using False t'(1) unfolding H [symmetric] tftp_timeout_def by (simp add: u_def say_def)
    from again [OF this u(1-8) t'(2)] show thesis .
  qed
qed

section \<open>The invariant\<close>

text \<open>
  What the server may have heard, what it may have sent, and how far a running transfer is: all blocks up to
  the one last acknowledged are in memory.
\<close>

definition known_ack :: "transfer \<Rightarrow> tftp \<Rightarrow> u32 \<Rightarrow> u8 list \<Rightarrow> bool" where
  "known_ack x t p d \<longleftrightarrow> p = WELL_KNOWN_PORT \<and> get16 d 0 = TFTP_RRQ \<or>
     (\<exists>n \<le> last_block x. d = ack_packet (of_nat n) \<and> have_upto x t n \<and> TftpBlkSize t = of_nat (blk x))"

definition known_data :: "transfer \<Rightarrow> tftp \<Rightarrow> u8 list \<Rightarrow> bool" where
  "known_data x t d \<longleftrightarrow> (\<exists>b. oack x = Some b \<and> d = oack_packet b) \<or>
     (\<exists>n. 1 \<le> n \<and> n \<le> last_block x \<and> d = data_packet x n \<and> have_upto x t (n - 1) \<and> TftpBlkSize t = of_nat (blk x))"

definition at_block :: "host \<Rightarrow> transfer \<Rightarrow> sys \<Rightarrow> nat \<Rightarrow> bool" where
  "at_block srv x s k \<longleftrightarrow> (case s of (t, D) \<Rightarrow>
     k < last_block x \<and> TftpBlock t = of_nat k \<and> have_upto x t k \<and> TftpState t \<in> {STATE_RRQ, STATE_OACK, STATE_DATA} \<and>
     (timeHandler t = None \<or> timeHandler t = Some TftpTimeout) \<and>
     (TftpState t = STATE_RRQ \<longrightarrow> k = 0 \<and> TftpServerPort t = WELL_KNOWN_PORT \<and> (\<exists>d. heard srv t WELL_KNOWN_PORT d \<and> get16 d 0 = TFTP_RRQ)) \<and>
     (TftpState t \<noteq> STATE_RRQ \<longrightarrow> TftpBlkSize t = of_nat (blk x) \<and> (TftpServerPort t, first_reply x) \<in> D \<and>
        heard srv t (TftpServerPort t) (ack_packet (of_nat k))) \<and>
     (1 \<le> k \<longrightarrow> (TftpServerPort t, data_packet x 1) \<in> D) \<and>
     (TftpState t = STATE_DATA \<longrightarrow> 1 \<le> k \<and> TftpLastBlock t = of_nat k \<and> TftpBlockWrapOffset t = 0))"

text \<open>What holds of the client alone; \<open>t0\<close> is the state the transfer started in.\<close>

definition client_inv :: "host \<Rightarrow> transfer \<Rightarrow> tftp \<Rightarrow> tftp \<Rightarrow> bool" where
  "client_inv srv x t0 t \<longleftrightarrow> linked srv t \<and> length (tftp_filename t) < MAX_LEN \<and> NetArpWaitPacketIP t = NetArpWaitPacketIP t0 \<and> NetOurIP t \<noteq> 0 \<and> load_addr t = load_addr t0 \<and>
     (\<forall>a. length (tfile x) \<le> unat (a - load_addr t0) \<longrightarrow> memory t a = memory t0 a) \<and>
     unat (NetBootFileXferSize t) \<le> length (tfile x) \<and> (TftpBlkSize t = 512 \<or> TftpBlkSize t = of_nat (blk x)) \<and>
     (NetState t = NETLOOP_SUCCESS \<longrightarrow> (\<forall>i < length (tfile x). ok_at x t i) \<and> unat (NetBootFileXferSize t) = length (tfile x))"

definition tftp_inv :: "host \<Rightarrow> transfer \<Rightarrow> tftp \<Rightarrow> sys \<Rightarrow> bool" where
  "tftp_inv srv x t0 s \<longleftrightarrow> (case s of (t, D) \<Rightarrow> client_inv srv x t0 t \<and>
     (\<forall>p d. heard srv t p d \<longrightarrow> known_ack x t p d) \<and>
     (\<forall>p d. (p, d) \<in> D \<longrightarrow> p < 65536 \<and> known_data x t d \<and> (p, first_reply x) \<in> D) \<and>
     (running t \<longrightarrow> (\<exists>k. at_block srv x s k)))"

text \<open>What is known stays known while blocks are only added.\<close>

definition grows :: "transfer \<Rightarrow> tftp \<Rightarrow> tftp \<Rightarrow> bool" where
  "grows x t t' \<longleftrightarrow> (\<forall>k. have_upto x t k \<longrightarrow> have_upto x t' k) \<and> (TftpBlkSize t = of_nat (blk x) \<longrightarrow> TftpBlkSize t' = of_nat (blk x))"

lemma known_grows:
  "grows x t t' \<Longrightarrow> known_ack x t p d \<Longrightarrow> known_ack x t' p d" "grows x t t' \<Longrightarrow> known_data x t d \<Longrightarrow> known_data x t' d"
  unfolding grows_def known_ack_def known_data_def by blast+

lemma same_grows: "memory t' = memory t \<Longrightarrow> load_addr t' = load_addr t \<Longrightarrow> TftpBlkSize t' = TftpBlkSize t \<Longrightarrow> grows x t t'"
  by (simp add: grows_def have_upto_def ok_at_def)

lemma quiet_grows: "quiet t t' \<Longrightarrow> grows x t t'" by (rule same_grows) (simp_all add: quiet_def same_host_def)

lemma stored_grows:
  assumes "ok_transfer x" "1 \<le> n" "n \<le> last_block x" "stored srv x n t t'"
  shows "grows x t t'" and "have_upto x t (n - 1) \<Longrightarrow> have_upto x t' n"
  using have_upto_written [OF assms(1-3), of t' t] assms(4) by (simp_all add: grows_def stored_def same_host_def)

lemma inv_grows:
  assumes "tftp_inv srv x t0 (t, D)" and "grows x t t'" and "client_inv srv x t0 t'"
    and "\<And>p d. heard srv t' p d \<Longrightarrow> heard srv t p d \<or> known_ack x t' p d" and "running t' \<Longrightarrow> \<exists>k. at_block srv x (t', D) k"
  shows "tftp_inv srv x t0 (t', D)"
  using assms known_grows [OF assms(2)] unfolding tftp_inv_def by blast

lemma client_same:
  assumes "client_inv srv x t0 t" and "same_host t t'" and "memory t' = memory t" and "NetBootFileXferSize t' = NetBootFileXferSize t"
    and "TftpBlkSize t' = 512 \<or> TftpBlkSize t' = of_nat (blk x)" and "TftpServerPort t' < 65536"
    and "NetState t' = NetState t \<or> NetState t' \<noteq> NETLOOP_SUCCESS"
  shows "client_inv srv x t0 t'"
proof -
  have "linked srv t'" using same_linked [OF assms(2) _ assms(6)] assms(1) by (simp add: client_inv_def)
  then show ?thesis using assms(1-5,7) by (auto simp: client_inv_def same_host_def ok_at_def)
qed

lemma client_stored:
  assumes x: "ok_transfer x" and n: "1 \<le> n" "n \<le> last_block x" and c: "client_inv srv x t0 t" and s: "stored srv x n t t'"
    and h: "have_upto x t (n - 1)" and r: "running t"
  shows "client_inv srv x t0 t'"
proof -
  have b: "0 < blk x" using x by (simp add: ok_transfer_def)
  have "linked srv t'" using s c same_linked [of t t' srv] by (simp add: stored_def client_inv_def linked_def)
  moreover have "memory t' a = memory t0 a" if "length (tfile x) \<le> unat (a - load_addr t0)" for a
    using block_outside [OF x n that] s c that by (simp add: stored_def client_inv_def)
  moreover have "unat (NetBootFileXferSize t') \<le> length (tfile x)"
    using block_length(3) [OF b n] s c by (simp add: stored_def client_inv_def)
  moreover have "(\<forall>i < length (tfile x). ok_at x t' i) \<and> unat (NetBootFileXferSize t') = length (tfile x)" if "NetState t' = NETLOOP_SUCCESS"
  proof -
    have nl: "n = last_block x" using that s r by (auto simp: stored_def running_def split: if_splits)
    then have "have_upto x t' (last_block x)" using stored_grows(2) [OF x n s h] by simp
    then have "\<forall>i < length (tfile x). ok_at x t' i" using have_upto_last [OF b] by blast
    moreover have "(n - 1) * blk x + length (block x n) = length (tfile x)"
      using block_length(1,3) [OF b n] nl by simp
    then have "unat (NetBootFileXferSize t') = length (tfile x)" using s c by (simp add: stored_def client_inv_def)
    ultimately show ?thesis by blast
  qed
  ultimately show ?thesis using s c by (auto simp: client_inv_def stored_def same_host_def)
qed

lemma inv_unfold:
  assumes "tftp_inv srv x t0 (t, D)"
  shows "client_inv srv x t0 t" and "linked srv t" and "length (tftp_filename t) < MAX_LEN" and "TftpServerPort t < 65536"
    and "heard srv t p d \<Longrightarrow> known_ack x t p d" and "(p, d) \<in> D \<Longrightarrow> p < 65536 \<and> known_data x t d \<and> (p, first_reply x) \<in> D"
    and "running t \<Longrightarrow> \<exists>k. at_block srv x (t, D) k"
  using assms by (auto simp: tftp_inv_def client_inv_def linked_def)

lemma inv_oack:
  assumes x: "ok_transfer x" "oack x = Some b" and i: "tftp_inv srv x t0 (t, D)" and r: "running t" and d: "(p, oack_packet b) \<in> D"
    and H: "TftpHandler env now (oack_packet b @ stale) (TftpOurPort t) p (of_nat (length (oack_packet b))) t = Some t'"
  shows "tftp_inv srv x t0 (t', D)"
proof -
  obtain k where k: "at_block srv x (t, D) k" using inv_unfold(7) [OF i r] by blast
  have p: "p < 65536" "(p, first_reply x) \<in> D" using inv_unfold(6) [OF i d] by blast+
  have ok: "ok_oack x" using x(1) by (simp add: ok_transfer_def)
  have c: "client_inv srv x t0 t" "linked srv t" by (rule inv_unfold [OF i])+
  then have "TftpBlkSize t = 512 \<or> TftpBlkSize t = of_nat (blk x)" by (simp add: client_inv_def)
  from ok x(2) c(2) p(1) this H show ?thesis
  proof (cases rule: oack_spec)
    case filtered
    then show ?thesis using i by simp
  next
    case (acked u)
    let ?u = "t\<lparr>TftpState := STATE_OACK, TftpServerPort := p, TftpBlkSize := of_nat (blk x)\<rparr>"
    have u: "resent srv (ack_packet (TftpBlock t)) ?u t'" using acked by simp
    have h: "heard srv t' q d \<longleftrightarrow> heard srv t q d \<or> q = p \<and> d = ack_packet (of_nat k)" for q d
      using u k by (simp add: resent_def heard_def at_block_def)
    have g: "grows x t t'" using u by (simp add: grows_def resent_def same_host_def have_upto_def ok_at_def)
    have hk: "have_upto x t' k" using g k by (simp add: grows_def at_block_def)
    have "client_inv srv x t0 t'"
      by (rule client_same [OF c(1)]) (use u p(1) in \<open>simp_all add: resent_def same_host_def\<close>)
    moreover have "at_block srv x (t', D) k"
      using u k h p(2) acked(1) hk by (auto simp: at_block_def resent_def)
    moreover have "known_ack x t' p (ack_packet (of_nat k))"
      unfolding known_ack_def using hk u k by (auto simp: resent_def at_block_def)
    ultimately show ?thesis using h by (intro inv_grows [OF i g]) auto
  qed
qed

lemma inv_data:
  assumes x: "ok_transfer x" and i: "tftp_inv srv x t0 (t, D)" and r: "running t" and d: "(p, data_packet x n) \<in> D"
    and n: "1 \<le> n" "n \<le> last_block x" "have_upto x t (n - 1)" "TftpBlkSize t = of_nat (blk x)"
    and H: "TftpHandler env now (data_packet x n @ stale) (TftpOurPort t) p (of_nat (length (data_packet x n))) t = Some t'"
  shows "tftp_inv srv x t0 (t', D)"
proof -
  obtain k where k: "at_block srv x (t, D) k" using inv_unfold(7) [OF i r] by blast
  have p: "p < 65536" "(p, first_reply x) \<in> D" using inv_unfold(6) [OF i d] by blast+
  have c: "client_inv srv x t0 t" "linked srv t" by (rule inv_unfold [OF i])+
  have s: "TftpState t \<in> {STATE_RRQ, STATE_OACK, STATE_DATA}" "TftpState t = STATE_DATA \<longrightarrow> TftpBlockWrapOffset t = 0"
    using k by (simp_all add: at_block_def)
  from x n(1,2) r c(2) p(1) s n(4) H show ?thesis
  proof (cases rule: data_spec)
    case filtered
    then show ?thesis using i by simp
  next
    case (restart u)
    have u: "u = t'" using restart by simp
    have "client_inv srv x t0 t'"
      by (rule client_same [OF c(1)]) (use restart p(1) n(4) in \<open>simp_all add: u quiet_def\<close>)
    then show ?thesis using restart by (intro inv_grows [OF i quiet_grows]) (auto simp: u quiet_def heard_def)
  next
    case (again u)
    have u: "u = t'" using again by simp
    have "client_inv srv x t0 t'"
      by (rule client_same [OF c(1)]) (use again inv_unfold(4) [OF i] r n(4) in \<open>simp_all add: u quiet_def running_def\<close>)
    moreover have "at_block srv x (t', D) k"
      using again k n(4) by (simp add: u at_block_def quiet_def same_host_def have_upto_def ok_at_def heard_def)
    ultimately show ?thesis using again by (intro inv_grows [OF i quiet_grows]) (auto simp: u quiet_def heard_def)
  next
    case (store t1 u)
    have st: "stored srv x n t1 t'" using store by simp
    have h1: "have_upto x t1 (n - 1)" using quiet_grows [OF store(4)] n(3) by (simp add: grows_def)
    have c1: "client_inv srv x t0 t1"
      by (rule client_same [OF c(1)]) (use store p(1) r n(4) in \<open>simp_all add: quiet_def running_def\<close>)
    have g: "grows x t t'" using quiet_grows [OF store(4)] stored_grows(1) [OF x n(1,2) st] by (simp add: grows_def)
    have hn: "have_upto x t' n" by (rule stored_grows(2) [OF x n(1,2) st h1])
    have bs: "TftpBlkSize t' = of_nat (blk x)" using g n(4) by (simp add: grows_def)
    have h: "heard srv t' q d \<longleftrightarrow> heard srv t q d \<or> q = p \<and> d = ack_packet (of_nat n)" for q d
      using st store by (simp add: stored_def heard_def quiet_def)
    have "known_ack x t' p (ack_packet (of_nat n))" unfolding known_ack_def using hn bs n(2) by blast
    moreover have "at_block srv x (t', D) n" if "running t'"
    proof -
      have "n < last_block x" using that st n(2) by (cases "n = last_block x") (auto simp: stored_def running_def)
      moreover have "(p, data_packet x 1) \<in> D" using store(2,3) k d by (auto simp: at_block_def)
      ultimately show ?thesis using st hn bs h p(2) n(1) store by (simp add: at_block_def stored_def)
    qed
    ultimately show ?thesis using h client_stored [OF x n(1,2) c1 st h1 store(5)] by (intro inv_grows [OF i g]) auto
  qed
qed

lemma inv_timeout:
  assumes i: "tftp_inv srv x t0 (t, D)" and r: "running t" and f: "timeHandler t = Some h"
    and H: "run_timeout env now h (t\<lparr>timeHandler := None\<rparr>) = Some t'"
  shows "tftp_inv srv x t0 (t', D)"
proof -
  obtain k where k: "at_block srv x (t, D) k" using inv_unfold(7) [OF i r] by blast
  have h: "h = TftpTimeout" using k f by (auto simp: at_block_def)
  have c: "client_inv srv x t0 t" "linked srv t" "length (tftp_filename t) < MAX_LEN" by (rule inv_unfold [OF i])+
  have bs: "TftpBlkSize t = 512 \<or> TftpBlkSize t = of_nat (blk x)" using c(1) by (simp add: client_inv_def)
  have s: "TftpState t \<in> {STATE_RRQ, STATE_OACK, STATE_DATA}" using k by (simp add: at_block_def)
  obtain pkt where pkt: "tftp_packet t = Some pkt" "length pkt \<le> 65507" "TftpState t = STATE_RRQ \<Longrightarrow> get16 pkt 0 = TFTP_RRQ"
    "TftpState t \<noteq> STATE_RRQ \<Longrightarrow> pkt = ack_packet (TftpBlock t)" by (rule packet_length [OF c(3) s]) blast
  have "tftp_timeout env now (t\<lparr>timeHandler := None\<rparr>) = Some t'" using H by (simp add: h run_timeout_def)
  from r c(2,3) s pkt(1,2) this show ?thesis
  proof (cases rule: timeout_spec)
    case (giveup u)
    have u: "u = t'" using giveup by simp
    have "client_inv srv x t0 t'"
      by (rule client_same [OF c(1)]) (use giveup inv_unfold(4) [OF i] bs in \<open>simp_all add: u quiet_def\<close>)
    then show ?thesis using giveup by (intro inv_grows [OF i quiet_grows]) (auto simp: u quiet_def heard_def)
  next
    case (again u w)
    have w: "w = t'" using again by simp
    have e: "heard srv t' q d \<longleftrightarrow> heard srv t q d \<or> q = TftpServerPort t \<and> d = pkt" for q d
      using again by (simp add: w resent_def heard_def quiet_def)
    have g: "grows x t t'" using again by (intro same_grows) (simp_all add: w resent_def quiet_def same_host_def)
    have "client_inv srv x t0 t'"
      by (rule client_same [OF c(1)])
        (use again inv_unfold(4) [OF i] bs r in \<open>simp_all add: w quiet_def resent_def same_host_def running_def\<close>)
    moreover have "at_block srv x (t', D) k"
      using again k g e by (simp add: w at_block_def quiet_def resent_def grows_def) blast
    moreover have "known_ack x t' (TftpServerPort t) pkt"
    proof (cases "TftpState t = STATE_RRQ")
      case True
      then show ?thesis using pkt(3) k by (simp add: known_ack_def at_block_def)
    next
      case False
      then have "known_ack x t (TftpServerPort t) pkt" using pkt(4) k by (auto simp: known_ack_def at_block_def)
      then show ?thesis by (rule known_grows(1) [OF g])
    qed
    ultimately show ?thesis using e by (intro inv_grows [OF i g]) auto
  qed
qed

lemma inv_init:
  assumes x: "ok_transfer x" and t: "tftp_init srv t"
  shows "tftp_inv srv x t (t, {})"
proof -
  have "client_inv srv x t t" using t by (simp add: client_inv_def tftp_init_def running_def TFTP_BLOCK_SIZE_def)
  moreover have "at_block srv x (t, {}) 0"
    using t by (auto simp: at_block_def tftp_init_def last_block_def have_upto_def)
  moreover have "known_ack x t p d" if "heard srv t p d" for p d using that t by (simp add: known_ack_def tftp_init_def)
  ultimately show ?thesis unfolding tftp_inv_def by auto
qed

lemma known_length:
  assumes x: "ok_transfer x" and d: "known_data x t d"
  shows "length d \<le> 65507"
proof -
  have "length (data_packet x n) \<le> 65507" for n
    using x by (simp add: data_packet_fields block_def ok_transfer_def min.coboundedI2)
  moreover have "length (oack_packet b) \<le> 65507" if "oack x = Some b" for b
    using x that by (simp add: oack_packet_def ok_transfer_def ok_oack_def)
  ultimately show ?thesis using d by (auto simp: known_data_def)
qed

lemma inv_step:
  assumes x: "ok_transfer x" and step: "tftp_step srv x s s'" and i: "tftp_inv srv x t0 s"
  shows "tftp_inv srv x t0 s'"
  using step i
proof (induction rule: tftp_step.induct)
  case (receive t p d D a frame env now stale t')
  have p: "p < 65536" "known_data x t d" using inv_unfold(6) [OF receive.prems receive.hyps(2)] by blast+
  have l: "linked srv t" by (rule inv_unfold(2) [OF receive.prems])
  note H = receive.hyps(6) [unfolded deliver_frame [OF receive.hyps(1) l receive.hyps(3-5) p(1) known_length [OF x p(2)]]]
  from p(2) show ?case unfolding known_data_def
  proof (elim disjE exE conjE)
    fix b assume b: "oack x = Some b" "d = oack_packet b"
    show ?thesis by (rule inv_oack [OF x b(1) receive.prems receive.hyps(1) receive.hyps(2) [unfolded b(2)] H [unfolded b(2)]])
  next
    fix n assume n: "1 \<le> n" "n \<le> last_block x" "have_upto x t (n - 1)" "TftpBlkSize t = of_nat (blk x)" and d: "d = data_packet x n"
    show ?thesis by (rule inv_data [OF x receive.prems receive.hyps(1) receive.hyps(2) [unfolded d] n H [unfolded d]])
  qed
next
  case (timeout t h env now t' D)
  show ?case by (rule inv_timeout [OF timeout.prems timeout.hyps])
next
  case (request t d p D)
  have "known_data x t (first_reply x)"
  proof (cases "oack x")
    case None
    have "TftpBlkSize t = of_nat (blk x)"
      using x None request.prems by (auto simp: ok_transfer_def ok_oack_def tftp_inv_def client_inv_def)
    then show ?thesis unfolding known_data_def first_reply_def None by (auto simp: last_block_def have_upto_def intro!: exI [of _ 1])
  qed (simp add: known_data_def first_reply_def)
  then show ?case using request unfolding tftp_inv_def by (auto simp: at_block_def)
next
  case (ack t p n D)
  have n: "n \<le> 65535" using ok_sizes(1) [OF x] ack.hyps(3) by simp
  have "known_ack x t p (ack_packet (of_nat n))" by (rule inv_unfold(5) [OF ack.prems ack.hyps(1)])
  then obtain m where m: "m \<le> last_block x" "ack_packet (of_nat n) = ack_packet (of_nat m)" "have_upto x t m" "TftpBlkSize t = of_nat (blk x)"
    by (auto simp: known_ack_def TFTP_ACK_def TFTP_RRQ_def)
  then have "m = n" using ack_packet_eq [of n m] n ok_sizes(1) [OF x] by simp
  then have "known_data x t (data_packet x (n + 1))" using m ack.hyps(3) unfolding known_data_def by (intro disjI2 exI [of _ "n + 1"]) auto
  moreover have "p < 65536" using inv_unfold(6) [OF ack.prems ack.hyps(2)] by blast
  ultimately show ?case using ack unfolding tftp_inv_def by (auto simp: at_block_def)
qed

lemma inv_reach:
  assumes "ok_transfer x" and "tftp_init srv t0" and "tftp_reach srv x t0 s"
  shows "tftp_inv srv x t0 s"
  using assms(3) unfolding tftp_reach_def
  by (induction rule: rtranclp_induct) (auto intro: inv_init [OF assms(1,2)] inv_step [OF assms(1)])

section \<open>Progress\<close>

lemma deliver_step:
  assumes x: "ok_transfer x" and i: "tftp_inv srv x t0 (t, D)" and r: "running t" and d: "(p, d) \<in> D"
    and H: "TftpHandler Map.empty 0 (d @ []) (TftpOurPort t) p (of_nat (length d)) t = Some t'"
  shows "tftp_step srv x (t, D) (t', D)" and "tftp_inv srv x t0 (t', D)"
proof -
  obtain a :: host and frame where a: "untagged a" "length (NetOurEther a) = 6"
    "udp_frame a (NetOurEther t) (NetOurIP t) (TftpOurPort t) p d frame" by (rule frame_exists)
  have p: "p < 65536" "known_data x t d" using inv_unfold(6) [OF i d] by blast+
  have l: "linked srv t" by (rule inv_unfold(2) [OF i])
  have "NetReceive (run_handler Map.empty 0) t (frame @ []) (int (length frame)) = Some t'"
    unfolding deliver_frame [OF r l a p(1) known_length [OF x p(2)]] by (rule H)
  from tftp_step.receive [OF r d a this] show s: "tftp_step srv x (t, D) (t', D)" .
  show "tftp_inv srv x t0 (t', D)" by (rule inv_step [OF x s i])
qed

lemma deliver_data:
  assumes x: "ok_transfer x" and i: "tftp_inv srv x t0 (t, D)" and r: "running t"
    and d: "(TftpServerPort t, data_packet x n) \<in> D" and n: "1 \<le> n" "n \<le> last_block x" "TftpBlkSize t = of_nat (blk x)"
    and s: "TftpState t \<noteq> STATE_RRQ" "TftpState t = STATE_DATA \<longrightarrow> TftpLastBlock t \<noteq> of_nat n" "TftpState t = STATE_OACK \<longrightarrow> n = 1"
  obtains t' where "tftp_step srv x (t, D) (t', D)" and "tftp_inv srv x t0 (t', D)"
    and "NetState t' = NETLOOP_SUCCESS \<or> running t' \<and> TftpState t' = STATE_DATA \<and> TftpBlock t' = of_nat n"
proof -
  obtain k where k: "at_block srv x (t, D) k" using inv_unfold(7) [OF i r] by blast
  have l: "linked srv t" "TftpServerPort t < 65536" by (rule inv_unfold [OF i])+
  have st: "TftpState t \<in> {STATE_RRQ, STATE_OACK, STATE_DATA}" "TftpState t = STATE_DATA \<longrightarrow> TftpBlockWrapOffset t = 0"
    using k by (simp_all add: at_block_def)
  obtain H where H: "TftpHandler Map.empty 0 (data_packet x n @ []) (TftpOurPort t) (TftpServerPort t) (of_nat (length (data_packet x n))) t = H" by simp
  from x n(1,2) r l st n(3) H show thesis
  proof (cases rule: data_spec)
    case (restart u)
    then show thesis using s st(1) by auto
  next
    case (again u)
    then show thesis using s by auto
  next
    case (store t1 u)
    have "NetState u = NETLOOP_SUCCESS \<or> running u \<and> TftpState u = STATE_DATA \<and> TftpBlock u = of_nat n"
      using store by (simp add: stored_def running_def)
    then show thesis using deliver_step [OF x i r d] H store(1) that by blast
  qed simp
qed

lemma live_data:
  assumes x: "ok_transfer x"
  shows "tftp_inv srv x t0 (t, D) \<Longrightarrow> running t \<Longrightarrow> TftpState t = STATE_DATA \<Longrightarrow>
    \<exists>t' D'. (tftp_step srv x)\<^sup>*\<^sup>* (t, D) (t', D') \<and> NetState t' = NETLOOP_SUCCESS"
proof (induction "last_block x - unat (TftpBlock t)" arbitrary: t D rule: less_induct)
  case less
  obtain k where k: "at_block srv x (t, D) k" using inv_unfold(7) [OF less.prems(1,2)] by blast
  have k16: "k < last_block x" "last_block x \<le> 65535" using k ok_sizes(1) [OF x] by (simp_all add: at_block_def)
  let ?p = "TftpServerPort t" and ?D = "insert (TftpServerPort t, data_packet x (k + 1)) D"
  have s1: "tftp_step srv x (t, D) (t, ?D)"
    by (rule tftp_step.ack) (use k less.prems(3) in \<open>simp_all add: at_block_def\<close>)
  have i1: "tftp_inv srv x t0 (t, ?D)" by (rule inv_step [OF x s1 less.prems(1)])
  have uk: "unat (of_nat k :: u32) = k" "unat (of_nat (k + 1) :: u32) = k + 1" using k16 by (simp_all only: unat_of_nat) simp_all
  then have nk: "(of_nat k :: u32) \<noteq> of_nat (k + 1)" by (metis Suc_eq_plus1 n_not_Suc_n)
  obtain t' where t': "tftp_step srv x (t, ?D) (t', ?D)" "tftp_inv srv x t0 (t', ?D)"
    "NetState t' = NETLOOP_SUCCESS \<or> running t' \<and> TftpState t' = STATE_DATA \<and> TftpBlock t' = of_nat (k + 1)"
    by (rule deliver_data [OF x i1 less.prems(2), of "k + 1"]) (use k less.prems(3) k16 nk in \<open>auto simp: at_block_def\<close>)
  have two: "(tftp_step srv x)\<^sup>*\<^sup>* (t, D) (t', ?D)" using s1 t'(1) by (meson converse_rtranclp_into_rtranclp r_into_rtranclp)
  from t'(3) show ?case
  proof
    assume "running t' \<and> TftpState t' = STATE_DATA \<and> TftpBlock t' = of_nat (k + 1)"
    moreover from this have "unat (TftpBlock t') = k + 1" "unat (TftpBlock t) = k" using k uk by (auto simp: at_block_def)
    then have "last_block x - unat (TftpBlock t') < last_block x - unat (TftpBlock t)" using k16 by simp
    ultimately show ?thesis using less.hyps [OF _ t'(2)] two by (meson rtranclp_trans)
  qed (use two in blast)
qed

lemma live_oack:
  assumes x: "ok_transfer x" and i: "tftp_inv srv x t0 (t, D)" and r: "running t" and s: "TftpState t = STATE_OACK"
  shows "\<exists>t' D'. (tftp_step srv x)\<^sup>*\<^sup>* (t, D) (t', D') \<and> NetState t' = NETLOOP_SUCCESS"
proof -
  obtain k where k: "at_block srv x (t, D) k" using inv_unfold(7) [OF i r] by blast
  let ?D = "insert (TftpServerPort t, data_packet x 1) D"
  have s1: "(tftp_step srv x)\<^sup>*\<^sup>* (t, D) (t, ?D)"
  proof (cases "k = 0")
    case True
    then have "tftp_step srv x (t, D) (t, insert (TftpServerPort t, data_packet x (0 + 1)) D)"
      by (intro tftp_step.ack) (use k s in \<open>auto simp: at_block_def\<close>)
    then show ?thesis by auto
  next
    case False
    then have "?D = D" using k by (auto simp: at_block_def)
    then show ?thesis by simp
  qed
  then have i1: "tftp_inv srv x t0 (t, ?D)" using i by (induction rule: rtranclp_induct) (auto intro: inv_step [OF x])
  obtain t' where t': "tftp_step srv x (t, ?D) (t', ?D)" "tftp_inv srv x t0 (t', ?D)"
    "NetState t' = NETLOOP_SUCCESS \<or> running t' \<and> TftpState t' = STATE_DATA \<and> TftpBlock t' = of_nat 1"
    by (rule deliver_data [OF x i1 r, of 1]) (use k s in \<open>auto simp: at_block_def\<close>)
  from t'(3) show ?thesis
  proof
    assume "running t' \<and> TftpState t' = STATE_DATA \<and> TftpBlock t' = of_nat 1"
    then show ?thesis using live_data [OF x t'(2)] s1 t'(1) by (meson rtranclp.rtrancl_into_rtrancl rtranclp_trans)
  qed (use s1 t'(1) in \<open>meson rtranclp.rtrancl_into_rtrancl\<close>)
qed

lemma live_spec:
  assumes "ok_transfer x" and "tftp_init srv t0" and "tftp_reach srv x t0 (t, D)" and "running t"
  shows "\<exists>t' D'. (tftp_step srv x)\<^sup>*\<^sup>* (t, D) (t', D') \<and> NetState t' = NETLOOP_SUCCESS"
proof -
  note x = assms(1) and r = assms(4)
  have i: "tftp_inv srv x t0 (t, D)" by (rule inv_reach [OF assms(1-3)])
  obtain k where k: "at_block srv x (t, D) k" using inv_unfold(7) [OF i r] by blast
  consider "TftpState t = STATE_DATA" | "TftpState t = STATE_OACK" | "TftpState t = STATE_RRQ" using k by (auto simp: at_block_def)
  then show ?thesis
  proof cases
    case 3
    let ?D = "insert (1, first_reply x) D"
    have s1: "tftp_step srv x (t, D) (t, ?D)"
    proof -
      obtain d where "heard srv t WELL_KNOWN_PORT d" "get16 d 0 = TFTP_RRQ" using k 3 by (auto simp: at_block_def)
      then show ?thesis by (rule tftp_step.request) simp
    qed
    have i1: "tftp_inv srv x t0 (t, ?D)" by (rule inv_step [OF x s1 i])
    have l: "linked srv t" by (rule inv_unfold(2) [OF i])
    obtain t' where t': "tftp_step srv x (t, ?D) (t', ?D)" "tftp_inv srv x t0 (t', ?D)"
      "NetState t' = NETLOOP_SUCCESS \<or> running t' \<and> (TftpState t' = STATE_DATA \<or> TftpState t' = STATE_OACK)"
    proof (cases "oack x")
      case None
      then have d: "(1, data_packet x 1) \<in> ?D" by (simp add: first_reply_def)
      have bs: "TftpBlkSize t = of_nat (blk x)"
        using i x None by (auto simp: tftp_inv_def client_inv_def ok_transfer_def ok_oack_def)
      have n: "1 \<le> last_block x" by (simp add: last_block_def)
      obtain H where H: "TftpHandler Map.empty 0 (data_packet x 1 @ []) (TftpOurPort t) 1 (of_nat (length (data_packet x 1))) t = H" by simp
      have s: "(1 :: u32) < 65536" "TftpState t \<in> {STATE_RRQ, STATE_OACK, STATE_DATA}" "TftpState t = STATE_DATA \<longrightarrow> TftpBlockWrapOffset t = 0"
        using 3 by simp_all
      from x le_refl n r l s bs H show thesis
      proof (cases rule: data_spec)
        case (store t1 u)
        have "NetState u = NETLOOP_SUCCESS \<or> running u \<and> TftpState u = STATE_DATA" using store by (simp add: stored_def running_def)
        then show thesis using deliver_step [OF x i1 r d] H store(1) that by blast
      qed (use 3 in simp_all)
    next
      case (Some b)
      then have d: "(1, oack_packet b) \<in> ?D" by (simp add: first_reply_def)
      have ok: "ok_oack x" using x by (simp add: ok_transfer_def)
      have bs: "TftpBlkSize t = 512 \<or> TftpBlkSize t = of_nat (blk x)" using inv_unfold(1) [OF i] by (simp add: client_inv_def)
      obtain H where H: "TftpHandler Map.empty 0 (oack_packet b @ []) (TftpOurPort t) 1 (of_nat (length (oack_packet b))) t = H" by simp
      have p1: "(1 :: u32) < 65536" by simp
      from ok Some l p1 bs H show thesis
      proof (cases rule: oack_spec)
        case (acked u)
        have "running u \<and> TftpState u = STATE_OACK" using acked(3) r by (simp add: resent_def running_def)
        then show thesis using deliver_step [OF x i1 r d] H acked(2) that by blast
      qed (use 3 in simp_all)
    qed
    then show ?thesis using live_data [OF x t'(2)] live_oack [OF x t'(2)] s1 by (meson converse_rtranclp_into_rtranclp r_into_rtranclp)
  qed (use live_data [OF x i r] live_oack [OF x i r] in blast)+
qed

section \<open>Numbers that wrap around\<close>

text \<open>
  A divergence: a packet with block number 0 moves the offset of all following blocks on by 65536 blocks before
  it is compared with the block received last. When the network delivers the block behind block 65535 twice,
  the rest of the file is stored 65536 blocks too far.
\<close>

lemma wrap_duplicate:
  assumes "TftpState t = STATE_DATA" and "TftpLastBlock t = 0" and "p = TftpServerPort t" and "length d \<le> 65464"
  shows "\<exists>t'. TftpHandler env now (put16 TFTP_DATA @ put16 0 @ d) (TftpOurPort t) p (of_nat (4 + length d)) t = Some t' \<and>
    memory t' = memory t \<and> TftpBlockWrapOffset t' = TftpBlockWrapOffset t + ucast (TftpBlkSize t) * TFTP_SEQUENCE_SIZE"
proof -
  have l: "(of_nat (4 + length d) :: u32) - 2 = of_nat (2 + length d)" by simp
  have g: "\<not> (of_nat (4 + length d) :: u32) < 2" "\<not> (of_nat (2 + length d) :: u32) < 2"
    using assms(4) by (simp_all only: word_less_nat_alt unat_of_nat) simp_all
  have ne: "TFTP_DATA \<noteq> TFTP_OACK" by (simp add: TFTP_DATA_def TFTP_OACK_def)
  have pk: "get16 (put16 TFTP_DATA @ put16 0 @ d) 0 = TFTP_DATA" "drop 2 (put16 TFTP_DATA @ put16 0 @ d) = put16 0 @ d"
    "get16 (put16 0 @ d) 0 = 0" by simp_all
  have "TftpHandler env now (put16 TFTP_DATA @ put16 0 @ d) (TftpOurPort t) p (of_nat (4 + length d)) t =
      tftp_data env now (put16 0 @ d) p (of_nat (2 + length d)) t"
    unfolding TftpHandler_def Let_def pk l assms(3) by (simp only: g ne if_False if_True simp_thms not_True_eq_False)
  moreover have "tftp_data env now (put16 0 @ d) p (of_nat (2 + length d)) t = Some (tftp_progress (t\<lparr>TftpBlock := 0\<rparr>))"
    unfolding tftp_data_def Let_def pk using g(2) assms(1,2) by (simp add: tftp_progress_def say_def Let_def)
  ultimately show ?thesis by (simp add: tftp_progress_def say_def Let_def)
qed

section \<open>The start of a transfer\<close>

lemma arp_not_heard:
  assumes "untagged srv" and "length src = 6"
  shows "datagram srv (NetBcastAddr @ src @ put16 PROT_ARP @ rest) = None"
proof -
  let ?f = "NetBcastAddr @ src @ put16 PROT_ARP @ rest" and ?s = "srv\<lparr>got := []\<rparr>"
  have u: "untagged ?s" using assms(1) by (simp add: untagged_def)
  have "link_layer ?s ?f (int (length ?f)) = Some (PROT_ARP, 14, int (length ?f) - 14)"
    by (rule link_untagged [OF u _ assms(2)]) (use assms in \<open>simp_all add: NetBcastAddr_def PROT_ARP_def PROT_VLAN_def\<close>)
  then have "NetReceive listen ?s ?f (int (length ?f)) = Some (arp_input ?s ?f 14 (int (length ?f) - 14))" by (simp add: NetReceive_def)
  moreover have "got (arp_input ?s ?f 14 l) = []" for l
    by (simp add: arp_input_def bad_length_def say_def eth_send_def set_mac_def Let_def split: option.split mac_ptr.split)
  ultimately show ?thesis by (simp add: datagram_def)
qed

lemma ArpRequest_shape:
  assumes "0 < eth_devs n" and "untagged n"
  obtains ms r rest where "ArpRequest n = say ms (n\<lparr>NetArpWaitReplyIP := r, sent := sent n @ [NetBcastAddr @ NetOurEther n @ put16 PROT_ARP @ rest]\<rparr>)"
proof -
  have send: "eth_send f (say ms (n\<lparr>NetArpWaitReplyIP := r\<rparr>)) = say ms (n\<lparr>NetArpWaitReplyIP := r, sent := sent n @ [f]\<rparr>)" for f ms r
    using assms(1) by (simp add: eth_send_def say_def)
  show thesis by (rule that, unfold ArpRequest_def Let_def send ether_untagged [OF assms(2)] append_assoc, rule refl)
qed

lemma strchr_absent: "nul_free s \<Longrightarrow> c \<notin> set s \<Longrightarrow> c \<noteq> NUL \<Longrightarrow> strchr s (of_char c) = None"
proof (induction s)
  case Nil
  then show ?case by (subst strchr.simps) (simp add: NUL_def)
next
  case (Cons a s)
  then show ?case by (subst strchr.simps) auto
qed

lemma cut_nul_free: "nul_free s \<Longrightarrow> cut_nul s = s" by (induction s) (simp_all add: cut_nul_def)

section \<open>A transfer\<close>

definition client0 :: tftp where
  "client0 = net.extend (net0\<lparr>server_ether := [2, 0, 0, 0, 0, 2], packetHandler := rxhand.TftpHandler, timeHandler := Some TftpTimeout\<rparr>)
     \<lparr>BootFile = ''uImage'', NetBootFileSize = 0, load_addr = 0x8000, memory = (\<lambda>_. 0), TftpTimeoutMSecs = 5000, TftpTimeoutCountMax = 10,
      TftpRRQTimeoutMSecs = 5000, TftpRRQTimeoutCountMax = 10, TftpServerIP = 0x0200A8C0, TftpServerPort = 69, TftpOurPort = 1024,
      TftpTimeoutCount = 0, TftpBlock = 0, TftpLastBlock = 0, TftpBlockWrap = 0, TftpBlockWrapOffset = 0, TftpState = STATE_RRQ,
      tftp_filename = ''uImage'', TftpBlkSize = 512\<rparr>"

definition request0 :: tftp where "request0 = the (TftpSend 0 client0)"

definition transfer0 :: transfer where
  "transfer0 = \<lparr>tfile = [1, 2, 3], blk = 1468, oack = Some (asciz ''blksize'' @ asciz ''1468'')\<rparr>"

lemma ok_transfer0: "ok_transfer transfer0"
proof -
  have "find_blksize (chars ((asciz ''blksize'' @ asciz ''1468'') @ stale)) (length (asciz ''blksize'' @ asciz ''1468'')) = Some (Some (of_nat 1468))" for stale
  proof -
    have c: "chars ((asciz ''blksize'' @ asciz ''1468'') @ stale) = ''blksize'' @ NUL # ''1468'' @ NUL # chars stale"
      by simp
    have "dec 1468 = ''1468''" by code_simp
    then have "simple_strtoul (''1468'' @ NUL # chars stale) 10 = (1468, NUL # chars stale)"
      using strtoul_digits [where z = 0 and n = 1468 and s = "NUL # chars stale" and base = 10 and type = SIGN]
      by (simp add: isxdigit_iff isdigit_iff NUL_def)
    moreover have "strcmp (''blksize'' @ NUL # s) ''blksize'' = 0" for s by (simp add: strcmp.simps NUL_def)
    ultimately show ?thesis unfolding c by (subst find_blksize.simps) (simp add: asciz_def)
  qed
  then show ?thesis by (simp add: ok_transfer_def ok_oack_def transfer0_def) (simp add: asciz_def)
qed

lemma linked0: "linked host0 client0"
  using net0_ok mac2_ok
  by (simp add: linked_def client0_def net.defs host0_def wf_macs_def untagged_def)

lemma client0_fields:
  "running client0" "timeHandler client0 = Some TftpTimeout" "TftpState client0 = STATE_RRQ" "TftpBlkSize client0 = 512"
  "TftpServerPort client0 = 69" "TftpBlock client0 = 0" "NetBootFileXferSize client0 = 0" "length (tftp_filename client0) < MAX_LEN"
  "sent client0 = []" "load_addr client0 = 0x8000" "NetOurIP client0 \<noteq> 0"
  by (simp_all add: client0_def net.defs running_def MAX_LEN_def net0_def)

lemma init0: "tftp_init host0 request0"
proof -
  obtain pkt where pkt: "tftp_packet client0 = Some pkt" "length pkt \<le> 65507" "get16 pkt 0 = TFTP_RRQ"
    by (rule packet_length [of client0]) (simp_all add: client0_fields)
  obtain t' where t': "TftpSend 0 client0 = Some t'" "resent host0 pkt client0 t'"
    by (rule send_resent [OF linked0 pkt(1,2), of 0])
  have h: "heard host0 t' p d \<longleftrightarrow> p = 69 \<and> d = pkt" for p d
    using t'(2) by (simp add: resent_def client0_fields heard_def)
  have "linked host0 t'" using t'(2) linked0 by (intro same_linked [of client0 t']) (simp_all add: resent_def linked_def)
  moreover have "running t'" "timeHandler t' = Some TftpTimeout" "TftpState t' = STATE_RRQ" "TftpBlkSize t' = TFTP_BLOCK_SIZE"
    "TftpServerPort t' = WELL_KNOWN_PORT" "TftpBlock t' = 0" "NetBootFileXferSize t' = 0" "length (tftp_filename t') < MAX_LEN" "NetOurIP t' \<noteq> 0"
    using t'(2) client0_fields by (simp_all add: resent_def same_host_def WELL_KNOWN_PORT_def TFTP_BLOCK_SIZE_def)
  moreover have "heard host0 t' WELL_KNOWN_PORT pkt" using h by (simp add: WELL_KNOWN_PORT_def)
  ultimately have "tftp_init host0 t'" using h pkt(3) unfolding tftp_init_def by (auto simp: WELL_KNOWN_PORT_def)
  then show ?thesis by (simp add: request0_def t'(1))
qed

text \<open>
  C1: whatever the network does to the datagrams - loss, delay, reordering, duplication - and whenever the
  timer runs out: when the client reports success, every byte of the file is in memory at its place behind
  \<open>load_addr\<close>, the size it reports is the size of the file, and at no time has it written anywhere else.
\<close>

theorem tftp_safe:
  assumes "ok_transfer x" and "tftp_init srv t0" and "tftp_reach srv x t0 (t, D)"
  shows "(NetState t = NETLOOP_SUCCESS \<longrightarrow> (\<forall>i < length (tfile x). memory t (load_addr t0 + of_nat i) = tfile x ! i) \<and>
        unat (NetBootFileXferSize t) = length (tfile x)) \<and>
    (\<forall>a. length (tfile x) \<le> unat (a - load_addr t0) \<longrightarrow> memory t a = memory t0 a)"
  using inv_unfold(1) [OF inv_reach [OF assms]] by (auto simp: client_inv_def ok_at_def)

theorem tftp_safe_witness:
  "\<exists>t D. tftp_reach host0 transfer0 request0 (t, D) \<and> NetState t = NETLOOP_SUCCESS \<and>
    (\<forall>i < 3. memory t (load_addr request0 + of_nat i) = [1, 2, 3] ! i) \<and> unat (NetBootFileXferSize t) = 3"
proof -
  have "running request0" using init0 by (simp add: tftp_init_def)
  then obtain t D where t: "tftp_reach host0 transfer0 request0 (t, D)" "NetState t = NETLOOP_SUCCESS"
    using live_spec [OF ok_transfer0 init0, of request0 "{}"] by (auto simp: tftp_reach_def)
  then show ?thesis using tftp_safe [OF ok_transfer0 init0 t(1)] by (auto simp: transfer0_def)
qed

text \<open>
  C2: a transfer can always be completed: from every state the system can reach in which the transfer has not
  been given up, however many datagrams were lost, doubled or are still under way, there is a continuation
  in which the client reports success.
\<close>

theorem tftp_live:
  assumes "ok_transfer x" and "tftp_init srv t0" and "tftp_reach srv x t0 (t, D)" and "running t"
  shows "\<exists>t' D'. (tftp_step srv x)\<^sup>*\<^sup>* (t, D) (t', D') \<and> NetState t' = NETLOOP_SUCCESS"
  by (rule live_spec [OF assms])

theorem tftp_live_witness:
  "\<exists>t' D'. (tftp_step host0 transfer0)\<^sup>*\<^sup>* (request0, {}) (t', D') \<and> NetState t' = NETLOOP_SUCCESS"
  by (rule tftp_live [OF ok_transfer0 init0]) (use init0 in \<open>simp_all add: tftp_reach_def tftp_init_def\<close>)

text \<open>
  C13: the start of a transfer: \<open>TftpStart\<close> asks for the server's Ethernet address, and when the answer
  comes, exactly one datagram reaches the server, on port 69: the read request for the file named in \<open>BootFile\<close>
  (at most 127 characters of it) in mode octet with the options timeout 5 and blksize 1468; this is the state
  from which the two preceding properties hold, with nothing stored so far.
\<close>

theorem tftp_start_ready:
  assumes t: "wf_macs t" "untagged t" "0 < eth_devs t" "NetOurIP t \<noteq> 0" "sent t = []" "NetState t = NETLOOP_CONTINUE" "TftpRRQTimeoutMSecs t \<noteq> 0"
    and name: "nul_free (BootFile t)" "BootFile t \<noteq> []" "CHR '':'' \<notin> set (BootFile t)"
    and server: "NetServerIP t \<noteq> 0" "NetServerIP t \<noteq> 0xffffffff" "NetOurIP srv = NetServerIP t" "untagged srv"
    and mac: "length mac = 6" "mac \<noteq> NetEtherNullAddr"
  shows "\<exists>t1 t2. TftpStart eth_name now t = Some t1 \<and>
    NetReceive (run_handler env later) (t1\<lparr>NetBootFileXferSize := 0\<rparr>) (arp_reply_frame t1 mac (NetArpWaitReplyIP t1) @ stale)
      (int (length (arp_reply_frame t1 mac (NetArpWaitReplyIP t1)))) = Some t2 \<and>
    (\<forall>p d. heard srv t2 p d \<longleftrightarrow> p = 69 \<and>
       d = [0, 1] @ map of_char (take 127 (BootFile t)) @ [0] @ map of_char ''octet'' @ [0] @ map of_char ''timeout'' @ [0] @
           map of_char ''5'' @ [0] @ map of_char ''blksize'' @ [0] @ map of_char ''1468'' @ [0]) \<and>
    tftp_init srv t2 \<and> tftp_filename t2 = take 127 (BootFile t) \<and> memory t2 = memory t \<and> load_addr t2 = load_addr t"
proof -
  define v where "v = t\<lparr>TftpServerIP := NetServerIP t, tftp_filename := take (MAX_LEN - 1) (BootFile t)\<rparr>"
  have names: "tftp_names t = Some v"
    using name strchr_absent [OF name(1,3)] by (cases "BootFile t") (auto simp: tftp_names_def v_def cut_nul_free NUL_def)
  define u where "u = (NetSetHandler rxhand.TftpHandler (NetSetTimeout (TftpRRQTimeoutMSecs v) TftpTimeout now
      ((say (tftp_banner eth_name v) v)\<lparr>TftpTimeoutMSecs := TftpRRQTimeoutMSecs v, TftpTimeoutCountMax := TftpRRQTimeoutCountMax v\<rparr>)))
      \<lparr>TftpServerPort := WELL_KNOWN_PORT, TftpTimeoutCount := 0, TftpState := STATE_RRQ,
       TftpOurPort := 1024 + now mod 3072, TftpBlock := 0, server_ether := replicate 6 0, TftpBlkSize := TFTP_BLOCK_SIZE\<rparr>"
  have start: "TftpStart eth_name now t = TftpSend now u"
    unfolding TftpStart_def names option.case Let_def u_def by (simp add: say_def)
  have u: "wf_macs u" "untagged u" "0 < eth_devs u" "NetOurIP u \<noteq> 0" "sent u = []" "NetState u = NETLOOP_CONTINUE"
    "packetHandler u = rxhand.TftpHandler" "timeHandler u = Some TftpTimeout" "TftpServerIP u = NetServerIP t" "server_ether u = NetEtherNullAddr"
    "tftp_filename u = take 127 (BootFile t)" "memory u = memory t" "load_addr u = load_addr t" "TftpState u = STATE_RRQ" "TftpServerPort u = 69"
    "TftpBlock u = 0" "TftpBlkSize u = 512" "TftpOurPort u < 65536"
  proof -
    have "unat (now mod 3072) < 3072" by (simp add: unat_mod)
    then have "unat (1024 + now mod 3072) < 65536" by (simp add: unat_word_ariths)
    then have "1024 + now mod 3072 < 65536" by (simp add: word_less_nat_alt)
    then show "TftpOurPort u < 65536" by (simp add: u_def NetSetHandler_def)
  qed (use t in \<open>simp_all add: u_def v_def NetSetHandler_def NetSetTimeout_def say_def wf_macs_def untagged_def NetEtherNullAddr_def
      MAX_LEN_def WELL_KNOWN_PORT_def TFTP_BLOCK_SIZE_def\<close>)
  obtain pkt where pkt: "tftp_packet u = Some pkt" "length pkt \<le> 65507" "get16 pkt 0 = TFTP_RRQ"
    by (rule packet_length [of u]) (simp_all add: u MAX_LEN_def)
  obtain ip n' where ip: "NetSetIP u (NetServerIP t) 69 (TftpOurPort u) (length pkt) = Some (ip, n')" and n': "n' = u\<lparr>NetIPID := NetIPID u + 1\<rparr>"
    by (rule NetSetIP_eq [where len = "length pkt" and n = u and dest = "NetServerIP t" and dport = 69 and sport = "TftpOurPort u"]) blast
  define w where "w = u\<lparr>NetIPID := NetIPID u + 1, NetArpWaitPacketIP := NetServerIP t, NetArpWaitPacketMAC := Some NetServerEther,
     NetArpWaitTxPacket := NetSetEther u NetEtherNullAddr PROT_IP @ ip @ pkt, NetArpWaitTry := 1, NetArpWaitTimerStart := now\<rparr>"
  have send: "TftpSend now u = Some (ArpRequest w)"
    using server(1,2) by (simp add: TftpSend_def pkt(1) u NetSendUDPPacket_def Let_def ip n' mac_of_def w_def)
  have w: "0 < eth_devs w" "untagged w" using u by (simp_all add: w_def untagged_def)
  obtain ms r rest where arp: "ArpRequest w = say ms (w\<lparr>NetArpWaitReplyIP := r, sent := sent w @ [NetBcastAddr @ NetOurEther w @ put16 PROT_ARP @ rest]\<rparr>)"
    by (rule ArpRequest_shape [OF w])
  define t1 where "t1 = ArpRequest w"
  note t1e = t1_def [unfolded arp]
  let ?t1 = "t1\<lparr>NetBootFileXferSize := 0\<rparr>" and ?f = "mac @ drop 6 (NetSetEther u NetEtherNullAddr PROT_IP @ ip @ pkt)"
  have t1: "wf_macs ?t1" "untagged ?t1" "NetOurIP ?t1 \<noteq> 0" "NetArpWaitPacketIP ?t1 \<noteq> 0" "NetArpWaitPacketMAC ?t1 = Some NetServerEther"
    "NetArpWaitReplyIP t1 = NetArpWaitReplyIP ?t1" "NetArpWaitTxPacket ?t1 = NetSetEther u NetEtherNullAddr PROT_IP @ ip @ pkt"
    "sent ?t1 = [NetBcastAddr @ NetOurEther u @ put16 PROT_ARP @ rest]" "0 < eth_devs ?t1"
    using u server(1) by (simp_all add: t1e w_def say_def wf_macs_def untagged_def NetEtherNullAddr_def)
  define t2 where "t2 = (eth_send ?f (set_mac NetServerEther mac ?t1))
       \<lparr>NetArpWaitPacketIP := 0, NetArpWaitTxPacket := [], NetArpWaitPacketMAC := None\<rparr>"
  have fr: "arp_reply_frame t1 mac i = arp_reply_frame ?t1 mac i" for i by (simp add: arp_reply_frame_def)
  have rx: "NetReceive (run_handler env later) ?t1 (arp_reply_frame t1 mac (NetArpWaitReplyIP t1) @ stale)
      (int (length (arp_reply_frame t1 mac (NetArpWaitReplyIP t1)))) = Some t2"
    unfolding fr t2_def using arp_reply_received [OF t1(1-3) mac(1) t1(6,4,5)] t1(7) by simp
  have t2: "sent t2 = [NetBcastAddr @ NetOurEther u @ put16 PROT_ARP @ rest, ?f]" "NetState t2 = NETLOOP_CONTINUE" "packetHandler t2 = rxhand.TftpHandler"
    "timeHandler t2 = Some TftpTimeout" "tftp_filename t2 = take 127 (BootFile t)" "memory t2 = memory t" "load_addr t2 = load_addr t"
    "TftpState t2 = STATE_RRQ" "TftpServerPort t2 = 69" "TftpBlock t2 = 0" "TftpBlkSize t2 = 512" "NetBootFileXferSize t2 = 0" "NetOurIP t2 \<noteq> 0"
    "TftpServerIP t2 = NetServerIP t" "TftpOurPort t2 = TftpOurPort u" "wf_macs t2" "untagged t2" "0 < eth_devs t2" "server_ether t2 = mac"
    using t1 u mac(1) by (simp_all add: t2_def t1e w_def eth_send_def set_mac_def say_def wf_macs_def untagged_def)
  have l: "linked srv t2" using t2 server mac u(18) by (simp add: linked_def)
  let ?u = "u\<lparr>server_ether := mac\<rparr>"
  have lu: "linked srv ?u" using u server mac by (simp add: linked_def wf_macs_def untagged_def)
  have "udp_frame ?u (server_ether ?u) (TftpServerIP ?u) (TftpServerPort ?u) (TftpOurPort ?u) pkt ?f"
  proof -
    have "\<exists>m. NetSetIP ?u (NetServerIP t) 69 (TftpOurPort u) (length pkt) = Some (ip, m)" using ip by (auto simp: NetSetIP_def Let_def)
    moreover have "?f = NetSetEther ?u mac PROT_IP @ ip @ pkt"
      using ether_untagged [OF u(2)] ether_untagged [of ?u] u(2) by (simp add: untagged_def NetEtherNullAddr_def)
    ultimately show ?thesis by (auto simp: udp_frame_def u)
  qed
  then have f: "datagram srv ?f = Some (69, TftpOurPort u, pkt)" using datagram_udp [OF _ lu pkt(2)] u by simp
  have "datagram srv (NetBcastAddr @ NetOurEther u @ put16 PROT_ARP @ rest) = None"
    by (rule arp_not_heard [OF server(4)]) (use u in \<open>simp add: wf_macs_def\<close>)
  then have h: "heard srv t2 p d \<longleftrightarrow> p = 69 \<and> d = pkt" for p d using f by (auto simp: heard_def t2)
  then have "heard srv t2 69 pkt" by simp
  then have "tftp_init srv t2" using t2 l h pkt(3)
    by (auto simp: tftp_init_def running_def WELL_KNOWN_PORT_def TFTP_BLOCK_SIZE_def MAX_LEN_def)
  moreover have "pkt = [0, 1] @ map of_char (take 127 (BootFile t)) @ [0] @ map of_char ''octet'' @ [0] @ map of_char ''timeout'' @ [0] @
           map of_char ''5'' @ [0] @ map of_char ''blksize'' @ [0] @ map of_char ''1468'' @ [0]"
    using pkt(1) unfolding tftp_packet_def u(14) tftp_state.case rrq_packet_eq u(11)
    by (simp add: asciz_def put16_def TFTP_RRQ_def)
  ultimately show ?thesis using start send rx t2 h by (intro exI [of _ t1] exI [of _ t2]) (simp add: t1_def)
qed

theorem tftp_start_ready_witness:
  "\<exists>t1 t2. TftpStart ''eth0'' 7 client0 = Some t1 \<and>
    NetReceive (run_handler Map.empty 9) (t1\<lparr>NetBootFileXferSize := 0\<rparr>) (arp_reply_frame t1 [2, 0, 0, 0, 0, 2] (NetArpWaitReplyIP t1) @ [1])
      (int (length (arp_reply_frame t1 [2, 0, 0, 0, 0, 2] (NetArpWaitReplyIP t1)))) = Some t2 \<and>
    (\<forall>p d. heard host0 t2 p d \<longleftrightarrow> p = 69 \<and>
       d = [0, 1] @ map of_char (take 127 (BootFile client0)) @ [0] @ map of_char ''octet'' @ [0] @ map of_char ''timeout'' @ [0] @
           map of_char ''5'' @ [0] @ map of_char ''blksize'' @ [0] @ map of_char ''1468'' @ [0]) \<and>
    tftp_init host0 t2 \<and> tftp_filename t2 = take 127 (BootFile client0) \<and> memory t2 = memory client0 \<and> load_addr t2 = load_addr client0"
proof (rule tftp_start_ready)
  show "wf_macs client0" "untagged client0" "0 < eth_devs client0" "untagged host0" using linked0 by (simp_all add: linked_def)
  show "NetOurIP client0 \<noteq> 0" "sent client0 = []" "NetState client0 = NETLOOP_CONTINUE" using client0_fields by (simp_all add: running_def)
  show "TftpRRQTimeoutMSecs client0 \<noteq> 0" "nul_free (BootFile client0)" "BootFile client0 \<noteq> []" "CHR '':'' \<notin> set (BootFile client0)"
    "NetServerIP client0 \<noteq> 0" "NetServerIP client0 \<noteq> 0xffffffff" "NetOurIP host0 = NetServerIP client0"
    by (simp_all add: client0_def net.defs net0_def host0_def NUL_def)
qed (simp_all add: mac2_ok)

end
