(* ===== verification/NetLoop.thy ===== *)
theory NetLoop
  imports TftpSystem
begin

text \<open>
  The loop of \<^verbatim>\<open>net/net.c\<close> that every network command runs, for TFTP and ping: the configuration it
  takes from the environment, the checks before the start, and one round of the loop - frames, the abort key,
  address resolution, the timer, and the state that ends it. The frames a round receives, the key and the time
  are its inputs, and so is the result of starting the device.
\<close>

section \<open>Start\<close>

datatype proto = TFTP | PING

text \<open>
  What the loop takes from the board: our IP address, the Ethernet addresses and names of the devices by their index, and
  the start of a device, \<open>eth_set_current\<close> and \<open>eth_init\<close> (theory Eth): from the index of the current device to the
  value of \<open>eth_init\<close> and the index of the device that is current then.
\<close>

record board =
  bi_ip_addr :: u32
  enetaddr :: "nat \<Rightarrow> u8 list"
  eth_name :: "nat \<Rightarrow> string"
  eth_start :: "nat \<Rightarrow> int \<times> nat"

definition net_error :: "string \<Rightarrow> string" where "net_error s = ''*** ERROR: '' @ s @ nl"

definition check_address :: "(string \<Rightarrow> string option) \<Rightarrow> u32 \<Rightarrow> 'a tftp_scheme \<Rightarrow> nat \<times> 'a tftp_scheme" where
  "check_address env now t =
     (if NetOurEther t \<noteq> replicate 6 0 then (0, t)
      else if eth_devs t = 0 then (1, say [Puts (net_error ''No ethernet found.'')] t)
      else (2, NetStartAgain env now
             (say [if eth_current t = 0 then Puts (net_error (CHR 0x60 # ''ethaddr'' @ [CHR 0x27] @ '' not set''))
                   else Printf (net_error (CHR 0x60 # ''eth%daddr'' @ [CHR 0x27] @ '' not set'')) [A32 (of_nat (eth_current t))]] t)))"

definition net_check_prereq :: "(string \<Rightarrow> string option) \<Rightarrow> u32 \<Rightarrow> proto \<Rightarrow> 'a tftp_scheme \<Rightarrow> nat \<times> 'a tftp_scheme" where
  "net_check_prereq env now pr t =
     (if pr = PING \<and> NetPingIP t = 0 then (1, say [Puts (net_error ''ping address not given'')] t)
      else if pr = TFTP \<and> NetServerIP t = 0 then (1, say [Puts (net_error (CHR 0x60 # ''serverip'' @ [CHR 0x27] @ '' not set''))] t)
      else if NetOurIP t = 0 then (1, say [Puts (net_error (CHR 0x60 # ''ipaddr'' @ [CHR 0x27] @ '' not set''))] t)
      else check_address env now t)"

definition net_configure :: "(string \<Rightarrow> string option) \<Rightarrow> board \<Rightarrow> proto \<Rightarrow> 'a tftp_scheme \<Rightarrow> 'a tftp_scheme" where
  "net_configure env b pr t =
     t\<lparr>NetOurEther := enetaddr b (eth_current t), NetState := NETLOOP_CONTINUE, NetOurIP := bi_ip_addr b,
       NetOurGatewayIP := getenv_IPaddr env ''gatewayip'', NetOurSubnetMask := getenv_IPaddr env ''netmask'',
       NetOurVLAN := getenv_VLAN env ''vlan'', NetOurNativeVLAN := getenv_VLAN env ''nvlan'',
       NetServerIP := (if pr = TFTP then getenv_IPaddr env ''serverip'' else NetServerIP t)\<rparr>"

definition net_protocol :: "board \<Rightarrow> u32 \<Rightarrow> proto \<Rightarrow> 'a tftp_scheme \<Rightarrow> 'a tftp_scheme option" where
  "net_protocol b now pr t = (case pr of TFTP \<Rightarrow> TftpStart (eth_name b (eth_current t)) now t | PING \<Rightarrow> PingStart (eth_name b (eth_current t)) now t)"

text \<open>From the label \<^verbatim>\<open>restart\<close> to the loop; \<open>Inl\<close> is the value \<open>NetLoop\<close> returns at once.\<close>

definition net_restart :: "(string \<Rightarrow> string option) \<Rightarrow> u32 \<Rightarrow> board \<Rightarrow> proto \<Rightarrow> 'a tftp_scheme \<Rightarrow> (int \<times> 'a tftp_scheme + 'a tftp_scheme) option" where
  "net_restart env now b pr t =
     (let (rc, t) = net_check_prereq env now pr (net_configure env b pr t)
      in if rc = 1 then Some (Inl (- 1, t))
         else if rc = 2 then Some (Inr t)
         else map_option (\<lambda>t. Inr (t\<lparr>NetBootFileXferSize := 0\<rparr>)) (net_protocol b now pr (t\<lparr>NetDevExists := True\<rparr>)))"

definition net_begin :: "(string \<Rightarrow> string option) \<Rightarrow> u32 \<Rightarrow> board \<Rightarrow> proto \<Rightarrow> 'a tftp_scheme \<Rightarrow> (int \<times> 'a tftp_scheme + 'a tftp_scheme) option" where
  "net_begin env now b pr t =
     (let t = t\<lparr>NetRestarted := False, NetDevExists := False, NetArpWaitPacketMAC := None, NetArpWaitTxPacket := [],
                NetArpWaitPacketIP := 0, NetArpWaitReplyIP := 0\<rparr>;
          (rc, cur) = eth_start b (eth_current t);
          t = t\<lparr>eth_current := cur\<rparr>
      in if rc < 0 then Some (Inl (- 1, t)) else net_restart env now b pr t)"

section \<open>One round\<close>

datatype round = Again | Restart | Return int

fun receive_all :: "(string \<Rightarrow> string option) \<Rightarrow> u32 \<Rightarrow> (u8 list \<times> int) list \<Rightarrow> 'a tftp_scheme \<Rightarrow> 'a tftp_scheme option" where
  "receive_all env now [] t = Some t"
| "receive_all env now ((pkt, len) # rx) t =
     (case NetReceive (run_handler env now) t pkt len of None \<Rightarrow> None | Some t \<Rightarrow> receive_all env now rx t)"

definition due :: "u32 \<Rightarrow> 'a net_scheme \<Rightarrow> bool" where
  "due now n \<longleftrightarrow> timeHandler n \<noteq> None \<and> now - timeStart n > timeDelta n"

definition check_timer :: "(string \<Rightarrow> string option) \<Rightarrow> u32 \<Rightarrow> 'a tftp_scheme \<Rightarrow> 'a tftp_scheme option" where
  "check_timer env now t =
     (case timeHandler t of
        Some h \<Rightarrow> if now - timeStart t > timeDelta t then run_timeout env now h (t\<lparr>timeHandler := None\<rparr>) else Some t
      | None \<Rightarrow> Some t)"

text \<open>
  The end of a transfer: the message, the two variables, and the value returned. The code does not look at the value of
  \<open>setenv\<close>; the assignments are taken to fit into the environment.
\<close>

definition loop_success :: "(string \<Rightarrow> string option) \<Rightarrow> 'a tftp_scheme \<Rightarrow> (int \<times> (string \<Rightarrow> string option) \<times> 'a tftp_scheme) option" where
  "loop_success env t =
     (let sz = NetBootFileXferSize t
      in if sz > 0
         then (case (vsprintf ''%lX'' [A32 sz], vsprintf ''%lX'' [A32 (load_addr t)]) of
                 (Some (fs, _), Some (fa, _)) \<Rightarrow>
                   Some (sint sz, env(''filesize'' \<mapsto> fs, ''fileaddr'' \<mapsto> fa),
                         say [Printf (''Bytes transferred = %ld (%lx hex)'' @ nl) [A32 sz, A32 sz]] t)
               | _ \<Rightarrow> None)
         else Some (sint sz, env, t))"

definition net_round :: "(string \<Rightarrow> string option) \<Rightarrow> u32 \<Rightarrow> (u8 list \<times> int) list \<Rightarrow> bool \<Rightarrow> 'a tftp_scheme \<Rightarrow>
    (round \<times> (string \<Rightarrow> string option) \<times> 'a tftp_scheme) option" where
  "net_round env now rx ctrlc t =
     (case receive_all env now rx t of None \<Rightarrow> None
      | Some t \<Rightarrow>
          if ctrlc then Some (Return (- 1), env, say [Puts (nl @ ''Abort'' @ nl)] t)
          else (case check_timer env now (ArpTimeoutCheck env now t) of None \<Rightarrow> None
                | Some t \<Rightarrow>
                    (case NetState t of
                       NETLOOP_CONTINUE \<Rightarrow> Some (Again, env, t)
                     | NETLOOP_RESTART \<Rightarrow> Some (Restart, env, t\<lparr>NetRestarted := True\<rparr>)
                     | NETLOOP_SUCCESS \<Rightarrow> map_option (\<lambda>(r, env, t). (Return r, env, t)) (loop_success env t)
                     | NETLOOP_FAIL \<Rightarrow> Some (Return (- 1), env, t))))"

text \<open>\<open>NetLoop\<close> on the rounds it has been given; \<open>Inr\<close> is a loop that is still running after them.\<close>

fun net_rounds :: "board \<Rightarrow> proto \<Rightarrow> (u32 \<times> (u8 list \<times> int) list \<times> bool) list \<Rightarrow> (string \<Rightarrow> string option) \<Rightarrow> 'a tftp_scheme \<Rightarrow>
    (int \<times> (string \<Rightarrow> string option) \<times> 'a tftp_scheme + 'a tftp_scheme) option" where
  "net_rounds b pr [] env t = Some (Inr t)"
| "net_rounds b pr ((now, rx, ctrlc) # rs) env t =
     (case net_round env now rx ctrlc t of None \<Rightarrow> None
      | Some (Again, env, t) \<Rightarrow> net_rounds b pr rs env t
      | Some (Return r, env, t) \<Rightarrow> Some (Inl (r, env, t))
      | Some (Restart, env, t) \<Rightarrow>
          (case net_restart env now b pr t of None \<Rightarrow> None
           | Some (Inl (r, t)) \<Rightarrow> Some (Inl (r, env, t))
           | Some (Inr t) \<Rightarrow> net_rounds b pr rs env t))"

definition NetLoop :: "board \<Rightarrow> proto \<Rightarrow> u32 \<Rightarrow> (u32 \<times> (u8 list \<times> int) list \<times> bool) list \<Rightarrow> (string \<Rightarrow> string option) \<Rightarrow> 'a tftp_scheme \<Rightarrow>
    (int \<times> (string \<Rightarrow> string option) \<times> 'a tftp_scheme + 'a tftp_scheme) option" where
  "NetLoop b pr now rs env t =
     (case net_begin env now b pr t of None \<Rightarrow> None
      | Some (Inl (r, t)) \<Rightarrow> Some (Inl (r, env, t))
      | Some (Inr t) \<Rightarrow> net_rounds b pr rs env t)"

section \<open>Rounds and the system\<close>

lemma due_simps [simp]:
  "due now (say ms n) = due now n" "due now (eth_send f n) = due now n" "due now (ArpRequest n) = due now n"
  "\<not> due now (NetSetTimeout iv h now n)" "due now (NetSetHandler g n) = due now n"
  by (simp_all add: due_def eth_send_def say_def ArpRequest_def Let_def NetSetTimeout_def NetSetHandler_def)

lemma due_again: "\<not> due now n \<Longrightarrow> \<not> due now (NetStartAgain env now n)"
  by (simp add: due_def eth_try_another_def NetStartAgain_def Let_def NetSetTimeout_def NetSetHandler_def)

lemma due_send: "NetSendUDPPacket n now p dest dport sport d = Some (n', r) \<Longrightarrow> due now n' = due now n"
  by (auto simp: NetSendUDPPacket_def NetSetIP_def Let_def split: option.splits if_splits) (simp_all add: due_def)

lemma due_TftpSend: "TftpSend now t = Some t' \<Longrightarrow> due now t' = due now t"
  by (auto simp: TftpSend_def due_send split: option.splits)

lemma due_update [simp]:
  "due now (t\<lparr>TftpState := a\<rparr>) = due now t" "due now (t\<lparr>TftpServerPort := b\<rparr>) = due now t" "due now (t\<lparr>TftpBlkSize := c\<rparr>) = due now t"
  "due now (t\<lparr>TftpBlock := d\<rparr>) = due now t" "due now (t\<lparr>TftpLastBlock := d\<rparr>) = due now t" "due now (t\<lparr>TftpBlockWrap := d\<rparr>) = due now t"
  "due now (t\<lparr>TftpBlockWrapOffset := d\<rparr>) = due now t" "due now (t\<lparr>NetState := g\<rparr>) = due now t" "due now (t\<lparr>NetBootFileXferSize := d\<rparr>) = due now t"
  "due now (t\<lparr>memory := m\<rparr>) = due now t"
  for t :: "'a tftp_scheme" by (simp_all add: due_def)

lemma due_store: "tftp_store now src len t = Some t' \<Longrightarrow> \<not> due now t'"
  by (auto simp: tftp_store_def store_block_def Let_def dest!: due_TftpSend split: option.splits if_splits)

lemma due_progress [simp]: "due now (tftp_progress t) = due now t"
  by (simp add: tftp_progress_def Let_def)

lemma due_handler: "TftpHandler env now pkt dest src len t = Some t' \<Longrightarrow> \<not> due now t \<Longrightarrow> \<not> due now t'"
  by (auto simp: TftpHandler_def tftp_oack_def tftp_data_def tftp_error_def Let_def
      intro!: due_again dest: due_store dest!: due_TftpSend split: option.splits if_splits)

text \<open>The handlers of a loop that is running a transfer, or waiting to start one again.\<close>

definition alive :: "'a tftp_scheme \<Rightarrow> bool" where
  "alive t \<longleftrightarrow> packetHandler t = rxhand.TftpHandler \<or> NetState t \<noteq> NETLOOP_CONTINUE \<or>
     packetHandler t = startAgainHandler \<and> timeHandler t = Some startAgainTimeout"

lemma alive_again [simp]: "alive (NetStartAgain env now t)"
  by (simp add: alive_def eth_try_another_def NetStartAgain_def Let_def NetSetTimeout_def NetSetHandler_def)

lemma handler_send: "NetSendUDPPacket n now p dest dport sport d = Some (n', r) \<Longrightarrow> packetHandler n' = packetHandler n"
  by (auto simp: NetSendUDPPacket_def NetSetIP_def Let_def ArpRequest_def eth_send_def say_def split: option.splits if_splits)

lemma handler_TftpSend: "TftpSend now t = Some t' \<Longrightarrow> packetHandler t' = packetHandler t"
  by (auto simp: TftpSend_def handler_send split: option.splits)

lemma handler_timeout [simp]: "packetHandler (NetSetTimeout iv h now n) = packetHandler n" by (simp add: NetSetTimeout_def)

lemma handler_store: "tftp_store now src len t = Some t' \<Longrightarrow> packetHandler t' = packetHandler t"
  by (auto simp: tftp_store_def store_block_def Let_def dest!: handler_TftpSend split: option.splits if_splits)

lemma handler_progress [simp]: "packetHandler (tftp_progress t) = packetHandler t"
  by (simp add: tftp_progress_def Let_def)

lemma handler_or_again:
  "TftpHandler env now pkt dest src len t = Some t' \<Longrightarrow> packetHandler t' = packetHandler t \<or> (\<exists>s. t' = NetStartAgain env now s)"
  "tftp_timeout env now t = Some t' \<Longrightarrow> packetHandler t' = packetHandler t \<or> (\<exists>s. t' = NetStartAgain env now s)"
  by (auto simp: TftpHandler_def tftp_oack_def tftp_data_def tftp_error_def Let_def dest!: handler_TftpSend handler_store
      split: option.splits if_splits) (auto simp: tftp_timeout_def Let_def dest!: handler_TftpSend split: if_splits)

lemma alive_handler:
  "TftpHandler env now pkt dest src len t = Some t' \<Longrightarrow> packetHandler t = rxhand.TftpHandler \<Longrightarrow> alive t'"
  "tftp_timeout env now t = Some t' \<Longrightarrow> packetHandler t = rxhand.TftpHandler \<Longrightarrow> alive t'"
  by (metis handler_or_again alive_again alive_def)+

text \<open>What a round may receive: at most one frame, with a datagram of the server, when the timer is not due.\<close>

definition brings :: "(u32 \<times> u8 list) set \<Rightarrow> tftp \<Rightarrow> u32 \<Rightarrow> (u8 list \<times> int) list \<Rightarrow> bool" where
  "brings D t now rx \<longleftrightarrow> rx = [] \<or>
     (\<exists>p d frame stale. \<exists>a :: host. rx = [(frame @ stale, int (length frame))] \<and> (p, d) \<in> D \<and> untagged a \<and> length (NetOurEther a) = 6 \<and>
        udp_frame a (NetOurEther t) (NetOurIP t) (TftpOurPort t) p d frame \<and> \<not> due now t)"

inductive session :: "host \<Rightarrow> transfer \<Rightarrow> sys \<Rightarrow> sys \<Rightarrow> bool" for srv x s where
  start: "session srv x s s"
| server: "session srv x s (t, D) \<Longrightarrow> tftp_step srv x (t, D) (t, D') \<Longrightarrow> session srv x s (t, D')"
| again: "session srv x s (t, D) \<Longrightarrow> brings D t now rx \<Longrightarrow> net_round env now rx False t = Some (Again, env', t') \<Longrightarrow> session srv x s (t', D)"

lemma stopped_frame:
  assumes "packetHandler t = startAgainHandler" and "linked srv t" and "untagged (a :: host)" and "length (NetOurEther a) = 6"
    and "udp_frame a (NetOurEther t) (NetOurIP t) (TftpOurPort t) p d frame" and "p < 65536" and "length d \<le> 65507"
  shows "NetReceive (run_handler env now) t (frame @ stale) (int (length frame)) = Some t"
proof -
  have "NetReceive (run_handler env now) t (frame @ stale) (int (length frame)) =
      run_handler env now (packetHandler t) (d @ stale) (TftpOurPort t) p (of_nat (length d)) t"
    by (rule udp_frame_received [OF assms(5,7)]) (use assms in \<open>auto simp: linked_def wf_macs_def\<close>)
  then show ?thesis using assms(1) by (simp add: run_handler_def)
qed

lemma arp_idle: "NetArpWaitPacketIP t = 0 \<Longrightarrow> ArpTimeoutCheck env now t = t" by (simp add: ArpTimeoutCheck_def)

lemma inv_arp: "tftp_inv srv x t0 (t, D) \<Longrightarrow> NetArpWaitPacketIP t = NetArpWaitPacketIP t0"
  by (simp add: tftp_inv_def client_inv_def)

text \<open>A round keeps the invariant up to the switch at its end.\<close>

lemma round_inv:
  assumes x: "ok_transfer x" and i: "tftp_inv srv x t0 (t, D)" and w: "NetArpWaitPacketIP t0 = 0" and c: "NetState t = NETLOOP_CONTINUE" "alive t"
    and b: "brings D t now rx" and r: "receive_all env now rx t = Some t1" and k: "check_timer env now (ArpTimeoutCheck env now t1) = Some t2"
  shows "tftp_inv srv x t0 (t2, D) \<and> alive t2"
proof -
  have idle: "ArpTimeoutCheck env now u = u" if "tftp_inv srv x t0 (u, D)" for u using arp_idle inv_arp [OF that] w by metis
  from b show ?thesis unfolding brings_def
  proof (elim disjE exE conjE)
    assume "rx = []"
    then have t1: "t1 = t" using r by simp
    show ?thesis
    proof (cases "due now t")
      case False
      then have "t2 = t" using k by (simp add: t1 idle [OF i] check_timer_def due_def split: option.splits)
      then show ?thesis using i c(2) by simp
    next
      case True
      then obtain h where h: "timeHandler t = Some h" "run_timeout env now h (t\<lparr>timeHandler := None\<rparr>) = Some t2"
        using k by (auto simp: t1 idle [OF i] check_timer_def due_def)
      show ?thesis
      proof (cases "running t")
        case True
        obtain m where "at_block srv x (t, D) m" using inv_unfold(7) [OF i True] by blast
        then have "tftp_timeout env now (t\<lparr>timeHandler := None\<rparr>) = Some t2" using h by (auto simp: at_block_def run_timeout_def)
        then have "alive t2" by (rule alive_handler(2)) (use True in \<open>simp add: running_def\<close>)
        then show ?thesis using inv_timeout [OF i True h] by blast
      next
        case False
        then have s: "packetHandler t = startAgainHandler" "timeHandler t = Some startAgainTimeout" using c by (auto simp: alive_def running_def)
        then have t2: "t2 = t\<lparr>timeHandler := None, NetState := NETLOOP_RESTART\<rparr>" using h by (simp add: run_timeout_def)
        have cl: "client_inv srv x t0 t2"
          by (rule client_same [OF inv_unfold(1) [OF i]])
            (use inv_unfold(1,4) [OF i] in \<open>simp_all add: t2 same_host_def client_inv_def\<close>)
        have "tftp_inv srv x t0 (t2, D)"
          by (rule inv_grows [OF i same_grows cl]) (simp_all add: t2 heard_def running_def)
        then show ?thesis by (simp add: t2 alive_def)
      qed
    qed
  next
    fix p d frame stale and a :: host
    assume rx: "rx = [(frame @ stale, int (length frame))]" and d: "(p, d) \<in> D" and a: "untagged a" "length (NetOurEther a) = 6"
      "udp_frame a (NetOurEther t) (NetOurIP t) (TftpOurPort t) p d frame" and nd: "\<not> due now t"
    have l: "linked srv t" by (rule inv_unfold(2) [OF i])
    have p: "p < 65536" "known_data x t d" using inv_unfold(6) [OF i d] by blast+
    note dl = known_length [OF x p(2)]
    have t1: "NetReceive (run_handler env now) t (frame @ stale) (int (length frame)) = Some t1" using r by (simp add: rx split: option.splits)
    have "tftp_inv srv x t0 (t1, D) \<and> alive t1 \<and> \<not> due now t1"
    proof (cases "running t")
      case True
      have H: "TftpHandler env now (d @ stale) (TftpOurPort t) p (of_nat (length d)) t = Some t1"
        using t1 unfolding deliver_frame [OF True l a p(1) dl] .
      have "packetHandler t = rxhand.TftpHandler" using True by (simp add: running_def)
      then show ?thesis using due_handler [OF H nd] alive_handler(1) [OF H] inv_step [OF x tftp_step.receive [OF True d a t1] i] by blast
    next
      case False
      then have "packetHandler t = startAgainHandler" using c by (auto simp: alive_def running_def)
      from stopped_frame [OF this l a p(1) dl] t1 have "t1 = t" by simp
      then show ?thesis using i c(2) nd by simp
    qed
    moreover from this have "t2 = t1" using k idle by (auto simp: check_timer_def due_def split: option.splits)
    ultimately show ?thesis by simp
  qed
qed

lemma session_inv:
  assumes x: "ok_transfer x" and t0: "tftp_init srv t0" "NetArpWaitPacketIP t0 = 0" and s: "session srv x (t0, {}) s"
  shows "tftp_inv srv x t0 s \<and> NetState (fst s) = NETLOOP_CONTINUE \<and> alive (fst s)"
  using s
proof induction
  case start
  then show ?case using inv_init [OF x t0(1)] t0(1) by (simp add: tftp_init_def running_def alive_def)
next
  case (server t D D')
  then show ?case using inv_step [OF x] by auto
next
  case (again t D now rx env env' t')
  obtain t1 t2 where "receive_all env now rx t = Some t1" "check_timer env now (ArpTimeoutCheck env now t1) = Some t2"
    "NetState t2 = NETLOOP_CONTINUE" "t' = t2"
    using again.hyps(3) by (auto simp: net_round_def split: option.splits net_state.splits)
  then show ?case using round_inv [OF x _ t0(2) _ _ again.hyps(2)] again.IH by auto
qed

section \<open>The end of the loop\<close>

lemma sint_small:
  assumes "unat v = n" and "n < 2 ^ 31"
  shows "sint (v :: u32) = int n"
proof -
  have u: "uint v = int n" using assms(1) by (simp only: uint_nat)
  have "sint v = uint v" unfolding sint_uint by (rule signed_take_bit_int_eq_self) (use assms(2) in \<open>simp_all only: u\<close>, simp_all)
  then show ?thesis using u by simp
qed

lemma vsprintf_lX: "vsprintf ''%lX'' [A32 v] = Some (number_digits (ucast v) 16 LARGE, [])"
proof -
  have f: "\<not> has LARGE SIGN" "\<not> has LARGE LEFT" "\<not> has LARGE ZEROPAD" "\<not> has LARGE SPECIAL"
    by (simp_all add: has_def ZEROPAD_def LEFT_def SIGN_def SPECIAL_def LARGE_def)
  then have "number (ucast v) 16 (- 1) (- 1) LARGE = Some (number_digits (ucast v) 16 LARGE)"
    by (subst number_eq [where sign = "[]" and num' = "ucast v" and ?w0.0 = 0]) (simp_all add: number_sign_def number_prefix_def)
  then have "directive ''lX'' [A32 v] 0 = Some (number_digits (ucast v) 16 LARGE, [], [], [])"
    by (simp add: directive_def get_width_def get_precision_def get_qualifier_def convert_def is_digit_def get_num_def NUL_def)
  then show ?thesis by (simp add: vsprintf_def NUL_def)
qed

lemma strtoul_lX: "simple_strtoul (number_digits (ucast v) 16 LARGE) 16 = (v, [])"
  using strtoul_digits [where z = 0 and s = "[]" and base = 16 and type = LARGE and n = v] by (simp add: isxdigit_iff isdigit_iff NUL_def)

text \<open>
  C3: the loop reports a transfer truthfully: when the loop, fed with frames from the server in any order and with
  timeouts in between, returns anything but an error, the returned size is the size of the file, the file is in
  memory, and the variable \<open>filesize\<close> reads back as that size.
\<close>

theorem netloop_reports:
  assumes "ok_transfer x" and "length (tfile x) < 2 ^ 31" and "tftp_init srv t0" "NetArpWaitPacketIP t0 = 0"
    and "session srv x (t0, {}) (t, D)" and "brings D t now rx" and "net_round env now rx False t = Some (Return r, env', t')" and "0 \<le> r"
  shows "r = int (length (tfile x)) \<and> (\<forall>i < length (tfile x). memory t' (load_addr t0 + of_nat i) = tfile x ! i) \<and>
    (0 < r \<longrightarrow> (\<exists>s. env' ''filesize'' = Some s \<and> simple_strtoul s 16 = (of_int r, [])))"
proof -
  have s: "tftp_inv srv x t0 (t, D)" "NetState t = NETLOOP_CONTINUE" "alive t"
    using session_inv [OF assms(1,3,4,5)] by simp_all
  obtain t1 t2 where r: "receive_all env now rx t = Some t1" "check_timer env now (ArpTimeoutCheck env now t1) = Some t2"
    and e: "NetState t2 = NETLOOP_SUCCESS" "loop_success env t2 = Some (r, env', t')"
    using assms(7,8) by (auto simp: net_round_def split: option.splits net_state.splits)
  have "tftp_inv srv x t0 (t2, D)" using round_inv [OF assms(1) s(1) assms(4) s(2,3) assms(6) r] by blast
  then have c: "\<forall>i < length (tfile x). memory t2 (load_addr t0 + of_nat i) = tfile x ! i" "unat (NetBootFileXferSize t2) = length (tfile x)"
    using e(1) inv_unfold(1) [of srv x t0 t2 D] by (auto simp: client_inv_def ok_at_def)
  have sz: "sint (NetBootFileXferSize t2) = int (length (tfile x))" by (rule sint_small [OF c(2) assms(2)])
  have t': "memory t' = memory t2" "r = sint (NetBootFileXferSize t2)"
    using e(2) by (auto simp: loop_success_def Let_def vsprintf_lX split: if_splits)
  have "env' ''filesize'' = Some (number_digits (ucast (NetBootFileXferSize t2)) 16 LARGE)" if "0 < r"
  proof -
    have "NetBootFileXferSize t2 > 0" using that t'(2) by (auto simp: word_gt_0)
    then show ?thesis using e(2) by (auto simp: loop_success_def Let_def vsprintf_lX)
  qed
  moreover have "of_int r = NetBootFileXferSize t2" using t'(2) by simp
  ultimately show ?thesis using c(1) sz t' strtoul_lX by auto
qed

text \<open>
  The loop does not start unconfigured: without our address, without the server's for a transfer or the
  other host's for a ping, \<open>NetLoop\<close> returns -1 with at most one message, and no frame has left, no byte of memory
  and no variable has changed, whatever was to be received.
\<close>

lemma netloop_refuses:
  assumes "bi_ip_addr b = 0 \<or> pr = TFTP \<and> getenv_IPaddr env ''serverip'' = 0 \<or> pr = PING \<and> NetPingIP t = 0"
  shows "\<exists>ms t'. NetLoop b pr now rs env t = Some (Inl (- 1, env, t')) \<and> console t' = console t @ ms \<and> length ms \<le> 1 \<and>
    sent t' = sent t \<and> memory t' = memory t"
  using assms unfolding NetLoop_def net_begin_def net_restart_def net_check_prereq_def net_configure_def
  by (auto simp: say_def Let_def split: prod.split)

text \<open>The example of a transfer without options, delivered in one frame.\<close>

definition transfer1 :: transfer where "transfer1 = \<lparr>tfile = [1, 2, 3], blk = 512, oack = None\<rparr>"

lemma ok_transfer1: "ok_transfer transfer1" by (simp add: transfer1_def ok_transfer_def ok_oack_def)

lemma request0_idle: "NetArpWaitPacketIP request0 = 0"
proof -
  obtain pkt where pkt: "tftp_packet client0 = Some pkt" "length pkt \<le> 65507" "get16 pkt 0 = TFTP_RRQ"
    by (rule packet_length [of client0]) (simp_all add: client0_fields)
  obtain t' where t': "TftpSend 0 client0 = Some t'" "resent host0 pkt client0 t'"
    by (rule send_resent [OF linked0 pkt(1,2), of 0])
  then show ?thesis by (simp add: request0_def resent_def same_host_def client0_def net.defs net0_def)
qed

text \<open>A first block that is the only one ends the loop.\<close>

lemma one_block_round:
  assumes x: "ok_transfer x" "last_block x = 1" "tfile x \<noteq> []" "length (tfile x) < 2 ^ 31" and i: "tftp_inv srv x t0 (t, D)"
    and w: "NetArpWaitPacketIP t0 = 0" and r: "running t" "TftpState t = STATE_RRQ" "TftpBlkSize t = of_nat (blk x)"
    and d: "(p, data_packet x 1) \<in> D" and nd: "\<not> due now t"
  obtains rx env' t' where "brings D t now rx" and "net_round env now rx False t = Some (Return (int (length (tfile x))), env', t')"
proof -
  obtain a :: host and frame where a: "untagged a" "length (NetOurEther a) = 6"
    "udp_frame a (NetOurEther t) (NetOurIP t) (TftpOurPort t) p (data_packet x 1) frame" by (rule frame_exists)
  have p: "p < 65536" "known_data x t (data_packet x 1)" using inv_unfold(6) [OF i d] by blast+
  have l: "linked srv t" by (rule inv_unfold(2) [OF i])
  obtain H where H: "TftpHandler env now (data_packet x 1 @ []) (TftpOurPort t) p (of_nat (length (data_packet x 1))) t = H" by simp
  have n: "1 \<le> last_block x" using x(2) by simp
  have s: "TftpState t \<in> {STATE_RRQ, STATE_OACK, STATE_DATA}" "TftpState t = STATE_DATA \<longrightarrow> TftpBlockWrapOffset t = 0" using r(2) by simp_all
  obtain u where u: "H = Some u" "NetState u = NETLOOP_SUCCESS"
    using x(1) le_refl n r(1) l p(1) s r(3) H by (cases rule: data_spec) (use r(2) x(2) in \<open>auto simp: stored_def\<close>)
  have rcv: "NetReceive (run_handler env now) t (frame @ []) (int (length frame)) = Some u"
    using H u(1) unfolding deliver_frame [OF r(1) l a p(1) known_length [OF x(1) p(2)]] by simp
  have iu: "tftp_inv srv x t0 (u, D)" by (rule inv_step [OF x(1) tftp_step.receive [OF r(1) d a rcv] i])
  have b: "brings D t now [(frame, int (length frame))]" unfolding brings_def using a d nd by (metis append_Nil2)
  have "\<not> due now u" using due_handler [of env now] H u(1) nd by blast
  then have k: "check_timer env now (ArpTimeoutCheck env now u) = Some u"
    using arp_idle inv_arp [OF iu] w by (auto simp: check_timer_def due_def split: option.splits)
  have c: "unat (NetBootFileXferSize u) = length (tfile x)"
    using u(2) inv_unfold(1) [OF iu] by (simp add: client_inv_def)
  have z: "sint (NetBootFileXferSize u) = int (length (tfile x))" by (rule sint_small [OF c x(4)])
  have "NetBootFileXferSize u > 0" using c x(3) by (auto simp: word_gt_0)
  then obtain env' t' where "loop_success env u = Some (int (length (tfile x)), env', t')"
    using z by (simp add: loop_success_def Let_def vsprintf_lX)
  then have "net_round env now [(frame, int (length frame))] False t = Some (Return (int (length (tfile x))), env', t')"
    using rcv k u(2) by (simp add: net_round_def)
  then show thesis using that b by blast
qed

theorem netloop_reports_witness:
  "\<exists>t D rx env t'. session host0 transfer1 (request0, {}) (t, D) \<and> brings D t (timeStart request0) rx \<and>
    net_round Map.empty (timeStart request0) rx False t = Some (Return 3, env, t') \<and>
    (\<forall>i < 3. memory t' (load_addr request0 + of_nat i) = [1, 2, 3] ! i) \<and> (\<exists>s. env ''filesize'' = Some s \<and> simple_strtoul s 16 = (3, []))"
proof -
  note i = inv_init [OF ok_transfer1 init0]
  have r: "running request0" "TftpState request0 = STATE_RRQ" "TftpBlkSize request0 = of_nat (blk transfer1)"
    using init0 by (simp_all add: tftp_init_def transfer1_def TFTP_BLOCK_SIZE_def)
  let ?D = "{(1, data_packet transfer1 1)}"
  obtain d where "heard host0 request0 WELL_KNOWN_PORT d" "get16 d 0 = TFTP_RRQ" using init0 unfolding tftp_init_def by blast
  then have "tftp_step host0 transfer1 (request0, {}) (request0, insert (1, first_reply transfer1) {})" by (rule tftp_step.request) simp
  then have q: "tftp_step host0 transfer1 (request0, {}) (request0, ?D)" by (simp add: first_reply_def transfer1_def)
  have x: "last_block transfer1 = 1" "tfile transfer1 \<noteq> []" "length (tfile transfer1) < 2 ^ 31" "length (tfile transfer1) = 3" "tfile transfer1 = [1, 2, 3]"
    by (simp_all add: transfer1_def last_block_def)
  have nd: "\<not> due (timeStart request0) request0" by (simp add: due_def)
  obtain rx env' t' where e: "brings ?D request0 (timeStart request0) rx"
    "net_round Map.empty (timeStart request0) rx False request0 = Some (Return (int (length (tfile transfer1))), env', t')"
    by (rule one_block_round [OF ok_transfer1 x(1-3) inv_step [OF ok_transfer1 q i] request0_idle r _ nd, of 1]) simp
  have s: "session host0 transfer1 (request0, {}) (request0, ?D)" by (rule session.server [OF session.start q])
  have f: "(\<forall>i < 3. memory t' (load_addr request0 + of_nat i) = [1, 2, 3] ! i) \<and> (\<exists>s. env' ''filesize'' = Some s \<and> simple_strtoul s 16 = (3, []))"
    using netloop_reports [OF ok_transfer1 x(3) init0 request0_idle s e, unfolded x(4), unfolded x(5)] by simp
  have "net_round Map.empty (timeStart request0) rx False request0 = Some (Return 3, env', t')" using e(2) by (simp add: x(4))
  with s e(1) f show ?thesis by blast
qed

end
