(* ===== verification/Spec2Isabelle.thy ===== *)
theory Spec2Isabelle
  imports Prelude HashStream Crc32 Sha256 Sha1 Md5 Crc16 Lmb SRecord NandEcc CircBuf RtcDate AddrMap Div64 CStrings Vsprintf Env CmdParse LineEdit Completion Commands Memsize Image Disk Cconfig Net Eth Tftp TftpSystem NetLoop
begin

text \<open>
  U-Boot 2009.07 for the Chumby Silvermoon board: a verification development of the boot loader's own
  logic, as the board's configuration \<^verbatim>\<open>include/configs/aspenite.h\<close> compiles it (ARM, little-endian,
  32-bit \<open>int\<close>, \<open>long\<close> and pointers, unsigned \<open>char\<close>).

  \<^bold>\<open>The program.\<close> After the board is initialised - among other things the memory is sized - the loader
  sets up its environment, a block of \<open>name=value\<close> entries, and enters a loop: a line is edited on the console,
  with history and completion, its variables are expanded, it is cut into words, and each word list is looked up
  in the table of commands and run. Commands change the environment, load data - over the network by
  TFTP, over the serial line as S-records, from NAND with its error correction, from the configuration area of the
  disk - and start images, whose headers and checksums are verified first and whose parts are placed with the
  logical memory blocks. All of it rests on a small C library of its own.

  \<^bold>\<open>Conventions.\<close> Every theory models files of \<^verbatim>\<open>src/src\<close>, names its operations as the code does,
  and keeps machine integers at their width, so that sums wrap as they do on the target. A \<open>struct\<close> is a record,
  an enumeration a datatype. An operation returns its new state; an access outside an object, a NULL dereference or
  a read of something that nothing has written is \<open>None\<close>, and an error the code reports is a value. Output and
  calls of the hardware are lists in the order they happen. A string that is only read is the list of its characters,
  a buffer that is written is a list with indices. Code outside the model is a parameter: the commands of the command
  loop, the block device, the transfer on the I2C bus, the hardware's memory, the console driver, the time.

  \<^bold>\<open>Library.\<close>
  \<^item> Prelude: machine types, bounds of words (\<open>u_bounds\<close>), lists as buffers.
  \<^item> CStrings: \<^verbatim>\<open>lib_generic/ctype.c\<close>, \<^verbatim>\<open>string.c\<close>. Comparison, search, tokens, and the writers on a memory:
    \<open>memmove\<close> is right for every overlap.
  \<^item> Vsprintf: \<^verbatim>\<open>lib_generic/vsprintf.c\<close>. What a directive prints, what the parsers accept, and that a printed
    number is read back.
  \<^item> HashStream, Crc32, Crc16, Sha1, Sha256, Md5: the checksums of \<^verbatim>\<open>lib_generic\<close>. The tables and unrolled
    loops compute the bit-serial definitions; a digest fed in pieces is the digest of the whole. The locale
    \<open>stream_digest\<close> is the contract of such a context; its instances for CRC-32, SHA-1, SHA-256 and MD5 carry the
    variants that trigger the watchdog (\<open>wd_loop\<close>, \<open>None\<close> when a chunk size of 0 makes it endless).
  \<^item> Div64, AddrMap, RtcDate, CircBuf, SRecord, NandEcc: \<^verbatim>\<open>div64.c\<close>, \<^verbatim>\<open>addr_map.c\<close>, \<^verbatim>\<open>drivers/rtc/date.c\<close>,
    \<^verbatim>\<open>common/circbuf.c\<close>, \<^verbatim>\<open>common/s_record.c\<close>, \<^verbatim>\<open>drivers/mtd/nand/nand_ecc.c\<close>. Division by shifting,
    calendar round trip, lossless queue (locale \<open>bounded_fifo\<close>), decoding of encoded records, correction of every
    single bit and detection of every pair.
  \<^item> Lmb: \<^verbatim>\<open>lib_generic/lmb.c\<close>. A table of regions stands for a set of addresses; adding, freeing and
    allocating are set operations, tables stay sorted and disjoint, and an allocation is inside free memory.
  \<^item> Memsize: \<^verbatim>\<open>common/memsize.c\<close> over the locale \<open>repeating_ram\<close>, a memory that answers modulo its size.

  \<^bold>\<open>Console.\<close>
  \<^item> Env: \<^verbatim>\<open>common/env_common.c\<close>, \<^verbatim>\<open>env_nowhere.c\<close>, \<^verbatim>\<open>cmd_nvedit.c\<close>. The byte area refines a list of
    entries, which refines a map: \<open>setenv\<close> replaces, appends or deletes one entry and keeps the area well formed, on
    every branch of the command and in every reachable state (\<open>env_reach\<close>). The locale \<open>var_store\<close> is the contract
    the sequences of assignments are proved from.
  \<^item> CmdParse: \<^verbatim>\<open>common/main.c\<close>, the command loop, over any \<open>machine\<close> of commands, console and interrupt; macro expansion
    stays in its buffer, and a line does what the relation \<open>runs\<close>, which knows neither buffers nor scanners, says it means.
    Commands: the commands of \<^verbatim>\<open>common/command.c\<close> with the evaluation of \<open>test\<close>.
  \<^item> LineEdit: the line editor of \<^verbatim>\<open>common/main.c\<close>. Keys keep the editor inside its buffer; the ring of past lines
    refines a list with a position. What it needs from completion is the locale \<open>line_completer\<close>, which theory Completion
    (\<^verbatim>\<open>common/command.c\<close>) interprets with \<open>cmd_auto_complete\<close>; where the editor with its completion leaves its objects is
    characterised exactly.

  \<^bold>\<open>Images and disks.\<close>
  \<^item> Image: \<^verbatim>\<open>common/image.c\<close>, \<^verbatim>\<open>include/image.h\<close>, \<^verbatim>\<open>tools/mkimage.c\<close>. What the tool writes passes the
    loader's checks and is read back, up to the first empty file; a changed byte is refused, by the linearity of the CRC.
  \<^item> Disk: \<^verbatim>\<open>disk/part.c\<close>, \<^verbatim>\<open>disk/part_dos.c\<close>. Numbering of primary and logical partitions along the chain of tables,
    which a cyclic disk makes endless (\<open>partial_function\<close>, with the value \<open>None\<close>).
  \<^item> Cconfig: \<^verbatim>\<open>fs/cconfig/cconfig.c\<close>, \<^verbatim>\<open>common/cmd_cconfig.c\<close>. Blocks of the configuration area by name; the search for
    the brand in the EEPROM ends for every content.

  \<^bold>\<open>Network.\<close>
  \<^item> Net: \<^verbatim>\<open>net/net.c\<close>. Sending with address resolution, receiving, ping; every frame one side sends is accepted
    and delivered unchanged on the other, an address request asks for the next hop, and the answer releases the frame that waits.
  \<^item> Eth: \<^verbatim>\<open>net/eth.c\<close>. The ring of devices as pointers in memory: registration, lookups, the start of a device, the
    addresses from the environment; changing the device refines the ring of indices that Net works with.
  \<^item> Tftp: \<^verbatim>\<open>net/tftp.c\<close>, whose state extends that of the packet layer; its handlers are those the packet layer calls.
  \<^item> TftpSystem: client and server as a transition system (\<open>tftp_step\<close>) over real frames, with loss, delay, reordering
    and duplication. The invariant \<open>tftp_inv\<close> gives safety; from each of its states a completing sequence of steps exists. Files
    have fewer than 65535 blocks, so that block numbers do not wrap; \<open>wrap_duplicate\<close> shows what happens
    to longer ones.
  \<^item> NetLoop: the loop of \<^verbatim>\<open>net/net.c\<close> as rounds; \<open>session\<close> is its interplay with the server, kept inside the
    invariant of TftpSystem up to the result that is returned.

  \<^bold>\<open>Termination.\<close> Loops are structural recursion or \<open>function\<close>s with a measure, and where the code's counter is the
  measure the bound is the code's. Loops that may not end are \<open>partial_function (option)\<close> - \<open>wd_loop\<close>, the two walks along partition
  tables, the walks along the ring of devices, \<open>cbrand_loop\<close> - and that they return is proved as \<open>= Some\<close> where it holds. The console and network loops take their
  keys and rounds as lists; there is no fuel.

  \<^bold>\<open>Not modelled.\<close> Vendored code (zlib, bzip2, LZMA, dlmalloc, libfdt, the file systems), device drivers and processor support, whose
  behaviour is register accesses and timing; the hush shell, which replaces the simple parser but runs commands the same way; the
  network protocols besides ARP, ping and TFTP; serial protocols besides S-records; \<open>bootm\<close>'s jump into the kernel.
\<close>

end
